(* ===== verification/B4_Prelude.thy ===== *)
theory B4_Prelude
  imports Main "HOL-Library.Word" "HOL-Library.Monad_Syntax"
begin

text \<open>
  Shared vocabulary of the development: Go byte slices and machine integers.

  \<^item> A Go \<^verbatim>\<open>[]byte\<close> is a list of 8-bit words. Slices are modelled with capacity equal to
    length, so every index or slice expression past the length is a run-time panic.
  \<^item> A run-time panic is the value \<^term>\<open>None\<close>; code is sequenced in the option monad, so a panic
    stops the function exactly where the Go code would stop. A theorem that an operation returns
    \<open>Some\<close> is therefore a theorem that it does not crash.
  \<^item> \<^verbatim>\<open>uint8/16/32\<close> are \<open>8/16/32 word\<close>, so arithmetic wraps; \<^verbatim>\<open>int\<close> values that are lengths
    or offsets, and can never become negative, are \<open>nat\<close>; other \<^verbatim>\<open>int\<close> values are \<open>int\<close>.

  The collection \<open>go_simps\<close> rewrites slice operations whose bounds hold; the collection
  \<open>go_lens\<close> holds the length facts the bounds are proved from, \<open>go_panics\<close> says for each
  operation exactly when it panics, and \<open>go_wp\<close> is a calculus of preconditions for \<open>returns\<close>: the code
  returns, and its result has a property.
\<close>

unbundle bit_operations_syntax

named_theorems go_simps "slice operations inside their bounds"
named_theorems go_lens "lengths kept by the operations"
named_theorems go_panics "when an operation panics"
named_theorems go_wp "what must hold before a step so that the code returns"

type_synonym byte = "8 word"
type_synonym bytes = "byte list"
type_synonym uint16 = "16 word"
type_synonym uint32 = "32 word"

section \<open>Slices\<close>

text \<open>\<open>b[i]\<close>\<close>
definition idx :: "'a list \<Rightarrow> nat \<Rightarrow> 'a option" where
  "idx b i = (if i < length b then Some (b ! i) else None)"

text \<open>\<open>b[i] = v\<close>\<close>
definition upd :: "'a list \<Rightarrow> nat \<Rightarrow> 'a \<Rightarrow> 'a list option" where
  "upd b i v = (if i < length b then Some (b[i := v]) else None)"

text \<open>\<open>b[i:j]\<close>\<close>
definition gslice :: "'a list \<Rightarrow> nat \<Rightarrow> nat \<Rightarrow> 'a list option" where
  "gslice b i j = (if i \<le> j \<and> j \<le> length b then Some (take (j - i) (drop i b)) else None)"

text \<open>\<open>b[i:]\<close>\<close>
definition slice_from :: "'a list \<Rightarrow> nat \<Rightarrow> 'a list option" where
  "slice_from b i = (if i \<le> length b then Some (drop i b) else None)"

text \<open>\<open>copy(dst[i:j], src)\<close>: as many bytes as both sides have.\<close>
definition copy_into :: "'a list \<Rightarrow> nat \<Rightarrow> nat \<Rightarrow> 'a list \<Rightarrow> 'a list option" where
  "copy_into dst i j src =
     (if i \<le> j \<and> j \<le> length dst
      then (let n = min (j - i) (length src)
            in Some (take i dst @ take n src @ drop (i + n) dst))
      else None)"

text \<open>\<open>copy(dst[i:], src)\<close>\<close>
definition copy_from :: "'a list \<Rightarrow> nat \<Rightarrow> 'a list \<Rightarrow> 'a list option" where
  "copy_from dst i src = copy_into dst i (length dst) src"

text \<open>\<open>make([]byte, n)\<close>\<close>
definition mk :: "nat \<Rightarrow> bytes" where
  "mk n = replicate n 0"

lemma length_mk [simp, go_lens]: "length (mk n) = n"
  by (simp add: mk_def)

lemma nth_mk [simp]: "i < n \<Longrightarrow> mk n ! i = 0"
  by (simp add: mk_def)

lemma take_mk [simp]: "take i (mk n) = mk (min i n)"
  by (simp add: mk_def)

lemma drop_mk [simp]: "drop i (mk n) = mk (n - i)"
  by (simp add: mk_def)

lemma mk_0 [simp]: "mk 0 = []"
  by (simp add: mk_def)

lemma idx_ok [go_simps]: "i < length b \<Longrightarrow> idx b i = Some (b ! i)"
  by (simp add: idx_def)

lemma idx_0 [go_simps]: "b \<noteq> [] \<Longrightarrow> idx b 0 = Some (b ! 0)"
  by (simp add: idx_def)

lemma upd_ok [go_simps]: "i < length b \<Longrightarrow> upd b i v = Some (b[i := v])"
  by (simp add: upd_def)

lemma gslice_ok [go_simps]:
  "i \<le> j \<Longrightarrow> j \<le> length b \<Longrightarrow> gslice b i j = Some (take (j - i) (drop i b))"
  by (simp add: gslice_def)

lemma slice_from_ok [go_simps]: "i \<le> length b \<Longrightarrow> slice_from b i = Some (drop i b)"
  by (simp add: slice_from_def)

lemma copy_into_ok [go_simps]:
  "i \<le> j \<Longrightarrow> j \<le> length dst \<Longrightarrow> length src \<le> j - i \<Longrightarrow>
   copy_into dst i j src = Some (take i dst @ src @ drop (i + length src) dst)"
  by (simp add: copy_into_def Let_def min_def)

lemma copy_from_ok [go_simps]:
  "i \<le> length dst \<Longrightarrow> length src \<le> length dst - i \<Longrightarrow>
   copy_from dst i src = Some (take i dst @ src @ drop (i + length src) dst)"
  by (simp add: copy_from_def copy_into_ok)

text \<open>A packet under construction is what is written so far and the zeros still to fill.\<close>

lemma copy_into_mk:
  "i = length pre \<Longrightarrow> length src \<le> j - i \<Longrightarrow> j \<le> length pre + n \<Longrightarrow> i \<le> j \<Longrightarrow>
   copy_into (pre @ mk n) i j src = Some ((pre @ src) @ mk (n - length src))"
  by (simp add: copy_into_ok)

lemma copy_into_mk0:
  "length src \<le> j \<Longrightarrow> j \<le> n \<Longrightarrow> copy_into (mk n) 0 j src = Some (src @ mk (n - length src))"
  by (simp add: copy_into_ok)

lemma copy_from_mk:
  "i = length pre \<Longrightarrow> length src \<le> n \<Longrightarrow>
   copy_from (pre @ mk n) i src = Some ((pre @ src) @ mk (n - length src))"
  by (simp add: copy_from_ok)

text \<open>The effect of \<open>copy\<close> on an existing buffer.\<close>

definition blit :: "'a list \<Rightarrow> nat \<Rightarrow> 'a list \<Rightarrow> 'a list" where
  "blit dst i src = take i dst @ src @ drop (i + length src) dst"

lemma copy_into_blit:
  "i \<le> j \<Longrightarrow> j \<le> length dst \<Longrightarrow> length src \<le> j - i \<Longrightarrow> copy_into dst i j src = Some (blit dst i src)"
  by (simp add: copy_into_ok blit_def)

lemma copy_from_blit:
  "i + length src \<le> length dst \<Longrightarrow> copy_from dst i src = Some (blit dst i src)"
  by (simp add: copy_from_ok blit_def)

lemma blit_length [simp]: "i + length src \<le> length dst \<Longrightarrow> length (blit dst i src) = length dst"
  by (simp add: blit_def)

lemma blit_nth:
  "i + length src \<le> length dst \<Longrightarrow> j < length dst \<Longrightarrow>
   blit dst i src ! j = (if i \<le> j \<and> j < i + length src then src ! (j - i) else dst ! j)"
  by (auto simp: blit_def nth_append)

lemma blit_below [simp]: "i + length src \<le> length dst \<Longrightarrow> j < i \<Longrightarrow> blit dst i src ! j = dst ! j"
  by (simp add: blit_nth)

lemma blit_above [simp]:
  "i + length src \<le> j \<Longrightarrow> j < length dst \<Longrightarrow> blit dst i src ! j = dst ! j"
  by (simp add: blit_nth)

lemma take_blit: "n \<le> i \<Longrightarrow> i \<le> length dst \<Longrightarrow> take n (blit dst i src) = take n dst"
  by (simp add: blit_def min_def)

lemma drop_blit: "i \<le> length dst \<Longrightarrow> length dst \<le> i + length src \<Longrightarrow> drop i (blit dst i src) = src"
  by (simp add: blit_def)

lemma drop_blit_ge:
  "i + length src \<le> n \<Longrightarrow> i + length src \<le> length dst \<Longrightarrow> drop n (blit dst i src) = drop n dst"
  by (simp add: blit_def)

lemma mid_blit:
  "i + length src \<le> length dst \<Longrightarrow> n = length src \<Longrightarrow> take n (drop i (blit dst i src)) = src"
  by (simp add: blit_def)

lemma idx_Some_iff: "idx b i = Some v \<longleftrightarrow> i < length b \<and> v = b ! i"
  by (auto simp: idx_def)

lemma bind_SomeE: "x \<bind> f = Some s \<Longrightarrow> (\<And>v. x = Some v \<Longrightarrow> f v = Some s \<Longrightarrow> Q) \<Longrightarrow> Q"
  by (cases x) auto

lemma bind_None_iff [go_panics]: "x \<bind> f = None \<longleftrightarrow> x = None \<or> (\<exists>v. x = Some v \<and> f v = None)"
  by (cases x) auto

lemma upd_None_iff [go_panics]: "upd b i v = None \<longleftrightarrow> length b \<le> i"
  by (auto simp: upd_def)

lemma gslice_None_iff [go_panics]: "gslice b i j = None \<longleftrightarrow> j < i \<or> length b < j"
  by (auto simp: gslice_def)

lemma slice_from_None_iff [go_panics]: "slice_from b i = None \<longleftrightarrow> length b < i"
  by (auto simp: slice_from_def)

lemma copy_into_None_iff [go_panics]: "copy_into d i j s = None \<longleftrightarrow> j < i \<or> length d < j"
  by (auto simp: copy_into_def Let_def)

lemma copy_from_None_iff [go_panics]: "copy_from d i s = None \<longleftrightarrow> length d < i"
  by (auto simp: copy_from_def copy_into_None_iff)

lemma idx_None_iff [go_panics]: "idx b i = None \<longleftrightarrow> length b \<le> i"
  by (auto simp: idx_def)

lemma upd_Some_iff: "upd b i v = Some c \<longleftrightarrow> i < length b \<and> c = b[i := v]"
  by (auto simp: upd_def)

lemma gslice_Some_iff:
  "gslice b i j = Some c \<longleftrightarrow> i \<le> j \<and> j \<le> length b \<and> c = take (j - i) (drop i b)"
  by (auto simp: gslice_def)

lemma slice_from_Some_iff: "slice_from b i = Some c \<longleftrightarrow> i \<le> length b \<and> c = drop i b"
  by (auto simp: slice_from_def)

lemma copy_into_length [go_lens]: "copy_into dst i j src = Some r \<Longrightarrow> length r = length dst"
  by (auto simp: copy_into_def Let_def split: if_splits)

lemma nth_list_update': "j < length xs \<Longrightarrow> xs[i := x] ! j = (if i = j then x else xs ! j)"
  by simp

section \<open>Big-endian integers (\<^verbatim>\<open>encoding/binary\<close>)\<close>

definition u16 :: "byte \<Rightarrow> byte \<Rightarrow> uint16" where
  "u16 hi lo = push_bit 8 (ucast hi) OR ucast lo"

definition hi8 :: "uint16 \<Rightarrow> byte" where
  "hi8 v = ucast (drop_bit 8 v)"

definition lo8 :: "uint16 \<Rightarrow> byte" where
  "lo8 v = ucast v"

definition u32 :: "uint16 \<Rightarrow> uint16 \<Rightarrow> uint32" where
  "u32 hi lo = push_bit 16 (ucast hi) OR ucast lo"

definition hi16 :: "uint32 \<Rightarrow> uint16" where
  "hi16 v = ucast (drop_bit 16 v)"

definition lo16 :: "uint32 \<Rightarrow> uint16" where
  "lo16 v = ucast v"

text \<open>\<open>binary.BigEndian.Uint16(b[i:i+2])\<close>\<close>
definition be16 :: "bytes \<Rightarrow> nat \<Rightarrow> uint16 option" where
  "be16 b i = do { s \<leftarrow> gslice b i (i + 2); Some (u16 (s ! 0) (s ! 1)) }"

text \<open>\<open>binary.BigEndian.PutUint16(b[i:i+2], v)\<close>\<close>
definition put16 :: "bytes \<Rightarrow> nat \<Rightarrow> uint16 \<Rightarrow> bytes option" where
  "put16 b i v = (if i + 2 \<le> length b then Some (b[i := hi8 v, i + 1 := lo8 v]) else None)"

text \<open>\<open>binary.BigEndian.Uint32(b[i:i+4])\<close>\<close>
definition be32 :: "bytes \<Rightarrow> nat \<Rightarrow> uint32 option" where
  "be32 b i = do { s \<leftarrow> gslice b i (i + 4);
                   Some (u32 (u16 (s ! 0) (s ! 1)) (u16 (s ! 2) (s ! 3))) }"

text \<open>\<open>binary.BigEndian.PutUint32(b[i:i+4], v)\<close>\<close>
definition put32 :: "bytes \<Rightarrow> nat \<Rightarrow> uint32 \<Rightarrow> bytes option" where
  "put32 b i v =
     (if i + 4 \<le> length b
      then Some (b[i := hi8 (hi16 v), i + 1 := lo8 (hi16 v),
                   i + 2 := hi8 (lo16 v), i + 3 := lo8 (lo16 v)])
      else None)"

lemma u16_split [simp]: "u16 (hi8 v) (lo8 v) = v"
  by (rule bit_word_eqI) (auto simp: u16_def hi8_def lo8_def bit_simps)

lemma hi8_u16 [simp]: "hi8 (u16 a b) = a"
  by (rule bit_word_eqI) (auto simp: u16_def hi8_def bit_simps dest: bit_imp_le_length)

lemma lo8_u16 [simp]: "lo8 (u16 a b) = b"
  by (rule bit_word_eqI) (auto simp: u16_def lo8_def bit_simps)

lemma u32_split [simp]: "u32 (hi16 v) (lo16 v) = v"
  by (rule bit_word_eqI) (auto simp: u32_def hi16_def lo16_def bit_simps)

lemma be16_ok [go_simps]: "i + 2 \<le> length b \<Longrightarrow> be16 b i = Some (u16 (b ! i) (b ! Suc i))"
  by (simp add: be16_def gslice_ok)

lemma put16_ok [go_simps]:
  "i + 2 \<le> length b \<Longrightarrow> put16 b i v = Some (b[i := hi8 v, i + 1 := lo8 v])"
  by (simp add: put16_def)

lemma be32_ok [go_simps]:
  "i + 4 \<le> length b \<Longrightarrow>
   be32 b i = Some (u32 (u16 (b ! i) (b ! (i + 1))) (u16 (b ! (i + 2)) (b ! (i + 3))))"
  by (simp add: be32_def gslice_ok)

lemma put32_ok [go_simps]:
  "i + 4 \<le> length b \<Longrightarrow>
   put32 b i v = Some (b[i := hi8 (hi16 v), i + 1 := lo8 (hi16 v),
                         i + 2 := hi8 (lo16 v), i + 3 := lo8 (lo16 v)])"
  by (simp add: put32_def)

lemma put16_None_iff [go_panics]: "put16 b i v = None \<longleftrightarrow> length b < i + 2"
  by (auto simp: put16_def)

lemma be16_None_iff [go_panics]: "be16 b i = None \<longleftrightarrow> length b < i + 2"
  by (auto simp: be16_def gslice_def)

lemma be16_put16: "put16 b i v = Some c \<Longrightarrow> be16 c i = Some v"
  by (auto simp: put16_def be16_ok split: if_splits)

lemma be32_put32: "put32 b i v = Some c \<Longrightarrow> be32 c i = Some v"
  by (auto simp: put32_def be32_ok split: if_splits)

lemma put16_length [go_lens]: "put16 b i v = Some c \<Longrightarrow> length c = length b"
  by (auto simp: put16_def split: if_splits)

lemma put32_length [go_lens]: "put32 b i v = Some c \<Longrightarrow> length c = length b"
  by (auto simp: put32_def split: if_splits)

lemma unat_byte_bound: "unat (a :: byte) < 256"
  using unsigned_less [of a] by simp

lemma unat_ucast_byte [simp]: "unat (ucast (a :: byte) :: uint16) = unat a"
proof -
  have "unat a < 2 ^ 16" using unat_byte_bound [of a] by simp
  then show ?thesis by (simp add: unsigned_ucast_eq take_bit_nat_eq_self)
qed

lemma unat_u16: "unat (u16 a b) = unat a * 256 + unat b"
proof -
  have "push_bit 8 (ucast a :: uint16) OR ucast b = push_bit 8 (ucast a) + ucast b"
    by (rule disjunctive_add [symmetric]) (auto simp: bit_simps dest: bit_imp_le_length)
  then have "unat (u16 a b) = (unat a * 256 mod 65536 + unat b) mod 65536"
    by (simp add: u16_def unat_word_ariths push_bit_eq_mult)
  moreover have "unat a * 256 + unat b < 65536"
    using unat_byte_bound [of a] unat_byte_bound [of b] by linarith
  ultimately show ?thesis by simp
qed

lemma unat_u16_bound: "unat (u16 a b) < 65536"
  using unsigned_less [of "u16 a b"] by simp

section \<open>Code that returns\<close>

definition returns :: "'a option \<Rightarrow> ('a \<Rightarrow> bool) \<Rightarrow> bool" where
  "returns m P \<longleftrightarrow> (\<exists>r. m = Some r \<and> P r)"

lemma returnsD: "returns m P \<Longrightarrow> \<exists>r. m = Some r \<and> P r"
  by (simp add: returns_def)

lemma returnsI: "m = Some r \<Longrightarrow> P r \<Longrightarrow> returns m P"
  by (simp add: returns_def)

lemma returns_mono: "returns m P \<Longrightarrow> (\<And>r. P r \<Longrightarrow> Q r) \<Longrightarrow> returns m Q"
  by (auto simp: returns_def)

lemma returns_Some [go_wp]: "P r \<Longrightarrow> returns (Some r) P"
  by (simp add: returns_def)

lemma returns_if [go_wp]: "(c \<Longrightarrow> returns a P) \<Longrightarrow> (\<not> c \<Longrightarrow> returns b P) \<Longrightarrow> returns (if c then a else b) P"
  by simp

lemma returns_let [go_wp]: "returns (f a) P \<Longrightarrow> returns (let x = a in f x) P"
  by simp

lemma returns_bind [go_wp]: "returns m (\<lambda>v. returns (f v) P) \<Longrightarrow> returns (m \<bind> f) P"
  by (auto simp: returns_def)

lemma returns_option [go_wp]:
  "(x = None \<Longrightarrow> returns a P) \<Longrightarrow> (\<And>y. x = Some y \<Longrightarrow> returns (f y) P) \<Longrightarrow> returns (case x of None \<Rightarrow> a | Some y \<Rightarrow> f y) P"
  by (cases x) auto

lemma returns_prod [go_wp]: "(\<And>a b. x = (a, b) \<Longrightarrow> returns (f a b) P) \<Longrightarrow> returns (case x of (a, b) \<Rightarrow> f a b) P"
  by (cases x) auto

lemma returns_idx [go_wp]: "i < length b \<Longrightarrow> P (b ! i) \<Longrightarrow> returns (idx b i) P"
  by (simp add: returns_def idx_ok)

lemma returns_upd [go_wp]: "i < length b \<Longrightarrow> P (b[i := v]) \<Longrightarrow> returns (upd b i v) P"
  by (simp add: returns_def upd_ok)

lemma returns_gslice [go_wp]: "i \<le> j \<Longrightarrow> j \<le> length b \<Longrightarrow> P (take (j - i) (drop i b)) \<Longrightarrow> returns (gslice b i j) P"
  by (simp add: returns_def gslice_ok)

lemma returns_slice_from [go_wp]: "i \<le> length b \<Longrightarrow> P (drop i b) \<Longrightarrow> returns (slice_from b i) P"
  by (simp add: returns_def slice_from_ok)

lemma returns_be16 [go_wp]: "i + 2 \<le> length b \<Longrightarrow> P (u16 (b ! i) (b ! Suc i)) \<Longrightarrow> returns (be16 b i) P"
  by (simp add: returns_def be16_ok)

lemma returns_be32 [go_wp]: "i + 4 \<le> length b \<Longrightarrow> (\<And>v. P v) \<Longrightarrow> returns (be32 b i) P"
  by (simp add: returns_def be32_ok)

end
