(* ===== verification/Checksum.thy ===== *)
theory Checksum
  imports B4_Prelude
begin

text \<open>
  The Internet checksums that \<^verbatim>\<open>src/src/sock/fake_ipv4.go\<close>, \<^verbatim>\<open>fake_ipv6.go\<close>, \<^verbatim>\<open>udp_ipv4.go\<close> and
  \<^verbatim>\<open>udp_ipv6.go\<close> recompute after every packet edit. The loops are kept as the code has them (a
  32-bit accumulator that could wrap, the carry fold); the specification is the receiver's check
  of RFC 1071 on natural numbers. The locale \<open>inet_checksum\<close> is the contract every one of these
  operations offers to the packet builders, and each operation is an interpretation of it.
\<close>

section \<open>The loops of the code\<close>

text \<open>\<open>for i < n { sum += uint32(binary.BigEndian.Uint16(b[i : i+2])); i += 2 }\<close>. The form
  \<open>i+1 < len(b)\<close> is the same loop with \<open>n = len(b) - 1\<close>.\<close>
function sum16_loop :: "bytes \<Rightarrow> nat \<Rightarrow> nat \<Rightarrow> uint32 \<Rightarrow> uint32 option" where
  "sum16_loop b i n acc =
     (if i < n then do { v \<leftarrow> be16 b i; sum16_loop b (i + 2) n (acc + ucast v) } else Some acc)"
  by pat_completeness auto
termination
  by (relation "measure (\<lambda>(b, i, n, acc). n - i)") auto

declare sum16_loop.simps [simp del]

text \<open>\<open>if len(b)%2 == 1 { sum += uint32(b[len(b)-1]) << 8 }\<close>\<close>
definition sum16_tail :: "bytes \<Rightarrow> uint32 \<Rightarrow> uint32" where
  "sum16_tail b acc =
     (if length b mod 2 = 1 then acc + push_bit 8 (ucast (b ! (length b - 1))) else acc)"

text \<open>\<open>for sum > 0xffff { sum = (sum >> 16) + (sum & 0xffff) }\<close>\<close>
lemma carry_step_less:
  fixes s :: uint32
  assumes "0xffff < s"
  shows "unat (drop_bit 16 s + (s AND 0xffff)) = unat s div 65536 + unat s mod 65536"
    and "unat s div 65536 + unat s mod 65536 < unat s"
proof -
  have "unat s < 2 ^ 32" using unsigned_less [of s] by simp
  then have d: "unat s div 65536 < 65536" by simp
  have m: "unat (s AND 0xffff) = unat s mod 65536"
  proof -
    have "s AND 0xffff = take_bit 16 s"
      by (simp add: take_bit_eq_mask mask_numeral)
    then show ?thesis by (simp add: take_bit_eq_mod unat_mod)
  qed
  have dv: "unat (drop_bit 16 s) = unat s div 65536"
    by (simp add: drop_bit_eq_div unat_div)
  show "unat (drop_bit 16 s + (s AND 0xffff)) = unat s div 65536 + unat s mod 65536"
    using d by (simp add: unat_word_ariths m dv)
  have "65535 < unat s" using assms by (simp add: word_less_nat_alt)
  then have "0 < unat s div 65536" by (simp add: div_greater_zero_iff)
  moreover have "unat s = unat s div 65536 * 65536 + unat s mod 65536" by simp
  ultimately show "unat s div 65536 + unat s mod 65536 < unat s" by linarith
qed

function fold_carry :: "uint32 \<Rightarrow> uint32" where
  "fold_carry s = (if s > 0xffff then fold_carry (drop_bit 16 s + (s AND 0xffff)) else s)"
  by pat_completeness auto
termination
  by (relation "measure unat") (use carry_step_less in auto)

declare fold_carry.simps [simp del]

text \<open>\<open>^uint16(sum)\<close> after the fold\<close>
definition cksum16 :: "uint32 \<Rightarrow> uint16" where
  "cksum16 s = NOT (ucast (fold_carry s))"

text \<open>UDP: \<open>if checksum == 0 { checksum = 0xffff }\<close>\<close>
definition udp_nonzero :: "uint16 \<Rightarrow> uint16" where
  "udp_nonzero c = (if c = 0 then 0xffff else c)"

text \<open>\<open>(packet[0] & 0x0F) * 4\<close>, computed on bytes and then converted to \<open>int\<close>\<close>
definition hdr4 :: "byte \<Rightarrow> nat" where
  "hdr4 b0 = unat ((b0 AND 0x0F) * 4)"

text \<open>\<open>(pkt[0] & 0x0f) << 2\<close>\<close>
definition hdr4s :: "byte \<Rightarrow> nat" where
  "hdr4s b0 = unat (push_bit 2 (b0 AND 0x0f))"

text \<open>An operation on \<open>pkt[:n]\<close> works in place on the prefix.\<close>
definition on_prefix :: "(bytes \<Rightarrow> bytes option) \<Rightarrow> bytes \<Rightarrow> nat \<Rightarrow> bytes option" where
  "on_prefix f b n = do { p \<leftarrow> gslice b 0 n; q \<leftarrow> f p; Some (q @ drop n b) }"

section \<open>The operations\<close>

definition FixIPv4Checksum :: "bytes \<Rightarrow> bytes option" where
  "FixIPv4Checksum ip =
     (if length ip < 20 then Some ip
      else do {
        ip \<leftarrow> upd ip 10 0;
        ip \<leftarrow> upd ip 11 0;
        b0 \<leftarrow> idx ip 0;
        let ihl = hdr4 b0;
        sum \<leftarrow> sum16_loop ip 0 ihl 0;
        put16 ip 10 (cksum16 sum) })"

text \<open>The IPv4 pseudo header: addresses, a zero byte, protocol, 16-bit length.\<close>
definition pseudo_v4 :: "bytes \<Rightarrow> byte \<Rightarrow> uint16 \<Rightarrow> bytes option" where
  "pseudo_v4 packet proto len = do {
     src \<leftarrow> gslice packet 12 16;
     pseudo \<leftarrow> copy_into (mk 12) 0 4 src;
     dst \<leftarrow> gslice packet 16 20;
     pseudo \<leftarrow> copy_into pseudo 4 8 dst;
     pseudo \<leftarrow> upd pseudo 9 proto;
     put16 pseudo 10 len }"

definition FixTCPChecksum :: "bytes \<Rightarrow> bytes option" where
  "FixTCPChecksum packet = do {
     b0 \<leftarrow> idx packet 0;
     let ipHdrLen = hdr4 b0;
     packet \<leftarrow> upd packet (ipHdrLen + 16) 0;
     packet \<leftarrow> upd packet (ipHdrLen + 17) 0;
     totalLen \<leftarrow> be16 packet 2;
     let tcpLen = int (unat totalLen) - int ipHdrLen;
     pseudo \<leftarrow> pseudo_v4 packet 6 (of_int tcpLen);
     sum \<leftarrow> sum16_loop pseudo 0 (length pseudo) 0;
     tcp \<leftarrow> (if tcpLen < 0 then None else gslice packet ipHdrLen (ipHdrLen + nat tcpLen));
     sum \<leftarrow> sum16_loop tcp 0 (length tcp - 1) sum;
     let sum = sum16_tail tcp sum;
     put16 packet (ipHdrLen + 16) (cksum16 sum) }"

text \<open>The UDP loop reads the bytes one by one: \<open>sum += uint32(udp[i])<<8 + uint32(udp[i+1])\<close>.\<close>
definition word_at :: "bytes \<Rightarrow> nat \<Rightarrow> uint32 option" where
  "word_at b i = do { x \<leftarrow> idx b i; y \<leftarrow> idx b (i + 1); Some (push_bit 8 (ucast x) + ucast y) }"

function sum16_bytes_loop :: "bytes \<Rightarrow> nat \<Rightarrow> nat \<Rightarrow> uint32 \<Rightarrow> uint32 option" where
  "sum16_bytes_loop b i n acc =
     (if i + 1 < n then do { v \<leftarrow> word_at b i; sum16_bytes_loop b (i + 2) n (acc + v) }
      else Some acc)"
  by pat_completeness auto
termination
  by (relation "measure (\<lambda>(b, i, n, acc). n - i)") auto

declare sum16_bytes_loop.simps [simp del]

definition FixUDPChecksum :: "bytes \<Rightarrow> nat \<Rightarrow> bytes option" where
  "FixUDPChecksum packet ihl =
     (if length packet < ihl + 8 then Some packet
      else do {
        packet \<leftarrow> upd packet (ihl + 6) 0;
        packet \<leftarrow> upd packet (ihl + 7) 0;
        udp \<leftarrow> slice_from packet ihl;
        let udpLen = length udp;
        a \<leftarrow> word_at packet 12;
        b \<leftarrow> word_at packet 14;
        c \<leftarrow> word_at packet 16;
        d \<leftarrow> word_at packet 18;
        let sum = a + b + c + d + 17 + of_nat udpLen;
        sum \<leftarrow> sum16_bytes_loop udp 0 udpLen sum;
        let sum = sum16_tail udp sum;
        let checksum = udp_nonzero (cksum16 sum);
        packet \<leftarrow> upd packet (ihl + 6) (hi8 checksum);
        upd packet (ihl + 7) (lo8 checksum) })"

text \<open>The IPv6 pseudo header: addresses, 32-bit length, three zero bytes, next header.\<close>
definition pseudo_v6 :: "bytes \<Rightarrow> nat \<Rightarrow> byte \<Rightarrow> bytes option" where
  "pseudo_v6 packet payloadLen nh = do {
     src \<leftarrow> gslice packet 8 24;
     pseudo \<leftarrow> copy_into (mk 40) 0 16 src;
     dst \<leftarrow> gslice packet 24 40;
     pseudo \<leftarrow> copy_into pseudo 16 32 dst;
     pseudo \<leftarrow> put32 pseudo 32 (of_nat payloadLen);
     upd pseudo 39 nh }"

definition FixTCPChecksumV6 :: "bytes \<Rightarrow> bytes option" where
  "FixTCPChecksumV6 packet =
     (if length packet < 40 then Some packet
      else do {
        packet \<leftarrow> upd packet (40 + 16) 0;
        packet \<leftarrow> upd packet (40 + 17) 0;
        pl \<leftarrow> be16 packet 4;
        let payloadLen = unat pl;
        pseudo \<leftarrow> pseudo_v6 packet payloadLen 6;
        sum \<leftarrow> sum16_loop pseudo 0 (length pseudo) 0;
        tcp \<leftarrow> gslice packet 40 (40 + payloadLen);
        sum \<leftarrow> sum16_loop tcp 0 (length tcp - 1) sum;
        let sum = sum16_tail tcp sum;
        put16 packet (40 + 16) (cksum16 sum) })"

definition FixUDPChecksumV6 :: "bytes \<Rightarrow> bytes option" where
  "FixUDPChecksumV6 packet =
     (if length packet < 48 then Some packet
      else do {
        packet \<leftarrow> upd packet (40 + 6) 0;
        packet \<leftarrow> upd packet (40 + 7) 0;
        pl \<leftarrow> be16 packet 4;
        let payloadLen = unat pl;
        pseudo \<leftarrow> pseudo_v6 packet payloadLen 17;
        sum \<leftarrow> sum16_loop pseudo 0 (length pseudo) 0;
        udp \<leftarrow> gslice packet 40 (40 + payloadLen);
        sum \<leftarrow> sum16_loop udp 0 (length udp - 1) sum;
        let sum = sum16_tail udp sum;
        put16 packet (40 + 6) (udp_nonzero (cksum16 sum)) })"

definition udpChecksumIPv4 :: "bytes \<Rightarrow> bytes option" where
  "udpChecksumIPv4 pkt = do {
     b0 \<leftarrow> idx pkt 0;
     let udpo = hdr4s b0;
     l \<leftarrow> be16 pkt (udpo + 4);
     let ulen = unat l;
     pseudo \<leftarrow> pseudo_v4 pkt 17 (of_nat ulen);
     pkt \<leftarrow> upd pkt (udpo + 6) 0;
     pkt \<leftarrow> upd pkt (udpo + 7) 0;
     sum \<leftarrow> sum16_loop pseudo 0 (length pseudo) 0;
     udp \<leftarrow> gslice pkt udpo (udpo + ulen);
     sum \<leftarrow> sum16_loop udp 0 (length udp - 1) sum;
     let sum = sum16_tail udp sum;
     put16 pkt (udpo + 6) (udp_nonzero (cksum16 sum)) }"

definition udpChecksumIPv6 :: "bytes \<Rightarrow> bytes option" where
  "udpChecksumIPv6 pkt =
     (if length pkt < 48 then Some pkt
      else do {
        l \<leftarrow> be16 pkt (40 + 4);
        let udpLen = unat l;
        pseudo \<leftarrow> pseudo_v6 pkt udpLen 17;
        pkt \<leftarrow> upd pkt (40 + 6) 0;
        pkt \<leftarrow> upd pkt (40 + 7) 0;
        sum \<leftarrow> sum16_loop pseudo 0 (length pseudo) 0;
        udp \<leftarrow> gslice pkt 40 (40 + udpLen);
        sum \<leftarrow> sum16_loop udp 0 (length udp - 1) sum;
        let sum = sum16_tail udp sum;
        put16 pkt (40 + 6) (udp_nonzero (cksum16 sum)) })"

section \<open>Specification: RFC 1071\<close>

text \<open>The sum of the big-endian 16-bit words, an odd last byte padded with zero, as a number.\<close>
fun sum16 :: "bytes \<Rightarrow> nat" where
  "sum16 [] = 0"
| "sum16 [a] = unat a * 256"
| "sum16 (a # b # r) = unat a * 256 + unat b + sum16 r"

text \<open>A receiver adds everything up, checksum field included, folds the carries and accepts when
  the result is \<open>0xffff\<close>: the sum is a positive multiple of \<open>65535\<close>.\<close>
definition cs_ok :: "nat \<Rightarrow> bool" where
  "cs_ok n \<longleftrightarrow> 0 < n \<and> n mod 65535 = 0"

text \<open>Writing a 16-bit field.\<close>
definition set_field :: "bytes \<Rightarrow> nat \<Rightarrow> uint16 \<Rightarrow> bytes" where
  "set_field p i c = p[i := hi8 c, i + 1 := lo8 c]"

text \<open>The IPv4 pseudo header as a number: addresses, protocol, length.\<close>
definition pseudo4_sum :: "bytes \<Rightarrow> byte \<Rightarrow> nat \<Rightarrow> nat" where
  "pseudo4_sum p proto len = sum16 (take 8 (drop 12 p)) + unat proto + len"

definition pseudo6_sum :: "bytes \<Rightarrow> byte \<Rightarrow> nat \<Rightarrow> nat" where
  "pseudo6_sum p nh len = sum16 (take 32 (drop 8 p)) + len + unat nh"

section \<open>The carry fold and the complement\<close>

lemma fold_carry_correct:
  "unat (fold_carry s) \<le> 65535 \<and> unat (fold_carry s) mod 65535 = unat s mod 65535 \<and>
   (0 < unat s \<longrightarrow> 0 < unat (fold_carry s))"
proof (induction s rule: fold_carry.induct)
  case (1 s)
  show ?case
  proof (cases "0xffff < s")
    case False
    then show ?thesis
      by (simp add: fold_carry.simps [of s] word_less_nat_alt)
  next
    case True
    let ?t = "drop_bit 16 s + (s AND 0xffff)"
    have t: "unat ?t = unat s div 65536 + unat s mod 65536"
      by (rule carry_step_less [OF True])
    have s: "unat s = unat s div 65536 * 65535 + (unat s div 65536 + unat s mod 65536)"
      using div_mult_mod_eq [of "unat s" 65536] by linarith
    have m: "unat s mod 65535 = unat ?t mod 65535"
      by (subst s) (simp only: t mod_mult_self3)
    have "65535 < unat s" using True by (simp add: word_less_nat_alt)
    then have pos: "0 < unat ?t" by (simp add: t div_greater_zero_iff)
    show ?thesis using "1.IH" [OF True] True m pos by (simp add: fold_carry.simps [of s])
  qed
qed

lemma unat_ucast_le [simp]: "unat s \<le> 65535 \<Longrightarrow> unat (ucast (s :: uint32) :: uint16) = unat s"
  by (simp add: unsigned_ucast_eq take_bit_nat_eq_self)

lemma unat_uint16_bound: "unat (x :: uint16) < 65536"
  using unsigned_less [of x] by simp

lemma unat_not16: "unat (NOT (x :: uint16)) = 65535 - unat x"
proof -
  have "NOT x = 65535 - x" by (simp add: not_eq_complement)
  then show ?thesis using unat_uint16_bound [of x] by (simp add: unat_sub_if')
qed

lemma unat_cksum16: "unat (cksum16 s) = 65535 - unat (fold_carry s)"
  using fold_carry_correct [of s] by (simp add: cksum16_def unat_not16)

text \<open>Adding the complement of the folded sum makes the total verify.\<close>

lemma cksum16_ok:
  assumes "S < 2 ^ 32"
  shows "cs_ok (S + unat (cksum16 (of_nat S)))"
proof -
  let ?f = "unat (fold_carry (of_nat S))"
  have S: "unat (of_nat S :: uint32) = S"
    using assms by (simp add: unat_of_nat)
  have f: "?f \<le> 65535" "?f mod 65535 = S mod 65535" "0 < S \<Longrightarrow> 0 < ?f"
    using fold_carry_correct [of "of_nat S"] unfolding S by auto
  have "(S + (65535 - ?f)) mod 65535 = 0"
  proof -
    have "(S + (65535 - ?f)) mod 65535 = (?f + (65535 - ?f)) mod 65535"
      using f(2) by (metis mod_add_left_eq)
    then show ?thesis using f(1) by simp
  qed
  moreover have "0 < S + (65535 - ?f)"
    using f(1,3) fold_carry.simps [of 0] by (cases "S = 0") simp_all
  ultimately show ?thesis by (simp add: cs_ok_def unat_cksum16)
qed

lemma cs_ok_add_65535: "cs_ok n \<Longrightarrow> cs_ok (n + 65535)"
  by (simp add: cs_ok_def)

lemma udp_nonzero_ok: "cs_ok (S + unat c) \<Longrightarrow> cs_ok (S + unat (udp_nonzero c))"
  using cs_ok_add_65535 [of S] by (auto simp: udp_nonzero_def)

section \<open>The loops compute the specified sum\<close>

fun sum16e :: "bytes \<Rightarrow> nat" where
  "sum16e (a # b # r) = unat a * 256 + unat b + sum16e r"
| "sum16e _ = 0"

lemma sum16_sum16e:
  "sum16 xs = sum16e xs + (if odd (length xs) then unat (last xs) * 256 else 0)"
  by (induction xs rule: sum16.induct) auto

lemma ucast_u16: "(ucast (u16 a b) :: uint32) = of_nat (unat a * 256 + unat b)"
  by (simp flip: unat_u16)

lemma drop_two: "i + 1 < length b \<Longrightarrow> drop i b = b ! i # b ! (i + 1) # drop (i + 2) b"
  by (simp add: Cons_nth_drop_Suc Suc_lessD)

lemma sum16_loop_done: "\<not> i < n \<Longrightarrow> sum16_loop b i n acc = Some acc"
  by (simp add: sum16_loop.simps)

lemma sum16_loop_lt:
  assumes "n < length b"
  shows "sum16_loop b i n acc = Some (acc + of_nat (sum16e (drop i (take (Suc n) b))))"
  using assms
proof (induction b i n acc rule: sum16_loop.induct)
  case (1 b i n acc)
  show ?case
  proof (cases "i < n")
    case True
    then have d: "drop i (take (Suc n) b) = b ! i # b ! (i + 1) # drop (i + 2) (take (Suc n) b)"
      using 1(2) drop_two [of i "take (Suc n) b"] by simp
    have "be16 b i = Some (u16 (b ! i) (b ! Suc i))"
      using True 1(2) by (simp add: go_simps)
    then show ?thesis
      using 1(1) [OF True, of "u16 (b ! i) (b ! Suc i)"] 1(2) True d
      by (simp add: sum16_loop.simps [of b i n] ucast_u16)
  next
    case False
    then have "sum16e (drop i (take (Suc n) b)) = 0"
      using 1(2) by (cases "drop i (take (Suc n) b)" rule: sum16e.cases)
        (auto dest: arg_cong [where f = length])
    then show ?thesis using False by (simp add: sum16_loop.simps)
  qed
qed

lemma sum16_loop_even:
  assumes "n \<le> length b" and "even n"
  shows "sum16_loop b 0 n acc = Some (acc + of_nat (sum16 (take n b)))"
proof (cases "n = 0")
  case True
  then show ?thesis by (simp add: sum16_loop.simps)
next
  case False
  have shift: "sum16_loop b i n acc = sum16_loop b i (n - 1) acc" if "even i" for i acc
    using that assms(2)
  proof (induction b i n acc rule: sum16_loop.induct)
    case (1 b i n acc)
    show ?case
    proof (cases "i < n")
      case True
      then have "i < n - 1" using 1(2,3) by (metis even_Suc less_Suc_eq_0_disj
            less_antisym not_less_eq odd_Suc_minus_one Suc_pred' diff_Suc_1 gr0I even_zero)
      then show ?thesis using 1(1) [OF True] 1(2,3) True
        by (cases "be16 b i") (simp_all add: sum16_loop.simps [of b i])
    next
      case False
      then have "\<not> i < n - 1" by simp
      with False show ?thesis
        by (simp only: sum16_loop_done not_False_eq_True)
    qed
  qed
  have "sum16_loop b 0 (n - 1) acc = Some (acc + of_nat (sum16e (take n b)))"
    using sum16_loop_lt [of "n - 1" b 0 acc] assms(1) False by simp
  moreover have "sum16e (take n b) = sum16 (take n b)"
    using assms by (simp add: sum16_sum16e)
  ultimately show ?thesis using shift [of 0 acc] by simp
qed

lemma sum16_tail_eq:
  assumes "sum16_loop b 0 (length b - 1) s0 = Some s1"
  shows "sum16_tail b s1 = s0 + of_nat (sum16 b)"
proof (cases "b = []")
  case True
  then show ?thesis using assms by (simp add: sum16_tail_def sum16_loop.simps)
next
  case False
  then have s1: "s1 = s0 + of_nat (sum16e b)"
    using assms sum16_loop_lt [of "length b - 1" b 0 s0] by simp
  have "push_bit 8 (ucast (last b) :: uint32) = of_nat (unat (last b) * 256)"
    by (simp add: push_bit_eq_mult)
  then show ?thesis using False
    by (auto simp: sum16_tail_def s1 sum16_sum16e last_conv_nth odd_iff_mod_2_eq_one
        mult.commute)
qed

text \<open>The two statements every operation ends with, as rewrite rules.\<close>

lemma sum16_loop_segment:
  assumes "m = length b - 1"
  shows "sum16_loop b 0 m s0 = Some (s0 + of_nat (sum16e b))"
proof (cases "b = []")
  case True
  then show ?thesis using assms by (simp add: sum16_loop.simps)
next
  case False
  then show ?thesis using assms by (simp add: sum16_loop_lt)
qed

lemma sum16_tail_segment: "sum16_tail b (s0 + of_nat (sum16e b)) = s0 + of_nat (sum16 b)"
  by (rule sum16_tail_eq) (simp add: sum16_loop_segment)

lemmas sum16_segment = sum16_loop_segment sum16_tail_segment

lemma word_at_ok: "i + 1 < length b \<Longrightarrow> word_at b i = Some (ucast (u16 (b ! i) (b ! (i + 1))))"
  by (simp add: word_at_def go_simps ucast_u16 push_bit_eq_mult mult.commute)

lemma sum16_bytes_loop_eq:
  "n \<le> length b \<Longrightarrow> sum16_bytes_loop b i n acc = sum16_loop b i (n - 1) acc"
proof (induction b i n acc rule: sum16_bytes_loop.induct)
  case (1 b i n acc)
  show ?case
  proof (cases "i + 1 < n")
    case True
    then have "word_at b i = Some (ucast (u16 (b ! i) (b ! Suc i)))" and "i < n - 1"
      using 1(2) word_at_ok [of i b] by simp_all
    then show ?thesis
      using 1(1) [OF True, of "ucast (u16 (b ! i) (b ! Suc i))"] 1(2) True
      by (simp add: sum16_bytes_loop.simps [of b i] sum16_loop.simps [of b i] go_simps)
  next
    case False
    then have "\<not> i < n - 1" by simp
    with False show ?thesis
      by (simp only: sum16_bytes_loop.simps [of b i] sum16_loop_done if_False not_False_eq_True)
  qed
qed

section \<open>Fields\<close>

lemma set_field_length [simp]: "length (set_field p i c) = length p"
  by (simp add: set_field_def)

lemma set_field_nth [simp]: "j \<noteq> i \<Longrightarrow> j \<noteq> i + 1 \<Longrightarrow> set_field p i c ! j = p ! j"
  by (simp add: set_field_def)

lemma set_field_twice [simp]: "set_field (set_field p i c) i d = set_field p i d"
  by (rule nth_equalityI) (simp_all add: set_field_def nth_list_update')

lemma set_field_Nil_iff [simp]: "set_field p i c = [] \<longleftrightarrow> p = []"
  by (simp add: set_field_def)

lemma set_field_zero: "j = i + 1 \<Longrightarrow> p[i := 0, j := 0] = set_field p i 0"
  by (simp add: set_field_def hi8_def lo8_def)

lemma put16_set_field: "i + 2 \<le> length p \<Longrightarrow> put16 p i c = Some (set_field p i c)"
  by (simp add: put16_def set_field_def)

lemma take_set_field: "i + 2 \<le> n \<Longrightarrow> take n (set_field p i c) = set_field (take n p) i c"
  by (simp add: set_field_def take_update_swap)

lemma take_set_field_ge: "n \<le> i \<Longrightarrow> take n (set_field p i c) = take n p"
  by (simp add: set_field_def)

lemma drop_set_field: "n \<le> i \<Longrightarrow> drop n (set_field p i c) = set_field (drop n p) (i - n) c"
  by (simp add: set_field_def drop_update_swap Suc_diff_le)

lemma drop_set_field_ge: "i + 2 \<le> n \<Longrightarrow> drop n (set_field p i c) = drop n p"
  by (simp add: set_field_def)

lemma sum16_set_field:
  "even i \<Longrightarrow> i + 2 \<le> length xs \<Longrightarrow>
   sum16 (set_field xs i c) = sum16 (set_field xs i 0) + unat c"
proof (induction xs arbitrary: i rule: sum16.induct)
  case (3 a b r)
  have c: "unat (hi8 c) * 256 + unat (lo8 c) = unat c"
    using unat_u16 [of "hi8 c" "lo8 c"] by simp
  have z: "unat (hi8 0) = 0" "unat (lo8 0) = 0"
    by (simp_all add: hi8_def lo8_def)
  show ?case
  proof (cases "i = 0")
    case True
    then show ?thesis using c z by (simp add: set_field_def)
  next
    case False
    then obtain j where j: "i = Suc (Suc j)"
      using 3(2) by (metis One_nat_def Suc_diff_1 even_Suc not0_implies_Suc odd_one)
    have "sum16 (set_field r j c) = sum16 (set_field r j 0) + unat c"
      using 3(2,3) j by (intro 3(1)) auto
    then show ?thesis by (simp add: j set_field_def)
  qed
qed auto

lemma sum16_take_field:
  assumes "even i" "i + 2 \<le> n" "i + 2 \<le> length xs"
  shows "sum16 (take n (set_field xs i c)) = sum16 (take n (set_field xs i 0)) + unat c"
  using assms sum16_set_field [of i "take n xs" c] by (simp add: take_set_field)

section \<open>Header lengths, pseudo headers and bounds\<close>

lemma unat_nibble: "unat (b AND 15 :: byte) \<le> 15"
  by (rule word_and_le1 [THEN word_le_nat_alt [THEN iffD1], of b 15, simplified])

lemma hdr4_eq: "hdr4 b = 4 * unat (b AND 15)"
  using unat_nibble [of b] by (simp add: hdr4_def unat_word_ariths)

lemma hdr4_le: "hdr4 b \<le> 60"
  using unat_nibble [of b] by (simp add: hdr4_eq)

lemma hdr4_even [simp]: "even (hdr4 b)"
  by (simp add: hdr4_eq)

lemma hdr4_shift: "hdr4s b = hdr4 b"
  using unat_nibble [of b]
  by (simp add: hdr4s_def hdr4_eq push_bit_eq_mult unat_word_ariths)

lemma sum16_append: "even (length xs) \<Longrightarrow> sum16 (xs @ ys) = sum16 xs + sum16 ys"
  by (induction xs rule: sum16.induct) auto

lemma sum16_bound: "2 * sum16 xs \<le> 65535 * (length xs + 1)"
proof (induction xs rule: sum16.induct)
  case (2 a)
  then show ?case using unat_byte_bound [of a] by simp
next
  case (3 a b r)
  then show ?case using unat_byte_bound [of a] unat_byte_bound [of b] by simp
qed simp

lemma list4: "length a = 4 \<Longrightarrow> \<exists>w x y z. a = [w, x, y, z]"
  by (simp add: length_Suc_conv numeral_eq_Suc) blast

lemma pseudo_v4_ok:
  assumes "20 \<le> length p"
  shows "pseudo_v4 p pr l = Some (take 8 (drop 12 p) @ [0, pr, hi8 l, lo8 l])"
proof -
  obtain a b where a: "take 4 (drop 12 p) = a" and b: "take 4 (drop 16 p) = b" by blast
  have "take 8 (drop 12 p) = a @ b"
    using take_add [of 4 4 "drop 12 p"] a b by simp
  moreover have "length a = 4" "length b = 4" using a b assms by auto
  moreover have "mk 12 = [0, 0, 0, 0, 0, 0, 0, 0, 0, 0, 0, 0]"
    by (simp add: mk_def numeral_eq_Suc)
  ultimately show ?thesis
    using assms a b list4 [of a] list4 [of b]
    by (auto simp: pseudo_v4_def go_simps copy_into_def)
qed

lemma sum16_pseudo_v4:
  assumes "20 \<le> length p" and "pseudo_v4 p pr l = Some ps"
  shows "sum16_loop ps 0 (length ps) 0 = Some (of_nat (pseudo4_sum p pr (unat l)))"
proof -
  have ps: "ps = take 8 (drop 12 p) @ [0, pr, hi8 l, lo8 l]"
    using assms by (simp add: pseudo_v4_ok)
  have "even (length ps)" "even (length (take 8 (drop 12 p)))"
    using assms(1) by (simp_all add: ps)
  moreover have "sum16 ps = pseudo4_sum p pr (unat l)"
    using calculation unat_u16 [of "hi8 l" "lo8 l"]
    by (simp add: ps sum16_append pseudo4_sum_def)
  ultimately show ?thesis by (simp add: sum16_loop_even)
qed

lemma pseudo4_sum_bound:
  "20 \<le> length p \<Longrightarrow> 2 * pseudo4_sum p pr l \<le> 65535 * 9 + 2 * 256 + 2 * l"
  using sum16_bound [of "take 8 (drop 12 p)"] unat_byte_bound [of pr]
  by (simp add: pseudo4_sum_def)

lemma pseudo_v6_ok:
  assumes "40 \<le> length p" and "n < 65536"
  shows "pseudo_v6 p n nh =
     Some (take 32 (drop 8 p) @ [0, 0, hi8 (of_nat n), lo8 (of_nat n), 0, 0, 0, nh])"
proof -
  have "take 32 (drop 8 p) = take 16 (drop 8 p) @ take 16 (drop 24 p)"
    using take_add [of 16 16 "drop 8 p"] by simp
  moreover have "hi16 (of_nat n) = 0"
    using assms(2)
    by (simp add: hi16_def drop_bit_eq_div flip: of_nat_div)
       (simp add: word_eq_iff_unsigned [where ?'a = nat] unat_div unat_of_nat)
  moreover have "lo16 (of_nat n) = of_nat n"
    using assms(2) by (simp add: lo16_def word_eq_iff_unsigned [where ?'a = nat] unsigned_ucast_eq
        unat_of_nat take_bit_eq_mod)
  ultimately show ?thesis
    using assms(1)
    by (simp add: pseudo_v6_def go_simps list_update_append mk_def numeral_eq_Suc hi8_def lo8_def)
qed

lemma sum16_pseudo_v6:
  assumes "40 \<le> length p" and "n < 65536" and "pseudo_v6 p n nh = Some ps"
  shows "sum16_loop ps 0 (length ps) 0 = Some (of_nat (pseudo6_sum p nh n))"
proof -
  have ps: "ps = take 32 (drop 8 p) @ [0, 0, hi8 (of_nat n), lo8 (of_nat n), 0, 0, 0, nh]"
    using assms by (simp add: pseudo_v6_ok)
  have "even (length ps)" "even (length (take 32 (drop 8 p)))"
    using assms(1) by (simp_all add: ps)
  moreover have "unat (of_nat n :: uint16) = n"
    using assms(2) by (simp add: unat_of_nat)
  then have "sum16 ps = pseudo6_sum p nh n"
    using calculation unat_u16 [of "hi8 (of_nat n)" "lo8 (of_nat n)"]
    by (simp add: ps sum16_append pseudo6_sum_def)
  ultimately show ?thesis by (simp add: sum16_loop_even)
qed

lemma pseudo6_sum_bound:
  "40 \<le> length p \<Longrightarrow> 2 * pseudo6_sum p nh n \<le> 65535 * 33 + 2 * 256 + 2 * n"
  using sum16_bound [of "take 32 (drop 8 p)"] unat_byte_bound [of nh]
  by (simp add: pseudo6_sum_def)

section \<open>The contract of a checksum operation\<close>

text \<open>
  \<open>fixup\<close> rewrites the 16-bit field at \<open>pos\<close> of a packet that is \<open>wf\<close>; \<open>total\<close> is everything
  the receiver adds up, the field included.
\<close>

locale inet_checksum =
  fixes fixup :: "bytes \<Rightarrow> bytes option"
    and wf :: "bytes \<Rightarrow> bool"
    and pos :: "bytes \<Rightarrow> nat"
    and total :: "bytes \<Rightarrow> nat"
  assumes room: "wf p \<Longrightarrow> pos p + 2 \<le> length p"
    and wf_field: "wf p \<Longrightarrow> wf (set_field p (pos p) c)"
    and pos_field: "wf p \<Longrightarrow> pos (set_field p (pos p) c) = pos p"
    and total_field:
      "wf p \<Longrightarrow> total (set_field p (pos p) c) = total (set_field p (pos p) 0) + unat c"
    and fix_sets:
      "wf p \<Longrightarrow> \<exists>c. fixup p = Some (set_field p (pos p) c) \<and>
                   cs_ok (total (set_field p (pos p) 0) + unat c)"
    and fix_forgets: "wf p \<Longrightarrow> fixup (set_field p (pos p) d) = fixup p"
begin

lemma fixup_shape:
  assumes "wf p" and "fixup p = Some q"
  shows "\<exists>c. q = set_field p (pos p) c \<and> cs_ok (total q)"
proof -
  obtain c where "fixup p = Some (set_field p (pos p) c)"
    and "cs_ok (total (set_field p (pos p) 0) + unat c)"
    using fix_sets [OF assms(1)] by blast
  then show ?thesis using assms(2) total_field [OF assms(1), of c] by auto
qed

lemma fixup_returns: "wf p \<Longrightarrow> \<exists>q. fixup p = Some q"
  using fix_sets by blast

lemma fixup_valid: "wf p \<Longrightarrow> fixup p = Some q \<Longrightarrow> cs_ok (total q)"
  using fixup_shape by blast

lemma fixup_length: "wf p \<Longrightarrow> fixup p = Some q \<Longrightarrow> length q = length p"
  by (auto dest!: fixup_shape)

lemma fixup_frame:
  "wf p \<Longrightarrow> fixup p = Some q \<Longrightarrow> i \<noteq> pos p \<Longrightarrow> i \<noteq> pos p + 1 \<Longrightarrow> q ! i = p ! i"
  by (auto dest!: fixup_shape)

lemma fixup_wf: "wf p \<Longrightarrow> fixup p = Some q \<Longrightarrow> wf q \<and> pos q = pos p"
  using fixup_shape wf_field pos_field by blast

text \<open>Fixing a fixed packet changes nothing.\<close>

lemma fixup_idem:
  assumes "wf p" and "fixup p = Some q"
  shows "fixup q = Some q"
  using fixup_shape [OF assms] fix_forgets [OF assms(1)] assms(2) by auto

lemma fixup_correct:
  assumes "wf p"
  shows "\<exists>q. fixup p = Some q \<and> length q = length p \<and> cs_ok (total q) \<and> fixup q = Some q \<and>
     (\<forall>i. i \<noteq> pos p \<and> i \<noteq> pos p + 1 \<longrightarrow> q ! i = p ! i)"
  using fixup_returns fixup_valid fixup_length fixup_idem fixup_frame assms by metis

text \<open>Any other field value that verifies is the same one, up to the two zeros of one's
  complement arithmetic.\<close>

lemma field_valid_iff:
  assumes "wf p" and "cs_ok (total (set_field p (pos p) c))" and "0 < total (set_field p (pos p) d)"
  shows "cs_ok (total (set_field p (pos p) d)) \<longleftrightarrow> 65535 dvd int (unat c) - int (unat d)"
proof -
  let ?r = "total (set_field p (pos p) 0)"
  have int_mod: "n mod 65535 = 0 \<longleftrightarrow> (65535 :: int) dvd int n" for n :: nat
    by (metis int_dvd_int_iff mod_eq_0_iff_dvd of_nat_numeral)
  have c: "65535 dvd (int ?r + int (unat c))"
    using assms(2) total_field [OF assms(1), of c] by (simp add: cs_ok_def int_mod)
  have d: "cs_ok (total (set_field p (pos p) d)) \<longleftrightarrow> 65535 dvd (int ?r + int (unat d))"
    using assms(3) total_field [OF assms(1), of d] by (simp add: cs_ok_def int_mod)
  show ?thesis
    unfolding d using dvd_diff_right_iff [OF c, of "int ?r + int (unat d)"] by simp
qed

end

text \<open>
  How the code meets the contract: the new field is the complement of the 32-bit sum taken with the
  field cleared, possibly adjusted (UDP replaces zero).
\<close>

locale checksum_impl =
  fixes fixup :: "bytes \<Rightarrow> bytes option"
    and wf :: "bytes \<Rightarrow> bool"
    and pos :: "bytes \<Rightarrow> nat"
    and total :: "bytes \<Rightarrow> nat"
    and adj :: "uint16 \<Rightarrow> uint16"
  assumes impl_room: "wf p \<Longrightarrow> pos p + 2 \<le> length p"
    and impl_wf_field: "wf p \<Longrightarrow> wf (set_field p (pos p) c)"
    and impl_pos_field: "wf p \<Longrightarrow> pos (set_field p (pos p) c) = pos p"
    and impl_total_field:
      "wf p \<Longrightarrow> total (set_field p (pos p) c) = total (set_field p (pos p) 0) + unat c"
    and no_overflow: "wf p \<Longrightarrow> total (set_field p (pos p) 0) < 2 ^ 32"
    and adj_ok: "cs_ok (S + unat c) \<Longrightarrow> cs_ok (S + unat (adj c))"
    and computes:
      "wf p \<Longrightarrow> fixup p = Some (set_field p (pos p)
         (adj (cksum16 (of_nat (total (set_field p (pos p) 0))))))"

sublocale checksum_impl \<subseteq> inet_checksum fixup wf pos total
proof unfold_locales
  fix p d
  assume "wf p"
  then show "fixup (set_field p (pos p) d) = fixup p"
    by (simp add: computes impl_wf_field impl_pos_field)
qed (use impl_room impl_wf_field impl_pos_field impl_total_field no_overflow adj_ok cksum16_ok computes in blast)+

lemma u16_set_field: "i + 2 \<le> length p \<Longrightarrow> u16 (set_field p i c ! i) (set_field p i c ! Suc i) = c"
  by (simp add: set_field_def)

text \<open>UDP: the field is never zero, which would mean that there is no checksum.\<close>

locale udp_checksum = checksum_impl +
  assumes adj_nz: "adj c \<noteq> 0"
begin

lemma udp_correct:
  assumes "wf p"
  shows "\<exists>q. fixup p = Some q \<and> length q = length p \<and> cs_ok (total q) \<and> fixup q = Some q \<and>
     u16 (q ! pos p) (q ! Suc (pos p)) \<noteq> 0 \<and>
     (\<forall>i. i \<noteq> pos p \<and> i \<noteq> Suc (pos p) \<longrightarrow> q ! i = p ! i)"
proof -
  let ?c = "adj (cksum16 (of_nat (total (set_field p (pos p) 0))))"
  have "u16 (set_field p (pos p) ?c ! pos p) (set_field p (pos p) ?c ! Suc (pos p)) \<noteq> 0"
    using u16_set_field [of "pos p" p] impl_room [OF assms] adj_nz by simp
  then show ?thesis
    using fixup_correct [OF assms] computes [OF assms] by auto
qed

end

lemma udp_nonzero_nz: "udp_nonzero c \<noteq> 0"
  by (simp add: udp_nonzero_def)

section \<open>IPv4 header\<close>

text \<open>\<open>ihl\<close> and total length as the header states them.\<close>
definition ihl4 :: "bytes \<Rightarrow> nat" where
  "ihl4 p = hdr4 (p ! 0)"

definition tot4 :: "bytes \<Rightarrow> nat" where
  "tot4 p = unat (u16 (p ! 2) (p ! 3))"

definition plen6 :: "bytes \<Rightarrow> nat" where
  "plen6 p = unat (u16 (p ! 4) (p ! 5))"

definition ip4_wf :: "bytes \<Rightarrow> bool" where
  "ip4_wf ip \<longleftrightarrow> 20 \<le> ihl4 ip \<and> ihl4 ip \<le> length ip"

definition ip4_total :: "bytes \<Rightarrow> nat" where
  "ip4_total ip = sum16 (take (ihl4 ip) ip)"

lemma ihl4_le: "ihl4 p \<le> 60"
  by (simp add: ihl4_def hdr4_le)

lemma ihl4_field [simp]: "0 < i \<Longrightarrow> ihl4 (set_field p i c) = ihl4 p"
  by (simp add: ihl4_def)

lemma tot4_field [simp]: "4 \<le> i \<Longrightarrow> tot4 (set_field p i c) = tot4 p"
  by (simp add: tot4_def)

lemma plen6_field [simp]: "6 \<le> i \<Longrightarrow> plen6 (set_field p i c) = plen6 p"
  by (simp add: plen6_def)

lemma tot4_less: "tot4 p < 65536"
  by (simp add: tot4_def unat_u16_bound)

lemma plen6_less: "plen6 p < 65536"
  by (simp add: plen6_def unat_u16_bound)

lemma ip4_total_bound: "ip4_total p < 2 ^ 32"
proof -
  have "length (take (ihl4 p) p) \<le> 60" using ihl4_le [of p] by simp
  then show ?thesis using sum16_bound [of "take (ihl4 p) p"] by (simp add: ip4_total_def)
qed

lemma FixIPv4Checksum_computes:
  assumes "ip4_wf p"
  shows "FixIPv4Checksum p =
     Some (set_field p 10 (id (cksum16 (of_nat (ip4_total (set_field p 10 0))))))"
proof -
  let ?p = "set_field p 10 0"
  have l: "20 \<le> length p" "ihl4 p \<le> length p" "p \<noteq> []" using assms by (auto simp: ip4_wf_def)
  have z: "p[10 := 0, 11 := 0] = ?p" by (rule set_field_zero) simp
  have "sum16_loop ?p 0 (ihl4 ?p) 0 = Some (of_nat (ip4_total ?p))"
    using l sum16_loop_even [of "ihl4 p" ?p 0] by (simp add: ip4_total_def ihl4_def)
  then show ?thesis
    using l by (simp add: FixIPv4Checksum_def idx_0 upd_ok z put16_set_field ihl4_def)
qed

interpretation ip4: checksum_impl FixIPv4Checksum ip4_wf "\<lambda>p. 10" ip4_total id
proof unfold_locales
  fix p c
  assume wf: "ip4_wf p"
  show "10 + 2 \<le> length p" "ip4_wf (set_field p 10 c)" "ip4_total (set_field p 10 0) < 2 ^ 32"
    using wf ip4_total_bound by (auto simp: ip4_wf_def)
  show "ip4_total (set_field p 10 c) = ip4_total (set_field p 10 0) + unat c"
    using wf sum16_set_field [of 10 "take (ihl4 p) p" c]
    by (simp add: ip4_total_def ip4_wf_def take_set_field)
  show "FixIPv4Checksum p =
     Some (set_field p 10 (id (cksum16 (of_nat (ip4_total (set_field p 10 0))))))"
    using wf by (rule FixIPv4Checksum_computes)
qed auto

section \<open>TCP over IPv4\<close>

definition tcp4_wf :: "bytes \<Rightarrow> bool" where
  "tcp4_wf p \<longleftrightarrow> 20 \<le> ihl4 p \<and> ihl4 p + 20 \<le> tot4 p \<and> tot4 p \<le> length p"

definition tcp4_pos :: "bytes \<Rightarrow> nat" where
  "tcp4_pos p = ihl4 p + 16"

definition tcp4_total :: "bytes \<Rightarrow> nat" where
  "tcp4_total p =
     pseudo4_sum p 6 (tot4 p - ihl4 p) + sum16 (take (tot4 p - ihl4 p) (drop (ihl4 p) p))"

lemma pseudo4_sum_field [simp]: "20 \<le> i \<Longrightarrow> pseudo4_sum (set_field p i c) pr n = pseudo4_sum p pr n"
  by (simp add: pseudo4_sum_def drop_set_field take_set_field_ge)

lemma segment_sum_bound:
  "n \<le> 65535 \<Longrightarrow> S \<le> 2 ^ 30 \<Longrightarrow> S + sum16 (take n xs) < 2 ^ 32"
  using sum16_bound [of "take n xs"] by (simp add: min_def split: if_splits)

lemma tcp4_total_bound:
  assumes "tcp4_wf p"
  shows "tcp4_total p < 2 ^ 32"
proof -
  have n: "tot4 p - ihl4 p \<le> 65535" using tot4_less [of p] by simp
  then have "pseudo4_sum p 6 (tot4 p - ihl4 p) \<le> 2 ^ 30"
    using pseudo4_sum_bound [of p 6 "tot4 p - ihl4 p"] assms by (simp add: tcp4_wf_def)
  then show ?thesis unfolding tcp4_total_def by (rule segment_sum_bound [OF n])
qed

lemma FixTCPChecksum_computes:
  assumes "tcp4_wf p"
  shows "FixTCPChecksum p = Some (set_field p (tcp4_pos p)
     (id (cksum16 (of_nat (tcp4_total (set_field p (tcp4_pos p) 0))))))"
proof -
  let ?i = "ihl4 p + 16"
  let ?p = "set_field p ?i 0"
  obtain n where n: "tot4 p = ihl4 p + n"
    using assms by (auto simp: tcp4_wf_def dest: less_imp_Suc_add le_Suc_ex)
  have l: "20 \<le> ihl4 p" "20 \<le> n" "ihl4 p + n \<le> length p" "p \<noteq> []"
    using assms n by (auto simp: tcp4_wf_def)
  have z: "p[?i := 0, ihl4 p + 17 := 0] = ?p"
    by (rule set_field_zero) simp
  have t: "be16 ?p 2 = Some (u16 (p ! 2) (p ! 3))" "unat (u16 (p ! 2) (p ! 3)) = ihl4 p + n"
    using l n by (simp_all add: go_simps numeral_3_eq_3 tot4_def)
  obtain ps where ps: "pseudo_v4 ?p 6 (of_nat n) = Some ps"
    using l by (simp add: pseudo_v4_ok)
  have "unat (of_nat n :: uint16) = n"
    using tot4_less [of p] n by (simp add: unat_of_nat)
  then have s: "sum16_loop ps 0 (length ps) 0 = Some (of_nat (pseudo4_sum p 6 n))"
    using sum16_pseudo_v4 [OF _ ps] l by simp
  show ?thesis
    using l
    by (simp add: FixTCPChecksum_def idx_0 upd_ok gslice_ok Let_def z t n ps s sum16_segment
        put16_set_field tcp4_pos_def tcp4_total_def del: One_nat_def of_nat_unat
        flip: ihl4_def)
qed

interpretation tcp4: checksum_impl FixTCPChecksum tcp4_wf tcp4_pos tcp4_total id
proof unfold_locales
  fix p c
  assume wf: "tcp4_wf p"
  then show "tcp4_pos p + 2 \<le> length p" "tcp4_wf (set_field p (tcp4_pos p) c)"
      "tcp4_pos (set_field p (tcp4_pos p) c) = tcp4_pos p"
    by (auto simp: tcp4_wf_def tcp4_pos_def)
  show "tcp4_total (set_field p (tcp4_pos p) 0) < 2 ^ 32"
    using wf by (intro tcp4_total_bound) (simp add: tcp4_wf_def tcp4_pos_def)
  show "tcp4_total (set_field p (tcp4_pos p) c)
      = tcp4_total (set_field p (tcp4_pos p) 0) + unat c"
    using wf by (auto simp: tcp4_total_def tcp4_wf_def tcp4_pos_def drop_set_field
        intro: sum16_take_field)
qed (auto simp: FixTCPChecksum_computes)

section \<open>TCP over IPv6\<close>

definition tcp6_wf :: "bytes \<Rightarrow> bool" where
  "tcp6_wf p \<longleftrightarrow> 20 \<le> plen6 p \<and> 40 + plen6 p \<le> length p"

definition tcp6_total :: "bytes \<Rightarrow> nat" where
  "tcp6_total p = pseudo6_sum p 6 (plen6 p) + sum16 (take (plen6 p) (drop 40 p))"

lemma pseudo6_sum_field [simp]: "40 \<le> i \<Longrightarrow> pseudo6_sum (set_field p i c) nh n = pseudo6_sum p nh n"
  by (simp add: pseudo6_sum_def drop_set_field take_set_field_ge)

lemma seg6_total_bound:
  assumes "40 \<le> length p"
  shows "pseudo6_sum p nh (plen6 p) + sum16 (take (plen6 p) xs) < 2 ^ 32"
proof (rule segment_sum_bound)
  show n: "plen6 p \<le> 65535" using plen6_less [of p] by simp
  show "pseudo6_sum p nh (plen6 p) \<le> 2 ^ 30"
    using pseudo6_sum_bound [OF assms, of nh "plen6 p"] n by simp
qed

lemma FixTCPChecksumV6_computes:
  assumes "tcp6_wf p"
  shows "FixTCPChecksumV6 p = Some (set_field p 56
     (id (cksum16 (of_nat (tcp6_total (set_field p 56 0))))))"
proof -
  let ?p = "set_field p 56 0"
  have l: "20 \<le> plen6 p" "40 + plen6 p \<le> length p"
    using assms by (auto simp: tcp6_wf_def)
  have z: "p[56 := 0, 57 := 0] = ?p"
    by (rule set_field_zero) simp
  have t: "be16 ?p 4 = Some (u16 (p ! 4) (p ! 5))" "unat (u16 (p ! 4) (p ! 5)) = plen6 p"
    using l by (simp_all add: go_simps plen6_def eval_nat_numeral)
  obtain ps where ps: "pseudo_v6 ?p (plen6 p) 6 = Some ps"
    using l plen6_less [of p] by (simp add: pseudo_v6_ok)
  have s: "sum16_loop ps 0 (length ps) 0 = Some (of_nat (pseudo6_sum p 6 (plen6 p)))"
    using sum16_pseudo_v6 [OF _ plen6_less ps] l by simp
  show ?thesis
    using l
    by (simp add: FixTCPChecksumV6_def upd_ok gslice_ok Let_def z t ps s sum16_segment
        put16_set_field tcp6_total_def del: One_nat_def)
qed

interpretation tcp6: checksum_impl FixTCPChecksumV6 tcp6_wf "\<lambda>p. 56" tcp6_total id
proof unfold_locales
  fix p c
  assume wf: "tcp6_wf p"
  then show "56 + 2 \<le> length p" "tcp6_wf (set_field p 56 c)"
    by (auto simp: tcp6_wf_def)
  show "tcp6_total (set_field p 56 0) < 2 ^ 32"
    using wf unfolding tcp6_total_def by (intro seg6_total_bound) (simp add: tcp6_wf_def)
  show "tcp6_total (set_field p 56 c) = tcp6_total (set_field p 56 0) + unat c"
    using wf by (auto simp: tcp6_total_def tcp6_wf_def drop_set_field intro: sum16_take_field)
qed (auto simp: FixTCPChecksumV6_computes)

section \<open>UDP\<close>

subsection \<open>\<^verbatim>\<open>FixUDPChecksum\<close>: header length given, the rest of the slice is the datagram\<close>

definition udp4_wf :: "nat \<Rightarrow> bytes \<Rightarrow> bool" where
  "udp4_wf ihl p \<longleftrightarrow> 20 \<le> ihl \<and> ihl + 8 \<le> length p \<and> length p - ihl \<le> 65535"

definition udp4_total :: "nat \<Rightarrow> bytes \<Rightarrow> nat" where
  "udp4_total ihl p = pseudo4_sum p 17 (length p - ihl) + sum16 (drop ihl p)"

lemma sum16_four:
  "20 \<le> length p \<Longrightarrow> of_nat (sum16 (take 8 (drop 12 p))) =
     (ucast (u16 (p ! 12) (p ! 13)) + ucast (u16 (p ! 14) (p ! 15))
      + ucast (u16 (p ! 16) (p ! 17)) + ucast (u16 (p ! 18) (p ! 19)) :: uint32)"
proof -
  assume l: "20 \<le> length p"
  then have "take 8 (drop 12 p) = map ((!) p) [12, 13, 14, 15, 16, 17, 18, 19]"
    by (intro nth_equalityI) (auto simp: less_Suc_eq numeral_eq_Suc)
  then show ?thesis by (simp add: ucast_u16)
qed

lemma FixUDPChecksum_computes:
  assumes "udp4_wf ihl p"
  shows "FixUDPChecksum p ihl = Some (set_field p (ihl + 6)
     (udp_nonzero (cksum16 (of_nat (udp4_total ihl (set_field p (ihl + 6) 0))))))"
proof -
  let ?i = "ihl + 6"
  let ?p = "set_field p ?i 0"
  let ?n = "length p - ihl"
  have l: "20 \<le> ihl" "ihl + 8 \<le> length p"
    using assms by (auto simp: udp4_wf_def)
  have z: "p[?i := 0, ihl + 7 := 0] = ?p"
    by (rule set_field_zero) simp
  have w: "word_at ?p j = Some (ucast (u16 (p ! j) (p ! (j + 1))))" if "j \<le> 18" for j
    using that l by (simp add: word_at_ok)
  have sum: "ucast (u16 (p ! 12) (p ! 13)) + ucast (u16 (p ! 14) (p ! 15))
      + ucast (u16 (p ! 16) (p ! 17)) + ucast (u16 (p ! 18) (p ! 19)) + 17 + of_nat ?n
      = (of_nat (pseudo4_sum p 17 ?n) :: uint32)"
    using l sum16_four [of p] by (simp add: pseudo4_sum_def)
  have b: "sum16_bytes_loop (drop ihl ?p) 0 ?n s0
      = Some (s0 + of_nat (sum16e (drop ihl ?p)))" for s0
    using l by (simp add: sum16_bytes_loop_eq sum16_loop_segment)
  have u: "upd ?p ?i (hi8 c) \<bind> (\<lambda>q. upd q (ihl + 7) (lo8 c)) = Some (set_field p ?i c)" for c
    using l set_field_twice [of p ?i 0 c]
    by (simp add: upd_ok set_field_def [of _ _ c] add.commute)
  show ?thesis
    using l
    by (simp add: FixUDPChecksum_def upd_ok [of _ p] upd_ok [of _ "p[_ := _]"] slice_from_ok
        z w sum b sum16_tail_segment u udp4_total_def Let_def del: One_nat_def of_nat_diff)
qed

interpretation udp4: udp_checksum "\<lambda>p. FixUDPChecksum p ihl" "udp4_wf ihl" "\<lambda>p. ihl + 6"
    "udp4_total ihl" udp_nonzero for ihl
proof unfold_locales
  fix p c
  assume wf: "udp4_wf ihl p"
  then show "ihl + 6 + 2 \<le> length p" "udp4_wf ihl (set_field p (ihl + 6) c)"
    by (auto simp: udp4_wf_def)
  show "udp4_total ihl (set_field p (ihl + 6) 0) < 2 ^ 32"
    using wf pseudo4_sum_bound [of p 17 "length p - ihl"]
      segment_sum_bound [of "length p - ihl" "pseudo4_sum p 17 (length p - ihl)"
        "drop ihl (set_field p (ihl + 6) 0)"]
    by (simp add: udp4_total_def udp4_wf_def)
  show "udp4_total ihl (set_field p (ihl + 6) c)
      = udp4_total ihl (set_field p (ihl + 6) 0) + unat c"
    using wf by (auto simp: udp4_total_def udp4_wf_def drop_set_field intro: sum16_set_field)
qed (auto simp: FixUDPChecksum_computes udp_nonzero_ok udp_nonzero_nz)

subsection \<open>\<^verbatim>\<open>FixUDPChecksumV6\<close>: the datagram length is the IPv6 payload length\<close>

definition udp6_wf :: "bytes \<Rightarrow> bool" where
  "udp6_wf p \<longleftrightarrow> 8 \<le> plen6 p \<and> 40 + plen6 p \<le> length p"

definition udp6_total :: "bytes \<Rightarrow> nat" where
  "udp6_total p = pseudo6_sum p 17 (plen6 p) + sum16 (take (plen6 p) (drop 40 p))"

lemma FixUDPChecksumV6_computes:
  assumes "udp6_wf p"
  shows "FixUDPChecksumV6 p = Some (set_field p 46
     (udp_nonzero (cksum16 (of_nat (udp6_total (set_field p 46 0))))))"
proof -
  let ?p = "set_field p 46 0"
  have l: "8 \<le> plen6 p" "40 + plen6 p \<le> length p"
    using assms by (auto simp: udp6_wf_def)
  have z: "p[46 := 0, 47 := 0] = ?p"
    by (rule set_field_zero) simp
  have t: "be16 ?p 4 = Some (u16 (p ! 4) (p ! 5))" "unat (u16 (p ! 4) (p ! 5)) = plen6 p"
    using l by (simp_all add: go_simps plen6_def eval_nat_numeral)
  obtain ps where ps: "pseudo_v6 ?p (plen6 p) 17 = Some ps"
    using l plen6_less [of p] by (simp add: pseudo_v6_ok)
  have s: "sum16_loop ps 0 (length ps) 0 = Some (of_nat (pseudo6_sum p 17 (plen6 p)))"
    using sum16_pseudo_v6 [OF _ plen6_less ps] l by simp
  show ?thesis
    using l
    by (simp add: FixUDPChecksumV6_def upd_ok gslice_ok Let_def z t ps s sum16_segment
        put16_set_field udp6_total_def del: One_nat_def)
qed

interpretation udp6: udp_checksum FixUDPChecksumV6 udp6_wf "\<lambda>p. 46" udp6_total udp_nonzero
proof unfold_locales
  fix p c
  assume wf: "udp6_wf p"
  then show "46 + 2 \<le> length p" "udp6_wf (set_field p 46 c)"
    by (auto simp: udp6_wf_def)
  show "udp6_total (set_field p 46 0) < 2 ^ 32"
    using wf unfolding udp6_total_def by (intro seg6_total_bound) (simp add: udp6_wf_def)
  show "udp6_total (set_field p 46 c) = udp6_total (set_field p 46 0) + unat c"
    using wf by (auto simp: udp6_total_def udp6_wf_def drop_set_field intro: sum16_take_field)
qed (auto simp: FixUDPChecksumV6_computes udp_nonzero_ok udp_nonzero_nz)

subsection \<open>\<^verbatim>\<open>udpChecksumIPv4\<close> and \<^verbatim>\<open>udpChecksumIPv6\<close>: the length of the UDP header\<close>

definition ulen_at :: "nat \<Rightarrow> bytes \<Rightarrow> nat" where
  "ulen_at off p = unat (u16 (p ! (off + 4)) (p ! (off + 5)))"

definition ucs4_wf :: "bytes \<Rightarrow> bool" where
  "ucs4_wf p \<longleftrightarrow> 20 \<le> ihl4 p \<and> 8 \<le> ulen_at (ihl4 p) p \<and> ihl4 p + ulen_at (ihl4 p) p \<le> length p"

definition ucs4_total :: "bytes \<Rightarrow> nat" where
  "ucs4_total p = (let n = ulen_at (ihl4 p) p
     in pseudo4_sum p 17 n + sum16 (take n (drop (ihl4 p) p)))"

definition ucs6_wf :: "bytes \<Rightarrow> bool" where
  "ucs6_wf p \<longleftrightarrow> 8 \<le> ulen_at 40 p \<and> 40 + ulen_at 40 p \<le> length p"

definition ucs6_total :: "bytes \<Rightarrow> nat" where
  "ucs6_total p = (let n = ulen_at 40 p in pseudo6_sum p 17 n + sum16 (take n (drop 40 p)))"

lemma ulen_at_less: "ulen_at off p < 65536"
  by (simp add: ulen_at_def unat_u16_bound)

lemma ulen_at_field [simp]: "ulen_at off (set_field p (off + 6) c) = ulen_at off p"
  by (simp add: ulen_at_def)

lemma ulen_at_field40 [simp]: "ulen_at 40 (set_field p 46 c) = ulen_at 40 p"
  using ulen_at_field [of 40 p c] by simp

lemma udpChecksumIPv4_computes:
  assumes "ucs4_wf p"
  shows "udpChecksumIPv4 p = Some (set_field p (ihl4 p + 6)
     (udp_nonzero (cksum16 (of_nat (ucs4_total (set_field p (ihl4 p + 6) 0))))))"
proof -
  let ?i = "ihl4 p + 6"
  let ?p = "set_field p ?i 0"
  let ?n = "ulen_at (ihl4 p) p"
  have l: "20 \<le> ihl4 p" "8 \<le> ?n" "ihl4 p + ?n \<le> length p" "p \<noteq> []"
    using assms by (auto simp: ucs4_wf_def)
  have z: "p[?i := 0, ihl4 p + 7 := 0] = ?p"
    by (rule set_field_zero) simp
  have t: "be16 p (ihl4 p + 4) = Some (u16 (p ! (ihl4 p + 4)) (p ! (ihl4 p + 5)))"
    using l by (simp add: go_simps eval_nat_numeral)
  have n: "unat (u16 (p ! (ihl4 p + 4)) (p ! (ihl4 p + 5))) = ?n"
    by (simp add: ulen_at_def)
  obtain ps where ps: "pseudo_v4 p 17 (u16 (p ! (ihl4 p + 4)) (p ! (ihl4 p + 5))) = Some ps"
    using l by (simp add: pseudo_v4_ok)
  then have s: "sum16_loop ps 0 (length ps) 0 = Some (of_nat (pseudo4_sum p 17 ?n))"
    using sum16_pseudo_v4 [OF _ ps] l n by simp
  show ?thesis
    using l
    by (simp add: udpChecksumIPv4_def idx_0 upd_ok gslice_ok Let_def z t n ps s sum16_segment
        put16_set_field ucs4_total_def hdr4_shift del: One_nat_def flip: ihl4_def)
qed

lemma udpChecksumIPv6_computes:
  assumes "ucs6_wf p"
  shows "udpChecksumIPv6 p = Some (set_field p 46
     (udp_nonzero (cksum16 (of_nat (ucs6_total (set_field p 46 0))))))"
proof -
  let ?p = "set_field p 46 0"
  let ?n = "ulen_at 40 p"
  have l: "8 \<le> ?n" "40 + ?n \<le> length p"
    using assms by (auto simp: ucs6_wf_def)
  have z: "p[46 := 0, 47 := 0] = ?p"
    by (rule set_field_zero) simp
  have t: "be16 p 44 = Some (u16 (p ! 44) (p ! 45))" "unat (u16 (p ! 44) (p ! 45)) = ?n"
    using l by (simp_all add: go_simps ulen_at_def)
  obtain ps where ps: "pseudo_v6 p ?n 17 = Some ps"
    using l ulen_at_less [of 40 p] by (simp add: pseudo_v6_ok)
  have s: "sum16_loop ps 0 (length ps) 0 = Some (of_nat (pseudo6_sum p 17 ?n))"
    using sum16_pseudo_v6 [OF _ ulen_at_less ps] l by simp
  show ?thesis
    using l
    by (simp add: udpChecksumIPv6_def upd_ok gslice_ok Let_def z t ps s sum16_segment
        put16_set_field ucs6_total_def del: One_nat_def)
qed

interpretation ucs4: udp_checksum udpChecksumIPv4 ucs4_wf "\<lambda>p. ihl4 p + 6" ucs4_total udp_nonzero
proof unfold_locales
  fix p c
  let ?i = "ihl4 p + 6"
  let ?n = "ulen_at (ihl4 p) p"
  assume wf: "ucs4_wf p"
  then show "?i + 2 \<le> length p" "ucs4_wf (set_field p ?i c)"
    by (auto simp: ucs4_wf_def)
  have "?n \<le> 65535" using ulen_at_less [of "ihl4 p" p] by simp
  moreover from this have "pseudo4_sum p 17 ?n \<le> 2 ^ 30"
    using wf pseudo4_sum_bound [of p 17 ?n] by (simp add: ucs4_wf_def)
  ultimately show "ucs4_total (set_field p ?i 0) < 2 ^ 32"
    using wf segment_sum_bound by (simp add: ucs4_total_def ucs4_wf_def Let_def)
  show "ucs4_total (set_field p ?i c) = ucs4_total (set_field p ?i 0) + unat c"
    using wf
    by (auto simp: ucs4_total_def ucs4_wf_def Let_def drop_set_field intro: sum16_take_field)
qed (auto simp: udpChecksumIPv4_computes udp_nonzero_ok udp_nonzero_nz)

interpretation ucs6: udp_checksum udpChecksumIPv6 ucs6_wf "\<lambda>p. 46" ucs6_total udp_nonzero
proof unfold_locales
  fix p c
  let ?n = "ulen_at 40 p"
  assume wf: "ucs6_wf p"
  then show "46 + 2 \<le> length p" "ucs6_wf (set_field p 46 c)"
    by (auto simp: ucs6_wf_def)
  have "?n \<le> 65535" using ulen_at_less [of 40 p] by simp
  moreover from this have "pseudo6_sum p 17 ?n \<le> 2 ^ 30"
    using wf pseudo6_sum_bound [of p 17 ?n] by (simp add: ucs6_wf_def)
  ultimately show "ucs6_total (set_field p 46 0) < 2 ^ 32"
    using wf segment_sum_bound by (simp add: ucs6_total_def ucs6_wf_def Let_def)
  show "ucs6_total (set_field p 46 c) = ucs6_total (set_field p 46 0) + unat c"
    using wf
    by (auto simp: ucs6_total_def ucs6_wf_def Let_def drop_set_field intro: sum16_take_field)
qed (auto simp: udpChecksumIPv6_computes udp_nonzero_ok udp_nonzero_nz)

section \<open>Valid packets\<close>

text \<open>What a receiver accepts: the stated length is the real one and the checksums verify.\<close>
definition valid4 :: "bytes \<Rightarrow> bool" where
  "valid4 q \<longleftrightarrow> ip4_wf q \<and> tcp4_wf q \<and> tot4 q = length q \<and>
     cs_ok (ip4_total q) \<and> cs_ok (tcp4_total q)"

definition valid6 :: "bytes \<Rightarrow> bool" where
  "valid6 q \<longleftrightarrow> tcp6_wf q \<and> 40 + plen6 q = length q \<and> cs_ok (tcp6_total q)"

lemma ip4_total_field_ge: "ihl4 p \<le> i \<Longrightarrow> 0 < i \<Longrightarrow> ip4_total (set_field p i c) = ip4_total p"
  by (simp add: ip4_total_def take_set_field_ge)

lemma on_prefix_FixIPv4Checksum:
  assumes "ip4_wf p"
  shows "\<exists>c. on_prefix FixIPv4Checksum p (ihl4 p) = Some (set_field p 10 c) \<and>
     cs_ok (ip4_total (set_field p 10 c))"
proof -
  let ?h = "take (ihl4 p) p"
  have l: "20 \<le> ihl4 p" "ihl4 p \<le> length p" using assms by (auto simp: ip4_wf_def)
  have i: "ihl4 ?h = ihl4 p" using l by (simp add: ihl4_def)
  have wf: "ip4_wf ?h" using l by (simp add: ip4_wf_def i)
  obtain h' where h': "FixIPv4Checksum ?h = Some h'" using ip4.fixup_returns [OF wf] by blast
  then obtain c where c: "h' = set_field ?h 10 c" and ok: "cs_ok (ip4_total h')"
    using ip4.fixup_shape [OF wf] by blast
  have "h' @ drop (ihl4 p) p = set_field p 10 c"
    using l by (simp add: c set_field_def list_update_append1 flip: list_update_append1)
  moreover have "ip4_total h' = ip4_total (set_field p 10 c)"
    using l by (simp add: c ip4_total_def i take_set_field)
  ultimately show ?thesis
    using ok h' l by (auto simp: on_prefix_def gslice_ok)
qed

text \<open>The closing sequence of every IPv4 packet builder.\<close>

lemma fix_both4:
  assumes "20 \<le> ihl4 p" "ihl4 p + 20 \<le> length p" "tot4 p = length p"
  shows "\<exists>c d q. on_prefix FixIPv4Checksum p (ihl4 p) = Some (set_field p 10 c) \<and>
     FixTCPChecksum (set_field p 10 c) = Some q \<and>
     q = set_field (set_field p 10 c) (ihl4 p + 16) d \<and> valid4 q"
proof -
  have ip: "ip4_wf p" using assms by (simp add: ip4_wf_def)
  obtain c where c: "on_prefix FixIPv4Checksum p (ihl4 p) = Some (set_field p 10 c)"
    "cs_ok (ip4_total (set_field p 10 c))"
    using on_prefix_FixIPv4Checksum [OF ip] by blast
  let ?p = "set_field p 10 c"
  have wf: "tcp4_wf ?p" using assms by (simp add: tcp4_wf_def)
  obtain q where q: "FixTCPChecksum ?p = Some q" using tcp4.fixup_returns [OF wf] by blast
  then obtain d where d: "q = set_field ?p (ihl4 p + 16) d" "cs_ok (tcp4_total q)"
    using tcp4.fixup_shape [OF wf q] by (auto simp: tcp4_pos_def)
  have "valid4 q"
    using d c(2) assms ip by (simp add: valid4_def ip4_wf_def tcp4_wf_def ip4_total_field_ge)
  then show ?thesis using c q d by blast
qed

lemma fix_tcp6:
  assumes "60 \<le> length p" "40 + plen6 p = length p"
  shows "\<exists>d. FixTCPChecksumV6 p = Some (set_field p 56 d) \<and> valid6 (set_field p 56 d)"
proof -
  have wf: "tcp6_wf p" using assms by (simp add: tcp6_wf_def)
  obtain q where q: "FixTCPChecksumV6 p = Some q" using tcp6.fixup_returns [OF wf] by blast
  then obtain d where d: "q = set_field p 56 d" "cs_ok (tcp6_total q)"
    using tcp6.fixup_shape [OF wf q] by auto
  then show ?thesis using q assms wf by (auto simp: valid6_def tcp6_wf_def)
qed

section \<open>What the checksum routines promise\<close>

text \<open>C9: the TCP checksum over IPv4. On a packet whose header lengths are consistent the routine
  returns, only the checksum field changes, the sum a receiver forms over pseudo header and segment
  verifies, and running it again changes nothing.\<close>
theorem FixTCPChecksum_correct:
  assumes "tcp4_wf p"
  shows "\<exists>q. FixTCPChecksum p = Some q \<and> length q = length p \<and> cs_ok (tcp4_total q) \<and>
     FixTCPChecksum q = Some q \<and>
     (\<forall>i. i \<noteq> ihl4 p + 16 \<and> i \<noteq> ihl4 p + 17 \<longrightarrow> q ! i = p ! i)"
  using tcp4.fixup_correct [OF assms] by (auto simp: tcp4_pos_def add.commute)

definition sample_tcp4 :: bytes where
  "sample_tcp4 = [0x45, 0, 0, 43, 0, 0, 0, 0, 64, 6, 0, 0, 10, 0, 0, 1, 10, 0, 0, 2,
     0x30, 0x39, 1, 187, 0, 0, 0, 1, 0, 0, 0, 0, 0x50, 16, 0xff, 0xff, 0xde, 0xad, 0, 0,
     1, 2, 3]"

theorem FixTCPChecksum_witness:
  "\<exists>q. FixTCPChecksum sample_tcp4 = Some q \<and> length q = 43 \<and> cs_ok (tcp4_total q)"
proof -
  have "tcp4_wf sample_tcp4" "length sample_tcp4 = 43" by code_simp+
  then show ?thesis using FixTCPChecksum_correct [of sample_tcp4] by auto
qed

text \<open>C16: the IPv4 header checksum, also when it is run on the header alone as the callers do;
  shorter slices are left alone.\<close>
theorem FixIPv4Checksum_correct:
  "(length p < 20 \<longrightarrow> FixIPv4Checksum p = Some p) \<and>
   (ip4_wf p \<longrightarrow> (\<exists>q. FixIPv4Checksum p = Some q \<and> length q = length p \<and>
      cs_ok (ip4_total q) \<and> FixIPv4Checksum q = Some q \<and>
      (\<forall>i. i \<noteq> 10 \<and> i \<noteq> 11 \<longrightarrow> q ! i = p ! i) \<and>
      on_prefix FixIPv4Checksum p (ihl4 p) = Some q))"
proof (intro conjI impI)
  assume wf: "ip4_wf p"
  obtain c where c: "on_prefix FixIPv4Checksum p (ihl4 p) = Some (set_field p 10 c)"
    using on_prefix_FixIPv4Checksum [OF wf] by blast
  have "FixIPv4Checksum p = on_prefix FixIPv4Checksum p (ihl4 p)"
  proof -
    have l: "20 \<le> ihl4 p" "ihl4 p \<le> length p" using wf by (simp_all add: ip4_wf_def)
    then have "ihl4 (take (ihl4 p) p) = ihl4 p" "ip4_wf (take (ihl4 p) p)"
      by (auto simp: ihl4_def ip4_wf_def)
    moreover define c where "c = cksum16 (of_nat (ip4_total (set_field p 10 0)))"
    ultimately have "FixIPv4Checksum (take (ihl4 p) p) = Some (set_field (take (ihl4 p) p) 10 c)"
      using l FixIPv4Checksum_computes by (simp add: ip4_total_def take_set_field)
    moreover have "FixIPv4Checksum p = Some (set_field p 10 c)"
      using FixIPv4Checksum_computes [OF wf] by (simp add: c_def)
    moreover have "set_field (take (ihl4 p) p) 10 c @ drop (ihl4 p) p = set_field p 10 c"
      using append_take_drop_id [of "ihl4 p" "set_field p 10 c"] l
      by (simp add: take_set_field drop_set_field_ge)
    ultimately show ?thesis using l by (simp add: on_prefix_def gslice_ok)
  qed
  then show "\<exists>q. FixIPv4Checksum p = Some q \<and> length q = length p \<and>
      cs_ok (ip4_total q) \<and> FixIPv4Checksum q = Some q \<and>
      (\<forall>i. i \<noteq> 10 \<and> i \<noteq> 11 \<longrightarrow> q ! i = p ! i) \<and>
      on_prefix FixIPv4Checksum p (ihl4 p) = Some q"
    using ip4.fixup_correct [OF wf] by auto
qed (simp add: FixIPv4Checksum_def)

theorem FixIPv4Checksum_witness:
  "\<exists>q. FixIPv4Checksum sample_tcp4 = Some q \<and> cs_ok (ip4_total q)"
proof -
  have "ip4_wf sample_tcp4" by code_simp
  then show ?thesis using FixIPv4Checksum_correct [of sample_tcp4] by auto
qed

text \<open>the TCP checksum over IPv6; slices shorter than an IPv6 header are left alone.\<close>
theorem FixTCPChecksumV6_correct:
  "(length p < 40 \<longrightarrow> FixTCPChecksumV6 p = Some p) \<and>
   (tcp6_wf p \<longrightarrow> (\<exists>q. FixTCPChecksumV6 p = Some q \<and> length q = length p \<and>
      cs_ok (tcp6_total q) \<and> FixTCPChecksumV6 q = Some q \<and>
      (\<forall>i. i \<noteq> 56 \<and> i \<noteq> 57 \<longrightarrow> q ! i = p ! i)))"
  using tcp6.fixup_correct [of p] by (auto simp: FixTCPChecksumV6_def)

definition sample_tcp6 :: bytes where
  "sample_tcp6 = [0x60, 0, 0, 0, 0, 23, 6, 64, 0x20, 1, 0, 0, 0, 0, 0, 0, 0, 0, 0, 0, 0, 0, 0, 1,
     0x20, 1, 0, 0, 0, 0, 0, 0, 0, 0, 0, 0, 0, 0, 0, 2,
     0x30, 0x39, 1, 187, 0, 0, 0, 1, 0, 0, 0, 0, 0x50, 2, 0xff, 0xff, 0, 0, 0, 0, 9, 8, 7]"

theorem FixTCPChecksumV6_witness:
  "\<exists>q. FixTCPChecksumV6 sample_tcp6 = Some q \<and> cs_ok (tcp6_total q)"
proof -
  have "tcp6_wf sample_tcp6" by code_simp
  then show ?thesis using FixTCPChecksumV6_correct [of sample_tcp6] by auto
qed

text \<open>the UDP checksum routines over IPv4 and over IPv6. On a datagram whose lengths are
  consistent each returns, changes the checksum field only, makes the datagram verify, is
  idempotent, and never leaves the value zero, which UDP reserves for \<open>no checksum\<close>.\<close>
theorem FixUDPChecksum_correct:
  "(udp4_wf ihl p \<longrightarrow> (\<exists>q. FixUDPChecksum p ihl = Some q \<and> length q = length p \<and>
      cs_ok (udp4_total ihl q) \<and> FixUDPChecksum q ihl = Some q \<and>
      u16 (q ! (ihl + 6)) (q ! Suc (ihl + 6)) \<noteq> 0 \<and>
      (\<forall>i. i \<noteq> ihl + 6 \<and> i \<noteq> Suc (ihl + 6) \<longrightarrow> q ! i = p ! i))) \<and>
   (udp6_wf p \<longrightarrow> (\<exists>q. FixUDPChecksumV6 p = Some q \<and> length q = length p \<and>
      cs_ok (udp6_total q) \<and> FixUDPChecksumV6 q = Some q \<and> u16 (q ! 46) (q ! Suc 46) \<noteq> 0 \<and>
      (\<forall>i. i \<noteq> 46 \<and> i \<noteq> Suc 46 \<longrightarrow> q ! i = p ! i)))"
proof
  show "udp4_wf ihl p \<longrightarrow> (\<exists>q. FixUDPChecksum p ihl = Some q \<and> length q = length p \<and>
      cs_ok (udp4_total ihl q) \<and> FixUDPChecksum q ihl = Some q \<and>
      u16 (q ! (ihl + 6)) (q ! Suc (ihl + 6)) \<noteq> 0 \<and>
      (\<forall>i. i \<noteq> ihl + 6 \<and> i \<noteq> Suc (ihl + 6) \<longrightarrow> q ! i = p ! i))"
    by (rule impI, rule udp4.udp_correct)
qed (rule impI, rule udp6.udp_correct)

definition sample_udp4 :: bytes where
  "sample_udp4 = [0x45, 0, 0, 31, 0, 0, 0, 0, 64, 17, 0, 0, 10, 0, 0, 1, 10, 0, 0, 2,
     0x30, 0x39, 1, 187, 0, 11, 0xde, 0xad, 1, 2, 3]"

theorem FixUDPChecksum_witness:
  "\<exists>q. FixUDPChecksum sample_udp4 20 = Some q \<and> cs_ok (udp4_total 20 q) \<and>
     u16 (q ! 26) (q ! 27) \<noteq> 0"
proof -
  have "udp4_wf 20 sample_udp4" by (simp add: udp4_wf_def sample_udp4_def)
  then obtain q where "FixUDPChecksum sample_udp4 20 = Some q" "cs_ok (udp4_total 20 q)"
      "u16 (q ! (20 + 6)) (q ! Suc (20 + 6)) \<noteq> 0"
    using FixUDPChecksum_correct [of 20 sample_udp4, THEN conjunct1, THEN mp] by blast
  then show ?thesis by simp
qed

end
