(* ===== verification/TcpOptions.thy ===== *)
theory TcpOptions
  imports Checksum
begin

text \<open>
  TCP header options: \<^verbatim>\<open>src/src/sock/sack.go\<close> (SACK removal), \<^verbatim>\<open>tcp_timestamp.go\<close> (lowering the
  timestamp) and \<^verbatim>\<open>tcp_md5.go\<close> (appending an MD5 signature option). Each walks or rebuilds the option
  area of a packet; \<open>tcp_options\<close> is the abstract view, the list of encoded options a receiver
  would read, and the operations are shown to act on that list.
\<close>

section \<open>Shared\<close>

text \<open>\<open>(packet[hdr+12] >> 4) * 4\<close>\<close>
definition doff :: "byte \<Rightarrow> nat" where
  "doff b = unat (drop_bit 4 b * 4)"

text \<open>\<open>(n + 3) &^ 3\<close>\<close>
definition align4 :: "nat \<Rightarrow> nat" where
  "align4 n = (n + 3) - (n + 3) mod 4"

text \<open>\<open>byte((n / 4) << 4)\<close>\<close>
definition doff_byte :: "nat \<Rightarrow> byte" where
  "doff_byte n = of_nat (n div 4 * 16)"

section \<open>\<^verbatim>\<open>sack.go\<close>\<close>

function sack_loop :: "bytes \<Rightarrow> nat \<Rightarrow> nat \<Rightarrow> bytes \<Rightarrow> bytes option" where
  "sack_loop packet i optEnd newOpts =
     (if i < optEnd then do {
        kind \<leftarrow> idx packet i;
        if kind = 0 then Some newOpts
        else if kind = 1 then sack_loop packet (i + 1) optEnd (newOpts @ [1])
        else if i + 1 \<ge> optEnd then Some newOpts
        else do {
          l \<leftarrow> idx packet (i + 1);
          if unat l < 2 \<or> i + unat l > optEnd then Some newOpts
          else if kind \<noteq> 4 \<and> kind \<noteq> 5 then do {
            opt \<leftarrow> gslice packet i (i + unat l);
            sack_loop packet (i + unat l) optEnd (newOpts @ opt) }
          else sack_loop packet (i + unat l) optEnd newOpts } }
      else Some newOpts)"
  by pat_completeness auto
termination
  by (relation "measure (\<lambda>(p, i, e, n). e - i)") auto

declare sack_loop.simps [simp del]

text \<open>Padding, copying and the data offset, the same in both address families.\<close>
definition sack_rebuild :: "bytes \<Rightarrow> nat \<Rightarrow> nat \<Rightarrow> bytes \<Rightarrow> bytes option" where
  "sack_rebuild packet hdr tcpHdrLen newOpts = do {
     let newTCPHdrLen = align4 (20 + length newOpts);
     let newOpts = newOpts @ replicate (newTCPHdrLen - 20 - length newOpts) 0;
     (if hdr + newTCPHdrLen + length packet < hdr + tcpHdrLen then None else Some ());
     let newPkt = mk (hdr + newTCPHdrLen + length packet - (hdr + tcpHdrLen));
     a \<leftarrow> gslice packet 0 hdr;
     newPkt \<leftarrow> copy_into newPkt 0 hdr a;
     b \<leftarrow> gslice packet hdr (hdr + 20);
     newPkt \<leftarrow> copy_into newPkt hdr (hdr + 20) b;
     newPkt \<leftarrow> copy_into newPkt (hdr + 20) (hdr + newTCPHdrLen) newOpts;
     c \<leftarrow> slice_from packet (hdr + tcpHdrLen);
     newPkt \<leftarrow> copy_from newPkt (hdr + newTCPHdrLen) c;
     upd newPkt (hdr + 12) (doff_byte newTCPHdrLen) }"

definition StripSACKFromTCP :: "bytes \<Rightarrow> bytes option" where
  "StripSACKFromTCP packet = do {
     b0 \<leftarrow> idx packet 0;
     let ipHdrLen = hdr4 b0;
     d \<leftarrow> idx packet (ipHdrLen + 12);
     let tcpHdrLen = doff d;
     if tcpHdrLen \<le> 20 then Some packet
     else do {
       newOpts \<leftarrow> sack_loop packet (ipHdrLen + 20) (ipHdrLen + tcpHdrLen) [];
       newPkt \<leftarrow> sack_rebuild packet ipHdrLen tcpHdrLen newOpts;
       newPkt \<leftarrow> put16 newPkt 2 (of_nat (length newPkt));
       newPkt \<leftarrow> on_prefix FixIPv4Checksum newPkt ipHdrLen;
       FixTCPChecksum newPkt } }"

definition StripSACKFromTCPv6 :: "bytes \<Rightarrow> bytes option" where
  "StripSACKFromTCPv6 packet = do {
     d \<leftarrow> idx packet (40 + 12);
     let tcpHdrLen = doff d;
     if tcpHdrLen \<le> 20 then Some packet
     else do {
       newOpts \<leftarrow> sack_loop packet (40 + 20) (40 + tcpHdrLen) [];
       newPkt \<leftarrow> sack_rebuild packet 40 tcpHdrLen newOpts;
       newPkt \<leftarrow> put16 newPkt 4 (of_nat (length newPkt - 40));
       FixTCPChecksumV6 newPkt } }"

section \<open>\<^verbatim>\<open>tcp_timestamp.go\<close>\<close>

text \<open>The loop writes the packet in place and reports whether it found the option.\<close>
function ts_loop :: "bytes \<Rightarrow> uint32 \<Rightarrow> nat \<Rightarrow> nat \<Rightarrow> (bytes \<times> bool) option" where
  "ts_loop packet decrease i optionsEnd =
     (if i < optionsEnd then do {
        kind \<leftarrow> idx packet i;
        if kind = 0 then Some (packet, False)
        else if kind = 1 then ts_loop packet decrease (i + 1) optionsEnd
        else if i + 1 \<ge> optionsEnd then Some (packet, False)
        else do {
          l \<leftarrow> idx packet (i + 1);
          if unat l < 2 \<or> i + unat l > optionsEnd then Some (packet, False)
          else if kind = 8 \<and> unat l = 10 \<and> i + 10 \<le> optionsEnd then do {
            tsval \<leftarrow> be32 packet (i + 2);
            packet \<leftarrow> put32 packet (i + 2) (tsval - decrease);
            Some (packet, True) }
          else ts_loop packet decrease (i + unat l) optionsEnd } }
      else Some (packet, False))"
  by pat_completeness auto
termination
  by (relation "measure (\<lambda>(p, d, i, e). e - i)") auto

declare ts_loop.simps [simp del]

definition DecreaseTCPTimestamp :: "bytes \<Rightarrow> uint32 \<Rightarrow> bool \<Rightarrow> (bytes \<times> bool) option" where
  "DecreaseTCPTimestamp packet decrease isIPv6 = do {
     ipHdrLen \<leftarrow> (if isIPv6 then Some 40 else map_option hdr4 (idx packet 0));
     if length packet < ipHdrLen + 20 then Some (packet, False)
     else do {
       d \<leftarrow> idx packet (ipHdrLen + 12);
       let tcpHdrLen = doff d;
       if tcpHdrLen < 20 \<or> length packet < ipHdrLen + tcpHdrLen then Some (packet, False)
       else ts_loop packet decrease (ipHdrLen + 20) (ipHdrLen + tcpHdrLen) } }"

section \<open>\<^verbatim>\<open>tcp_md5.go\<close>\<close>

text \<open>The copies that make room for the option, and the new data offset.\<close>
definition md5_insert :: "bytes \<Rightarrow> nat \<Rightarrow> nat \<Rightarrow> bytes \<Rightarrow> bytes option" where
  "md5_insert packet ipHdrLen tcpHdrLen md5Opt = do {
     let payloadStart = ipHdrLen + tcpHdrLen;
     let newTCPHdrLen = tcpHdrLen + 20;
     let newPacket = mk (length packet + 20);
     a \<leftarrow> gslice packet 0 ipHdrLen;
     newPacket \<leftarrow> copy_into newPacket 0 ipHdrLen a;
     b \<leftarrow> gslice packet ipHdrLen (ipHdrLen + 20);
     newPacket \<leftarrow> copy_into newPacket ipHdrLen (ipHdrLen + 20) b;
     newPacket \<leftarrow> (if tcpHdrLen > 20 then do {
         c \<leftarrow> gslice packet (ipHdrLen + 20) (ipHdrLen + tcpHdrLen);
         copy_into newPacket (ipHdrLen + 20) (ipHdrLen + tcpHdrLen) c }
       else Some newPacket);
     newPacket \<leftarrow> copy_into newPacket (ipHdrLen + tcpHdrLen) (ipHdrLen + tcpHdrLen + 20) md5Opt;
     newPacket \<leftarrow> (if payloadStart < length packet then do {
         e \<leftarrow> slice_from packet payloadStart;
         copy_from newPacket (ipHdrLen + newTCPHdrLen) e }
       else Some newPacket);
     o12 \<leftarrow> idx newPacket (ipHdrLen + 12);
     upd newPacket (ipHdrLen + 12) (doff_byte newTCPHdrLen OR (o12 AND 0x0F)) }"

text \<open>\<open>rnd\<close> is what \<open>rand.Read(md5Opt[4:20])\<close> fills in.\<close>
definition AddTCPMD5Option :: "bytes \<Rightarrow> bytes \<Rightarrow> bool \<Rightarrow> bytes option" where
  "AddTCPMD5Option rnd packet isIPv6 = do {
     ipHdrLen \<leftarrow> (if isIPv6 then Some 40 else map_option hdr4 (idx packet 0));
     if length packet < ipHdrLen + 20 then Some packet
     else do {
       d \<leftarrow> idx packet (ipHdrLen + 12);
       let tcpHdrLen = doff d;
       md5Opt \<leftarrow> copy_into ([1, 1, 19, 18] @ mk 16) 4 20 rnd;
       if tcpHdrLen + 20 > 60 then Some packet
       else do {
         newPacket \<leftarrow> md5_insert packet ipHdrLen tcpHdrLen md5Opt;
         if isIPv6 then do {
           newPacket \<leftarrow> put16 newPacket 4 (of_nat (length newPacket) - 40);
           FixTCPChecksumV6 newPacket }
         else do {
           newPacket \<leftarrow> put16 newPacket 2 (of_nat (length newPacket));
           newPacket \<leftarrow> on_prefix FixIPv4Checksum newPacket ipHdrLen;
           FixTCPChecksum newPacket } } } }"

section \<open>The abstract view of an option area\<close>

function tcp_options :: "bytes \<Rightarrow> bytes list" where
  "tcp_options [] = []"
| "tcp_options (k # r) =
     (if k = 0 then []
      else if k = 1 then [1] # tcp_options r
      else case r of
          [] \<Rightarrow> []
        | l # _ \<Rightarrow>
            if unat l < 2 \<or> length (k # r) < unat l then []
            else take (unat l) (k # r) # tcp_options (drop (unat l) (k # r)))"
  by pat_completeness auto
termination
  by (relation "measure length") auto

declare tcp_options.simps [simp del]

lemma tcp_options_Nil [simp]: "tcp_options [] = []"
  by (simp add: tcp_options.simps)

text \<open>A well-formed option: a single NOP, or kind, length byte and data of that length.\<close>
definition opt_wf :: "bytes \<Rightarrow> bool" where
  "opt_wf op \<longleftrightarrow> op = [1] \<or> (2 \<le> length op \<and> op ! 0 \<noteq> 0 \<and> op ! 0 \<noteq> 1 \<and> unat (op ! 1) = length op)"

definition not_sack :: "bytes \<Rightarrow> bool" where
  "not_sack op \<longleftrightarrow> op ! 0 \<noteq> 4 \<and> op ! 0 \<noteq> 5"

lemma tcp_options_wf: "op \<in> set (tcp_options xs) \<Longrightarrow> opt_wf op"
proof (induction xs rule: tcp_options.induct)
  case (2 k r)
  show ?case
  proof (cases r)
    case Nil
    then show ?thesis using 2 by (auto simp: tcp_options.simps opt_wf_def split: if_splits)
  next
    case (Cons l r')
    then show ?thesis using 2
      by (auto simp: tcp_options.simps(2) opt_wf_def nth_Cons' split: if_splits)
  qed
qed simp

lemma tcp_options_length: "length (concat (tcp_options xs)) \<le> length xs"
proof (induction xs rule: tcp_options.induct)
  case (2 k r)
  then show ?case by (cases r) (auto simp: tcp_options.simps(2))
qed simp

lemma length_concat_filter: "length (concat (filter P xss)) \<le> length (concat xss)"
  by (induction xss) auto

lemma tcp_options_one:
  assumes "opt_wf op"
  shows "tcp_options (op @ xs) = op # tcp_options xs"
proof (cases "op = [1]")
  case True
  then show ?thesis by (simp add: tcp_options.simps)
next
  case False
  then obtain k l r where op: "op = k # l # r" "k \<noteq> 0" "k \<noteq> 1" "unat l = length op"
    using assms by (auto simp: opt_wf_def Suc_le_length_iff numeral_2_eq_2)
  have "take (unat l) (op @ xs) = op" "drop (unat l) (op @ xs) = xs"
    by (simp_all only: op(4) append_eq_conv_conj [THEN iffD1, OF refl, THEN conjunct1] take_append
        drop_append) simp_all
  then show ?thesis using op
    by (simp add: tcp_options.simps(2))
qed

lemma tcp_options_concat:
  "(\<And>op. op \<in> set os \<Longrightarrow> opt_wf op) \<Longrightarrow> tcp_options (concat os @ replicate n 0) = os"
proof (induction os)
  case Nil
  then show ?case by (cases n) (simp_all add: tcp_options.simps)
next
  case (Cons op os)
  then show ?case by (simp add: tcp_options_one)
qed

lemma take_drop_Cons: "i < e \<Longrightarrow> e \<le> length p \<Longrightarrow>
   take (e - i) (drop i p) = p ! i # take (e - Suc i) (drop (Suc i) p)"
  by (metis Cons_nth_drop_Suc Suc_diff_Suc order_less_le_trans take_Suc_Cons)

text \<open>The options in \<open>p[i:e]\<close>, unfolded the way the loops walk them.\<close>

definition opts_at :: "bytes \<Rightarrow> nat \<Rightarrow> nat \<Rightarrow> bytes list" where
  "opts_at p i e = tcp_options (take (e - i) (drop i p))"

lemma opts_at_done: "\<not> i < e \<Longrightarrow> opts_at p i e = []"
  by (simp add: opts_at_def)

lemma opts_at_unfold:
  assumes "i < e" "e \<le> length p"
  shows "opts_at p i e =
     (if p ! i = 0 then []
      else if p ! i = 1 then [1] # opts_at p (i + 1) e
      else if i + 1 \<ge> e then []
      else if unat (p ! (i + 1)) < 2 \<or> i + unat (p ! (i + 1)) > e then []
      else take (unat (p ! (i + 1))) (drop i p) # opts_at p (i + unat (p ! (i + 1))) e)"
proof (cases "i + 1 < e")
  case False
  then have "e = Suc i" using assms(1) by simp
  then show ?thesis using assms(2)
    by (simp add: opts_at_def take_Suc_conv_app_nth tcp_options.simps)
next
  case True
  let ?n = "unat (p ! (i + 1))"
  let ?r = "take (e - Suc (Suc i)) (drop (Suc (Suc i)) p)"
  let ?ys = "p ! i # p ! (i + 1) # ?r"
  have xs: "take (e - i) (drop i p) = ?ys"
      "take (e - (i + 1)) (drop (i + 1) p) = p ! (i + 1) # ?r"
    using assms True by (simp_all add: take_drop_Cons)
  have d: "drop n ?ys = take (e - (i + n)) (drop (i + n) p)" for n
    unfolding xs(1) [symmetric] by (simp add: drop_take add.commute)
  have t: "i + n \<le> e \<Longrightarrow> take n ?ys = take n (drop i p)" for n
    unfolding xs(1) [symmetric] by simp
  have len: "length (p ! (i + 1) # ?r) = e - Suc i"
    using assms True unfolding xs(2) [symmetric] by simp
  have l: "e < i + n \<longleftrightarrow> length ?ys < n" for n
    using len True by auto
  show ?thesis
    unfolding opts_at_def xs l
    using True t [of ?n] d [of ?n] l [of ?n]
    by (subst tcp_options.simps(2)) (auto simp del: drop_Suc_Cons take_Suc_Cons)
qed

section \<open>SACK removal acts on the option list\<close>

lemma sack_loop_options:
  "e \<le> length p \<Longrightarrow> sack_loop p i e acc = Some (acc @ concat (filter not_sack (opts_at p i e)))"
proof (induction p i e acc rule: sack_loop.induct)
  case (1 p i e acc)
  show ?case
  proof (cases "i < e")
    case False
    then show ?thesis by (simp add: sack_loop.simps opts_at_done)
  next
    case True
    then have "idx p i = Some (p ! i)" "i + 1 < e \<Longrightarrow> idx p (i + 1) = Some (p ! (i + 1))"
      using "1.prems" by (simp_all add: go_simps)
    then show ?thesis
      using 1 True opts_at_unfold [OF True "1.prems"]
      by (simp add: sack_loop.simps [of p i] not_sack_def gslice_ok)
  qed
qed

section \<open>Header length and alignment\<close>

lemma doff_eq: "doff b = 4 * (unat b div 16)"
proof -
  have "unat (drop_bit 4 b) = unat b div 16"
    by (simp add: drop_bit_eq_div unat_div)
  then show ?thesis using unat_byte_bound [of b] by (simp add: doff_def unat_word_ariths)
qed

lemma doff_le: "doff b \<le> 60"
  using unat_byte_bound [of b] by (simp add: doff_eq)

lemma doff_dvd: "4 dvd doff b"
  by (simp add: doff_eq)

lemma unat_doff_byte: "n \<le> 60 \<Longrightarrow> unat (doff_byte n) = n div 4 * 16"
  by (simp add: doff_byte_def unat_of_nat del: of_nat_mult)

lemma doff_doff_byte: "n \<le> 60 \<Longrightarrow> 4 dvd n \<Longrightarrow> doff (doff_byte n) = n"
  by (simp add: doff_eq unat_doff_byte)

lemma doff_or:
  assumes "n \<le> 60" "4 dvd n"
  shows "doff (doff_byte n OR (b AND 15)) = n"
proof -
  have "drop_bit 4 (b AND 15 :: byte) = 0"
    by simp
  then have "drop_bit 4 (doff_byte n OR (b AND 15)) = drop_bit 4 (doff_byte n)"
    by simp
  then show ?thesis
    using doff_doff_byte [OF assms] by (simp add: doff_def)
qed

lemma align4_ge: "n \<le> align4 n"
  using mod_less_divisor [of 4 "n + 3"] by (simp add: align4_def)

lemma align4_dvd: "4 dvd align4 n"
  by (simp add: align4_def)

lemma align4_div: "align4 n = (n + 3) div 4 * 4"
  by (simp add: align4_def minus_mod_eq_div_mult)

lemma align4_le: "n \<le> m \<Longrightarrow> 4 dvd m \<Longrightarrow> align4 n \<le> m"
  by (auto simp: align4_div dvd_def)

section \<open>Views of a TCP packet\<close>

definition thl_at :: "nat \<Rightarrow> bytes \<Rightarrow> nat" where
  "thl_at h p = doff (p ! (h + 12))"

definition options_at :: "nat \<Rightarrow> bytes \<Rightarrow> bytes list" where
  "options_at h p = opts_at p (h + 20) (h + thl_at h p)"

definition payload_at :: "nat \<Rightarrow> bytes \<Rightarrow> bytes" where
  "payload_at h p = drop (h + thl_at h p) p"

lemma sack_rebuild_ok:
  fixes os :: bytes
  assumes "h + t \<le> length p" "20 \<le> t"
  defines "N \<equiv> align4 (20 + length os)"
  shows "sack_rebuild p h t os =
     Some ((take (h + 20) p)[h + 12 := doff_byte N]
           @ os @ replicate (N - 20 - length os) 0 @ drop (h + t) p)"
proof -
  have N: "20 + length os \<le> N" unfolding N_def by (rule align4_ge)
  define os' where "os' = os @ replicate (N - 20 - length os) 0"
  define T where "T = h + N + length p - (h + t)"
  have len: "length os' = N - 20" using N by (simp add: os'_def)
  have h20: "take h p @ take 20 (drop h p) = take (h + 20) p" by (simp add: take_add)
  have s1: "copy_into (mk T) 0 h (take h p) = Some (take h p @ mk (T - h))"
    using assms(1,2) N by (simp add: copy_into_mk0 T_def)
  have s2: "copy_into (take h p @ mk (T - h)) h (h + 20) (take 20 (drop h p))
      = Some (take (h + 20) p @ mk (T - (h + 20)))"
    using assms(1,2) N by (subst copy_into_mk) (auto simp: T_def h20 add.assoc)
  have s3: "copy_into (take (h + 20) p @ mk (T - (h + 20))) (h + 20) (h + N) os'
      = Some ((take (h + 20) p @ os') @ mk (T - (h + 20 + length os')))"
    using assms(1,2) N len by (subst copy_into_mk) (auto simp: T_def)
  have s4: "copy_from ((take (h + 20) p @ os') @ mk (T - (h + 20 + length os'))) (h + N)
        (drop (h + t) p) = Some ((take (h + 20) p @ os') @ drop (h + t) p)"
    using assms(1,2) N len by (subst copy_from_mk) (auto simp: T_def)
  have g: "gslice p 0 h = Some (take h p)" "gslice p h (h + 20) = Some (take 20 (drop h p))"
      "slice_from p (h + t) = Some (drop (h + t) p)"
    using assms(1,2) by (simp_all add: go_simps)
  have nn: "\<not> h + N + length p < h + t" using assms(1) by simp
  show ?thesis
    unfolding sack_rebuild_def Let_def N_def [symmetric] os'_def [symmetric] T_def [symmetric]
    using assms(1,2)
    by (simp add: nn g s1 s2 s3 s4 upd_ok list_update_append del: append_assoc)
       (simp add: os'_def)
qed

text \<open>The rebuilt packet before lengths and checksums are written.\<close>

definition stripped :: "nat \<Rightarrow> bytes \<Rightarrow> bytes" where
  "stripped h p =
     (let os = concat (filter not_sack (options_at h p)); N = align4 (20 + length os)
      in (take (h + 20) p)[h + 12 := doff_byte N]
         @ os @ replicate (N - 20 - length os) 0 @ payload_at h p)"

lemma options_at_length: 
  "length (concat (filter not_sack (options_at h p))) \<le> thl_at h p - 20"
  using le_trans [OF length_concat_filter tcp_options_length]
  by (fastforce simp: options_at_def opts_at_def min_def intro: order_trans)

lemma stripped_facts:
  assumes "h + thl_at h p \<le> length p" "20 \<le> thl_at h p"
  shows "options_at h (stripped h p) = filter not_sack (options_at h p)"
    and "payload_at h (stripped h p) = payload_at h p"
    and "h + 20 \<le> length (stripped h p)" "length (stripped h p) \<le> length p"
    and "i < h + 20 \<Longrightarrow> i \<noteq> h + 12 \<Longrightarrow> stripped h p ! i = p ! i"
    and "20 \<le> thl_at h (stripped h p)"
proof -
  define os where "os = concat (filter not_sack (options_at h p))"
  define N where "N = align4 (20 + length os)"
  let ?H = "(take (h + 20) p)[h + 12 := doff_byte N]"
  let ?q = "?H @ os @ replicate (N - 20 - length os) 0 @ payload_at h p"
  have q: "stripped h p = ?q"
    by (simp add: stripped_def os_def N_def Let_def)
  have N: "20 + length os \<le> N" "4 dvd N"
    unfolding N_def by (rule align4_ge align4_dvd)+
  have osl: "20 + length os \<le> thl_at h p"
    using options_at_length [of h p] assms(2) by (simp add: os_def)
  then have Nt: "N \<le> thl_at h p"
    unfolding N_def by (rule align4_le) (simp add: thl_at_def doff_dvd)
  then have N60: "N \<le> 60" using doff_le le_trans unfolding thl_at_def by blast
  have lenH: "length ?H = h + 20" using assms by simp
  have t: "thl_at h ?q = N"
    using assms N N60 by (simp add: thl_at_def nth_append doff_doff_byte)
  have o: "opts_at ?q (h + 20) (h + N) = tcp_options (os @ replicate (N - 20 - length os) 0)"
    using N lenH by (simp add: opts_at_def)
  have "tcp_options (os @ replicate n 0) = filter not_sack (options_at h p)" for n
    unfolding os_def
    by (rule tcp_options_concat) (auto simp: options_at_def opts_at_def dest: tcp_options_wf)
  then show "options_at h (stripped h p) = filter not_sack (options_at h p)"
    by (simp only: q options_at_def [of h ?q] t o)
  show "payload_at h (stripped h p) = payload_at h p"
    unfolding q payload_at_def [of h ?q] t using N lenH by simp
  show "h + 20 \<le> length (stripped h p)" using lenH by (simp add: q)
  show "length (stripped h p) \<le> length p"
    using lenH N Nt assms by (simp add: q payload_at_def)
  show "stripped h p ! i = p ! i" if "i < h + 20" "i \<noteq> h + 12"
    using that lenH assms by (simp add: q nth_append)
  show "20 \<le> thl_at h (stripped h p)" using N t by (simp add: q)
qed

text \<open>Writing a 16-bit field in the headers leaves options, payload and data offset alone.\<close>

lemma opts_at_field: "j + 2 \<le> i \<Longrightarrow> opts_at (set_field p j c) i e = opts_at p i e"
  by (simp add: opts_at_def drop_set_field_ge)

lemma thl_at_field [simp]:
  "j \<noteq> h + 12 \<Longrightarrow> j + 1 \<noteq> h + 12 \<Longrightarrow> thl_at h (set_field p j c) = thl_at h p"
  by (simp add: thl_at_def)

lemma options_at_field:
  "j + 2 \<le> h + 20 \<Longrightarrow> j \<noteq> h + 12 \<Longrightarrow> j + 1 \<noteq> h + 12 \<Longrightarrow>
   options_at h (set_field p j c) = options_at h p"
  by (simp add: options_at_def opts_at_field)

lemma payload_at_field:
  "j + 2 \<le> h + 20 \<Longrightarrow> j \<noteq> h + 12 \<Longrightarrow> j + 1 \<noteq> h + 12 \<Longrightarrow> 20 \<le> thl_at h p \<Longrightarrow>
   payload_at h (set_field p j c) = payload_at h p"
  by (simp add: payload_at_def drop_set_field_ge)

lemmas field_views = options_at_field payload_at_field

lemma sack_strip_eq:
  assumes "h + thl_at h p \<le> length p" "20 \<le> thl_at h p"
  shows "sack_loop p (h + 20) (h + thl_at h p) [] \<bind> sack_rebuild p h (thl_at h p)
    = Some (stripped h p)"
  using assms
  by (simp add: sack_loop_options sack_rebuild_ok stripped_def Let_def payload_at_def
      options_at_def)

lemma unat_of_nat16: "n < 65536 \<Longrightarrow> unat (of_nat n :: uint16) = n"
  by (simp add: unat_of_nat)

lemma tot4_set: "4 \<le> length p \<Longrightarrow> n < 65536 \<Longrightarrow> tot4 (set_field p 2 (of_nat n)) = n"
  by (simp add: tot4_def set_field_def unat_of_nat16)

lemma plen6_set: "6 \<le> length p \<Longrightarrow> n < 65536 \<Longrightarrow> plen6 (set_field p 4 (of_nat n)) = n"
  by (simp add: plen6_def set_field_def unat_of_nat16)

lemma StripSACK4_strips:
  assumes "20 \<le> ihl4 p" "ihl4 p + thl_at (ihl4 p) p \<le> length p"
    and "20 < thl_at (ihl4 p) p" "length p < 65536"
  shows "\<exists>q. StripSACKFromTCP p = Some q \<and> valid4 q \<and> ihl4 q = ihl4 p \<and>
     options_at (ihl4 p) q = filter not_sack (options_at (ihl4 p) p) \<and>
     payload_at (ihl4 p) q = payload_at (ihl4 p) p \<and>
     (\<forall>i < ihl4 p + 20. i \<notin> {2, 3, 10, 11, ihl4 p + 12, ihl4 p + 16, ihl4 p + 17}
        \<longrightarrow> q ! i = p ! i)"
proof -
  let ?h = "ihl4 p"
  let ?s = "stripped ?h p"
  let ?t = "set_field ?s 2 (of_nat (length ?s))"
  have t20: "20 \<le> thl_at ?h p" using assms(3) by simp
  note f = stripped_facts [OF assms(2) t20]
  have h: "ihl4 ?s = ?h" using f(5) [of 0] assms(1) by (simp add: ihl4_def)
  have len: "length ?s < 65536" using f(4) assms(4) by simp
  have "tot4 ?t = length ?t" using len f(3) assms(1) by (simp add: tot4_set)
  then obtain c d q where q: "on_prefix FixIPv4Checksum ?t ?h = Some (set_field ?t 10 c)"
      "FixTCPChecksum (set_field ?t 10 c) = Some q"
      "q = set_field (set_field ?t 10 c) (?h + 16) d" "valid4 q"
    using fix_both4 [of ?t] h f(3) assms(1) by auto
  have p16: "put16 ?s 2 (of_nat (length ?s)) = Some ?t"
    using f(3) by (simp add: put16_set_field)
  have ne: "p \<noteq> []" "idx p (?h + 12) = Some (p ! (?h + 12))"
    using assms by (auto simp: go_simps)
  have strip: "sack_loop p (?h + 20) (?h + thl_at ?h p) [] \<bind> sack_rebuild p ?h (thl_at ?h p)
    = Some ?s"
    by (rule sack_strip_eq [OF assms(2) t20])
  have "StripSACKFromTCP p = Some q"
    using assms(3) ne strip p16 q(1,2)
    by (auto simp: StripSACKFromTCP_def idx_0 Let_def bind_eq_Some_conv simp flip: ihl4_def thl_at_def)
  moreover have "options_at ?h q = filter not_sack (options_at ?h p)"
      "payload_at ?h q = payload_at ?h p"
    using f(1,2,6) assms(1) by (simp_all add: q(3) field_views)
  moreover have "\<forall>i < ?h + 20. i \<notin> {2, 3, 10, 11, ?h + 12, ?h + 16, ?h + 17} \<longrightarrow> q ! i = p ! i"
    using f(5) by (simp add: q(3))
  ultimately show ?thesis using q(4) h assms(1) by (auto simp: q(3))
qed

text \<open>C10: SACK removal on IPv4. For a packet whose stated header lengths fit, the result is a packet
  with correct length and checksums, exactly the other TCP options in their order, the same
  payload, and headers that differ only in length, data offset and checksums.\<close>
theorem StripSACKFromTCP_correct:
  assumes "20 \<le> ihl4 p" "ihl4 p + thl_at (ihl4 p) p \<le> length p"
    and "20 < thl_at (ihl4 p) p" "length p < 65536"
  shows "\<exists>q. StripSACKFromTCP p = Some q \<and> valid4 q \<and> ihl4 q = ihl4 p \<and>
     options_at (ihl4 p) q = filter not_sack (options_at (ihl4 p) p) \<and>
     payload_at (ihl4 p) q = payload_at (ihl4 p) p \<and>
     (\<forall>i < ihl4 p + 20. i \<notin> {2, 3, 10, 11, ihl4 p + 12, ihl4 p + 16, ihl4 p + 17}
        \<longrightarrow> q ! i = p ! i)"
  using assms by (rule StripSACK4_strips)

text \<open>A SYN with options SACK-permitted, NOP, NOP, MSS, NOP, window scale, and four payload bytes.\<close>
definition sample_syn :: bytes where
  "sample_syn = [0x45, 0, 0, 56, 0, 1, 0, 0, 64, 6, 0, 0, 10, 0, 0, 1, 10, 0, 0, 2,
     0x30, 0x39, 1, 187, 0, 0, 0, 1, 0, 0, 0, 0, 0x80, 2, 0xff, 0xff, 0, 0, 0, 0,
     4, 2, 1, 1, 2, 4, 5, 180, 1, 3, 3, 7, 1, 2, 3, 4]"

lemma sample_syn_eval:
  "ihl4 sample_syn = 20" "thl_at 20 sample_syn = 32" "length sample_syn = 56"
  "options_at 20 sample_syn = [[4, 2], [1], [1], [2, 4, 5, 180], [1], [3, 3, 7]]"
  by code_simp+

theorem StripSACKFromTCP_witness:
  "\<exists>q. StripSACKFromTCP sample_syn = Some q \<and> valid4 q \<and>
     options_at 20 q = [[1], [1], [2, 4, 5, 180], [1], [3, 3, 7]]"
  using StripSACKFromTCP_correct [of sample_syn]
  by (simp add: sample_syn_eval not_sack_def) blast

text \<open>SACK removal on IPv6, with the same guarantees.\<close>
theorem StripSACKFromTCPv6_correct:
  assumes "40 + thl_at 40 p \<le> length p" "20 < thl_at 40 p" "length p < 65576"
  shows "\<exists>q. StripSACKFromTCPv6 p = Some q \<and> valid6 q \<and>
     options_at 40 q = filter not_sack (options_at 40 p) \<and>
     payload_at 40 q = payload_at 40 p \<and>
     (\<forall>i < 60. i \<notin> {4, 5, 52, 56, 57} \<longrightarrow> q ! i = p ! i)"
proof -
  let ?s = "stripped 40 p"
  let ?t = "set_field ?s 4 (of_nat (length ?s - 40))"
  have t20: "20 \<le> thl_at 40 p" using assms(2) by simp
  note f = stripped_facts [OF assms(1) t20]
  have len: "length ?s - 40 < 65536" "60 \<le> length ?s" using f(3,4) assms(3) by simp_all
  have "40 + plen6 ?t = length ?t" using len by (simp add: plen6_set del: of_nat_diff)
  then obtain d where q: "FixTCPChecksumV6 ?t = Some (set_field ?t 56 d)"
      "valid6 (set_field ?t 56 d)"
    using fix_tcp6 [of ?t] len by auto
  have p16: "put16 ?s 4 (of_nat (length ?s - 40)) = Some ?t"
    using len by (simp add: put16_set_field)
  have "sack_loop p 60 (40 + thl_at 40 p) [] \<bind> sack_rebuild p 40 (thl_at 40 p) = Some ?s"
    using sack_strip_eq [OF assms(1) t20] by simp
  moreover have "idx p 52 = Some (p ! 52)" using assms by (simp add: go_simps)
  ultimately have "StripSACKFromTCPv6 p = Some (set_field ?t 56 d)"
    using assms(2) p16 q(1)
    by (auto simp: StripSACKFromTCPv6_def Let_def bind_eq_Some_conv thl_at_def
        simp del: of_nat_diff)
  then show ?thesis
    using q(2) f(1,2,6) f(5) by (auto simp: field_views)
qed

definition sample_syn6 :: bytes where
  "sample_syn6 = [0x60, 0, 0, 0, 0, 28, 6, 64, 0x20, 1, 0, 0, 0, 0, 0, 0, 0, 0, 0, 0, 0, 0, 0, 1,
     0x20, 1, 0, 0, 0, 0, 0, 0, 0, 0, 0, 0, 0, 0, 0, 2,
     0x30, 0x39, 1, 187, 0, 0, 0, 1, 0, 0, 0, 0, 0x70, 2, 0xff, 0xff, 0, 0, 0, 0,
     4, 2, 1, 1, 2, 4, 5, 180]"

theorem StripSACKFromTCPv6_witness:
  "\<exists>q. StripSACKFromTCPv6 sample_syn6 = Some q \<and> valid6 q \<and>
     options_at 40 q = [[1], [1], [2, 4, 5, 180]]"
proof -
  have "thl_at 40 sample_syn6 = 28" "length sample_syn6 = 68"
      "options_at 40 sample_syn6 = [[4, 2], [1], [1], [2, 4, 5, 180]]"
    by code_simp+
  then show ?thesis
    using StripSACKFromTCPv6_correct [of sample_syn6] by (simp add: not_sack_def) blast
qed

section \<open>The timestamp option\<close>

text \<open>The first timestamp option of the list has its value lowered, modulo \<open>2\<^sup>3\<^sup>2\<close>.\<close>

definition is_ts :: "bytes \<Rightarrow> bool" where
  "is_ts op \<longleftrightarrow> op ! 0 = 8 \<and> length op = 10"

definition tsval :: "bytes \<Rightarrow> uint32" where
  "tsval op = u32 (u16 (op ! 2) (op ! 3)) (u16 (op ! 4) (op ! 5))"

definition set_tsval :: "bytes \<Rightarrow> uint32 \<Rightarrow> bytes" where
  "set_tsval op v = op[2 := hi8 (hi16 v), 3 := lo8 (hi16 v), 4 := hi8 (lo16 v), 5 := lo8 (lo16 v)]"

fun dec_first :: "uint32 \<Rightarrow> bytes list \<Rightarrow> bytes list \<times> bool" where
  "dec_first d [] = ([], False)"
| "dec_first d (op # os) =
     (if is_ts op then (set_tsval op (tsval op - d) # os, True)
      else (let (r, b) = dec_first d os in (op # r, b)))"

lemma opts_at_cong:
  assumes "\<And>j. i \<le> j \<Longrightarrow> j < e \<Longrightarrow> q ! j = p ! j" "length q = length p" "e \<le> length p"
  shows "opts_at q i e = opts_at p i e"
proof -
  have "take (e - i) (drop i q) = take (e - i) (drop i p)"
    by (rule nth_equalityI) (use assms in auto)
  then show ?thesis by (simp add: opts_at_def)
qed

lemma take_drop_cong:
  assumes "\<And>j. i \<le> j \<Longrightarrow> j < i + n \<Longrightarrow> q ! j = p ! j" "length q = length p"
  shows "take n (drop i q) = take n (drop i p)"
  by (rule nth_equalityI) (use assms in auto)

definition ts_result :: "bytes \<Rightarrow> uint32 \<Rightarrow> nat \<Rightarrow> nat \<Rightarrow> bytes \<times> bool \<Rightarrow> bool" where
  "ts_result p d i e r \<longleftrightarrow> length (fst r) = length p \<and>
     (opts_at (fst r) i e, snd r) = dec_first d (opts_at p i e) \<and>
     (\<forall>j. (j < i \<or> e \<le> j) \<longrightarrow> fst r ! j = p ! j)"

lemma ts_result_skip:
  assumes "ts_result p d (i + n) e r" "i + n \<le> e" "e \<le> length p" "0 < n"
    and hd: "opts_at p i e = take n (drop i p) # opts_at p (i + n) e"
    and hd': "opts_at (fst r) i e = take n (drop i (fst r)) # opts_at (fst r) (i + n) e"
    and "\<not> is_ts (take n (drop i p))"
  shows "ts_result p d i e r"
proof -
  have same: "take n (drop i (fst r)) = take n (drop i p)"
    by (rule take_drop_cong) (use assms(1) in \<open>auto simp: ts_result_def\<close>)
  have "dec_first d (opts_at p i e) = (opts_at (fst r) i e, snd r)"
    using assms(1,7) by (simp add: hd hd' same ts_result_def split: prod.splits) (metis prod.inject)
  then show ?thesis using assms(1) by (auto simp: ts_result_def)
qed

lemma ts_hit:
  assumes "i + 10 \<le> e" "e \<le> length p" "p ! i = 8" "unat (p ! (i + 1)) = 10"
    and "v = u32 (u16 (p ! (i + 2)) (p ! (i + 3))) (u16 (p ! (i + 4)) (p ! (i + 5))) - d"
    and "q = p[i + 2 := hi8 (hi16 v), i + 3 := lo8 (hi16 v), i + 4 := hi8 (lo16 v),
               i + 5 := lo8 (lo16 v)]"
  shows "ts_result p d i e (q, True)"
proof -
  let ?op = "take 10 (drop i p)"
  have nth: "?op ! k = p ! (i + k)" if "k < 10" for k
    using that assms by simp
  have v: "v = tsval ?op - d" using assms(1,2,5) by (simp add: tsval_def)
  have opq: "take 10 (drop i q) = set_tsval ?op v"
  proof (rule nth_equalityI)
    fix k assume "k < length (take 10 (drop i q))"
    then have k: "k < 10" "i + k < length p" using assms by auto
    show "take 10 (drop i q) ! k = set_tsval ?op v ! k"
      using k assms(1,2) by (simp add: assms(6) set_tsval_def nth_list_update')
  qed (use assms in \<open>simp add: set_tsval_def\<close>)
  have hd: "opts_at p i e = ?op # opts_at p (i + 10) e"
    using assms opts_at_unfold [of i e p] by simp
  have q': "q ! i = 8" "q ! (i + 1) = p ! (i + 1)" "length q = length p"
    using assms by (simp_all add: assms(6))
  then have hdq: "opts_at q i e = take 10 (drop i q) # opts_at q (i + 10) e"
    using assms opts_at_unfold [of i e q] by simp
  have "opts_at q (i + 10) e = opts_at p (i + 10) e"
    by (rule opts_at_cong) (use assms in auto)
  moreover have "is_ts ?op" using assms by (simp add: is_ts_def)
  moreover have "j < i \<or> e \<le> j \<Longrightarrow> q ! j = p ! j" for j
    using assms(1) by (auto simp: assms(6))
  ultimately show ?thesis
    using q'(3) v by (simp add: ts_result_def hd hdq opq)
qed

lemma ts_loop_result:
  "e \<le> length p \<Longrightarrow> i \<le> e \<Longrightarrow> \<exists>r. ts_loop p d i e = Some r \<and> ts_result p d i e r"
proof (induction p d i e rule: ts_loop.induct)
  case (1 p d i e)
  show ?case
  proof (cases "i < e")
    case False
    then show ?thesis by (simp add: ts_loop.simps ts_result_def opts_at_done)
  next
    case True
    note unf = opts_at_unfold [OF True "1.prems"(1)]
    let ?n = "unat (p ! (i + 1))"
    have ix: "idx p i = Some (p ! i)" "i + 1 < e \<Longrightarrow> idx p (i + 1) = Some (p ! (i + 1))"
      using "1.prems" True by (simp_all add: go_simps)
    consider (stop) "p ! i = 0 \<or> p ! i \<noteq> 1 \<and> (\<not> i + 1 < e \<or> \<not> 2 \<le> ?n \<or> \<not> i + ?n \<le> e)"
      | (nop) "p ! i = 1"
      | (hit) "p ! i = 8" "?n = 10" "i + ?n \<le> e"
      | (skip) "p ! i \<noteq> 0" "p ! i \<noteq> 1" "i + 1 < e" "2 \<le> ?n" "i + ?n \<le> e"
          "\<not> (p ! i = 8 \<and> ?n = 10)"
      by argo
    then show ?thesis
    proof cases
      case stop
      then have "opts_at p i e = []" using unf by auto
      moreover have "ts_loop p d i e = Some (p, False)"
        using stop True ix by (cases "i + 1 < e") (auto simp: ts_loop.simps [of p d i e])
      ultimately show ?thesis by (simp add: ts_result_def)
    next
      case nop
      then obtain r where r: "ts_loop p d (i + 1) e = Some r" "ts_result p d (i + 1) e r"
        using "1.IH"(1) [OF True ix(1)] "1.prems" True by auto
      have r': "fst r ! i = 1" "length (fst r) = length p"
        using nop r(2) by (simp_all add: ts_result_def)
      have t: "take 1 (drop i q) = [q ! i]" if "i < length q" for q :: bytes
        using that by (simp add: take_Suc_conv_app_nth)
      have hd: "opts_at p i e = take 1 (drop i p) # opts_at p (i + 1) e"
        using unf nop t [of p] True "1.prems"(1) by simp
      have hd': "opts_at (fst r) i e = take 1 (drop i (fst r)) # opts_at (fst r) (i + 1) e"
        using opts_at_unfold [of i e "fst r"] r' t [of "fst r"] True "1.prems"(1) by simp
      have "\<not> is_ts (take 1 (drop i p))" by (auto simp: is_ts_def min_def)
      then have "ts_result p d i e r"
        using ts_result_skip [OF r(2) _ _ _ hd hd'] True "1.prems"(1) by simp
      then show ?thesis using nop True ix r(1) by (simp add: ts_loop.simps [of p d i])
    next
      case hit
      let ?v = "u32 (u16 (p ! (i + 2)) (p ! (i + 3))) (u16 (p ! (i + 4)) (p ! (i + 5)))"
      have len: "i + 10 \<le> length p" "i + 10 \<le> e" using hit "1.prems" by simp_all
      have "be32 p (i + 2) = Some ?v" using len by (simp add: be32_ok eval_nat_numeral)
      moreover have "put32 p (i + 2) w = Some (p[i + 2 := hi8 (hi16 w), i + 3 := lo8 (hi16 w),
          i + 4 := hi8 (lo16 w), i + 5 := lo8 (lo16 w)])" for w
        using len by (simp add: put32_ok eval_nat_numeral)
      ultimately have "\<exists>q. ts_loop p d i e = Some (q, True) \<and> q = p[i + 2 := hi8 (hi16 (?v - d)),
          i + 3 := lo8 (hi16 (?v - d)), i + 4 := hi8 (lo16 (?v - d)), i + 5 := lo8 (lo16 (?v - d))]"
        using True ix len hit by (simp add: ts_loop.simps [of p d i])
      then show ?thesis
        using ts_hit [OF len(2) "1.prems"(1) hit(1,2) refl] by blast
    next
      case skip
      then obtain r where r: "ts_loop p d (i + ?n) e = Some r" "ts_result p d (i + ?n) e r"
        using "1.IH"(2) [OF True ix(1) _ _ _ ix(2)] "1.prems" True by auto
      have "fst r ! i = p ! i" "fst r ! (i + 1) = p ! (i + 1)" "length (fst r) = length p"
        using r(2) skip by (auto simp: ts_result_def)
      then have hd': "opts_at (fst r) i e = take ?n (drop i (fst r)) # opts_at (fst r) (i + ?n) e"
        using opts_at_unfold [of i e "fst r"] skip True "1.prems"(1) by simp
      have hd: "opts_at p i e = take ?n (drop i p) # opts_at p (i + ?n) e"
        using unf skip by simp
      have "take ?n (drop i p) ! 0 = p ! i" "length (take ?n (drop i p)) = ?n"
        using skip "1.prems"(1) by simp_all
      then have "\<not> is_ts (take ?n (drop i p))" using skip by (simp add: is_ts_def)
      then have "ts_result p d i e r"
        using ts_result_skip [OF r(2) _ _ _ hd hd'] skip "1.prems"(1) by simp
      then show ?thesis using skip True ix r(1)
        by (cases r) (auto simp: ts_loop.simps [of p d i])
    qed
  qed
qed

lemma DecreaseTCPTimestamp_spec:
  assumes "p \<noteq> []" and "h = (if v6 then 40 else ihl4 p)"
  shows "\<exists>q b. DecreaseTCPTimestamp p d v6 = Some (q, b) \<and> length q = length p \<and>
     (if length p < h + 20 \<or> thl_at h p < 20 \<or> length p < h + thl_at h p
      then q = p \<and> \<not> b
      else (options_at h q, b) = dec_first d (options_at h p) \<and>
           (\<forall>j. (j < h + 20 \<or> h + thl_at h p \<le> j) \<longrightarrow> q ! j = p ! j))"
proof -
  have h: "(if v6 then Some 40 else map_option hdr4 (idx p 0)) = Some h"
    using assms by (auto simp: idx_0 ihl4_def)
  show ?thesis
  proof (cases "length p < h + 20 \<or> thl_at h p < 20 \<or> length p < h + thl_at h p")
    case True
    then show ?thesis
      by (auto simp: DecreaseTCPTimestamp_def h Let_def idx_ok thl_at_def)
  next
    case False
    then obtain r where r: "ts_loop p d (h + 20) (h + thl_at h p) = Some r"
        "ts_result p d (h + 20) (h + thl_at h p) r"
      using ts_loop_result [of "h + thl_at h p" p "h + 20" d] by auto
    have "thl_at h (fst r) = thl_at h p"
      using r(2) by (simp add: ts_result_def thl_at_def)
    moreover have "DecreaseTCPTimestamp p d v6 = Some r"
      using False r(1) by (auto simp: DecreaseTCPTimestamp_def h Let_def idx_ok thl_at_def)
    ultimately show ?thesis
      using r(2) False by (cases r) (auto simp: ts_result_def options_at_def)
  qed
qed

text \<open>C17: lowering the TCP timestamp never crashes on a non-empty packet and, when the header
  lengths are consistent, changes exactly the value of the first timestamp option (by subtraction
  modulo \<open>2\<^sup>3\<^sup>2\<close>) and reports whether there was one; every other byte and option is kept.\<close>
theorem DecreaseTCPTimestamp_correct:
  assumes "p \<noteq> []" and "h = (if v6 then 40 else ihl4 p)"
  shows "\<exists>q b. DecreaseTCPTimestamp p d v6 = Some (q, b) \<and> length q = length p \<and>
     (if length p < h + 20 \<or> thl_at h p < 20 \<or> length p < h + thl_at h p
      then q = p \<and> \<not> b
      else (options_at h q, b) = dec_first d (options_at h p) \<and>
           (\<forall>j. (j < h + 20 \<or> h + thl_at h p \<le> j) \<longrightarrow> q ! j = p ! j))"
  using assms by (rule DecreaseTCPTimestamp_spec)

definition sample_ts :: bytes where
  "sample_ts = [0x45, 0, 0, 53, 0, 0, 0, 0, 64, 6, 0, 0, 10, 0, 0, 1, 10, 0, 0, 2,
     0x30, 0x39, 1, 187, 0, 0, 0, 1, 0, 0, 0, 0, 0x80, 16, 0xff, 0xff, 0, 0, 0, 0,
     1, 1, 8, 10, 0, 0, 0, 5, 0, 0, 0, 0, 42]"

theorem DecreaseTCPTimestamp_witness:
  "\<exists>q. DecreaseTCPTimestamp sample_ts 7 False = Some (q, True) \<and>
     options_at 20 q = [[1], [1], [8, 10, 0xff, 0xff, 0xff, 0xfe, 0, 0, 0, 0]]"
proof -
  have e: "ihl4 sample_ts = 20" "thl_at 20 sample_ts = 32" "length sample_ts = 53"
      "sample_ts \<noteq> []"
      "dec_first 7 (options_at 20 sample_ts)
       = ([[1], [1], [8, 10, 0xff, 0xff, 0xff, 0xfe, 0, 0, 0, 0]], True)"
    by code_simp+
  show ?thesis
    using DecreaseTCPTimestamp_correct [of sample_ts 20 False 7] by (auto simp: e)
qed

section \<open>The MD5 signature option\<close>

definition area_at :: "nat \<Rightarrow> bytes \<Rightarrow> bytes" where
  "area_at h p = take (thl_at h p - 20) (drop (h + 20) p)"

lemma options_at_area: "options_at h p = tcp_options (area_at h p)"
  by (simp add: options_at_def opts_at_def area_at_def)

lemma area_at_field:
  "j + 2 \<le> h + 20 \<Longrightarrow> j \<noteq> h + 12 \<Longrightarrow> j + 1 \<noteq> h + 12 \<Longrightarrow>
   area_at h (set_field q j c) = area_at h q"
  by (simp add: area_at_def drop_set_field_ge)

definition with_md5 :: "nat \<Rightarrow> bytes \<Rightarrow> bytes \<Rightarrow> bytes" where
  "with_md5 h p op =
     (take (h + thl_at h p) p)[h + 12 := doff_byte (thl_at h p + 20) OR (p ! (h + 12) AND 15)]
     @ op @ payload_at h p"

lemma md5_insert_ok:
  assumes "h + t \<le> length p" "20 \<le> t" "length op = 20" "t = thl_at h p"
  shows "md5_insert p h t op = Some (with_md5 h p op)"
proof -
  define T where "T = length p + 20"
  have h20: "take h p @ take 20 (drop h p) = take (h + 20) p" by (simp add: take_add)
  have ht: "take (h + 20) p @ take (t - 20) (drop (h + 20) p) = take (h + t) p"
    using take_add [of "h + 20" "t - 20" p] assms(2) by simp
  have s1: "copy_into (mk T) 0 h (take h p) = Some (take h p @ mk (T - h))"
    using assms by (simp add: copy_into_mk0 T_def)
  have s2: "copy_into (take h p @ mk (T - h)) h (h + 20) (take 20 (drop h p))
      = Some (take (h + 20) p @ mk (T - (h + 20)))"
    using assms by (subst copy_into_mk) (auto simp: T_def h20 add.assoc)
  have s3: "copy_into (take (h + 20) p @ mk (T - (h + 20))) (h + 20) (h + t)
        (take (t - 20) (drop (h + 20) p)) = Some (take (h + t) p @ mk (T - (h + t)))"
    using assms(1-3) by (subst copy_into_mk) (auto simp: T_def ht)
  have s4: "copy_into (take (h + t) p @ mk (T - (h + t))) (h + t) (h + t + 20) op
      = Some ((take (h + t) p @ op) @ mk (length p - (h + t)))"
    using assms by (subst copy_into_mk) (auto simp: T_def)
  have s5: "copy_from ((take (h + t) p @ op) @ mk (length p - (h + t))) (h + (t + 20))
      (drop (h + t) p) = Some ((take (h + t) p @ op) @ drop (h + t) p)"
    using assms by (subst copy_from_mk) auto
  have g: "gslice p 0 h = Some (take h p)" "gslice p h (h + 20) = Some (take 20 (drop h p))"
      "gslice p (h + 20) (h + t) = Some (take (t - 20) (drop (h + 20) p))"
      "slice_from p (h + t) = Some (drop (h + t) p)"
    using assms by (simp_all add: go_simps)
  have s3': "(if 20 < t then gslice p (h + 20) (h + t) \<bind>
        copy_into (take (h + 20) p @ mk (T - (h + 20))) (h + 20) (h + t)
      else Some (take (h + 20) p @ mk (T - (h + 20)))) = Some (take (h + t) p @ mk (T - (h + t)))"
    using s3 g(3) assms(2) by auto
  have s5': "(if h + t < length p then slice_from p (h + t) \<bind>
        copy_from ((take (h + t) p @ op) @ mk (length p - (h + t))) (h + (t + 20))
      else Some ((take (h + t) p @ op) @ mk (length p - (h + t))))
      = Some ((take (h + t) p @ op) @ drop (h + t) p)"
    using s5 g(4) assms(1) by auto
  show ?thesis
    unfolding md5_insert_def Let_def T_def [symmetric]
    using assms(1-3)
    by (simp add: g(1,2) s1 s2 s3' s4 s5' upd_ok idx_ok list_update_append nth_append with_md5_def
        payload_at_def assms(4) [symmetric] del: append_assoc)
qed

lemma with_md5_facts:
  assumes "h + thl_at h p \<le> length p" "20 \<le> thl_at h p" "thl_at h p \<le> 40" "length op = 20"
  shows "thl_at h (with_md5 h p op) = thl_at h p + 20"
    and "area_at h (with_md5 h p op) = area_at h p @ op"
    and "payload_at h (with_md5 h p op) = payload_at h p"
    and "length (with_md5 h p op) = length p + 20"
    and "i < h + 20 \<Longrightarrow> i \<noteq> h + 12 \<Longrightarrow> with_md5 h p op ! i = p ! i"
proof -
  let ?q = "with_md5 h p op"
  let ?H = "(take (h + thl_at h p) p)[h + 12 := doff_byte (thl_at h p + 20) OR (p ! (h + 12) AND 15)]"
  have q: "?q = ?H @ op @ payload_at h p" by (simp add: with_md5_def)
  have lenH: "length ?H = h + thl_at h p" using assms by simp
  have "4 dvd thl_at h p + 20" by (simp add: thl_at_def doff_dvd)
  moreover have "?q ! (h + 12) = doff_byte (thl_at h p + 20) OR (p ! (h + 12) AND 15)"
    using assms by (simp add: q nth_append)
  ultimately show t: "thl_at h ?q = thl_at h p + 20"
    using assms(3) by (simp only: thl_at_def [of h ?q] doff_or)
  have "take (thl_at h p - 20) (drop (h + 20) ?H) = area_at h p"
    using assms by (simp add: area_at_def drop_update_swap drop_update_cancel drop_take)
  moreover have "length (area_at h p) = thl_at h p - 20" using assms by (simp add: area_at_def)
  ultimately show "area_at h ?q = area_at h p @ op"
    using assms lenH unfolding area_at_def [of h ?q] t by (simp add: q)
  show "payload_at h ?q = payload_at h p"
    unfolding payload_at_def [of h ?q] t using assms lenH by (simp add: q)
  show "length ?q = length p + 20" using assms by (simp add: q payload_at_def)
  show "?q ! i = p ! i" if "i < h + 20" "i \<noteq> h + 12"
    using that assms lenH by (simp add: q nth_append)
qed

lemma tcp_options_snoc:
  "(\<And>op. op \<in> set os \<Longrightarrow> opt_wf op) \<Longrightarrow> tcp_options (concat os @ xs) = os @ tcp_options xs"
  by (induction os) (auto simp: tcp_options_one)

lemma md5_options:
  assumes "concat (options_at h p) = area_at h p" "length rnd = 16"
    and "area_at h q = area_at h p @ [1, 1, 19, 18] @ rnd"
  shows "options_at h q = options_at h p @ [[1], [1], [19, 18] @ rnd]"
proof -
  have "tcp_options (area_at h p @ xs) = options_at h p @ tcp_options xs" for xs
    using tcp_options_snoc [of "options_at h p" xs] assms(1)
    by (auto simp: options_at_area dest: tcp_options_wf)
  moreover have "tcp_options ([1, 1, 19, 18] @ rnd) = [[1], [1], [19, 18] @ rnd]"
    using assms(2) by (simp add: tcp_options.simps)
  ultimately show ?thesis using assms(3) by (simp add: options_at_area [of h q])
qed

lemma MD5_inserts:
  assumes "length rnd = 16" "h = (if v6 then 40 else ihl4 p)" "20 \<le> ihl4 p \<or> v6"
    and "20 \<le> thl_at h p" "h + thl_at h p \<le> length p" "length p < 65500"
  shows "\<exists>q. AddTCPMD5Option rnd p v6 = Some q \<and>
     (if 40 < thl_at h p then q = p
      else (if v6 then valid6 q else valid4 q) \<and> length q = length p + 20 \<and>
        thl_at h q = thl_at h p + 20 \<and> payload_at h q = payload_at h p \<and>
        area_at h q = area_at h p @ [1, 1, 19, 18] @ rnd \<and>
        (concat (options_at h p) = area_at h p \<longrightarrow>
           options_at h q = options_at h p @ [[1], [1], [19, 18] @ rnd]))"
proof -
  let ?op = "1 # 1 # 19 # 18 # rnd"
  let ?s = "with_md5 h p ?op"
  have "p \<noteq> []" using assms(4,5) by auto
  then have h: "(if v6 then Some 40 else map_option hdr4 (idx p 0)) = Some h" "20 \<le> h"
    using assms \<open>p \<noteq> []\<close> by (auto simp: idx_0 ihl4_def)
  have op: "copy_into (1 # 1 # 19 # 18 # mk 16) 4 20 rnd = Some ?op"
    using assms(1) by (simp add: copy_into_ok)
  have unf: "AddTCPMD5Option rnd p v6 = (if 40 < thl_at h p then Some p
      else do {
        q \<leftarrow> md5_insert p h (thl_at h p) ?op;
        if v6 then put16 q 4 (of_nat (length q) - 40) \<bind> FixTCPChecksumV6
        else do { q \<leftarrow> put16 q 2 (of_nat (length q)); q \<leftarrow> on_prefix FixIPv4Checksum q h;
                  FixTCPChecksum q } })"
    unfolding AddTCPMD5Option_def h(1)
    using assms(4,5) by (simp add: op idx_ok thl_at_def cong: if_cong)
  show ?thesis
  proof (cases "40 < thl_at h p")
    case True
    then show ?thesis using assms(5) by (simp add: unf)
  next
    case False
    have l: "length ?op = 20" "thl_at h p \<le> 40" using assms(1) False by simp_all
    note f = with_md5_facts [OF assms(5,4) l(2,1)]
    have opts: "options_at h q = options_at h p @ [[1], [1], [19, 18] @ rnd]"
      if "concat (options_at h p) = area_at h p" "area_at h q = area_at h ?s" for q
      using md5_options [OF that(1) assms(1)] that(2) f(2) by simp
    note ins = md5_insert_ok [OF assms(5,4) l(1) refl]
    show ?thesis
    proof (cases v6)
      case True
      let ?t = "set_field ?s 4 (of_nat (length ?s) - 40)"
      have "(of_nat (length ?s) - 40 :: uint16) = of_nat (length ?s - 40)"
        using assms(2,4,5) True f(4) by (subst of_nat_diff) simp_all
      then have "40 + plen6 ?t = length ?t"
        using plen6_set [of ?s "length ?s - 40"] assms f(4) True by simp
      then obtain d where q: "FixTCPChecksumV6 ?t = Some (set_field ?t 56 d)"
          "valid6 (set_field ?t 56 d)"
        using fix_tcp6 [of ?t] f(4) assms True by auto
      have "AddTCPMD5Option rnd p v6 = Some (set_field ?t 56 d)"
        unfolding unf using assms(4,5) True l(2) q(1) ins f(4) h(2) by (simp add: put16_set_field)
      then show ?thesis
        using False q(2) f assms(2,4) True h(2) opts [of "set_field ?t 56 d"]
        by (simp add: area_at_field payload_at_field)
    next
      case v4: False
      let ?t = "set_field ?s 2 (of_nat (length ?s))"
      have hs: "ihl4 ?s = h" "ihl4 p = h" using f(5) [of 0] v4 h(2) assms(2) by (simp_all add: ihl4_def)
      have "tot4 ?t = length ?t"
        using tot4_set [of ?s "length ?s"] f(4) assms(4-6) h(2) by simp
      then obtain c d q where q: "on_prefix FixIPv4Checksum ?t h = Some (set_field ?t 10 c)"
          "FixTCPChecksum (set_field ?t 10 c) = Some q"
          "q = set_field (set_field ?t 10 c) (h + 16) d" "valid4 q"
        using fix_both4 [of ?t] hs h(2) f(4) assms(4,5) by auto
      have "AddTCPMD5Option rnd p v6 = Some q"
        unfolding unf using assms(4,5) v4 l(2) q(1,2) ins f(4) h(2) by (simp add: put16_set_field)
      then show ?thesis
        using False q(3,4) f assms(4) v4 h(2) opts [of q] by (simp add: area_at_field payload_at_field)
    qed
  qed
qed

text \<open>C18: adding the MD5 signature option. When the header still has room the packet grows by 20
  bytes, the option area gets two NOPs and the option behind what was there, so a receiver reads
  the old options followed by the new one (provided the old options fill their area), the payload
  is unchanged and lengths and checksums are correct; with no room the packet is returned as it
  is. Either way the function does not crash.\<close>
theorem AddTCPMD5Option_correct:
  assumes "length rnd = 16" "h = (if v6 then 40 else ihl4 p)" "20 \<le> ihl4 p \<or> v6"
    and "20 \<le> thl_at h p" "h + thl_at h p \<le> length p" "length p < 65500"
  shows "\<exists>q. AddTCPMD5Option rnd p v6 = Some q \<and>
     (if 40 < thl_at h p then q = p
      else (if v6 then valid6 q else valid4 q) \<and> length q = length p + 20 \<and>
        thl_at h q = thl_at h p + 20 \<and> payload_at h q = payload_at h p \<and>
        area_at h q = area_at h p @ [1, 1, 19, 18] @ rnd \<and>
        (concat (options_at h p) = area_at h p \<longrightarrow>
           options_at h q = options_at h p @ [[1], [1], [19, 18] @ rnd]))"
  using assms by (rule MD5_inserts)

theorem AddTCPMD5Option_witness:
  "\<exists>q. AddTCPMD5Option (replicate 16 7) sample_ts False = Some q \<and> valid4 q \<and>
     options_at 20 q = [[1], [1], [8, 10, 0, 0, 0, 5, 0, 0, 0, 0], [1], [1], 19 # 18 # replicate 16 7]"
proof -
  have e: "ihl4 sample_ts = 20" "thl_at 20 sample_ts = 32" "length sample_ts = 53"
      "options_at 20 sample_ts = [[1], [1], [8, 10, 0, 0, 0, 5, 0, 0, 0, 0]]"
      "area_at 20 sample_ts = [1, 1, 8, 10, 0, 0, 0, 5, 0, 0, 0, 0]"
    by code_simp+
  show ?thesis
    using AddTCPMD5Option_correct [of "replicate 16 7" 20 False sample_ts] by (auto simp: e)
qed

end
