(* ===== verification/Fragment.thy ===== *)
theory Fragment
  imports TcpOptions "HOL-Library.Multiset"
begin

text \<open>
  IP fragmentation and UDP datagrams: \<^verbatim>\<open>src/src/sock/fragment_ipv4.go\<close>, \<^verbatim>\<open>fragment_ipv6.go\<close>,
  \<^verbatim>\<open>udp_ipv4.go\<close> and \<^verbatim>\<open>udp_ipv6.go\<close>. The four fragmenters are shown to implement one contract, the
  locale \<open>ip_fragmenter\<close>: what a receiver reassembles from the fragments, in whatever order they
  arrive, is the payload of the original packet.

  \<^verbatim>\<open>[][]byte, bool\<close> is a pair; \<open>nil, false\<close> is \<open>([], False)\<close>. Split positions are \<open>int\<close>.
\<close>

section \<open>\<^verbatim>\<open>fragment_ipv4.go\<close>\<close>

text \<open>\<open>x &^ 7\<close> on a two's complement \<open>int\<close>\<close>
definition clear7 :: "int \<Rightarrow> int" where
  "clear7 x = x - x mod 8"

text \<open>The split position moved to a boundary inside the payload; \<^term>\<open>None\<close> where the code gives
  up.\<close>
definition ipv4_split :: "nat \<Rightarrow> int \<Rightarrow> nat option" where
  "ipv4_split ipPayloadLen splitPos =
     (let splitPos = clear7 (splitPos + 7);
          splitPos = (if splitPos < 8 then 8 else splitPos)
      in if splitPos \<ge> int ipPayloadLen
         then (let splitPos = clear7 (int ipPayloadLen - 8)
               in if splitPos < 8 then None else Some (nat splitPos))
         else Some (nat splitPos))"

text \<open>The two fragments for a split position.\<close>
definition ipv4_fragments :: "bytes \<Rightarrow> nat \<Rightarrow> nat \<Rightarrow> (bytes \<times> bytes) option" where
  "ipv4_fragments packet ipHdrLen splitPos = do {
     let absPos = ipHdrLen + splitPos;
     a \<leftarrow> gslice packet 0 absPos;
     frag1 \<leftarrow> copy_from (mk absPos) 0 a;
     frag1 \<leftarrow> upd frag1 6 0x20;
     frag1 \<leftarrow> upd frag1 7 0x00;
     frag1 \<leftarrow> put16 frag1 2 (of_nat absPos);
     frag1 \<leftarrow> on_prefix FixIPv4Checksum frag1 ipHdrLen;
     let remainingLen = length packet - absPos;
     let frag2Len = ipHdrLen + remainingLen;
     b \<leftarrow> gslice packet 0 ipHdrLen;
     frag2 \<leftarrow> copy_from (mk frag2Len) 0 b;
     c \<leftarrow> slice_from packet absPos;
     frag2 \<leftarrow> copy_from frag2 ipHdrLen c;
     let fragOff = of_nat splitPos div (8 :: uint16);
     frag2 \<leftarrow> put16 frag2 6 fragOff;
     frag2 \<leftarrow> put16 frag2 2 (of_nat frag2Len);
     frag2 \<leftarrow> on_prefix FixIPv4Checksum frag2 ipHdrLen;
     Some (frag1, frag2) }"

definition IPv4FragmentPacket :: "bytes \<Rightarrow> int \<Rightarrow> (bytes list \<times> bool) option" where
  "IPv4FragmentPacket packet splitPos =
     (if length packet < 20 then Some ([], False)
      else do {
        b0 \<leftarrow> idx packet 0;
        if drop_bit 4 b0 \<noteq> 4 then Some ([], False)
        else do {
          let ipHdrLen = hdr4 b0;
          if length packet < ipHdrLen + 8 then Some ([], False)
          else do {
            let ipPayloadLen = length packet - ipHdrLen;
            if ipPayloadLen < 8 then Some ([], False)
            else (case ipv4_split ipPayloadLen splitPos of
                None \<Rightarrow> Some ([], False)
              | Some splitPos \<Rightarrow> do {
                  (frag1, frag2) \<leftarrow> ipv4_fragments packet ipHdrLen splitPos;
                  Some ([frag1, frag2], True) }) } } })"

section \<open>\<^verbatim>\<open>fragment_ipv6.go\<close>\<close>

text \<open>One fragment: the IPv6 header with next header 44, the fragment header, the data. Every
  fragment of the IPv6 code is filled in by this sequence of writes; \<open>offFlags\<close> is the 16-bit
  field of offset and M flag.\<close>
definition fragment_v6 :: "bytes \<Rightarrow> nat \<Rightarrow> byte \<Rightarrow> uint16 \<Rightarrow> uint32 \<Rightarrow> bytes \<Rightarrow> bytes option" where
  "fragment_v6 packet dataLen nextHeader offFlags identification dat = do {
     let frag = mk (40 + 8 + dataLen);
     a \<leftarrow> gslice packet 0 40;
     frag \<leftarrow> copy_from frag 0 a;
     frag \<leftarrow> upd frag 6 44;
     frag \<leftarrow> put16 frag 4 (of_nat (8 + dataLen));
     frag \<leftarrow> upd frag 40 nextHeader;
     frag \<leftarrow> upd frag 41 0;
     frag \<leftarrow> put16 frag 42 offFlags;
     frag \<leftarrow> put32 frag 44 identification;
     copy_from frag 48 dat }"

text \<open>The split position as the code adjusts it; \<^term>\<open>None\<close> where it gives up.\<close>
definition ipv6_split :: "nat \<Rightarrow> int \<Rightarrow> int option" where
  "ipv6_split payloadLen splitPos =
     (let splitPos = clear7 (splitPos + 7)
      in if splitPos \<ge> int payloadLen
         then (let splitPos = int payloadLen - 8 in if splitPos < 8 then None else Some splitPos)
         else Some splitPos)"

text \<open>\<open>identification\<close> is the result of \<open>utils.RandUint32()\<close>. A negative split position reaches
  \<open>make\<close> or a slice expression and panics there.\<close>
definition IPv6FragmentPacket :: "uint32 \<Rightarrow> bytes \<Rightarrow> int \<Rightarrow> (bytes list \<times> bool) option" where
  "IPv6FragmentPacket identification packet splitPos =
     (if length packet < 40 then Some ([], False)
      else do {
        b0 \<leftarrow> idx packet 0;
        if drop_bit 4 b0 \<noteq> 6 then Some ([], False)
        else do {
          nextHeader \<leftarrow> idx packet 6;
          if nextHeader \<noteq> 6 \<and> nextHeader \<noteq> 17 then Some ([], False)
          else do {
            pl \<leftarrow> be16 packet 4;
            let payloadLen = unat pl;
            if payloadLen < 8 \<or> 40 + payloadLen > length packet then Some ([], False)
            else (case ipv6_split payloadLen splitPos of
                None \<Rightarrow> Some ([], False)
              | Some splitPos \<Rightarrow>
                  if splitPos < 0 then None
                  else do {
                    let splitPos = nat splitPos;
                    d1 \<leftarrow> gslice packet 40 (40 + splitPos);
                    frag1 \<leftarrow> fragment_v6 packet splitPos nextHeader 0x0001 identification d1;
                    let remainingLen = payloadLen - splitPos;
                    d2 \<leftarrow> slice_from packet (40 + splitPos);
                    frag2 \<leftarrow> fragment_v6 packet remainingLen nextHeader
                       (push_bit 3 (of_nat (splitPos div 8))) identification d2;
                    Some ([frag1, frag2], True) }) } } })"

section \<open>\<^verbatim>\<open>udp_ipv4.go\<close>\<close>

text \<open>\<open>net.IP.To4\<close> and \<open>net.IP.To16\<close>; \<open>nil\<close> is \<^term>\<open>None\<close>.\<close>
definition v4InV6Prefix :: bytes where
  "v4InV6Prefix = replicate 10 0 @ [0xff, 0xff]"

definition To4 :: "bytes \<Rightarrow> bytes option" where
  "To4 ip = (if length ip = 4 then Some ip
     else if length ip = 16 \<and> take 12 ip = v4InV6Prefix then Some (drop 12 ip) else None)"

definition To16 :: "bytes \<Rightarrow> bytes option" where
  "To16 ip = (if length ip = 4 then Some (v4InV6Prefix @ ip)
     else if length ip = 16 then Some ip else None)"

text \<open>The result is \<open>nil\<close> (inner \<^term>\<open>None\<close>) for addresses of the wrong family and for oversized
  payloads; \<open>rid\<close> is the result of \<open>utils.RandUint16()\<close>.\<close>
definition BuildUDPPacketV4 ::
  "uint16 \<Rightarrow> bytes \<Rightarrow> bytes \<Rightarrow> uint16 \<Rightarrow> uint16 \<Rightarrow> bytes \<Rightarrow> bytes option option" where
  "BuildUDPPacketV4 rid srcIP dstIP srcPort dstPort payload =
     (case (To4 srcIP, To4 dstIP) of
        (Some src, Some dst) \<Rightarrow>
          if length payload > 0xffff - 28 then Some None
          else do {
            let total = 20 + 8 + length payload;
            let pkt = mk total;
            pkt \<leftarrow> upd pkt 0 0x45;
            pkt \<leftarrow> put16 pkt 2 (of_nat total);
            pkt \<leftarrow> put16 pkt 4 rid;
            pkt \<leftarrow> upd pkt 8 64;
            pkt \<leftarrow> upd pkt 9 17;
            pkt \<leftarrow> copy_into pkt 12 16 src;
            pkt \<leftarrow> copy_into pkt 16 20 dst;
            pkt \<leftarrow> put16 pkt 20 srcPort;
            pkt \<leftarrow> put16 pkt 22 dstPort;
            pkt \<leftarrow> put16 pkt 24 (of_nat (8 + length payload));
            pkt \<leftarrow> copy_from pkt 28 payload;
            pkt \<leftarrow> on_prefix FixIPv4Checksum pkt 20;
            pkt \<leftarrow> FixUDPChecksum pkt 20;
            Some (Some pkt) }
      | _ \<Rightarrow> Some None)"

text \<open>\<open>make([]byte, n)\<close> panics for a negative length.\<close>
definition gmake :: "int \<Rightarrow> bytes option" where
  "gmake n = (if n < 0 then None else Some (mk (nat n)))"

definition BuildFakeUDPFromOriginalV4 :: "bytes \<Rightarrow> int \<Rightarrow> byte \<Rightarrow> bytes \<Rightarrow> bytes option option" where
  "BuildFakeUDPFromOriginalV4 orig fakeLen ttl payload =
     (if length orig < 20 then Some None
      else do {
        b0 \<leftarrow> idx orig 0;
        if drop_bit 4 b0 \<noteq> 4 then Some None
        else do {
          let ihl = hdr4s b0;
          if ihl < 20 \<or> length orig < ihl + 8 then Some None
          else do {
            out \<leftarrow> gmake (20 + 8 + fakeLen);
            a \<leftarrow> gslice orig 0 20;
            out \<leftarrow> copy_from out 0 a;
            o0 \<leftarrow> idx out 0;
            out \<leftarrow> upd out 0 ((o0 AND 0xF0) OR 0x05);
            out \<leftarrow> upd out 8 ttl;
            id \<leftarrow> be16 out 4;
            out \<leftarrow> put16 out 4 (id + 1);
            out \<leftarrow> upd out 6 0;
            out \<leftarrow> upd out 7 0;
            out \<leftarrow> put16 out 2 (of_int (20 + 8 + fakeLen));
            u \<leftarrow> gslice orig ihl (ihl + 8);
            out \<leftarrow> copy_from out 20 u;
            out \<leftarrow> put16 out 24 (of_int (8 + fakeLen));
            out \<leftarrow> (if length payload > 0 then copy_into out 28 (nat (28 + fakeLen)) payload else Some out);
            out \<leftarrow> on_prefix FixIPv4Checksum out 20;
            out \<leftarrow> udpChecksumIPv4 out;
            Some (Some out) } } })"

text \<open>Where the UDP fragmenters cut: a multiple of 8 behind the UDP header.\<close>
definition udp_first_aligned :: "nat \<Rightarrow> int \<Rightarrow> nat" where
  "udp_first_aligned payloadLen split =
     (let split = (if split < 1 \<or> split \<ge> int payloadLen then 8 else nat split);
          firstData = 8 + split;
          firstDataAligned = firstData - firstData mod 8
      in if firstDataAligned < 8 then 8 else firstDataAligned)"

text \<open>One UDP fragment; the code writes both by this sequence. \<open>b6\<close> and \<open>b7\<close> are the flag and offset
  bytes.\<close>
definition fragment_udp4 :: "bytes \<Rightarrow> uint16 \<Rightarrow> byte \<Rightarrow> byte \<Rightarrow> bytes \<Rightarrow> bytes option" where
  "fragment_udp4 orig ident b6 b7 d = do {
     a \<leftarrow> gslice orig 0 20;
     ip \<leftarrow> copy_from (mk (20 + length d)) 0 a;
     o0 \<leftarrow> idx ip 0;
     ip \<leftarrow> upd ip 0 ((o0 AND 0xF0) OR 0x05);
     ip \<leftarrow> put16 ip 4 ident;
     ip \<leftarrow> upd ip 6 b6;
     ip \<leftarrow> upd ip 7 b7;
     ip \<leftarrow> put16 ip 2 (of_nat (20 + length d));
     ip \<leftarrow> copy_from ip 20 d;
     on_prefix FixIPv4Checksum ip 20 }"

definition IPv4FragmentUDP :: "bytes \<Rightarrow> int \<Rightarrow> (bytes list \<times> bool) option" where
  "IPv4FragmentUDP orig split =
     (if length orig < 28 then Some ([], False)
      else do {
        b0 \<leftarrow> idx orig 0;
        if drop_bit 4 b0 \<noteq> 4 then Some ([], False)
        else do {
          let ihl = hdr4s b0;
          if ihl < 20 \<or> length orig < ihl + 8 then Some ([], False)
          else do {
            t \<leftarrow> be16 orig 2;
            let total = (if unat t > length orig then length orig else unat t);
            udp \<leftarrow> gslice orig ihl total;
            if length udp < 8 then Some ([], False)
            else do {
              payload \<leftarrow> slice_from udp 8;
              let firstDataAligned = udp_first_aligned (length payload) split;
              if firstDataAligned \<ge> length udp then Some ([], False)
              else do {
                id \<leftarrow> be16 orig 4;
                d1 \<leftarrow> gslice udp 0 firstDataAligned;
                ip1 \<leftarrow> fragment_udp4 orig id 0x20 0x00 d1;
                ip2Data \<leftarrow> slice_from udp firstDataAligned;
                let offsetUnits = firstDataAligned div 8;
                ip2 \<leftarrow> fragment_udp4 orig id (of_nat (offsetUnits div 256) AND 0x1F)
                   (of_nat offsetUnits) ip2Data;
                Some ([ip2, ip1], True) } } } } })"

section \<open>\<^verbatim>\<open>udp_ipv6.go\<close>\<close>

definition BuildUDPPacketV6 ::
  "bytes \<Rightarrow> bytes \<Rightarrow> uint16 \<Rightarrow> uint16 \<Rightarrow> bytes \<Rightarrow> bytes option option" where
  "BuildUDPPacketV6 srcIP dstIP srcPort dstPort payload =
     (case (To16 srcIP, To16 dstIP) of
        (Some src, Some dst) \<Rightarrow>
          if To4 srcIP \<noteq> None \<or> To4 dstIP \<noteq> None then Some None
          else if length payload > 0xffff - 8 then Some None
          else do {
            let pkt = mk (40 + 8 + length payload);
            pkt \<leftarrow> upd pkt 0 0x60;
            pkt \<leftarrow> put16 pkt 4 (of_nat (8 + length payload));
            pkt \<leftarrow> upd pkt 6 17;
            pkt \<leftarrow> upd pkt 7 64;
            pkt \<leftarrow> copy_into pkt 8 24 src;
            pkt \<leftarrow> copy_into pkt 24 40 dst;
            pkt \<leftarrow> put16 pkt 40 srcPort;
            pkt \<leftarrow> put16 pkt 42 dstPort;
            pkt \<leftarrow> put16 pkt 44 (of_nat (8 + length payload));
            pkt \<leftarrow> copy_from pkt 48 payload;
            pkt \<leftarrow> FixUDPChecksumV6 pkt;
            Some (Some pkt) }
      | _ \<Rightarrow> Some None)"

definition BuildFakeUDPFromOriginalV6 :: "bytes \<Rightarrow> int \<Rightarrow> byte \<Rightarrow> bytes \<Rightarrow> bytes option option" where
  "BuildFakeUDPFromOriginalV6 orig fakeLen hopLimit payload =
     (if length orig < 48 then Some None
      else do {
        b0 \<leftarrow> idx orig 0;
        if drop_bit 4 b0 \<noteq> 6 then Some None
        else do {
          nh \<leftarrow> idx orig 6;
          if length orig < 40 + 8 \<or> nh \<noteq> 17 then Some None
          else do {
            out \<leftarrow> gmake (40 + 8 + fakeLen);
            a \<leftarrow> gslice orig 0 40;
            out \<leftarrow> copy_from out 0 a;
            out \<leftarrow> upd out 7 hopLimit;
            out \<leftarrow> put16 out 4 (of_int (8 + fakeLen));
            u \<leftarrow> gslice orig 40 (40 + 8);
            out \<leftarrow> copy_from out 40 u;
            out \<leftarrow> put16 out (40 + 4) (of_int (8 + fakeLen));
            out \<leftarrow> (if length payload > 0 then copy_into out 48 (nat (48 + fakeLen)) payload else Some out);
            out \<leftarrow> udpChecksumIPv6 out;
            Some (Some out) } } })"

definition IPv6FragmentUDP :: "uint32 \<Rightarrow> bytes \<Rightarrow> int \<Rightarrow> (bytes list \<times> bool) option" where
  "IPv6FragmentUDP identification orig split =
     (if length orig < 48 then Some ([], False)
      else do {
        b0 \<leftarrow> idx orig 0;
        if drop_bit 4 b0 \<noteq> 6 then Some ([], False)
        else do {
          nh \<leftarrow> idx orig 6;
          if length orig < 40 + 8 \<or> nh \<noteq> 17 then Some ([], False)
          else do {
            pl \<leftarrow> be16 orig 4;
            let payloadLen = unat pl;
            if payloadLen < 8 \<or> 40 + payloadLen > length orig then Some ([], False)
            else do {
              udp \<leftarrow> gslice orig 40 (40 + payloadLen);
              if length udp < 8 then Some ([], False)
              else do {
                payload \<leftarrow> slice_from udp 8;
                let firstDataAligned = udp_first_aligned (length payload) split;
                if firstDataAligned \<ge> length udp then Some ([], False)
                else do {
                  d1 \<leftarrow> gslice udp 0 firstDataAligned;
                  frag1 \<leftarrow> fragment_v6 orig firstDataAligned 17 0x0001 identification d1;
                  remainingData \<leftarrow> slice_from udp firstDataAligned;
                  frag2 \<leftarrow> fragment_v6 orig (length remainingData) 17
                     (push_bit 3 (of_nat (firstDataAligned div 8))) identification remainingData;
                  Some ([frag2, frag1], True) } } } } } })"

section \<open>Reassembly\<close>

text \<open>A fragment as a receiver sees it: byte offset, more-fragments flag, data. Reassembly sorts by
  offset and accepts a gapless sequence whose inner pieces are multiples of eight long.\<close>

type_synonym frag = "nat \<times> bool \<times> bytes"

fun glue :: "nat \<Rightarrow> frag list \<Rightarrow> bytes option" where
  "glue n [] = None"
| "glue n [(off, mf, d)] = (if off = n \<and> \<not> mf then Some d else None)"
| "glue n ((off, mf, d) # f # fs) =
     (if off = n \<and> mf \<and> 8 dvd length d
      then map_option ((@) d) (glue (n + length d) (f # fs)) else None)"

definition reassemble :: "frag list \<Rightarrow> bytes option" where
  "reassemble fs = glue 0 (sort_key fst fs)"

definition frag4 :: "bytes \<Rightarrow> frag" where
  "frag4 p = (let w = u16 (p ! 6) (p ! 7)
     in (unat (w AND 0x1fff) * 8, bit w 13, drop (ihl4 p) p))"

definition frag6 :: "bytes \<Rightarrow> frag" where
  "frag6 p = (let w = u16 (p ! 42) (p ! 43) in (unat (w AND 0xfff8), bit w 0, drop 48 p))"

lemma reassemble_two:
  assumes "8 dvd k" "0 < k" "k \<le> length d"
    and "mset fs = mset [(0, True, take k d), (k, False, drop k d)]"
  shows "reassemble fs = Some d"
proof -
  have "length fs = 2" using mset_eq_length [OF assms(4)] by simp
  then obtain a b where fs: "fs = [a, b]" by (auto simp: length_Suc_conv numeral_2_eq_2)
  then have "fs = [(0, True, take k d), (k, False, drop k d)] \<or>
      fs = [(k, False, drop k d), (0, True, take k d)]"
    using assms(4) by (auto simp: add_eq_conv_diff)
  then show ?thesis using assms(1-3) by (auto simp: reassemble_def min_absorb2)
qed

text \<open>What every fragmenter promises, and what its clients may conclude.\<close>

locale ip_fragmenter =
  fixes frag :: "bytes \<Rightarrow> int \<Rightarrow> (bytes list \<times> bool) option"
    and wf :: "bytes \<Rightarrow> int \<Rightarrow> bool"
    and view :: "bytes \<Rightarrow> frag"
    and payload :: "bytes \<Rightarrow> bytes"
    and hdr_ok :: "bytes \<Rightarrow> bytes \<Rightarrow> bool"
  assumes splits: "wf p s \<Longrightarrow>
    \<exists>a b k. frag p s = Some ([a, b], True) \<and> 8 dvd k \<and> 0 < k \<and> k \<le> length (payload p) \<and>
      mset [view a, view b] = mset [(0, True, take k (payload p)), (k, False, drop k (payload p))] \<and>
      hdr_ok p a \<and> hdr_ok p b"
begin

lemma any_order:
  assumes "wf p s"
  shows "\<exists>fs. frag p s = Some (fs, True) \<and> length fs = 2 \<and> (\<forall>f \<in> set fs. hdr_ok p f) \<and>
     (\<forall>gs. mset gs = mset fs \<longrightarrow> reassemble (map view gs) = Some (payload p))"
proof -
  obtain a b k where f: "frag p s = Some ([a, b], True)" "8 dvd k" "0 < k"
      "k \<le> length (payload p)" "hdr_ok p a" "hdr_ok p b"
      "mset [view a, view b] = mset [(0, True, take k (payload p)), (k, False, drop k (payload p))]"
    using splits [OF assms] by blast
  have "reassemble (map view gs) = Some (payload p)" if "mset gs = mset [a, b]" for gs
  proof (rule reassemble_two [OF f(2,3,4)])
    show "mset (map view gs) = mset [(0, True, take k (payload p)), (k, False, drop k (payload p))]"
      using f(7) by (simp flip: that add: mset_map) (simp add: that)
  qed
  then show ?thesis using f(1,5,6) by auto
qed

end

section \<open>IPv4\<close>

lemma copy_from_mk0: "length src \<le> n \<Longrightarrow> copy_from (mk n) 0 src = Some (src @ mk (n - length src))"
  by (simp add: copy_from_ok)

lemma unat_of_nat_div8: "k < 65536 \<Longrightarrow> unat (of_nat k div 8 :: uint16) = k div 8"
  by (simp add: unat_div unat_of_nat16)

lemma off4:
  assumes "k < 65536" "8 dvd k"
  defines "w \<equiv> of_nat k div 8 :: uint16"
  shows "unat (w AND 0x1fff) * 8 = k" "\<not> bit w 13"
proof -
  have u: "unat w = k div 8" using assms by (simp add: unat_of_nat_div8)
  have m: "(0x1fff :: uint16) = mask 13" by (simp add: mask_eq_exp_minus_1)
  have "w AND 0x1fff = take_bit 13 w" unfolding m by (simp add: take_bit_eq_mask)
  then have "unat (w AND 0x1fff) = take_bit 13 (unat w)" by (simp add: unsigned_take_bit_eq)
  then show "unat (w AND 0x1fff) * 8 = k"
    using assms(1,2) by (simp add: u take_bit_eq_mod)
  have "bit w 13 = bit (unat w) 13" by (simp add: bit_unsigned_iff)
  then show "\<not> bit w 13" using assms(1) by (simp add: u bit_iff_odd)
qed

lemma off6:
  assumes "k < 65536" "8 dvd k"
  defines "w \<equiv> push_bit 3 (of_nat (k div 8)) :: uint16"
  shows "unat (w AND 0xfff8) = k" "\<not> bit w 0"
proof -
  have "w = of_nat k"
    using assms(2) by (auto simp: w_def push_bit_eq_mult dvd_def)
  then have u: "unat w = k" using assms(1) by (simp add: unat_of_nat16)
  show b0: "\<not> bit w 0" by (simp add: w_def bit_simps)
  have m: "(0xfff8 :: uint16) = NOT (mask 3)" by (simp add: mask_eq_exp_minus_1)
  have "w AND 0xfff8 = w"
    unfolding m by (rule bit_word_eqI) (auto simp: w_def bit_simps)
  then show "unat (w AND 0xfff8) = k" using u by simp
qed

definition hdr4_ok :: "bytes \<Rightarrow> bytes \<Rightarrow> bool" where
  "hdr4_ok p f \<longleftrightarrow> ihl4 f = ihl4 p \<and> tot4 f = length f \<and> cs_ok (ip4_total f) \<and>
     (\<forall>i < ihl4 p. i \<notin> {2, 3, 6, 7, 10, 11} \<longrightarrow> f ! i = p ! i)"

text \<open>One IPv4 fragment: header, flags and offset \<open>w\<close>, length, checksum.\<close>

lemma piece4:
  assumes "20 \<le> ihl4 p" "ihl4 p \<le> length p" "length q < 65536" "q = take (ihl4 p) p @ d"
  shows "\<exists>f. on_prefix FixIPv4Checksum
        (set_field (set_field q 6 w) 2 (of_nat (length q))) (ihl4 p) = Some f \<and>
     frag4 f = (unat (w AND 0x1fff) * 8, bit w 13, d) \<and> hdr4_ok p f"
proof -
  let ?r = "set_field (set_field q 6 w) 2 (of_nat (length q))"
  have len: "ihl4 p \<le> length q" using assms(2,4) by simp
  have h: "ihl4 ?r = ihl4 p" using assms(1,2,4) by (simp add: ihl4_def nth_append)
  have "ip4_wf ?r" using assms(1) len by (simp add: ip4_wf_def h)
  then obtain c where c: "on_prefix FixIPv4Checksum ?r (ihl4 p) = Some (set_field ?r 10 c)"
      "cs_ok (ip4_total (set_field ?r 10 c))"
    using on_prefix_FixIPv4Checksum [of ?r] h by auto
  let ?f = "set_field ?r 10 c"
  have "drop (ihl4 p) q = d" using assms(2,4) by simp
  then have d: "drop (ihl4 p) ?f = d" using assms(1) by (simp add: drop_set_field_ge)
  have w: "u16 (?f ! 6) (?f ! 7) = w" using assms(1) len by (simp add: set_field_def)
  have t: "tot4 ?f = length ?f" using assms(1,3) len by (simp add: tot4_set)
  have "?f ! i = p ! i" if "i < ihl4 p" "i \<notin> {2, 3, 6, 7, 10, 11}" for i
    using that assms(2,4) by (simp add: nth_append)
  moreover have "ihl4 ?f = ihl4 p" using h by simp
  ultimately show ?thesis
    using c t d w by (simp add: hdr4_ok_def frag4_def)
qed

lemma clear7_dvd: "8 dvd clear7 x"
  by (simp add: clear7_def)

lemma clear7_bounds: "clear7 x \<le> x" "x - 7 \<le> clear7 x"
  using pos_mod_bound [of 8 x] by (auto simp: clear7_def)

lemma clear7_ge8: "8 \<le> x \<Longrightarrow> 8 \<le> clear7 x"
  using clear7_bounds [of x] clear7_dvd [of x] by presburger

lemma ipv4_split_facts:
  assumes "16 \<le> n"
  shows "\<exists>k. ipv4_split n s = Some k \<and> 8 dvd k \<and> 8 \<le> k \<and> k < n"
proof -
  have e: "8 \<le> clear7 (int n - 8)" by (rule clear7_ge8) (use assms in simp)
  have dv: "8 dvd nat z" if "8 dvd z" for z :: int
    using that by (auto elim!: dvdE simp: nat_mult_distrib)
  show ?thesis
    using e clear7_bounds(1) [of "int n - 8"] assms
    by (auto simp: ipv4_split_def Let_def clear7_dvd intro!: dv)
qed

definition frag4_wf :: "bytes \<Rightarrow> int \<Rightarrow> bool" where
  "frag4_wf p s \<longleftrightarrow> drop_bit 4 (p ! 0) = 4 \<and> 20 \<le> ihl4 p \<and> ihl4 p + 16 \<le> length p \<and>
     length p < 65536"

lemma ipv4_fragments_ok:
  assumes "20 \<le> ihl4 p" "ihl4 p + k \<le> length p" "length p < 65536" "8 dvd k"
  shows "\<exists>f1 f2. ipv4_fragments p (ihl4 p) k = Some (f1, f2) \<and> hdr4_ok p f1 \<and> hdr4_ok p f2 \<and>
     frag4 f1 = (0, True, take k (drop (ihl4 p) p)) \<and> frag4 f2 = (k, False, drop (ihl4 p + k) p)"
proof -
  let ?h = "ihl4 p"
  let ?q1 = "take (?h + k) p" and ?q2 = "take ?h p @ drop (?h + k) p"
  have l: "length ?q1 = ?h + k" "length ?q2 = ?h + (length p - (?h + k))" "20 \<le> length ?q1"
    using assms by simp_all
  have lq2: "length p - k < 65536" using assms(3) by simp
  have hk: "?h + (length p - (?h + k)) = length p - k" using assms(2) by simp
  obtain f1 where f1: "on_prefix FixIPv4Checksum
        (set_field (set_field ?q1 6 0x2000) 2 (of_nat (length ?q1))) ?h = Some f1"
      "frag4 f1 = (0, True, take k (drop ?h p))" "hdr4_ok p f1"
    using piece4 [of p ?q1 "take k (drop ?h p)" "0x2000"] assms by (auto simp: take_add)
  obtain f2 where f2: "on_prefix FixIPv4Checksum
        (set_field (set_field ?q2 6 (of_nat k div 8)) 2 (of_nat (length ?q2))) ?h = Some f2"
      "frag4 f2 = (k, False, drop (?h + k) p)" "hdr4_ok p f2"
    using piece4 [of p ?q2 "drop (?h + k) p" "of_nat k div 8"] assms off4 [of k] lq2 by auto
  have s1: "copy_from (mk (?h + k)) 0 ?q1 = Some ?q1"
    using assms by (simp add: copy_from_mk0)
  have s2: "copy_from (mk (?h + (length p - (?h + k)))) 0 (take ?h p)
      = Some (take ?h p @ mk (length p - (?h + k)))"
    using assms by (simp add: copy_from_mk0 add.commute)
  have s3: "copy_from (take ?h p @ mk (length p - (?h + k))) ?h (drop (?h + k) p) = Some ?q2"
    using assms by (subst copy_from_mk) auto
  have hl: "hi8 0x2000 = 32" "lo8 0x2000 = 0" by (simp_all add: hi8_def lo8_def)
  have p6: "upd ?q1 6 32 \<bind> (\<lambda>q. upd q 7 0 \<bind> f) = f (set_field ?q1 6 0x2000)" for f
    using l(3) by (simp add: upd_ok set_field_def hl)
  have g: "gslice p 0 (?h + k) = Some ?q1" "gslice p 0 ?h = Some (take ?h p)"
      "slice_from p (?h + k) = Some (drop (?h + k) p)"
    using assms by (simp_all add: go_simps)
  have "ipv4_fragments p ?h k = Some (f1, f2)"
    using f1(1) f2(1) assms
    by (simp add: ipv4_fragments_def g s1 s2 [unfolded hk] s3 p6 [simplified] put16_set_field)
  then show ?thesis using f1 f2 by blast
qed

interpretation f4: ip_fragmenter IPv4FragmentPacket frag4_wf frag4 "\<lambda>p. drop (ihl4 p) p" hdr4_ok
proof
  fix p s
  assume wf: "frag4_wf p s"
  then have l: "16 \<le> length p - ihl4 p" "20 \<le> length p" "p \<noteq> []" by (auto simp: frag4_wf_def)
  obtain k where k: "ipv4_split (length p - ihl4 p) s = Some k" "8 dvd k" "8 \<le> k"
      "k < length p - ihl4 p"
    using ipv4_split_facts [OF l(1)] by blast
  then have hk: "ihl4 p + k \<le> length p" by simp
  then obtain f1 f2 where f: "ipv4_fragments p (ihl4 p) k = Some (f1, f2)" "hdr4_ok p f1"
      "hdr4_ok p f2" "frag4 f1 = (0, True, take k (drop (ihl4 p) p))"
      "frag4 f2 = (k, False, drop (ihl4 p + k) p)"
    using ipv4_fragments_ok [OF _ hk _ k(2)] wf by (auto simp: frag4_wf_def)
  have "IPv4FragmentPacket p s = Some ([f1, f2], True)"
    using wf l k(1) f(1)
    by (simp add: IPv4FragmentPacket_def idx_0 frag4_wf_def Let_def flip: ihl4_def)
  then show "\<exists>a b k. IPv4FragmentPacket p s = Some ([a, b], True) \<and> 8 dvd k \<and> 0 < k \<and>
      k \<le> length (drop (ihl4 p) p) \<and>
      mset [frag4 a, frag4 b] = mset [(0, True, take k (drop (ihl4 p) p)),
        (k, False, drop k (drop (ihl4 p) p))] \<and> hdr4_ok p a \<and> hdr4_ok p b"
    using f k by (intro exI [of _ f1] exI [of _ f2] exI [of _ k]) (simp add: add.commute)
qed

section \<open>IPv6\<close>

definition hdr6_ok :: "uint32 \<Rightarrow> bytes \<Rightarrow> bytes \<Rightarrow> bool" where
  "hdr6_ok ident p f \<longleftrightarrow> 40 + plen6 f = length f \<and> f ! 6 = 44 \<and> f ! 40 = p ! 6 \<and>
     be32 f 44 = Some ident \<and> (\<forall>i < 40. i \<notin> {4, 5, 6} \<longrightarrow> f ! i = p ! i)"

lemma copy_from_long:
  "i \<le> length dst \<Longrightarrow> length dst - i \<le> length src \<Longrightarrow>
   copy_from dst i src = Some (take i dst @ take (length dst - i) src)"
  by (simp add: copy_from_def copy_into_def min_def Let_def)

lemma piece6:
  assumes "40 \<le> length p" "n \<le> length d" "n < 65528"
  shows "\<exists>f. fragment_v6 p n (p ! 6) w ident d = Some f \<and>
     frag6 f = (unat (w AND 0xfff8), bit w 0, take n d) \<and> hdr6_ok ident p f"
proof -
  define l :: uint16 where "l = of_nat (8 + n)"
  define c where
    "c = set_field ((set_field ((take 40 p @ mk (8 + n))[6 := 44]) 4 l)[40 := p ! 6, 41 := 0]) 42 w"
  define e where "e = set_field (set_field c 44 (hi16 ident)) 46 (lo16 ident)"
  let ?f = "take 48 e @ take n d"
  have len: "length e = 48 + n" "40 \<le> length p" using assms(1) by (simp_all add: e_def c_def)
  have s1: "copy_from (mk (48 + n)) 0 (take 40 p) = Some (take 40 p @ mk (8 + n))"
    using assms(1) by (subst copy_from_mk0) simp_all
  have s2: "put32 c 44 ident = Some e"
    using assms(1) by (simp add: put32_ok set_field_def e_def c_def)
  have "copy_from e 48 d = Some ?f"
    using copy_from_long [of 48 e d] len(1) assms(2) by simp
  then have f: "fragment_v6 p n (p ! 6) w ident d = Some ?f"
    using assms(1) s1 s2
    by (simp add: fragment_v6_def gslice_ok upd_ok put16_set_field l_def [symmetric] del: of_nat_add)
       (simp add: c_def)
  have nth: "?f ! i = e ! i" if "i < 48" for i
    using that len by (simp add: nth_append)
  have e: "u16 (e ! 4) (e ! 5) = l" "u16 (e ! 42) (e ! 43) = w" "e ! 6 = 44" "e ! 40 = p ! 6"
      "u32 (u16 (e ! 44) (e ! 45)) (u16 (e ! 46) (e ! 47)) = ident"
      "i < 40 \<Longrightarrow> i \<notin> {4, 5, 6} \<Longrightarrow> e ! i = p ! i" for i
    using len(2) by (simp_all add: e_def c_def set_field_def nth_append)
  have "plen6 ?f = 8 + n"
    using assms(3) by (simp add: plen6_def nth e l_def unat_of_nat16 del: of_nat_add)
  moreover have "be32 ?f 44 = Some ident"
    using len assms(2) e(5) by (simp add: be32_ok nth)
  ultimately show ?thesis
    using f len assms(2) by (simp add: frag6_def hdr6_ok_def nth e)
qed

definition frag6_wf :: "bytes \<Rightarrow> int \<Rightarrow> bool" where
  "frag6_wf p s \<longleftrightarrow> drop_bit 4 (p ! 0) = 6 \<and> (p ! 6 = 6 \<or> p ! 6 = 17) \<and>
     8 \<le> plen6 p \<and> plen6 p < 65528 \<and> 40 + plen6 p \<le> length p"

definition payload6 :: "bytes \<Rightarrow> bytes" where
  "payload6 p = take (plen6 p) (drop 40 p)"

text \<open>Both outcomes of the position adjustment: the fragments are cut at \<open>k\<close>, and the offset the
  second one states is \<open>k\<close> rounded down to a multiple of eight.\<close>

lemma off6':
  assumes "k < 65536"
  shows "unat ((push_bit 3 (of_nat (k div 8)) :: uint16) AND 0xfff8) = k div 8 * 8"
    and "\<not> bit (push_bit 3 (of_nat (k div 8)) :: uint16) 0"
  using off6 [of "k div 8 * 8"] assms by auto

lemma IPv6FragmentPacket_at:
  assumes "frag6_wf p s" "ipv6_split (plen6 p) s = Some (int k)" "k \<le> plen6 p"
  shows "\<exists>f1 f2. IPv6FragmentPacket ident p s = Some ([f1, f2], True) \<and>
     hdr6_ok ident p f1 \<and> hdr6_ok ident p f2 \<and>
     frag6 f1 = (0, True, take k (payload6 p)) \<and>
     frag6 f2 = (k div 8 * 8, False, drop k (payload6 p))"
proof -
  have l: "40 \<le> length p" "p \<noteq> []" "k < 65528" "40 + k \<le> length p"
    using assms(1,3) by (auto simp: frag6_wf_def)
  obtain f1 where f1: "fragment_v6 p k (p ! 6) 1 ident (take k (drop 40 p)) = Some f1"
      "frag6 f1 = (0, True, take k (payload6 p))" "hdr6_ok ident p f1"
    using piece6 [of p k "take k (drop 40 p)" 1 ident] l assms(3)
    by (auto simp: payload6_def min_absorb1)
  have "k < 65536" "plen6 p - k < 65528" "plen6 p - k \<le> length (drop (40 + k) p)"
    using l(3) assms(1,3) by (auto simp: frag6_wf_def)
  then obtain f2 where f2: "fragment_v6 p (plen6 p - k) (p ! 6)
        (push_bit 3 (of_nat (k div 8))) ident (drop (40 + k) p) = Some f2"
      "frag6 f2 = (k div 8 * 8, False, drop k (payload6 p))" "hdr6_ok ident p f2"
    using piece6 [OF l(1), of "plen6 p - k" "drop (40 + k) p" "push_bit 3 (of_nat (k div 8))" ident]
      off6' [of k]
    by (auto simp: payload6_def drop_take add.commute)
  have b: "be16 p 4 = Some (u16 (p ! 4) (p ! 5))"
    using l(1) by (simp add: be16_ok eval_nat_numeral)
  have "IPv6FragmentPacket ident p s = Some ([f1, f2], True)"
    using assms l f1(1) f2(1)
    by (auto simp: IPv6FragmentPacket_def idx_0 idx_ok b gslice_ok slice_from_ok frag6_wf_def
        simp flip: plen6_def)
  then show ?thesis using f1 f2 by blast
qed

lemma ipv6_split_inside:
  assumes "0 < s" "clear7 (s + 7) < int n"
  shows "\<exists>k. ipv6_split n s = Some (int k) \<and> 8 dvd k \<and> 0 < k \<and> k \<le> n"
proof -
  have "0 < clear7 (s + 7)" using clear7_ge8 [of "s + 7"] assms(1) by simp
  then obtain k where k: "clear7 (s + 7) = int k" "0 < k" by (metis pos_int_cases)
  then have "8 dvd k" using clear7_dvd [of "s + 7"] by presburger
  then show ?thesis using k assms(2) by (auto simp: ipv6_split_def Let_def)
qed

interpretation f6: ip_fragmenter "IPv6FragmentPacket ident"
  "\<lambda>p s. frag6_wf p s \<and> 0 < s \<and> clear7 (s + 7) < int (plen6 p)" frag6 payload6 "hdr6_ok ident" for ident
proof
  fix p s
  assume wf: "frag6_wf p s \<and> 0 < s \<and> clear7 (s + 7) < int (plen6 p)"
  then obtain k where k: "ipv6_split (plen6 p) s = Some (int k)" "8 dvd k" "0 < k" "k \<le> plen6 p"
    using ipv6_split_inside by blast
  have "length (payload6 p) = plen6 p" using wf by (auto simp: payload6_def frag6_wf_def)
  then show "\<exists>a b k. IPv6FragmentPacket ident p s = Some ([a, b], True) \<and> 8 dvd k \<and> 0 < k \<and>
      k \<le> length (payload6 p) \<and>
      mset [frag6 a, frag6 b] = mset [(0, True, take k (payload6 p)), (k, False, drop k (payload6 p))] \<and>
      hdr6_ok ident p a \<and> hdr6_ok ident p b"
    using IPv6FragmentPacket_at [of p s k ident] wf k by fastforce
qed

section \<open>UDP fragments\<close>

lemma udp_first_aligned_facts:
  "8 dvd udp_first_aligned n s" "8 \<le> udp_first_aligned n s"
  by (auto simp: udp_first_aligned_def Let_def minus_mod_eq_mult_div)

lemma set_field_append: "i + 2 \<le> length xs \<Longrightarrow> set_field (xs @ ys) i c = set_field xs i c @ ys"
  by (simp add: set_field_def list_update_append)

definition plain4 :: "bytes \<Rightarrow> bytes" where
  "plain4 p = (take 20 p)[0 := (p ! 0 AND 0xF0) OR 5]"

lemma nibble5: "((b AND 0xF0) OR 5) AND 0x0F = (5 :: byte)"
proof -
  have "(b AND 0xF0) AND 0x0F = (0 :: byte)" by (simp add: and.assoc)
  then show ?thesis by (simp add: and.commute [of _ 15] bit.conj_disj_distrib)
qed

lemma plain4_facts:
  assumes "20 \<le> length p"
  shows "ihl4 (plain4 p) = 20" "length (plain4 p) = 20" "0 < i \<Longrightarrow> i < 20 \<Longrightarrow> plain4 p ! i = p ! i"
proof -
  have "plain4 p ! 0 = (p ! 0 AND 0xF0) OR 5" using assms by (simp add: plain4_def)
  then show "ihl4 (plain4 p) = 20" by (simp add: ihl4_def hdr4_eq nibble5)
qed (use assms in \<open>simp_all add: plain4_def\<close>)

text \<open>Every UDP fragment is a plain header, flags and offset, length, data, checksum.\<close>

lemma udp_piece4:
  assumes "20 \<le> length p" "length d < 65516" "hi8 w = a" "lo8 w = b"
  shows "\<exists>f. fragment_udp4 p (u16 (p ! 4) (p ! 5)) a b d = Some f \<and>
     frag4 f = (unat (w AND 0x1fff) * 8, bit w 13, d) \<and> hdr4_ok (plain4 p) f"
proof -
  note pf = plain4_facts [OF assms(1)]
  define q where "q = plain4 p @ d"
  have lq: "length q = 20 + length d" by (simp add: q_def pf)
  obtain f where f: "on_prefix FixIPv4Checksum
        (set_field (set_field q 6 w) 2 (of_nat (length q))) 20 = Some f"
      "frag4 f = (unat (w AND 0x1fff) * 8, bit w 13, d)" "hdr4_ok (plain4 p) f"
    using piece4 [of "plain4 p" q d w] assms(2) by (auto simp: pf q_def)
  have s1: "copy_from (mk (20 + length d)) 0 (take 20 p) = Some (take 20 p @ mk (length d))"
    using assms(1) by (simp add: copy_from_mk0 min_absorb2)
  define n where "n = length d"
  have s2: "(take 20 p @ mk n)[0 := (p ! 0 AND 0xF0) OR 5] = plain4 p @ mk n"
    using assms(1) by (simp add: plain4_def list_update_append)
  have s3: "set_field (plain4 p @ mk n) 4 (u16 (p ! 4) (p ! 5)) = plain4 p @ mk n"
    using pf(2) by (simp add: set_field_def list_update_append flip: pf(3) [of 4] pf(3) [of 5])
  have s4: "(plain4 p @ mk n)[6 := a, 7 := b] = set_field (plain4 p @ mk n) 6 w"
    using assms(3,4) by (simp add: set_field_def)
  have s5: "copy_from (set_field (set_field (plain4 p @ mk n) 6 w) 2 c) 20 d
      = Some (set_field (set_field q 6 w) 2 c)" for c
    by (simp add: set_field_append pf(2) q_def copy_from_mk n_def)
  show ?thesis
    using assms(1) f s1 s5
    by (simp add: fragment_udp4_def gslice_ok idx_ok upd_ok nth_append put16_set_field s2 s3 s4 pf(2) lq n_def [symmetric])
qed

definition udp4_data :: "bytes \<Rightarrow> bytes" where
  "udp4_data p = take (min (length p) (tot4 p) - ihl4 p) (drop (ihl4 p) p)"

definition fragu4_wf :: "bytes \<Rightarrow> int \<Rightarrow> bool" where
  "fragu4_wf p s \<longleftrightarrow> drop_bit 4 (p ! 0) = 4 \<and> 20 \<le> ihl4 p \<and> 28 \<le> length p \<and>
     ihl4 p + 8 \<le> min (length p) (tot4 p) \<and>
     udp_first_aligned (length (udp4_data p) - 8) s < length (udp4_data p)"

lemma offset_bytes:
  assumes "m < 8192"
  shows "hi8 (of_nat m) = of_nat (m div 256) AND 0x1F" "lo8 (of_nat m) = of_nat m"
proof -
  have u: "unat (of_nat m :: uint16) = m" using assms by (simp add: unat_of_nat16)
  have "unat (hi8 (of_nat m)) = m div 256"
    using assms unat_u16 [of "hi8 (of_nat m)" "lo8 (of_nat m)"] unat_byte_bound [of "lo8 (of_nat m)"]
    by (simp add: u)
  moreover have "unat ((of_nat (m div 256) :: byte) AND 0x1F) = m div 256"
  proof -
    have k: "(0x1F :: byte) = mask 5" by (simp add: mask_eq_exp_minus_1)
    have "unat (of_nat (m div 256) :: byte) = m div 256"
      using assms by (simp add: unat_of_nat del: of_nat_div)
    moreover have "m div 256 < 32" using assms by simp
    ultimately show ?thesis
      unfolding k by (simp flip: take_bit_eq_mask add: unsigned_take_bit_eq take_bit_nat_eq_self)
  qed
  ultimately show "hi8 (of_nat m) = of_nat (m div 256) AND 0x1F"
    by (simp add: word_unat_eq_iff)
  show "lo8 (of_nat m) = of_nat m"
    using assms by (simp add: lo8_def unsigned_of_nat take_bit_nat_eq_self)
qed

interpretation fu4: ip_fragmenter IPv4FragmentUDP fragu4_wf frag4 udp4_data
  "\<lambda>p. hdr4_ok (plain4 p)"
proof
  fix p s
  assume wf: "fragu4_wf p s"
  let ?d = "udp4_data p"
  define k where "k = udp_first_aligned (length ?d - 8) s"
  have k: "8 dvd k" "8 \<le> k" "k < length ?d"
    using udp_first_aligned_facts wf by (auto simp: k_def fragu4_wf_def)
  have l: "20 \<le> length p" "length ?d < 65516" "p \<noteq> []" "8 \<le> length ?d"
    using wf tot4_less [of p] k by (auto simp: fragu4_wf_def udp4_data_def)
  have kw: "k div 8 < 8192" using k l by auto
  have w: "unat ((of_nat (k div 8) :: uint16) AND 0x1fff) * 8 = k" "\<not> bit (of_nat (k div 8) :: uint16) 13"
    using off4 [of k] k l unat_of_nat_div8 [of k]
    by (simp_all flip: unat_of_nat_div8)
  have h20: "hi8 0x2000 = 32" "lo8 0x2000 = 0" by (simp_all add: hi8_def lo8_def)
  let ?u = "u16 (p ! 4) (p ! 5)"
  obtain f1 where f1: "fragment_udp4 p ?u 32 0 (take k ?d) = Some f1"
      "frag4 f1 = (0, True, take k ?d)" "hdr4_ok (plain4 p) f1"
    using udp_piece4 [OF l(1) _ h20, of "take k ?d"] l(2) k(3) by auto
  have l2: "length ?d - k < 65516" using l(2) by simp
  obtain f2 where f2: "fragment_udp4 p ?u (of_nat (k div 8 div 256) AND 0x1F) (of_nat (k div 8))
        (drop k ?d) = Some f2"
      "frag4 f2 = (k, False, drop k ?d)" "hdr4_ok (plain4 p) f2"
    using udp_piece4 [OF l(1) _ offset_bytes [OF kw], of "drop k ?d"] l2 k(3) w by auto
  have b: "be16 p 2 = Some (u16 (p ! 2) (p ! 3))" "be16 p 4 = Some ?u"
    using l(1) by (simp_all add: be16_ok eval_nat_numeral)
  have t: "(if unat (u16 (p ! 2) (p ! 3)) > length p then length p else unat (u16 (p ! 2) (p ! 3)))
      = min (length p) (tot4 p)"
    by (auto simp: tot4_def)
  have g: "gslice p (ihl4 p) (min (length p) (tot4 p)) = Some ?d"
    using wf by (auto simp: gslice_ok fragu4_wf_def udp4_data_def)
  have ih: "hdr4s (p ! 0) = ihl4 p" by (simp add: ihl4_def hdr4_shift)
  have "IPv4FragmentUDP p s = Some ([f2, f1], True)"
    unfolding IPv4FragmentUDP_def Let_def
    using wf l k f1(1) f2(1)
    by (simp add: idx_0 b t g ih fragu4_wf_def slice_from_ok gslice_ok k_def [symmetric])
  then show "\<exists>a b k. IPv4FragmentUDP p s = Some ([a, b], True) \<and> 8 dvd k \<and> 0 < k \<and> k \<le> length ?d \<and>
      mset [frag4 a, frag4 b] = mset [(0, True, take k ?d), (k, False, drop k ?d)] \<and>
      hdr4_ok (plain4 p) a \<and> hdr4_ok (plain4 p) b"
    using f1 f2 k by (intro exI [of _ f2] exI [of _ f1] exI [of _ k]) (simp add: add_mset_commute)
qed

definition fragu6_wf :: "bytes \<Rightarrow> int \<Rightarrow> bool" where
  "fragu6_wf p s \<longleftrightarrow> frag6_wf p s \<and> p ! 6 = 17 \<and> udp_first_aligned (plen6 p - 8) s < plen6 p"

interpretation fu6: ip_fragmenter "IPv6FragmentUDP ident" fragu6_wf frag6 payload6 "hdr6_ok ident"
  for ident
proof
  fix p s
  assume wf: "fragu6_wf p s"
  let ?d = "payload6 p"
  have ld: "length ?d = plen6 p" using wf by (auto simp: payload6_def fragu6_wf_def frag6_wf_def)
  define k where "k = udp_first_aligned (length ?d - 8) s"
  have k: "8 dvd k" "8 \<le> k" "k < plen6 p"
    using udp_first_aligned_facts wf by (auto simp: k_def fragu6_wf_def ld)
  have l: "48 \<le> length p" "40 \<le> length p" "p \<noteq> []" "plen6 p < 65528" "p ! 6 = 17"
    using wf by (auto simp: fragu6_wf_def frag6_wf_def)
  obtain f1 where f1: "fragment_v6 p k 17 1 ident (take k ?d) = Some f1"
      "frag6 f1 = (0, True, take k ?d)" "hdr6_ok ident p f1"
    using piece6 [OF l(2), of k "take k ?d" 1 ident] k l(4,5) ld by auto
  have l2: "plen6 p - k < 65528" using l(4) by simp
  obtain f2 where f2: "fragment_v6 p (plen6 p - k) 17 (push_bit 3 (of_nat (k div 8))) ident
        (drop k ?d) = Some f2"
      "frag6 f2 = (k, False, drop k ?d)" "hdr6_ok ident p f2"
    using piece6 [OF l(2), of "plen6 p - k" "drop k ?d" "push_bit 3 (of_nat (k div 8))" ident]
      k l2 l(4,5) ld off6 [of k] by auto
  have b: "be16 p 4 = Some (u16 (p ! 4) (p ! 5))"
    using l(1) by (simp add: be16_ok eval_nat_numeral)
  have g: "gslice p 40 (40 + plen6 p) = Some ?d"
    using wf by (auto simp: gslice_ok fragu6_wf_def frag6_wf_def payload6_def)
  have "IPv6FragmentUDP ident p s = Some ([f2, f1], True)"
    unfolding IPv6FragmentUDP_def Let_def
    using wf l k f1(1) f2(1)
    by (simp add: idx_0 idx_ok b g ld fragu6_wf_def frag6_wf_def slice_from_ok gslice_ok
        k_def [symmetric, unfolded ld] flip: plen6_def)
  then show "\<exists>a b k. IPv6FragmentUDP ident p s = Some ([a, b], True) \<and> 8 dvd k \<and> 0 < k \<and>
      k \<le> length ?d \<and>
      mset [frag6 a, frag6 b] = mset [(0, True, take k ?d), (k, False, drop k ?d)] \<and>
      hdr6_ok ident p a \<and> hdr6_ok ident p b"
    using f1 f2 k ld by (intro exI [of _ f2] exI [of _ f1] exI [of _ k]) (simp add: add_mset_commute)
qed

section \<open>What the fragmenters promise\<close>

text \<open>C19: IPv4 fragmentation. Whatever split position is asked for, a packet with at least 16 payload
  bytes is cut into two fragments with correct lengths and header checksums and otherwise unchanged
  headers, and a receiver that gets them in any order reassembles exactly the payload of the
  original packet.\<close>
theorem IPv4FragmentPacket_reassembles:
  assumes "frag4_wf p s"
  shows "\<exists>fs. IPv4FragmentPacket p s = Some (fs, True) \<and> length fs = 2 \<and>
     (\<forall>f \<in> set fs. hdr4_ok p f) \<and>
     (\<forall>gs. mset gs = mset fs \<longrightarrow> reassemble (map frag4 gs) = Some (drop (ihl4 p) p))"
  using assms by (rule f4.any_order)

theorem IPv4FragmentPacket_witness:
  "\<exists>fs. IPv4FragmentPacket sample_tcp4 (- 5) = Some (fs, True) \<and>
     reassemble (map frag4 (rev fs)) = Some (drop 20 sample_tcp4)"
proof -
  have "frag4_wf sample_tcp4 (- 5)" "ihl4 sample_tcp4 = 20"
    by (simp_all add: frag4_wf_def sample_tcp4_def ihl4_def hdr4_def)
  then show ?thesis using IPv4FragmentPacket_reassembles [of sample_tcp4 "- 5"]
    by (metis mset_rev)
qed

text \<open>IPv6 fragmentation of TCP and UDP packets, for split positions inside the payload: two
  fragments with the same identification, correct payload lengths and unchanged addresses, which
  reassemble to the payload in any order.\<close>
theorem IPv6FragmentPacket_reassembles:
  assumes "frag6_wf p s" "0 < s" "clear7 (s + 7) < int (plen6 p)"
  shows "\<exists>fs. IPv6FragmentPacket ident p s = Some (fs, True) \<and> length fs = 2 \<and>
     (\<forall>f \<in> set fs. hdr6_ok ident p f) \<and>
     (\<forall>gs. mset gs = mset fs \<longrightarrow> reassemble (map frag6 gs) = Some (payload6 p))"
  by (rule f6.any_order) (use assms in simp)

theorem IPv6FragmentPacket_witness:
  "\<exists>fs. IPv6FragmentPacket 77 sample_tcp6 9 = Some (fs, True) \<and>
     reassemble (map frag6 (rev fs)) = Some (payload6 sample_tcp6)"
proof -
  have "frag6_wf sample_tcp6 9" "clear7 (9 + 7) < int (plen6 sample_tcp6)"
    by (simp_all add: frag6_wf_def sample_tcp6_def plen6_def unat_u16 clear7_def)
  then show ?thesis using IPv6FragmentPacket_reassembles [of sample_tcp6 9 77]
    by (metis mset_rev zero_less_numeral)
qed

text \<open>A split position behind the payload is replaced by \<open>payloadLen - 8\<close>, which IPv4 rounds down
  to a multiple of eight and IPv6 does not: unless the payload length is a multiple of eight, the
  first fragment then has a length no receiver accepts.\<close>
lemma IPv6FragmentPacket_misaligned:
  assumes "frag6_wf p s" "int (plen6 p) \<le> clear7 (s + 7)" "16 \<le> plen6 p" "\<not> 8 dvd plen6 p"
  shows "\<exists>fs. IPv6FragmentPacket ident p s = Some (fs, True) \<and> reassemble (map frag6 fs) = None"
proof -
  let ?k = "plen6 p - 8"
  have "int (plen6 p) - 8 = int ?k" using assms(3) by simp
  then have "ipv6_split (plen6 p) s = Some (int ?k)"
    using assms(2,3) by (simp add: ipv6_split_def Let_def)
  then obtain f1 f2 where f: "IPv6FragmentPacket ident p s = Some ([f1, f2], True)"
      "frag6 f1 = (0, True, take ?k (payload6 p))"
      "frag6 f2 = (?k div 8 * 8, False, drop ?k (payload6 p))"
    using IPv6FragmentPacket_at [OF assms(1), of ?k ident] by auto
  have "length (payload6 p) = plen6 p" using assms(1) by (auto simp: payload6_def frag6_wf_def)
  moreover have "\<not> 8 dvd ?k" using assms(3,4) by presburger
  moreover have "0 < ?k div 8 * 8" using assms(3) by auto
  ultimately have "reassemble [frag6 f1, frag6 f2] = None"
    by (simp add: reassemble_def f(2,3))
  then show ?thesis using f(1) by auto
qed

text \<open>C20: fragmentation of UDP datagrams, which cuts behind the UDP header and sends the second piece
  first: over IPv4 and over IPv6 a receiver reassembles the whole datagram.\<close>
theorem FragmentUDP_reassembles:
  "(fragu4_wf p s \<longrightarrow> (\<exists>fs. IPv4FragmentUDP p s = Some (fs, True) \<and>
      (\<forall>f \<in> set fs. hdr4_ok (plain4 p) f) \<and> reassemble (map frag4 fs) = Some (udp4_data p))) \<and>
   (fragu6_wf p s \<longrightarrow> (\<exists>fs. IPv6FragmentUDP ident p s = Some (fs, True) \<and>
      (\<forall>f \<in> set fs. hdr6_ok ident p f) \<and> reassemble (map frag6 fs) = Some (payload6 p)))"
  using fu4.any_order [of p s] fu6.any_order [of p s ident] by blast

definition sample_udp4_long :: bytes where
  "sample_udp4_long = [0x45, 0, 0, 40, 0, 9, 0x40, 0, 64, 17, 0, 0, 10, 0, 0, 1, 10, 0, 0, 2,
     0x30, 0x39, 1, 187, 0, 20, 0xde, 0xad, 1, 2, 3, 4, 5, 6, 7, 8, 9, 10, 11, 12]"

theorem FragmentUDP_witness:
  "\<exists>fs. IPv4FragmentUDP sample_udp4_long 0 = Some (fs, True) \<and>
     reassemble (map frag4 fs) = Some (drop 20 sample_udp4_long)"
proof -
  have e: "ihl4 sample_udp4_long = 20" "tot4 sample_udp4_long = 40" "length sample_udp4_long = 40"
      "drop_bit 4 (sample_udp4_long ! 0) = 4"
    by (simp_all add: sample_udp4_long_def ihl4_def hdr4_def tot4_def unat_u16)
  then have "udp4_data sample_udp4_long = drop 20 sample_udp4_long"
    by (simp add: udp4_data_def)
  moreover from this have "fragu4_wf sample_udp4_long 0"
    by (simp add: fragu4_wf_def e udp_first_aligned_def)
  ultimately show ?thesis
    using FragmentUDP_reassembles [of sample_udp4_long 0 0, THEN conjunct1] by auto
qed

section \<open>Building datagrams\<close>

lemma FixUDPChecksum_shape:
  "udp4_wf ihl p \<Longrightarrow> \<exists>c. FixUDPChecksum p ihl = Some (set_field p (ihl + 6) c) \<and>
     cs_ok (udp4_total ihl (set_field p (ihl + 6) c))"
  using udp4.fixup_returns udp4.fixup_shape by blast

lemma FixUDPChecksumV6_shape:
  "udp6_wf p \<Longrightarrow> \<exists>c. FixUDPChecksumV6 p = Some (set_field p 46 c) \<and>
     cs_ok (udp6_total (set_field p 46 c))"
  using udp6.fixup_returns udp6.fixup_shape by blast

text \<open>The IPv4 header and the UDP datagram of a finished packet.\<close>
definition udp4_packet :: "bytes \<Rightarrow> bytes \<Rightarrow> bytes \<Rightarrow> uint16 \<Rightarrow> uint16 \<Rightarrow> bytes \<Rightarrow> bool" where
  "udp4_packet q src dst sp dp payload \<longleftrightarrow>
     q ! 0 = 0x45 \<and> ihl4 q = 20 \<and> tot4 q = length q \<and> q ! 9 = 17 \<and>
     take 4 (drop 12 q) = src \<and> take 4 (drop 16 q) = dst \<and>
     u16 (q ! 20) (q ! 21) = sp \<and> u16 (q ! 22) (q ! 23) = dp \<and>
     ulen_at 20 q = 8 + length payload \<and> drop 28 q = payload \<and>
     cs_ok (ip4_total q) \<and> cs_ok (udp4_total 20 q)"

lemma To4_length: "To4 ip = Some a \<Longrightarrow> length a = 4"
  by (auto simp: To4_def split: if_splits)

text \<open>The IPv4 packet before its checksums.\<close>
definition udp4_raw :: "uint16 \<Rightarrow> bytes \<Rightarrow> bytes \<Rightarrow> uint16 \<Rightarrow> uint16 \<Rightarrow> bytes \<Rightarrow> bytes" where
  "udp4_raw rid src dst sp dp payload =
     (let h = set_field (set_field ((mk (28 + length payload))[0 := 0x45]) 2
                (of_nat (28 + length payload))) 4 rid;
          a = blit (blit (h[8 := 64, 9 := 17]) 12 src) 16 dst;
          u = set_field (set_field (set_field a 20 sp) 22 dp) 24 (of_nat (8 + length payload))
      in blit u 28 payload)"

lemma udp4_raw_facts:
  assumes "length src = 4" "length dst = 4" "length payload \<le> 65507"
    "r = udp4_raw rid src dst sp dp payload"
  shows "length r = 28 + length payload" "ihl4 r = 20" "tot4 r = length r" "r ! 9 = 17"
    "take 4 (drop 12 r) = src" "take 4 (drop 16 r) = dst"
    "u16 (r ! 20) (r ! 21) = sp" "u16 (r ! 22) (r ! 23) = dp"
    "ulen_at 20 r = 8 + length payload" "drop 28 r = payload" "r ! 0 = 0x45"
proof -
  define n u :: uint16 where nu: "n = of_nat (28 + length payload)" "u = of_nat (8 + length payload)"
  define h where "h = set_field (set_field ((mk (28 + length payload))[0 := 0x45]) 2 n) 4 rid"
  define a where "a = blit (blit (h[8 := 64, 9 := 17]) 12 src) 16 dst"
  define v where "v = set_field (set_field (set_field a 20 sp) 22 dp) 24 u"
  have r: "r = blit v 28 payload"
    by (simp only: assms(4) udp4_raw_def Let_def nu h_def a_def v_def)
  have lh: "length h = 28 + length payload" by (simp add: h_def)
  have la: "length a = 28 + length payload" using lh assms by (simp add: a_def)
  have lv: "length v = 28 + length payload" using la by (simp add: v_def)
  show lr: "length r = 28 + length payload" using lv by (simp add: r)
  have rv: "r ! i = v ! i" if "i < 28" for i using that lv by (simp add: r)
  have va: "v ! i = a ! i" if "i < 20" for i using that by (simp add: v_def)
  have ah: "a ! i = h[8 := 64, 9 := 17] ! i" if "i < 12" for i
    using that lh assms by (simp add: a_def)
  have hf: "h ! 0 = 0x45" "u16 (h ! 2) (h ! 3) = n"
    by (simp_all add: h_def set_field_def)
  show "r ! 0 = 0x45" by (simp add: rv va ah hf)
  then show "ihl4 r = 20" by (simp add: ihl4_def hdr4_def)
  show "tot4 r = length r"
    using assms(3) lr by (simp add: tot4_def rv va ah hf nu unat_of_nat16 del: of_nat_add)
  show "r ! 9 = 17" using lh by (simp add: rv va ah)
  have vu: "u16 (v ! 20) (v ! 21) = sp" "u16 (v ! 22) (v ! 23) = dp" "u16 (v ! 24) (v ! 25) = u"
    using la by (simp_all add: v_def set_field_def)
  then show "u16 (r ! 20) (r ! 21) = sp" "u16 (r ! 22) (r ! 23) = dp" by (simp_all add: rv)
  show "ulen_at 20 r = 8 + length payload"
    using vu(3) assms(3) by (simp add: ulen_at_def rv nu unat_of_nat16 del: of_nat_add)
  show "drop 28 r = payload" using lv by (simp add: r drop_blit)
  have seg: "take 4 (drop k r) = s" if "\<And>i. i < 4 \<Longrightarrow> a ! (k + i) = s ! i" "length s = 4" "k \<le> 16" for k s
    by (rule nth_equalityI) (use that lr in \<open>simp_all add: rv va\<close>)
  show "take 4 (drop 12 r) = src" "take 4 (drop 16 r) = dst"
    by (rule seg; use lh assms in \<open>simp add: a_def blit_nth\<close>)+
qed

lemma BuildUDPPacketV4_ok:
  assumes "To4 srcIP = Some src" "To4 dstIP = Some dst" "length payload \<le> 65507"
  shows "\<exists>q. BuildUDPPacketV4 rid srcIP dstIP sp dp payload = Some (Some q) \<and>
     udp4_packet q src dst sp dp payload"
proof -
  note ls = To4_length [OF assms(1)] and ld = To4_length [OF assms(2)]
  define r where "r = udp4_raw rid src dst sp dp payload"
  note f = udp4_raw_facts [OF ls ld assms(3) r_def]
  have "ip4_wf r" using f(1,2) by (simp add: ip4_wf_def)
  then obtain c where c: "on_prefix FixIPv4Checksum r 20 = Some (set_field r 10 c)"
      "cs_ok (ip4_total (set_field r 10 c))"
    using on_prefix_FixIPv4Checksum [of r] f(2) by auto
  let ?p = "set_field r 10 c"
  have "udp4_wf 20 ?p" using f(1) assms(3) by (simp add: udp4_wf_def)
  then obtain d where d: "FixUDPChecksum ?p 20 = Some (set_field ?p 26 d)"
      "cs_ok (udp4_total 20 (set_field ?p 26 d))"
    using FixUDPChecksum_shape [of 20 ?p] by auto
  have "BuildUDPPacketV4 rid srcIP dstIP sp dp payload = Some (Some (set_field ?p 26 d))"
    using c(1) d(1) ls ld assms
    by (simp add: BuildUDPPacketV4_def upd_ok put16_set_field copy_into_blit copy_from_blit
        r_def udp4_raw_def Let_def del: of_nat_add)
  moreover have "udp4_packet (set_field ?p 26 d) src dst sp dp payload"
    using f c(2) d(2)
    by (simp add: udp4_packet_def drop_set_field_ge ip4_total_field_ge ulen_at_def
        drop_set_field take_set_field_ge)
  ultimately show ?thesis by blast
qed

text \<open>building an IPv4 UDP packet. For two IPv4 addresses (also given as IPv4-mapped IPv6
  addresses) and a payload that fits, the result is a well-formed datagram with these addresses,
  ports and payload and with correct lengths and checksums; otherwise the builder returns nil.\<close>
theorem BuildUDPPacketV4_correct:
  "case (To4 srcIP, To4 dstIP) of
     (Some src, Some dst) \<Rightarrow>
       if length payload \<le> 65507
       then \<exists>q. BuildUDPPacketV4 rid srcIP dstIP sp dp payload = Some (Some q) \<and>
              udp4_packet q src dst sp dp payload
       else BuildUDPPacketV4 rid srcIP dstIP sp dp payload = Some None
   | _ \<Rightarrow> BuildUDPPacketV4 rid srcIP dstIP sp dp payload = Some None"
  using BuildUDPPacketV4_ok [of srcIP _ dstIP _ payload rid sp dp]
  by (auto simp: BuildUDPPacketV4_def split: option.split)

text \<open>The IPv6 header and the UDP datagram of a finished packet.\<close>
definition udp6_packet :: "bytes \<Rightarrow> bytes \<Rightarrow> bytes \<Rightarrow> uint16 \<Rightarrow> uint16 \<Rightarrow> bytes \<Rightarrow> bool" where
  "udp6_packet q src dst sp dp payload \<longleftrightarrow>
     q ! 0 = 0x60 \<and> length q = 48 + length payload \<and> plen6 q = 8 + length payload \<and> q ! 6 = 17 \<and>
     take 16 (drop 8 q) = src \<and> take 16 (drop 24 q) = dst \<and>
     u16 (q ! 40) (q ! 41) = sp \<and> u16 (q ! 42) (q ! 43) = dp \<and>
     ulen_at 40 q = 8 + length payload \<and> drop 48 q = payload \<and> cs_ok (udp6_total q)"

lemma To16_length: "To16 ip = Some a \<Longrightarrow> length a = 16"
  by (auto simp: To16_def v4InV6Prefix_def split: if_splits)

definition udp6_raw :: "bytes \<Rightarrow> bytes \<Rightarrow> uint16 \<Rightarrow> uint16 \<Rightarrow> bytes \<Rightarrow> bytes" where
  "udp6_raw src dst sp dp payload =
     (let h = set_field ((mk (48 + length payload))[0 := 0x60]) 4 (of_nat (8 + length payload));
          a = blit (blit (h[6 := 17, 7 := 64]) 8 src) 24 dst;
          u = set_field (set_field (set_field a 40 sp) 42 dp) 44 (of_nat (8 + length payload))
      in blit u 48 payload)"

lemma udp6_raw_facts:
  assumes "length src = 16" "length dst = 16" "length payload \<le> 65527"
    "r = udp6_raw src dst sp dp payload"
  shows "length r = 48 + length payload" "r ! 0 = 0x60" "plen6 r = 8 + length payload" "r ! 6 = 17"
    "take 16 (drop 8 r) = src" "take 16 (drop 24 r) = dst"
    "u16 (r ! 40) (r ! 41) = sp" "u16 (r ! 42) (r ! 43) = dp"
    "ulen_at 40 r = 8 + length payload" "drop 48 r = payload"
proof -
  define n :: uint16 where n: "n = of_nat (8 + length payload)"
  define h where "h = set_field ((mk (48 + length payload))[0 := 0x60]) 4 n"
  define a where "a = blit (blit (h[6 := 17, 7 := 64]) 8 src) 24 dst"
  define v where "v = set_field (set_field (set_field a 40 sp) 42 dp) 44 n"
  have r: "r = blit v 48 payload"
    by (simp only: assms(4) udp6_raw_def Let_def n h_def a_def v_def)
  have un: "unat n = 8 + length payload" using assms(3) by (simp add: n unat_of_nat16 del: of_nat_add)
  have lh: "length h = 48 + length payload" by (simp add: h_def)
  have la: "length a = 48 + length payload" using lh assms by (simp add: a_def)
  have lv: "length v = 48 + length payload" using la by (simp add: v_def)
  show lr: "length r = 48 + length payload" using lv by (simp add: r)
  have rv: "r ! i = v ! i" if "i < 48" for i using that lv by (simp add: r)
  have va: "v ! i = a ! i" if "i < 40" for i using that by (simp add: v_def)
  have ah: "a ! i = h[6 := 17, 7 := 64] ! i" if "i < 8" for i
    using that lh assms by (simp add: a_def)
  have hf: "h ! 0 = 0x60" "u16 (h ! 4) (h ! 5) = n"
    by (simp_all add: h_def set_field_def)
  show "r ! 0 = 0x60" by (simp add: rv va ah hf)
  show "plen6 r = 8 + length payload" by (simp add: plen6_def rv va ah hf un)
  show "r ! 6 = 17" using lh by (simp add: rv va ah)
  have vu: "u16 (v ! 40) (v ! 41) = sp" "u16 (v ! 42) (v ! 43) = dp" "u16 (v ! 44) (v ! 45) = n"
    using la by (simp_all add: v_def set_field_def)
  then show "u16 (r ! 40) (r ! 41) = sp" "u16 (r ! 42) (r ! 43) = dp" by (simp_all add: rv)
  show "ulen_at 40 r = 8 + length payload" using vu(3) by (simp add: ulen_at_def rv un)
  show "drop 48 r = payload" using lv by (simp add: r drop_blit)
  have seg: "take 16 (drop k r) = s" if "\<And>i. i < 16 \<Longrightarrow> a ! (k + i) = s ! i" "length s = 16" "k \<le> 24" for k s
    by (rule nth_equalityI) (use that lr in \<open>simp_all add: rv va\<close>)
  show "take 16 (drop 8 r) = src" "take 16 (drop 24 r) = dst"
    by (rule seg; use lh assms in \<open>simp add: a_def blit_nth\<close>)+
qed

lemma BuildUDPPacketV6_ok:
  assumes "To16 srcIP = Some src" "To16 dstIP = Some dst" "To4 srcIP = None" "To4 dstIP = None"
    "length payload \<le> 65527"
  shows "\<exists>q. BuildUDPPacketV6 srcIP dstIP sp dp payload = Some (Some q) \<and>
     udp6_packet q src dst sp dp payload"
proof -
  note ls = To16_length [OF assms(1)] and ld = To16_length [OF assms(2)]
  define r where "r = udp6_raw src dst sp dp payload"
  note f = udp6_raw_facts [OF ls ld assms(5) r_def]
  have "udp6_wf r" using f(1,3) by (simp add: udp6_wf_def)
  then obtain d where d: "FixUDPChecksumV6 r = Some (set_field r 46 d)" "cs_ok (udp6_total (set_field r 46 d))"
    using FixUDPChecksumV6_shape [of r] by auto
  have "BuildUDPPacketV6 srcIP dstIP sp dp payload = Some (Some (set_field r 46 d))"
    using d(1) ls ld assms
    by (simp add: BuildUDPPacketV6_def upd_ok put16_set_field copy_into_blit copy_from_blit
        r_def udp6_raw_def Let_def del: of_nat_add)
  moreover have "udp6_packet (set_field r 46 d) src dst sp dp payload"
    using f d(2) by (simp add: udp6_packet_def drop_set_field_ge drop_set_field take_set_field_ge)
  ultimately show ?thesis by blast
qed

text \<open>building an IPv6 UDP packet. For two IPv6 addresses that are not IPv4-mapped and a payload
  that fits, the result is a well-formed datagram with these addresses, ports and payload and with
  correct lengths and checksum; otherwise the builder returns nil.\<close>
theorem BuildUDPPacketV6_correct:
  "case (To16 srcIP, To16 dstIP) of
     (Some src, Some dst) \<Rightarrow>
       if To4 srcIP = None \<and> To4 dstIP = None \<and> length payload \<le> 65527
       then \<exists>q. BuildUDPPacketV6 srcIP dstIP sp dp payload = Some (Some q) \<and>
              udp6_packet q src dst sp dp payload
       else BuildUDPPacketV6 srcIP dstIP sp dp payload = Some None
   | _ \<Rightarrow> BuildUDPPacketV6 srcIP dstIP sp dp payload = Some None"
  using BuildUDPPacketV6_ok [of srcIP _ dstIP _ payload sp dp]
  by (auto simp: BuildUDPPacketV6_def split: option.split)

end
