(* ===== verification/ConfigTypes.thy ===== *)
theory ConfigTypes
  imports B4_Prelude
begin

text \<open>
  The configuration types of \<^verbatim>\<open>src/src/config/types.go\<close> that the packet path works with, with all their
  fields; a field whose name occurs in several types carries a prefix. Texts that the code only
  compares with constants (modes, strategies) are \<open>string\<close>; texts whose bytes it takes apart (names,
  addresses, port filters, identifiers) are byte lists. \<^verbatim>\<open>int\<close> is \<open>int\<close>, \<^verbatim>\<open>SeqOffset\<close>, an \<^verbatim>\<open>int32\<close>, is kept
  as its 32 bits.
\<close>

record PortRange =
  pr_Min :: uint16
  pr_Max :: uint16

record IPBlockDetectConfig =
  ibd_Enabled :: bool
  RetransmitThreshold :: int
  TimeoutMs :: int
  CacheBlockedIPs :: bool

record RSTProtectionConfig =
  rstp_Enabled :: bool
  TTLTolerance :: int

record WinConfig =
  win_Mode :: string
  Values :: "int list"

record DesyncConfig =
  desync_Mode :: string
  desync_TTL :: byte
  desync_Count :: int
  PostDesync :: bool

record IncomingConfig =
  inc_Mode :: string
  Min :: int
  Max :: int
  FakeTTL :: byte
  FakeCount :: int
  inc_Strategy :: string

record DuplicateConfig =
  dup_Enabled :: bool
  dup_Count :: int

record TCPConfig =
  tcp_ConnBytesLimit :: int
  tcp_Seg2Delay :: int
  tcp_Seg2DelayMax :: int
  SynFake :: bool
  SynFakeLen :: int
  SynTTL :: byte
  DropSACK :: bool
  tcp_DPortFilter :: bytes
  Incoming :: IncomingConfig
  Desync :: DesyncConfig
  Win :: WinConfig
  Duplicate :: DuplicateConfig
  IPBlockDetect :: IPBlockDetectConfig
  RSTProtection :: RSTProtectionConfig

record UDPConfig =
  udp_Mode :: string
  FakeSeqLength :: int
  FakeLen :: int
  udp_FakingStrategy :: string
  FakePayloadFile :: bytes
  FakePayloadData :: bytes
  udp_DPortFilter :: bytes
  FilterQUIC :: string
  FilterSTUN :: bool
  udp_ConnBytesLimit :: int
  udp_Seg2Delay :: int
  udp_Seg2DelayMax :: int

record ComboFragConfig =
  FirstByteSplit :: bool
  ExtensionSplit :: bool
  combo_ShuffleMode :: string
  FirstDelayMs :: int
  FirstDelayMsMax :: int
  JitterMaxUs :: int
  JitterMaxUsMax :: int
  DecoyEnabled :: bool
  combo_FakePerSegment :: bool
  combo_FakePerSegCount :: int
  combo_FakePerSegCountMax :: int

record DisorderFragConfig =
  dis_ShuffleMode :: string
  MinJitterUs :: int
  MaxJitterUs :: int
  dis_FakePerSegment :: bool
  dis_FakePerSegCount :: int
  dis_FakePerSegCountMax :: int

record FragmentationConfig =
  frag_Strategy :: string
  frag_ReverseOrder :: bool
  StrategyPool :: "string list"
  TLSRecordPosition :: int
  TLSRecordPositionMax :: int
  MiddleSNI :: bool
  SNIPosition :: int
  SNIPositionMax :: int
  OOBPosition :: int
  OOBPositionMax :: int
  OOBChar :: byte
  SeqOverlapPattern :: "bytes list"
  SeqOverlapBytes :: bytes
  SeqOverlapLength :: int
  Combo :: ComboFragConfig
  Disorder :: DisorderFragConfig

record SNIMutationConfig =
  mut_Mode :: string
  GreaseCount :: int
  PaddingSize :: int
  FakeExtCount :: int
  FakeSNIs :: "bytes list"

record FakingConfig =
  fake_SNI :: bool
  TTL :: byte
  Strategy :: string
  SeqOffset :: uint32
  SNISeqLength :: int
  SNIType :: int
  CustomPayload :: bytes
  PayloadFile :: bytes
  PayloadDomain :: bytes
  PayloadData :: bytes
  TLSMod :: "string list"
  TimestampDecrease :: uint32
  SNIMutation :: SNIMutationConfig
  TCPMD5 :: bool

record TargetsConfig =
  SNIDomains :: "bytes list"
  IPs :: "bytes list"
  GeoSiteCategories :: "bytes list"
  GeoIpCategories :: "bytes list"
  SourceDevices :: "bytes list"
  SourceDevicesExclude :: bool
  DomainOnly :: bool
  TLSVersion :: bytes
  IPVersion :: bytes
  DomainsToMatch :: "bytes list"
  IpsToMatch :: "bytes list"

record DNSConfig =
  dns_Enabled :: bool
  TargetDNS :: bytes
  DoHURL :: bytes
  dns_FragmentQuery :: bool

record UpstreamProxyConfig =
  up_Host :: bytes
  up_Port :: int
  up_Username :: bytes
  up_Password :: bytes
  FailOpen :: bool
  UseDomain :: bool
  up_UDP :: bool

record RoutingConfig =
  routing_Enabled :: bool
  routing_Mode :: string
  EgressInterface :: bytes
  Upstream :: UpstreamProxyConfig
  FWMark :: uint32
  Table :: int
  SourceInterfaces :: "bytes list"
  IPTTLSeconds :: int
  BlockAction :: string

record EscalateConfig =
  To :: bytes
  RstThreshold :: int
  RstWindowSec :: int
  TtlSec :: int

record MSSClampConfig =
  mss_Enabled :: bool
  mss_Size :: int

record SetConfig =
  Id :: bytes
  Name :: bytes
  TCP :: TCPConfig
  UDP :: UDPConfig
  Fragmentation :: FragmentationConfig
  Faking :: FakingConfig
  Targets :: TargetsConfig
  Enabled :: bool
  DNS :: DNSConfig
  TCPPortRanges :: "PortRange list"
  UDPPortRanges :: "PortRange list"
  Routing :: RoutingConfig
  Escalate :: EscalateConfig
  MSSClamp :: MSSClampConfig

abbreviation ConfigOff :: string where "ConfigOff \<equiv> ''off''"
abbreviation ConfigNone :: string where "ConfigNone \<equiv> ''none''"

definition RoutingModeInterface :: string where "RoutingModeInterface = ''interface''"
definition RoutingModeProxy :: string where "RoutingModeProxy = ''proxy''"
definition RoutingModeMTProtoWS :: string where "RoutingModeMTProtoWS = ''mtproto-ws''"
definition RoutingModeBlock :: string where "RoutingModeBlock = ''block''"
definition BlockActionDrop :: string where "BlockActionDrop = ''drop''"
definition BlockActionReject :: string where "BlockActionReject = ''reject''"

definition RoutingUsesTProxy :: "string \<Rightarrow> bool" where
  "RoutingUsesTProxy mode \<longleftrightarrow> mode = RoutingModeProxy \<or> mode = RoutingModeMTProtoWS"

definition RoutingIsBlock :: "string \<Rightarrow> bool" where
  "RoutingIsBlock mode \<longleftrightarrow> mode = RoutingModeBlock"

definition NormalizeBlockAction :: "string \<Rightarrow> string" where
  "NormalizeBlockAction action = (if action = BlockActionDrop then BlockActionDrop else BlockActionReject)"

text \<open>\<open>rnd\<close> is the result of \<open>rand.Intn(max-min+1)\<close>.\<close>
definition ResolveRange :: "int \<Rightarrow> int \<Rightarrow> int \<Rightarrow> int" where
  "ResolveRange rnd lo hi = (if hi \<le> lo then lo else lo + rnd)"

text \<open>\<open>rnd\<close> is the result of \<open>rand.Intn(len(pool))\<close>.\<close>
definition ResolveStrategyPool :: "nat \<Rightarrow> string list \<Rightarrow> string \<Rightarrow> string option" where
  "ResolveStrategyPool rnd pool fallback = (if length pool = 0 then Some fallback else idx pool rnd)"

section \<open>A plain configuration\<close>

text \<open>A set with nothing switched on, for examples\<close>
definition plain_mutation :: SNIMutationConfig where
  "plain_mutation = \<lparr>mut_Mode = ConfigOff, GreaseCount = 3, PaddingSize = 2048, FakeExtCount = 5, FakeSNIs = []\<rparr>"

definition plain_faking :: FakingConfig where
  "plain_faking = \<lparr>fake_SNI = False, TTL = 8, Strategy = ''pastseq'', SeqOffset = 10000, SNISeqLength = 1, SNIType = 2,
     CustomPayload = [], PayloadFile = [], PayloadDomain = [], PayloadData = [], TLSMod = [],
     TimestampDecrease = 600000, SNIMutation = plain_mutation, TCPMD5 = False\<rparr>"

definition plain_incoming :: IncomingConfig where
  "plain_incoming = \<lparr>inc_Mode = ConfigOff, Min = 14, Max = 14, FakeTTL = 3, FakeCount = 3, inc_Strategy = ''badsum''\<rparr>"

definition plain_tcp :: TCPConfig where
  "plain_tcp = \<lparr>tcp_ConnBytesLimit = 19, tcp_Seg2Delay = 0, tcp_Seg2DelayMax = 0, SynFake = False, SynFakeLen = 0,
     SynTTL = 7, DropSACK = False, tcp_DPortFilter = [], Incoming = plain_incoming,
     Desync = \<lparr>desync_Mode = ConfigOff, desync_TTL = 3, desync_Count = 3, PostDesync = False\<rparr>,
     Win = \<lparr>win_Mode = ConfigOff, Values = [0, 1460, 8192, 65535]\<rparr>,
     Duplicate = \<lparr>dup_Enabled = False, dup_Count = 3\<rparr>,
     IPBlockDetect = \<lparr>ibd_Enabled = False, RetransmitThreshold = 0, TimeoutMs = 0, CacheBlockedIPs = False\<rparr>,
     RSTProtection = \<lparr>rstp_Enabled = False, TTLTolerance = 3\<rparr>\<rparr>"

definition plain_udp :: UDPConfig where
  "plain_udp = \<lparr>udp_Mode = ''fake'', FakeSeqLength = 6, FakeLen = 64, udp_FakingStrategy = ''none'', FakePayloadFile = [],
     FakePayloadData = [], udp_DPortFilter = [], FilterQUIC = ''disabled'', FilterSTUN = True, udp_ConnBytesLimit = 8,
     udp_Seg2Delay = 0, udp_Seg2DelayMax = 0\<rparr>"

definition plain_fragmentation :: FragmentationConfig where
  "plain_fragmentation = \<lparr>frag_Strategy = ConfigNone, frag_ReverseOrder = False, StrategyPool = [],
     TLSRecordPosition = 1, TLSRecordPositionMax = 1, MiddleSNI = False, SNIPosition = 1, SNIPositionMax = 1,
     OOBPosition = 0, OOBPositionMax = 0, OOBChar = 120, SeqOverlapPattern = [], SeqOverlapBytes = [],
     SeqOverlapLength = 0,
     Combo = \<lparr>FirstByteSplit = True, ExtensionSplit = True, combo_ShuffleMode = ''middle'', FirstDelayMs = 30,
       FirstDelayMsMax = 0, JitterMaxUs = 1000, JitterMaxUsMax = 0, DecoyEnabled = False, combo_FakePerSegment = False,
       combo_FakePerSegCount = 1, combo_FakePerSegCountMax = 0\<rparr>,
     Disorder = \<lparr>dis_ShuffleMode = ''full'', MinJitterUs = 1000, MaxJitterUs = 3000, dis_FakePerSegment = False,
       dis_FakePerSegCount = 1, dis_FakePerSegCountMax = 0\<rparr>\<rparr>"

definition plain_targets :: TargetsConfig where
  "plain_targets = \<lparr>SNIDomains = [], IPs = [], GeoSiteCategories = [], GeoIpCategories = [], SourceDevices = [],
     SourceDevicesExclude = False, DomainOnly = False, TLSVersion = [], IPVersion = [], DomainsToMatch = [],
     IpsToMatch = []\<rparr>"

definition plain_routing :: RoutingConfig where
  "plain_routing = \<lparr>routing_Enabled = False, routing_Mode = ''interface'', EgressInterface = [],
     Upstream = \<lparr>up_Host = [], up_Port = 0, up_Username = [], up_Password = [], FailOpen = False, UseDomain = False,
       up_UDP = False\<rparr>,
     FWMark = 0, Table = 0, SourceInterfaces = [], IPTTLSeconds = 0, BlockAction = ''drop''\<rparr>"

definition plain_set :: "bytes \<Rightarrow> SetConfig" where
  "plain_set i = \<lparr>Id = i, Name = i, TCP = plain_tcp, UDP = plain_udp, Fragmentation = plain_fragmentation,
     Faking = plain_faking, Targets = plain_targets, Enabled = True,
     DNS = \<lparr>dns_Enabled = False, TargetDNS = [], DoHURL = [], dns_FragmentQuery = False\<rparr>,
     TCPPortRanges = [], UDPPortRanges = [], Routing = plain_routing,
     Escalate = \<lparr>To = [], RstThreshold = 0, RstWindowSec = 0, TtlSec = 0\<rparr>,
     MSSClamp = \<lparr>mss_Enabled = False, mss_Size = 0\<rparr>\<rparr>"

lemmas plain_defs = plain_set_def plain_tcp_def plain_udp_def plain_fragmentation_def plain_faking_def
  plain_targets_def plain_routing_def plain_incoming_def plain_mutation_def

end
