(* ===== verification/FakePacket.thy ===== *)
theory FakePacket
  imports Fragment ConfigTypes
begin

text \<open>
  Fake packets: \<^verbatim>\<open>src/src/sock/tls.go\<close> (editing a fake ClientHello), \<^verbatim>\<open>payload.go\<close> (choice of the fake
  payload), the builders of \<^verbatim>\<open>fake_ipv4.go\<close> and \<^verbatim>\<open>fake_ipv6.go\<close>, the ICMP rejects of \<^verbatim>\<open>icmp.go\<close> and
  the QUIC filler of \<^verbatim>\<open>quic_fake.go\<close>.

  What \<^verbatim>\<open>crypto/rand\<close> returns is an argument. Configuration strings are ASCII, so
  \<^verbatim>\<open>strings.TrimSpace\<close> and \<^verbatim>\<open>strings.ToLower\<close> act on single characters.
\<close>

section \<open>\<^verbatim>\<open>tls.go\<close>\<close>

record TLSModFlags =
  Randomize :: bool
  DupSessID :: bool

definition is_space :: "char \<Rightarrow> bool" where
  "is_space c \<longleftrightarrow> of_char c \<in> {9, 10, 11, 12, 13, 32 :: nat}"

definition to_lower :: "char \<Rightarrow> char" where
  "to_lower c = (let n = of_char c :: nat in if 65 \<le> n \<and> n \<le> 90 then char_of (n + 32) else c)"

definition TrimSpace :: "string \<Rightarrow> string" where
  "TrimSpace s = rev (dropWhile is_space (rev (dropWhile is_space s)))"

definition ToLower :: "string \<Rightarrow> string" where
  "ToLower s = map to_lower s"

definition parse_mod :: "TLSModFlags \<Rightarrow> string \<Rightarrow> TLSModFlags" where
  "parse_mod flags m =
     (let s = ToLower (TrimSpace m)
      in if s = ''rnd'' then flags\<lparr>Randomize := True\<rparr>
         else if s = ''dupsid'' then flags\<lparr>DupSessID := True\<rparr> else flags)"

definition ParseTLSMod :: "string list \<Rightarrow> TLSModFlags" where
  "ParseTLSMod mods = foldl parse_mod \<lparr>Randomize = False, DupSessID = False\<rparr> mods"

text \<open>\<open>nil\<close> is the inner \<^term>\<open>None\<close>.\<close>
definition ExtractSessionID :: "bytes \<Rightarrow> bytes option option" where
  "ExtractSessionID payload =
     (if length payload < 5 then Some None
      else do {
        t \<leftarrow> idx payload 0;
        if t \<noteq> 0x16 then Some None
        else do {
          rl \<leftarrow> be16 payload 3;
          if length payload < 5 + unat rl then Some None
          else do {
            hs \<leftarrow> slice_from payload 5;
            if length hs < 4 then Some None
            else do {
              h0 \<leftarrow> idx hs 0;
              if h0 \<noteq> 0x01 then Some None
              else do {
                let pos = 4 + 2 + 32;
                if pos \<ge> length hs then Some None
                else do {
                  sl \<leftarrow> idx hs pos;
                  let sidLen = unat sl;
                  let pos = pos + 1;
                  if sidLen = 0 \<or> pos + sidLen > length hs then Some None
                  else do {
                    sid \<leftarrow> gslice hs pos (pos + sidLen);
                    Some (Some sid) } } } } } } })"

text \<open>The last part of \<open>injectSessionID\<close>: record and handshake length change by \<open>sizeDiff\<close>.\<close>
definition fix_hello_lengths :: "bytes \<Rightarrow> int \<Rightarrow> bytes option" where
  "fix_hello_lengths newPayload sizeDiff = do {
     rl \<leftarrow> be16 newPayload 3;
     let newRecLen = int (unat rl) + sizeDiff;
     newPayload \<leftarrow> put16 newPayload 3 (of_int newRecLen);
     l2 \<leftarrow> idx newPayload 6;
     l1 \<leftarrow> idx newPayload 7;
     l0 \<leftarrow> idx newPayload 8;
     let hsLen = int (unat l2 * 65536 + unat l1 * 256 + unat l0) + sizeDiff;
     newPayload \<leftarrow> upd newPayload 6 (of_int (hsLen div 65536));
     newPayload \<leftarrow> upd newPayload 7 (of_int (hsLen div 256));
     upd newPayload 8 (of_int hsLen) }"

definition injectSessionID :: "bytes \<Rightarrow> bytes \<Rightarrow> bytes option" where
  "injectSessionID fakePayload newSID =
     (if length fakePayload < 5 then Some fakePayload
      else do {
        t \<leftarrow> idx fakePayload 0;
        if t \<noteq> 0x16 then Some fakePayload
        else do {
          hs \<leftarrow> slice_from fakePayload 5;
          if length hs < 39 then Some fakePayload
          else do {
            h0 \<leftarrow> idx hs 0;
            if h0 \<noteq> 0x01 then Some fakePayload
            else do {
              ol \<leftarrow> idx hs 38;
              let oldSIDLen = unat ol;
              let newSIDLen = length newSID;
              let oldSIDEnd = 5 + 38 + 1 + oldSIDLen;
              if oldSIDEnd > length fakePayload then Some fakePayload
              else do {
                let sizeDiff = int newSIDLen - int oldSIDLen;
                let newPayload = mk (nat (int (length fakePayload) + sizeDiff));
                a \<leftarrow> gslice fakePayload 0 (5 + 38);
                newPayload \<leftarrow> copy_from newPayload 0 a;
                newPayload \<leftarrow> upd newPayload (5 + 38) (of_nat newSIDLen);
                newPayload \<leftarrow> copy_from newPayload (5 + 38 + 1) newSID;
                b \<leftarrow> slice_from fakePayload oldSIDEnd;
                newPayload \<leftarrow> copy_from newPayload (5 + 38 + 1 + newSIDLen) b;
                fix_hello_lengths newPayload sizeDiff } } } } })"

text \<open>\<open>rnd\<close> is the 32 bytes \<open>rand.Read(hs[6:38])\<close> writes; \<open>originalPayload\<close> may be \<open>nil\<close>.\<close>
definition ApplyTLSMod :: "bytes \<Rightarrow> bytes \<Rightarrow> bytes option \<Rightarrow> TLSModFlags \<Rightarrow> bytes option" where
  "ApplyTLSMod rnd fakePayload originalPayload flags =
     (if length fakePayload < 5 then Some fakePayload
      else do {
        t \<leftarrow> idx fakePayload 0;
        if t \<noteq> 0x16 then Some fakePayload
        else do {
          rl \<leftarrow> be16 fakePayload 3;
          if length fakePayload < 5 + unat rl then Some fakePayload
          else do {
            hs \<leftarrow> slice_from fakePayload 5;
            if length hs < 4 then Some fakePayload
            else do {
              h0 \<leftarrow> idx hs 0;
              if h0 \<noteq> 0x01 then Some fakePayload
              else do {
                fakePayload \<leftarrow> (if Randomize flags \<and> length hs \<ge> 38
                                then copy_into fakePayload 11 43 rnd else Some fakePayload);
                case originalPayload of
                  Some op \<Rightarrow>
                    if DupSessID flags then do {
                      origSID \<leftarrow> ExtractSessionID op;
                      case origSID of
                        Some sid \<Rightarrow> if length sid > 0 then injectSessionID fakePayload sid
                                    else Some fakePayload
                      | None \<Rightarrow> Some fakePayload }
                    else Some fakePayload
                | None \<Rightarrow> Some fakePayload } } } } })"

section \<open>\<^verbatim>\<open>payload.go\<close>\<close>

definition FakePayloadRandom :: int where "FakePayloadRandom = 0"
definition FakePayloadCustom :: int where "FakePayloadCustom = 1"
definition FakePayloadDefault2 :: int where "FakePayloadDefault2 = 3"
definition FakePayloadZero :: int where "FakePayloadZero = 5"
definition FakePayloadInverted :: int where "FakePayloadInverted = 6"

text \<open>\<open>rnd\<close> is what \<open>rand.Read\<close> fills into the 1200 bytes; \<open>FakeSNI1\<close> and \<open>FakeSNI2\<close> are the two
  built-in payloads of \<^verbatim>\<open>config/payloads.go\<close>.\<close>
definition GetPayload :: "bytes \<Rightarrow> bytes \<Rightarrow> bytes \<Rightarrow> FakingConfig \<Rightarrow> bytes" where
  "GetPayload FakeSNI1 FakeSNI2 rnd faking =
     (if SNIType faking = FakePayloadRandom then take 1200 (rnd @ mk 1200)
      else if SNIType faking = FakePayloadZero then mk 1200
      else if length (PayloadData faking) > 0 then PayloadData faking
      else if SNIType faking = FakePayloadDefault2 then FakeSNI2
      else if SNIType faking = FakePayloadCustom then CustomPayload faking
      else FakeSNI1)"

section \<open>\<^verbatim>\<open>fake_ipv4.go\<close> and \<^verbatim>\<open>fake_ipv6.go\<close>\<close>

text \<open>The payload of the fake: the inverted original or a configured one, then the TLS edits.
  \<open>rndp\<close> and \<open>rndt\<close> are random bytes.\<close>
definition fake_payload ::
  "bytes \<Rightarrow> bytes \<Rightarrow> bytes \<Rightarrow> bytes \<Rightarrow> FakingConfig \<Rightarrow> bytes option \<Rightarrow> bytes option" where
  "fake_payload FakeSNI1 FakeSNI2 rndp rndt cfg originalTLS =
     (let fakePayload =
        (case originalTLS of
           Some tls \<Rightarrow> if SNIType cfg = FakePayloadInverted \<and> length tls > 0 then map (\<lambda>b. NOT b) tls
                       else GetPayload FakeSNI1 FakeSNI2 rndp cfg
         | None \<Rightarrow> GetPayload FakeSNI1 FakeSNI2 rndp cfg)
      in if length (TLSMod cfg) > 0
         then ApplyTLSMod rndt fakePayload originalTLS (ParseTLSMod (TLSMod cfg))
         else Some fakePayload)"

text \<open>\<open>ttl\<close>: the configured value or 5, but below the hop count of the original packet.\<close>
definition fake_ttl :: "byte \<Rightarrow> byte \<Rightarrow> byte" where
  "fake_ttl cfgTTL origTTL =
     (let ttl = (if cfgTTL = 0 then 5 else cfgTTL);
          ttl = (if ttl \<ge> origTTL \<and> origTTL > 1 then origTTL - 1 else ttl)
      in if ttl < 1 then 1 else ttl)"

text \<open>The \<^verbatim>\<open>switch\<close> on the strategy. \<open>hop\<close> is the offset of the TTL or hop limit, \<open>rndseq\<close> the random
  sequence number.\<close>
definition fake_strategy ::
  "uint32 \<Rightarrow> bytes \<Rightarrow> nat \<Rightarrow> nat \<Rightarrow> nat \<Rightarrow> bool \<Rightarrow> FakingConfig \<Rightarrow> bytes \<Rightarrow> bytes option" where
  "fake_strategy rndseq original ipHdrLen tcpHdrLen hop isIPv6 cfg fake =
     (if Strategy cfg = ''ttl'' then do {
        origTTL \<leftarrow> idx original hop;
        upd fake hop (fake_ttl (TTL cfg) origTTL) }
      else if Strategy cfg = ''pastseq'' then do {
        let off = (if SeqOffset cfg = 0 then 8192 else SeqOffset cfg);
        seq \<leftarrow> be32 fake (ipHdrLen + 4);
        put32 fake (ipHdrLen + 4) (seq - off) }
      else if Strategy cfg = ''randseq'' then do {
        let dlen = int (length original) - int ipHdrLen - int tcpHdrLen;
        if SeqOffset cfg = 0 then put32 fake (ipHdrLen + 4) rndseq
        else do {
          seq \<leftarrow> be32 fake (ipHdrLen + 4);
          put32 fake (ipHdrLen + 4) (seq - (SeqOffset cfg + of_int dlen)) } }
      else if Strategy cfg = ''timestamp'' then do {
        let decrease = (if TimestampDecrease cfg = 0 then 600000 else TimestampDecrease cfg);
        r \<leftarrow> DecreaseTCPTimestamp fake decrease isIPv6;
        Some (fst r) }
      else Some fake)"

text \<open>\<open>fake[off] ^= 0xFF\<close> for the strategy \<open>tcp_check\<close>\<close>
definition break_checksum :: "FakingConfig \<Rightarrow> nat \<Rightarrow> bytes \<Rightarrow> bytes option" where
  "break_checksum cfg off fake =
     (if Strategy cfg = ''tcp_check'' then do { b \<leftarrow> idx fake off; upd fake off (b XOR 0xFF) }
      else Some fake)"

definition original_tls :: "bytes \<Rightarrow> nat \<Rightarrow> bytes option" where
  "original_tls original payloadStart =
     (if length original > payloadStart then Some (drop payloadStart original) else None)"

text \<open>The headers of the original packet followed by the fake payload.\<close>
definition fake_frame :: "bytes \<Rightarrow> nat \<Rightarrow> bytes \<Rightarrow> bytes option" where
  "fake_frame original hdrs fakePayload = do {
     let fake = mk (hdrs + length fakePayload);
     a \<leftarrow> gslice original 0 hdrs;
     fake \<leftarrow> copy_into fake 0 hdrs a;
     copy_from fake hdrs fakePayload }"

definition BuildFakeSNIPacketV4 ::
  "bytes \<Rightarrow> bytes \<Rightarrow> bytes \<Rightarrow> bytes \<Rightarrow> uint32 \<Rightarrow> bytes \<Rightarrow> FakingConfig \<Rightarrow> bytes option option" where
  "BuildFakeSNIPacketV4 FakeSNI1 FakeSNI2 rndp rndt rndseq original cfg =
     (if length original < 40 then Some None
      else do {
        b0 \<leftarrow> idx original 0;
        if drop_bit 4 b0 \<noteq> 4 then Some None
        else do {
          let ipHdrLen = hdr4 b0;
          d \<leftarrow> idx original (ipHdrLen + 12);
          let tcpHdrLen = doff d;
          let originalTLS = original_tls original (ipHdrLen + tcpHdrLen);
          fakePayload \<leftarrow> fake_payload FakeSNI1 FakeSNI2 rndp rndt cfg originalTLS;
          fake \<leftarrow> fake_frame original (ipHdrLen + tcpHdrLen) fakePayload;
          fake \<leftarrow> put16 fake 2 (of_nat (length fake));
          fake \<leftarrow> fake_strategy rndseq original ipHdrLen tcpHdrLen 8 False cfg fake;
          fake \<leftarrow> on_prefix FixIPv4Checksum fake ipHdrLen;
          fake \<leftarrow> FixTCPChecksum fake;
          fake \<leftarrow> break_checksum cfg (ipHdrLen + 16) fake;
          Some (Some fake) } })"

definition BuildFakeSNIPacketV6 ::
  "bytes \<Rightarrow> bytes \<Rightarrow> bytes \<Rightarrow> bytes \<Rightarrow> uint32 \<Rightarrow> bytes \<Rightarrow> FakingConfig \<Rightarrow> bytes option option" where
  "BuildFakeSNIPacketV6 FakeSNI1 FakeSNI2 rndp rndt rndseq original cfg =
     (if length original < 60 then Some None
      else do {
        b0 \<leftarrow> idx original 0;
        if drop_bit 4 b0 \<noteq> 6 then Some None
        else do {
          d \<leftarrow> idx original (40 + 12);
          let tcpHdrLen = doff d;
          let originalTLS = original_tls original (40 + tcpHdrLen);
          fakePayload \<leftarrow> fake_payload FakeSNI1 FakeSNI2 rndp rndt cfg originalTLS;
          fake \<leftarrow> fake_frame original (40 + tcpHdrLen) fakePayload;
          fake \<leftarrow> put16 fake 4 (of_nat (tcpHdrLen + length fakePayload));
          fake \<leftarrow> fake_strategy rndseq original 40 tcpHdrLen 7 True cfg fake;
          fake \<leftarrow> FixTCPChecksumV6 fake;
          fake \<leftarrow> break_checksum cfg (40 + 16) fake;
          Some (Some fake) } })"

section \<open>\<^verbatim>\<open>icmp.go\<close>\<close>

definition BuildICMPv4Reject :: "bytes \<Rightarrow> bytes \<Rightarrow> bytes \<Rightarrow> bytes option option" where
  "BuildICMPv4Reject originalPacket clientIP serverIP =
     (if length originalPacket < 20 \<or> length clientIP < 4 \<or> length serverIP < 4 then Some None
      else do {
        b0 \<leftarrow> idx originalPacket 0;
        if drop_bit 4 b0 \<noteq> 4 then Some None
        else do {
          let ihl = unat (b0 AND 0x0F) * 4;
          if ihl < 20 \<or> ihl > length originalPacket then Some None
          else do {
            let quotedLen = ihl + 8;
            let quotedLen = (if quotedLen > length originalPacket then length originalPacket
                             else quotedLen);
            let icmpLen = 8 + quotedLen;
            let totalLen = 20 + icmpLen;
            let pkt = mk totalLen;
            pkt \<leftarrow> upd pkt 0 0x45;
            pkt \<leftarrow> put16 pkt 2 (of_nat totalLen);
            pkt \<leftarrow> upd pkt 8 64;
            pkt \<leftarrow> upd pkt 9 1;
            s \<leftarrow> gslice serverIP 0 4;
            pkt \<leftarrow> copy_into pkt 12 16 s;
            c \<leftarrow> gslice clientIP 0 4;
            pkt \<leftarrow> copy_into pkt 16 20 c;
            pkt \<leftarrow> upd pkt 20 3;
            pkt \<leftarrow> upd pkt 21 3;
            q \<leftarrow> gslice originalPacket 0 quotedLen;
            pkt \<leftarrow> copy_from pkt 28 q;
            icmpData \<leftarrow> slice_from pkt 20;
            sum \<leftarrow> sum16_loop icmpData 0 (length icmpData - 1) 0;
            let sum = sum16_tail icmpData sum;
            pkt \<leftarrow> put16 pkt 22 (cksum16 sum);
            pkt \<leftarrow> on_prefix FixIPv4Checksum pkt 20;
            Some (Some pkt) } } })"

definition BuildICMPv6Reject :: "bytes \<Rightarrow> bytes \<Rightarrow> bytes \<Rightarrow> bytes option option" where
  "BuildICMPv6Reject originalPacket clientIP serverIP =
     (if length originalPacket < 40 \<or> length clientIP < 16 \<or> length serverIP < 16 then Some None
      else do {
        b0 \<leftarrow> idx originalPacket 0;
        if drop_bit 4 b0 \<noteq> 6 then Some None
        else do {
          let quotedLen = length originalPacket;
          let quotedLen = (if quotedLen > 1232 then 1232 else quotedLen);
          let icmpLen = 8 + quotedLen;
          let pkt = mk (40 + icmpLen);
          pkt \<leftarrow> upd pkt 0 0x60;
          pkt \<leftarrow> put16 pkt 4 (of_nat icmpLen);
          pkt \<leftarrow> upd pkt 6 58;
          pkt \<leftarrow> upd pkt 7 64;
          s \<leftarrow> gslice serverIP 0 16;
          pkt \<leftarrow> copy_into pkt 8 24 s;
          c \<leftarrow> gslice clientIP 0 16;
          pkt \<leftarrow> copy_into pkt 24 40 c;
          pkt \<leftarrow> upd pkt 40 1;
          pkt \<leftarrow> upd pkt 41 4;
          q \<leftarrow> gslice originalPacket 0 quotedLen;
          pkt \<leftarrow> copy_from pkt 48 q;
          sum \<leftarrow> sum16_loop serverIP 0 16 0;
          sum \<leftarrow> sum16_loop clientIP 0 16 sum;
          let sum = sum + of_nat icmpLen;
          let sum = sum + 58;
          icmpData \<leftarrow> slice_from pkt 40;
          sum \<leftarrow> sum16_loop icmpData 0 (length icmpData - 1) sum;
          let sum = sum16_tail icmpData sum;
          pkt \<leftarrow> put16 pkt 42 (cksum16 sum);
          Some (Some pkt) } })"

section \<open>\<^verbatim>\<open>quic_fake.go\<close>\<close>

text \<open>\<open>r1\<close>, \<open>r2\<close>, \<open>r3\<close> are the three results of \<open>crand.Read\<close>; \<^term>\<open>None\<close> is a read error.\<close>
definition BuildQUICInitial ::
  "bytes option \<Rightarrow> bytes option \<Rightarrow> bytes option \<Rightarrow> int \<Rightarrow> bytes option option" where
  "BuildQUICInitial r1 r2 r3 sz =
     (if sz < 30 \<or> sz > 30 + 0x3FFF - 4 then Some None
      else do {
        let n = nat sz;
        let out = mk n;
        out \<leftarrow> upd out 0 0xC3;
        out \<leftarrow> upd out 1 0x00;
        out \<leftarrow> upd out 2 0x00;
        out \<leftarrow> upd out 3 0x00;
        out \<leftarrow> upd out 4 0x01;
        out \<leftarrow> upd out 5 0x08;
        case r1 of None \<Rightarrow> Some None | Some b1 \<Rightarrow> do {
          out \<leftarrow> copy_into out 6 14 b1;
          out \<leftarrow> upd out 14 0x08;
          case r2 of None \<Rightarrow> Some None | Some b2 \<Rightarrow> do {
            out \<leftarrow> copy_into out 15 23 b2;
            out \<leftarrow> upd out 23 0x00;
            out \<leftarrow> upd out 26 0x00;
            out \<leftarrow> upd out 27 0x00;
            out \<leftarrow> upd out 28 0x00;
            out \<leftarrow> upd out 29 0x00;
            out \<leftarrow> (if n > 30 then
                (case r3 of None \<Rightarrow> Some None
                          | Some b3 \<Rightarrow> map_option Some (copy_from out 30 b3))
              else Some (Some out));
            case out of None \<Rightarrow> Some None | Some out \<Rightarrow> do {
              let coveredLen = 4 + (n - 30);
              out \<leftarrow> put16 out 24 (0x4000 OR of_nat coveredLen);
              Some (Some out) } } } })"

section \<open>The session id\<close>

text \<open>A ClientHello record as the editing code reads it.\<close>

definition rec_len :: "bytes \<Rightarrow> nat" where
  "rec_len p = unat (u16 (p ! 3) (p ! 4))"

definition hs_len :: "bytes \<Rightarrow> nat" where
  "hs_len p = unat (p ! 6) * 65536 + unat (p ! 7) * 256 + unat (p ! 8)"

definition sid_len :: "bytes \<Rightarrow> nat" where
  "sid_len p = unat (p ! 43)"

definition hello_wf :: "bytes \<Rightarrow> bool" where
  "hello_wf p \<longleftrightarrow> 44 \<le> length p \<and> p ! 0 = 0x16 \<and> p ! 5 = 1 \<and> 44 + sid_len p \<le> 5 + rec_len p \<and>
     5 + rec_len p \<le> length p"

lemma ExtractSessionID_wf:
  assumes "hello_wf p"
  shows "ExtractSessionID p =
     Some (if sid_len p = 0 then None else Some (take (sid_len p) (drop 44 p)))"
proof -
  have l: "44 \<le> length p" "p \<noteq> []" "44 + sid_len p \<le> length p" "5 + rec_len p \<le> length p"
    using assms by (auto simp: hello_wf_def)
  have b: "be16 p 3 = Some (u16 (p ! 3) (p ! 4))"
    using l(1) by (simp add: be16_ok eval_nat_numeral)
  have hs: "idx (drop 5 p) 0 = Some 1" "idx (drop 5 p) 38 = Some (p ! 43)"
    using l(1) assms by (auto simp: idx_ok hello_wf_def)
  show ?thesis
    using assms l hs b
    by (auto simp: ExtractSessionID_def idx_0 slice_from_ok gslice_ok hello_wf_def sid_len_def Let_def
        simp flip: rec_len_def)
qed

text \<open>The frame around the new session id before the length fields are rewritten.\<close>

definition with_sid :: "bytes \<Rightarrow> bytes \<Rightarrow> bytes" where
  "with_sid p sid = take 43 p @ [of_nat (length sid)] @ sid @ drop (44 + sid_len p) p"

definition set_hs_len :: "bytes \<Rightarrow> int \<Rightarrow> bytes" where
  "set_hs_len p n = p[6 := of_int (n div 65536), 7 := of_int (n div 256), 8 := of_int n]"

lemma fix_hello_lengths_ok:
  assumes "9 \<le> length q"
  shows "fix_hello_lengths q d = Some (set_hs_len (set_field q 3 (of_int (int (rec_len q) + d)))
     (int (hs_len q) + d))"
proof -
  have b: "be16 q 3 = Some (u16 (q ! 3) (q ! 4))"
    using assms by (simp add: be16_ok eval_nat_numeral)
  show ?thesis
    using assms
    by (simp add: fix_hello_lengths_def b put16_set_field idx_ok upd_ok set_hs_len_def hs_len_def
        rec_len_def Let_def)
qed

lemma injectSessionID_eq:
  fixes p sid :: bytes
  assumes "44 \<le> length p" "p ! 0 = 0x16" "p ! 5 = 1" "44 + sid_len p \<le> length p"
  defines "d \<equiv> int (length sid) - int (sid_len p)"
  shows "injectSessionID p sid = Some (set_hs_len
     (set_field (with_sid p sid) 3 (of_int (int (rec_len p) + d))) (int (hs_len p) + d))"
proof -
  define N where "N = length p + length sid - sid_len p"
  have N: "nat (int (length p) + d) = N" "44 + length sid \<le> N"
    using assms(4) by (auto simp: d_def N_def)
  have "p \<noteq> []" using assms(1) by auto
  let ?w = "with_sid p sid"
  have s1: "copy_from (mk N) 0 (take 43 p) = Some (take 43 p @ mk (N - 43))"
    using assms(1) N by (simp add: copy_from_mk0 min_absorb2)
  have z: "mk (N - 43) = 0 # mk (N - 44)"
    using N by (simp add: mk_def Suc_diff_le flip: replicate_Suc)
  have s2: "upd (take 43 p @ mk (N - 43)) 43 x = Some ((take 43 p @ [x]) @ mk (N - 44))" for x
    using assms(1) by (simp add: upd_ok z list_update_append)
  have s3: "copy_from ((take 43 p @ [x]) @ mk (N - 44)) 44 sid
      = Some ((take 43 p @ x # sid) @ mk (N - (44 + length sid)))" for x
    using assms(1) N by (subst copy_from_mk) simp_all
  have s4: "copy_from ((take 43 p @ x # sid) @ mk (N - (44 + length sid))) (44 + length sid)
      (drop (44 + sid_len p) p) = Some (take 43 p @ x # sid @ drop (44 + sid_len p) p)" for x
    using assms(1,4) N by (subst copy_from_mk) (auto simp: N_def)
  have lw: "length ?w = N" using assms(1,4) by (simp add: with_sid_def N_def)
  have w: "i < 43 \<Longrightarrow> ?w ! i = p ! i" for i using assms(1) by (simp add: with_sid_def nth_append)
  have v: "rec_len ?w = rec_len p" "hs_len ?w = hs_len p"
    using w by (simp_all add: rec_len_def hs_len_def)
  have hs: "length (drop 5 p) \<ge> 39" "idx (drop 5 p) 0 = Some 1" "idx (drop 5 p) 38 = Some (p ! 43)"
    using assms(1,3) by (auto simp: idx_ok)
  have "injectSessionID p sid = fix_hello_lengths ?w d"
    unfolding injectSessionID_def Let_def
    using assms(1,2,4) hs N(1) \<open>p \<noteq> []\<close>
    by (simp add: idx_0 slice_from_ok gslice_ok s1 s2 s3 s4 with_sid_def del: append_assoc
        flip: sid_len_def d_def)
  also have "\<dots> = Some (set_hs_len
     (set_field ?w 3 (of_int (int (rec_len p) + d))) (int (hs_len p) + d))"
    using N lw by (simp add: fix_hello_lengths_ok v)
  finally show ?thesis .
qed

lemma unat_of_nat8: "unat (of_nat n :: byte) = n mod 256"
  by (simp add: unat_of_nat)

lemma hs_len_set:
  assumes "9 \<le> length p" "m < 2 ^ 24"
  shows "hs_len (set_hs_len p (int m)) = m"
proof -
  have w: "of_int (int m div 65536) = (of_nat (m div 65536) :: byte)"
      "of_int (int m div 256) = (of_nat (m div 256) :: byte)"
    by (metis of_int_of_nat_eq of_nat_numeral zdiv_int)+
  have "hs_len (set_hs_len p (int m)) = m div 65536 mod 256 * 65536 + m div 256 mod 256 * 256 + m mod 256"
    using assms(1) by (simp add: hs_len_def set_hs_len_def w unat_of_nat8 del: of_nat_div)
  also have "m div 65536 mod 256 = m div 65536" using assms(2) by simp
  also have "m div 65536 * 65536 + m div 256 mod 256 * 256 + m mod 256 = m"
  proof -
    have "m div 256 = m div 65536 * 256 + m div 256 mod 256"
      using div_mult_mod_eq [of "m div 256" 256] by (simp add: div_mult2_eq [symmetric])
    then show ?thesis using div_mult_mod_eq [of m 256] by linarith
  qed
  finally show ?thesis .
qed

lemma set_hs_len_frame [simp]:
  "i \<notin> {6, 7, 8} \<Longrightarrow> set_hs_len p n ! i = p ! i" "length (set_hs_len p n) = length p"
  by (auto simp: set_hs_len_def)

lemma drop_set_hs_len: "9 \<le> n \<Longrightarrow> drop n (set_hs_len p m) = drop n p"
  by (simp add: set_hs_len_def)

text \<open>C21: replacing the session id of a fake ClientHello. The result is again a well-formed record
  whose record and handshake lengths account for the change, everything before and after the
  session id is kept, and reading the session id back gives the one put in.\<close>
theorem injectSessionID_roundtrip:
  assumes "hello_wf p" "0 < length sid" "length sid \<le> 255"
    and "rec_len p + length sid < 65536" "sid_len p \<le> hs_len p" "hs_len p + length sid < 2 ^ 24"
  shows "\<exists>q. injectSessionID p sid = Some q \<and> hello_wf q \<and> ExtractSessionID q = Some (Some sid) \<and>
     rec_len q + sid_len p = rec_len p + length sid \<and> hs_len q + sid_len p = hs_len p + length sid \<and>
     drop (44 + length sid) q = drop (44 + sid_len p) p \<and>
     (\<forall>i < 43. i \<notin> {3, 4, 6, 7, 8} \<longrightarrow> q ! i = p ! i)"
proof -
  define r where "r = rec_len p + length sid - sid_len p"
  define m where "m = hs_len p + length sid - sid_len p"
  define w where "w = with_sid p sid"
  define q where "q = set_hs_len (set_field w 3 (of_nat r)) (int m)"
  have l: "44 \<le> length p" "p ! 0 = 0x16" "p ! 5 = 1" "44 + sid_len p \<le> length p"
      "39 + sid_len p \<le> rec_len p" "5 + rec_len p \<le> length p"
    using assms(1) by (auto simp: hello_wf_def)
  have rm: "int (rec_len p) + (int (length sid) - int (sid_len p)) = int r"
      "int (hs_len p) + (int (length sid) - int (sid_len p)) = int m"
    using l(5) assms(5) by (auto simp: r_def m_def)
  have inj: "injectSessionID p sid = Some q"
    using injectSessionID_eq [OF l(1-4), of sid] by (simp add: rm q_def w_def del: of_int_add)
  have lw: "length w = length p + length sid - sid_len p" "44 \<le> length w"
    using l by (simp_all add: w_def with_sid_def)
  have wn: "i < 43 \<Longrightarrow> w ! i = p ! i" "w ! 43 = of_nat (length sid)" for i
    using l by (simp_all add: w_def with_sid_def nth_append)
  have wd: "drop 44 w = sid @ drop (44 + sid_len p) p"
    using l by (simp add: w_def with_sid_def)
  have lq: "length q = length w" by (simp add: q_def)
  have qn: "q ! i = w ! i" if "i \<notin> {3, 4, 6, 7, 8}" for i
    using that by (simp add: q_def)
  have qd: "drop 44 q = sid @ drop (44 + sid_len p) p"
    by (simp add: q_def drop_set_hs_len drop_set_field_ge wd)
  have sl: "sid_len q = length sid"
    using assms(3) by (simp add: sid_len_def qn wn unat_of_nat8)
  have rl: "rec_len q = r"
  proof -
    have "u16 (q ! 3) (q ! 4) = of_nat r"
      using lw u16_set_field [of 3 w "of_nat r"] by (simp add: q_def)
    then show ?thesis using assms(4) by (simp add: rec_len_def r_def unat_of_nat16 del: of_nat_add of_nat_diff)
  qed
  have hl: "hs_len q = m"
    unfolding q_def by (rule hs_len_set) (use lw assms(6) in \<open>simp_all add: m_def\<close>)
  have wfq: "hello_wf q"
    using l lw lq by (simp add: hello_wf_def sl rl qn wn r_def) linarith
  moreover have "ExtractSessionID q = Some (Some sid)"
    using ExtractSessionID_wf [OF wfq] assms(2) by (simp add: sl qd)
  moreover have "drop (44 + length sid) q = drop (44 + sid_len p) p"
    using qd drop_drop [of "length sid" 44 q] by (simp add: add.commute)
  moreover have "\<forall>i < 43. i \<notin> {3, 4, 6, 7, 8} \<longrightarrow> q ! i = p ! i"
    by (simp add: qn wn)
  moreover have "rec_len q + sid_len p = rec_len p + length sid"
      "hs_len q + sid_len p = hs_len p + length sid"
    using l(5) assms(5) by (simp_all add: rl hl r_def m_def)
  ultimately show ?thesis using inj by blast
qed

definition sample_hello :: bytes where
  "sample_hello = [0x16, 3, 1, 0, 44, 1, 0, 0, 40, 3, 3] @ replicate 32 7 @ [2, 0xaa, 0xbb, 0, 0, 0]"

theorem injectSessionID_witness:
  "\<exists>q. injectSessionID sample_hello [1, 2, 3, 4] = Some q \<and>
     ExtractSessionID q = Some (Some [1, 2, 3, 4]) \<and> rec_len q = 46 \<and> hs_len q = 42"
proof -
  have e: "rec_len sample_hello = 44" "hs_len sample_hello = 40" "sid_len sample_hello = 2"
    by (simp_all add: sample_hello_def rec_len_def hs_len_def sid_len_def unat_u16 nth_append)
  have wf: "hello_wf sample_hello"
    by (simp add: hello_wf_def e) (simp add: sample_hello_def)
  show ?thesis
    using injectSessionID_roundtrip [of sample_hello "[1, 2, 3, 4]"] wf by (simp add: e) auto
qed

section \<open>The fake ClientHello packet\<close>

lemma ExtractSessionID_total: "\<exists>r. ExtractSessionID p = Some r"
proof (cases "5 \<le> length p")
  case True
  moreover from this have "be16 p 3 = Some (u16 (p ! 3) (p ! 4))"
    by (simp add: be16_ok eval_nat_numeral)
  moreover have "p \<noteq> []" using True by auto
  ultimately show ?thesis
    by (auto simp: ExtractSessionID_def idx_0 idx_ok slice_from_ok gslice_ok Let_def)
qed (simp add: ExtractSessionID_def)

lemma injectSessionID_total: "\<exists>r. injectSessionID p sid = Some r"
proof (cases "44 \<le> length p \<and> p ! 0 = 0x16 \<and> p ! 5 = 1 \<and> 44 + sid_len p \<le> length p")
  case True
  then show ?thesis using injectSessionID_eq by blast
next
  case False
  show ?thesis
  proof (cases "5 \<le> length p")
    case True
    then have "p \<noteq> []" by auto
    then show ?thesis using True False
      by (auto simp: injectSessionID_def idx_0 idx_ok slice_from_ok Let_def sid_len_def)
  qed (simp add: injectSessionID_def)
qed

lemma ApplyTLSMod_total:
  "\<exists>r. ApplyTLSMod rnd p orig flags = Some r"
proof (cases "5 \<le> length p")
  case True
  have b: "be16 p 3 = Some (u16 (p ! 3) (p ! 4))" "p \<noteq> []"
    using True by (auto simp: be16_ok eval_nat_numeral)
  obtain r where c: "38 \<le> length p - 5 \<Longrightarrow> copy_into p 11 43 rnd = Some r"
    by (cases "43 \<le> length p") (auto simp: copy_into_def Let_def)
  have inj: "\<exists>r. (case orig of Some op \<Rightarrow> if DupSessID flags then ExtractSessionID op \<bind>
       (\<lambda>s. case s of Some sid \<Rightarrow> if length sid > 0 then injectSessionID q sid else Some q
                     | None \<Rightarrow> Some q) else Some q | None \<Rightarrow> Some q) = Some r" for q
  proof (cases orig)
    case (Some op)
    obtain s where s: "ExtractSessionID op = Some s" using ExtractSessionID_total by blast
    then show ?thesis
      using Some injectSessionID_total [of q] by (auto split: option.split)
  qed simp
  show ?thesis
    using True b c inj
    by (auto simp: ApplyTLSMod_def idx_0 idx_ok slice_from_ok)
qed (simp add: ApplyTLSMod_def)

lemma fake_payload_total: "\<exists>f. fake_payload s1 s2 rndp rndt cfg tls = Some f"
  using ApplyTLSMod_total by (auto simp: fake_payload_def Let_def)

lemma fake_frame_ok:
  assumes "n \<le> length p"
  shows "fake_frame p n f = Some (take n p @ f)"
proof -
  have "copy_into (mk (n + length f)) 0 n (take n p) = Some (take n p @ mk (length f))"
    using assms by (simp add: copy_into_mk0 min_absorb2)
  moreover have "copy_from (take n p @ mk (length f)) n f = Some (take n p @ f)"
    using assms by (subst copy_from_mk) simp_all
  ultimately show ?thesis using assms by (simp add: fake_frame_def gslice_ok)
qed

lemma fake_strategy_frame:
  assumes "20 \<le> t" "h + t \<le> length f" "hop < length p" "hop < h" "f \<noteq> []"
    and "h = (if v6 then 40 else ihl4 f)" "thl_at h f = t"
  shows "\<exists>r. fake_strategy rs p h t hop v6 cfg f = Some r \<and> length r = length f \<and>
     (Strategy cfg = ''ttl'' \<longrightarrow> r ! hop = fake_ttl (TTL cfg) (p ! hop)) \<and>
     (\<forall>i. i \<noteq> hop \<and> \<not> (h + 4 \<le> i \<and> i < h + 8) \<and> \<not> (h + 20 \<le> i \<and> i < h + t) \<longrightarrow> r ! i = f ! i)"
proof -
  have "\<exists>q b. DecreaseTCPTimestamp f d v6 = Some (q, b) \<and> length q = length f \<and>
      (\<forall>j. (j < h + 20 \<or> h + t \<le> j) \<longrightarrow> q ! j = f ! j)" for d
    using DecreaseTCPTimestamp_spec [OF assms(5,6), of d] assms(1,2,7) by auto
  then have dec: "\<exists>r. DecreaseTCPTimestamp f d v6 = Some r \<and> length (fst r) = length f \<and>
      (\<forall>j. (j < h + 20 \<or> h + t \<le> j) \<longrightarrow> fst r ! j = f ! j)" for d
    by fastforce
  have p32: "put32 f (h + 4) v = Some (f[h + 4 := hi8 (hi16 v), h + 5 := lo8 (hi16 v),
      h + 6 := hi8 (lo16 v), h + 7 := lo8 (lo16 v)])" for v
    using assms(1,2) by (simp add: put32_ok eval_nat_numeral)
  have b32: "\<exists>v. be32 f (h + 4) = Some v" using assms(1,2) by (simp add: be32_ok)
  note unf = fake_strategy_def idx_ok upd_ok p32 Let_def
  consider (ttl) "Strategy cfg = ''ttl''" | (past) "Strategy cfg = ''pastseq''"
    | (rand) "Strategy cfg = ''randseq''" | (ts) "Strategy cfg = ''timestamp''"
    | (other) "Strategy cfg \<notin> {''ttl'', ''pastseq'', ''randseq'', ''timestamp''}"
    by auto
  then show ?thesis
  proof cases
    case ttl
    then show ?thesis using assms(1-4) by (simp add: unf)
  next
    case past
    then show ?thesis using assms(1,2) b32 by (auto simp: unf)
  next
    case rand
    then show ?thesis using assms(1,2) b32 by (auto simp: unf)
  next
    case ts
    let ?d = "if TimestampDecrease cfg = 0 then 600000 else TimestampDecrease cfg"
    obtain r where "DecreaseTCPTimestamp f ?d v6 = Some r" "length (fst r) = length f"
        "\<forall>j. (j < h + 20 \<or> h + t \<le> j) \<longrightarrow> fst r ! j = f ! j"
      using dec [of ?d] by blast
    then show ?thesis using ts by (simp add: unf) (metis not_less)
  next
    case other
    then show ?thesis by (simp add: unf)
  qed
qed


lemma unat_xor_ff: "unat (b XOR 0xFF) = 255 - unat (b :: byte)"
proof -
  have m: "(0xFF :: byte) = mask 8" by (simp add: mask_eq_exp_minus_1)
  have "b XOR 0xFF = NOT b" unfolding m by (rule bit_word_eqI) (auto simp: bit_simps)
  then have "b XOR 0xFF = 255 - b" by (simp add: not_eq_complement)
  then show ?thesis using unat_byte_bound [of b] by (simp add: unat_sub_if')
qed

text \<open>Flipping the high byte of a checksum that verifies makes it one that does not: the two values
  differ by an odd multiple of 256 below 65535.\<close>

lemma high_flip_invalid:
  "\<not> 65535 dvd int (unat (u16 a b)) - int (unat (u16 (a XOR 0xFF) b))"
proof -
  define n where "n = unat a"
  have n: "n \<le> 255" using unat_byte_bound [of a] by (simp add: n_def)
  have e: "int (unat (u16 a b)) - int (unat (u16 (a XOR 0xFF) b)) = (2 * int n - 255) * 256"
    unfolding unat_u16 unat_xor_ff n_def [symmetric] using n by (simp add: of_nat_diff)
  let ?x = "(2 * int n - 255) * 256"
  have "\<bar>?x\<bar> < 65535" using n unfolding abs_less_iff by simp
  moreover have "2 * int n \<noteq> 255" by presburger
  ultimately have "\<not> 65535 dvd ?x" using dvd_imp_le_int [of ?x 65535] by auto
  then show ?thesis unfolding e .
qed

context inet_checksum begin

lemma flip_invalid:
  assumes "wf p" "cs_ok (total (set_field p (pos p) (u16 a b)))"
    and "0 < total (set_field p (pos p) (u16 (a XOR 0xFF) b))"
  shows "\<not> cs_ok (total (set_field p (pos p) (u16 (a XOR 0xFF) b)))"
  using field_valid_iff [OF assms] high_flip_invalid by blast

end

text \<open>What a fake packet looks like: the frame of the original around the fake payload \<open>f\<close>.\<close>

definition fake4_ok :: "bytes \<Rightarrow> FakingConfig \<Rightarrow> bytes \<Rightarrow> bytes \<Rightarrow> bool" where
  "fake4_ok p cfg f q \<longleftrightarrow> ihl4 q = ihl4 p \<and> thl_at (ihl4 p) q = thl_at (ihl4 p) p \<and>
     payload_at (ihl4 p) q = f \<and> tot4 q = length q \<and> cs_ok (ip4_total q) \<and>
     (cs_ok (tcp4_total q) \<longleftrightarrow> Strategy cfg \<noteq> ''tcp_check'') \<and>
     (Strategy cfg = ''ttl'' \<longrightarrow> q ! 8 = fake_ttl (TTL cfg) (p ! 8)) \<and>
     (\<forall>i < ihl4 p + 20. i \<notin> {2, 3, 8, 10, 11} \<and> i \<notin> {ihl4 p + 4 ..< ihl4 p + 8} \<and>
        i \<notin> {ihl4 p + 16, ihl4 p + 17} \<longrightarrow> q ! i = p ! i)"

lemma tcp4_total_pos: "0 < tcp4_total q"
  by (simp add: tcp4_total_def pseudo4_sum_def Let_def)

lemma set_field_upd_high:
  "i + 2 \<le> length x \<Longrightarrow> (set_field x i d)[i := v] = set_field x i (u16 v (lo8 d))"
  by (simp add: set_field_def list_update_swap)

lemma break_checksum4:
  assumes "20 \<le> ihl4 x" "ihl4 x + 20 \<le> length x" "tot4 x = length x"
    and "q = set_field x (ihl4 x + 16) d" "valid4 q"
  shows "\<exists>d'. break_checksum cfg (ihl4 x + 16) q = Some (set_field x (ihl4 x + 16) d') \<and>
     (cs_ok (tcp4_total (set_field x (ihl4 x + 16) d')) \<longleftrightarrow> Strategy cfg \<noteq> ''tcp_check'')"
proof (cases "Strategy cfg = ''tcp_check''")
  case True
  let ?i = "ihl4 x + 16"
  let ?d = "u16 (hi8 d XOR 0xFF) (lo8 d)"
  have wf: "tcp4_wf x" using assms(1-3) by (simp add: tcp4_wf_def)
  have hi: "q ! ?i = hi8 d" using assms(2,4) by (simp add: set_field_def)
  have "break_checksum cfg ?i q = Some (set_field x ?i ?d)"
    using True assms(2) hi by (simp add: break_checksum_def idx_ok upd_ok assms(4) set_field_upd_high)
  moreover have "\<not> cs_ok (tcp4_total (set_field x ?i ?d))"
    using tcp4.flip_invalid [OF wf, of "hi8 d" "lo8 d"] assms(4,5) tcp4_total_pos
    by (simp add: tcp4_pos_def valid4_def)
  ultimately show ?thesis using True by blast
next
  case False
  then show ?thesis using assms(4,5) by (auto simp: break_checksum_def valid4_def)
qed

lemma fake4_build:
  assumes "drop_bit 4 (p ! 0) = 4" "40 \<le> length p" "20 \<le> ihl4 p" "20 \<le> thl_at (ihl4 p) p"
    and "ihl4 p + thl_at (ihl4 p) p \<le> length p"
    and "fake_payload s1 s2 rndp rndt cfg (original_tls p (ihl4 p + thl_at (ihl4 p) p)) = Some f"
    and "ihl4 p + thl_at (ihl4 p) p + length f < 65536"
  shows "\<exists>q. BuildFakeSNIPacketV4 s1 s2 rndp rndt rs p cfg = Some (Some q) \<and> fake4_ok p cfg f q"
proof -
  define h t where "h = ihl4 p" and "t = thl_at h p"
  define b where "b = set_field (take (h + t) p @ f) 2 (of_nat (h + t + length f))"
  have l: "20 \<le> h" "20 \<le> t" "h + t \<le> length p" "p \<noteq> []" "8 < length p" "h + t + length f < 65536"
    using assms by (auto simp: h_def t_def)
  have lb: "length b = h + t + length f" "b \<noteq> []" using l by (auto simp: b_def)
  have bn: "i < h + t \<Longrightarrow> i \<notin> {2, 3} \<Longrightarrow> b ! i = p ! i" for i
    using l by (simp add: b_def nth_append)
  have hb: "ihl4 b = h" "thl_at h b = t"
    using l bn [of 0] bn [of "h + 12"] by (simp_all add: ihl4_def thl_at_def h_def t_def)
  have tb: "tot4 b = length b"
    using l lb by (simp add: b_def tot4_set del: of_nat_add)
  have "\<exists>r. fake_strategy rs p h t 8 False cfg b = Some r \<and> length r = length b \<and>
     (Strategy cfg = ''ttl'' \<longrightarrow> r ! 8 = fake_ttl (TTL cfg) (p ! 8)) \<and>
     (\<forall>i. i \<noteq> 8 \<and> \<not> (h + 4 \<le> i \<and> i < h + 8) \<and> \<not> (h + 20 \<le> i \<and> i < h + t) \<longrightarrow> r ! i = b ! i)"
    by (rule fake_strategy_frame) (use l lb hb in simp_all)
  then obtain r where r: "fake_strategy rs p h t 8 False cfg b = Some r" "length r = length b"
      "Strategy cfg = ''ttl'' \<longrightarrow> r ! 8 = fake_ttl (TTL cfg) (p ! 8)"
      and fr: "\<forall>i. i \<noteq> 8 \<and> \<not> (h + 4 \<le> i \<and> i < h + 8) \<and> \<not> (h + 20 \<le> i \<and> i < h + t) \<longrightarrow> r ! i = b ! i"
    by blast
  have hr: "ihl4 r = h" "tot4 r = length r" "thl_at h r = t"
    using fr [rule_format, of 0] fr [rule_format, of 2] fr [rule_format, of 3]
      fr [rule_format, of "h + 12"] l(1) hb tb r(2)
    by (simp_all add: ihl4_def tot4_def thl_at_def)
  obtain c d q where q: "on_prefix FixIPv4Checksum r h = Some (set_field r 10 c)"
      "FixTCPChecksum (set_field r 10 c) = Some q" "q = set_field (set_field r 10 c) (h + 16) d"
      "valid4 q"
    using fix_both4 [of r] hr l lb r(2) by auto
  let ?x = "set_field r 10 c"
  obtain d' where d': "break_checksum cfg (h + 16) q = Some (set_field ?x (h + 16) d')"
      "cs_ok (tcp4_total (set_field ?x (h + 16) d')) \<longleftrightarrow> Strategy cfg \<noteq> ''tcp_check''"
    using break_checksum4 [of ?x q d cfg] hr l lb r(2) q(3,4) by auto
  let ?q = "set_field ?x (h + 16) d'"
  have "BuildFakeSNIPacketV4 s1 s2 rndp rndt rs p cfg = Some (Some ?q)"
    using assms(1,2,6) l lb r(1) q(1,2) d'(1)
    by (simp add: BuildFakeSNIPacketV4_def idx_0 idx_ok fake_frame_ok put16_set_field b_def [symmetric]
        del: of_nat_add flip: ihl4_def thl_at_def h_def t_def)
  moreover have "payload_at h ?q = f"
  proof -
    have "r ! (h + t + i) = b ! (h + t + i)" for i
      using fr [rule_format, of "h + t + i"] l(1,2) by simp
    then have "drop (h + t) r = drop (h + t) b"
      by (intro nth_equalityI) (use r(2) l lb in auto)
    then have "drop (h + t) r = f" using l by (simp add: b_def drop_set_field_ge)
    then show ?thesis using l hr by (simp add: payload_at_def drop_set_field_ge)
  qed
  moreover have "cs_ok (ip4_total ?q)"
    using q(3,4) hr l by (simp add: valid4_def ip4_total_field_ge)
  moreover have "?q ! i = p ! i" if "i < h + 20" "i \<notin> {2, 3, 8, 10, 11}" "i \<notin> {h + 4 ..< h + 8}"
      "i \<notin> {h + 16, h + 17}" for i
  proof -
    have "?q ! i = r ! i" using that l(1) by simp
    also have "\<dots> = b ! i" using fr [rule_format, of i] that by auto
    also have "\<dots> = p ! i" using bn [of i] that l(2) by simp
    finally show ?thesis .
  qed
  ultimately have "BuildFakeSNIPacketV4 s1 s2 rndp rndt rs p cfg = Some (Some ?q) \<and> fake4_ok p cfg f ?q"
    using hr r(3) d'(2) l(1) unfolding fake4_ok_def by (simp add: h_def [symmetric] t_def [symmetric])
  then show ?thesis by blast
qed


definition sample_cfg :: FakingConfig where
  "sample_cfg = plain_faking\<lparr>TTL := 3, Strategy := ''tcp_check'', SeqOffset := 0, SNIType := FakePayloadCustom,
     CustomPayload := [1, 2, 3, 4], TimestampDecrease := 0\<rparr>"


end
