(* ===== verification/ClientHello.thy ===== *)
theory ClientHello
  imports TcpOptions
begin

text \<open>
  Reading and writing TLS ClientHello messages: the parser of \<^verbatim>\<open>src/src/sni/tls.go\<close>, which runs on
  every intercepted segment, and the generator of \<^verbatim>\<open>src/src/tlsgen/generator.go\<close>, which writes the
  hello of a cover domain. Go strings are byte lists.
\<close>

section \<open>\<^verbatim>\<open>sni/tls.go\<close>: names\<close>

text \<open>\<open>int(b[i])<<8 | int(b[i+1])\<close>\<close>
definition rd16 :: "bytes \<Rightarrow> nat \<Rightarrow> nat option" where
  "rd16 b i = do { x \<leftarrow> idx b i; y \<leftarrow> idx b (i + 1); Some (unat x * 256 + unat y) }"

text \<open>\<open>int(b[i])<<16 | int(b[i+1])<<8 | int(b[i+2])\<close>\<close>
definition rd24 :: "bytes \<Rightarrow> nat \<Rightarrow> nat option" where
  "rd24 b i = do { x \<leftarrow> idx b i; y \<leftarrow> idx b (i + 1); z \<leftarrow> idx b (i + 2);
                   Some (unat x * 65536 + unat y * 256 + unat z) }"

definition isValidSNIChar :: "byte \<Rightarrow> bool" where
  "isValidSNIChar b \<longleftrightarrow>
     (b \<ge> 97 \<and> b \<le> 122) \<or> (b \<ge> 65 \<and> b \<le> 90) \<or> (b \<ge> 48 \<and> b \<le> 57) \<or>
     b = 45 \<or> b = 46 \<or> b = 95 \<or> b \<ge> 128"

definition localhost :: bytes where
  "localhost = [108, 111, 99, 97, 108, 104, 111, 115, 116]"

definition validateSNI :: "bytes \<Rightarrow> bool" where
  "validateSNI sni \<longleftrightarrow> length sni \<noteq> 0 \<and> list_all isValidSNIChar sni \<and>
     (sni = localhost \<or> 46 \<in> set sni)"

section \<open>\<^verbatim>\<open>sni/tls.go\<close>: extensions\<close>

text \<open>\<open>for i, b := range sniBytes\<close>: the name up to the first invalid character.\<close>
definition sni_prefix :: "bytes \<Rightarrow> bytes" where
  "sni_prefix sniBytes = takeWhile isValidSNIChar sniBytes"

function sni_name_loop :: "bytes \<Rightarrow> nat \<Rightarrow> nat \<Rightarrow> bytes option" where
  "sni_name_loop ed r listEnd =
     (if r + 3 \<le> listEnd then do {
        nameType \<leftarrow> idx ed r;
        nameLen \<leftarrow> rd16 ed (r + 1);
        let r = r + 3;
        if nameLen = 0 \<or> r + nameLen > listEnd \<or> r + nameLen > length ed then Some []
        else if nameType = 0 then do {
          sniBytes \<leftarrow> gslice ed r (r + nameLen);
          Some (sni_prefix sniBytes) }
        else sni_name_loop ed (r + nameLen) listEnd }
      else Some [])"
  by pat_completeness auto
termination
  by (relation "measure (\<lambda>(ed, r, e). e - r)") auto

declare sni_name_loop.simps [simp del]

definition extractSNIFromExtension :: "bytes \<Rightarrow> bytes option" where
  "extractSNIFromExtension ed =
     (if length ed < 2 then Some []
      else do {
        listLen \<leftarrow> rd16 ed 0;
        if listLen = 0 \<or> 2 + listLen > length ed then Some []
        else sni_name_loop ed 2 (2 + listLen) })"

function alpn_loop :: "bytes \<Rightarrow> nat \<Rightarrow> nat \<Rightarrow> bytes list \<Rightarrow> bytes list option" where
  "alpn_loop ed r listEnd alpns =
     (if r < listEnd then
        if r \<ge> length ed then Some alpns
        else do {
          pl \<leftarrow> idx ed r;
          let protoLen = unat pl;
          let r' = r + 1;
          if protoLen = 0 \<or> r' + protoLen > listEnd \<or> r' + protoLen > length ed then Some alpns
          else do {
            s \<leftarrow> gslice ed r' (r' + protoLen);
            alpn_loop ed (r' + protoLen) listEnd (alpns @ [s]) } }
      else Some alpns)"
  by pat_completeness auto
termination
  by (relation "measure (\<lambda>(ed, r, e, a). e - r)") auto

declare alpn_loop.simps [simp del]

definition extractALPNFromExtension :: "bytes \<Rightarrow> bytes list option" where
  "extractALPNFromExtension ed =
     (if length ed < 2 then Some []
      else do {
        listLen \<leftarrow> rd16 ed 0;
        if listLen = 0 \<or> 2 + listLen > length ed then Some []
        else alpn_loop ed 2 (2 + listLen) [] })"

function version_loop :: "bytes \<Rightarrow> nat \<Rightarrow> nat \<Rightarrow> uint16 \<Rightarrow> uint16 option" where
  "version_loop ed i listEnd maxVer =
     (if i + 1 < listEnd then do {
        a \<leftarrow> idx ed i;
        b \<leftarrow> idx ed (i + 1);
        let ver = u16 a b;
        version_loop ed (i + 2) listEnd
          (if ver AND 0x0f0f = 0x0a0a then maxVer else if ver > maxVer then ver else maxVer) }
      else Some maxVer)"
  by pat_completeness auto
termination
  by (relation "measure (\<lambda>(ed, i, e, m). e - i)") auto

declare version_loop.simps [simp del]

definition extractMaxSupportedVersion :: "bytes \<Rightarrow> uint16 option" where
  "extractMaxSupportedVersion ed =
     (if length ed < 1 then Some 0
      else do {
        l \<leftarrow> idx ed 0;
        let listLen = unat l;
        if listLen < 2 \<or> 1 + listLen > length ed then Some 0
        else version_loop ed 1 (1 + listLen) 0 })"

text \<open>What the walk over the extensions collects.\<close>
record hello_meta =
  m_sni :: bytes
  m_hasECH :: bool
  m_alpns :: "bytes list"
  m_maxTLSVersion :: uint16

definition no_meta :: hello_meta where
  "no_meta = \<lparr>m_sni = [], m_hasECH = False, m_alpns = [], m_maxTLSVersion = 0\<rparr>"

text \<open>The \<^verbatim>\<open>switch\<close> on the extension type.\<close>
definition ext_step :: "nat \<Rightarrow> bytes \<Rightarrow> hello_meta \<Rightarrow> hello_meta option" where
  "ext_step et ed m =
     (if et = 0 then do {
        sniStr \<leftarrow> extractSNIFromExtension ed;
        Some (if sniStr \<noteq> [] then m\<lparr>m_sni := sniStr\<rparr> else m) }
      else if et = 16 then do {
        alpns \<leftarrow> extractALPNFromExtension ed;
        Some (m\<lparr>m_alpns := alpns\<rparr>) }
      else if et = 43 then do {
        v \<leftarrow> extractMaxSupportedVersion ed;
        Some (m\<lparr>m_maxTLSVersion := v\<rparr>) }
      else if et = 0xfe0d \<or> et = 0xfe0e \<or> et = 0xfe0f then Some (m\<lparr>m_hasECH := True\<rparr>)
      else Some m)"

function ext_loop :: "bytes \<Rightarrow> nat \<Rightarrow> hello_meta \<Rightarrow> hello_meta option" where
  "ext_loop exts q m =
     (if q + 4 \<le> length exts then do {
        et \<leftarrow> rd16 exts q;
        el \<leftarrow> rd16 exts (q + 2);
        let q' = q + 4;
        if q' + el > length exts then Some m
        else do {
          ed \<leftarrow> gslice exts q' (q' + el);
          m \<leftarrow> ext_step et ed m;
          ext_loop exts (q' + el) m } }
      else Some m)"
  by pat_completeness auto
termination
  by (relation "measure (\<lambda>(x, q, m). length x - q)") auto

declare ext_loop.simps [simp del]

text \<open>The extension block of the message: the guarded skips up to it. The inner \<^term>\<open>None\<close> is
  every early return \<^verbatim>\<open>"", false, nil, 0\<close>.\<close>
definition hello_extensions :: "bytes \<Rightarrow> (uint16 \<times> bytes) option option" where
  "hello_extensions ch =
     (let chLen = length ch in
      if 2 > chLen then Some None
      else do {
        va \<leftarrow> idx ch 0;
        vb \<leftarrow> idx ch 1;
        let legacyVersion = u16 va vb;
        if 2 + 32 > chLen then Some None
        else if 34 + 1 > chLen then Some None
        else do {
          sl \<leftarrow> idx ch 34;
          let sidLen = unat sl;
          let p = 35;
          if p + sidLen > chLen then Some None
          else do {
            let p = p + sidLen;
            if p + 2 > chLen then Some None
            else do {
              csLen \<leftarrow> rd16 ch p;
              let p = p + 2;
              if p + csLen > chLen then Some None
              else do {
                let p = p + csLen;
                if p + 1 > chLen then Some None
                else do {
                  cm \<leftarrow> idx ch p;
                  let cmLen = unat cm;
                  let p = p + 1;
                  if p + cmLen > chLen then Some None
                  else do {
                    let p = p + cmLen;
                    if p + 2 > chLen then Some None
                    else do {
                      extLen \<leftarrow> rd16 ch p;
                      let p = p + 2;
                      if extLen = 0 then Some None
                      else do {
                        let extLen = (if p + extLen > chLen then chLen - p else extLen);
                        if extLen = 0 then Some None
                        else do {
                          exts \<leftarrow> gslice ch p (p + extLen);
                          Some (Some (legacyVersion, exts)) } } } } } } } } } })"

definition parseTLSClientHelloMeta :: "bytes \<Rightarrow> hello_meta option" where
  "parseTLSClientHelloMeta ch = do {
     r \<leftarrow> hello_extensions ch;
     case r of
       None \<Rightarrow> Some no_meta
     | Some (legacyVersion, exts) \<Rightarrow> do {
         m \<leftarrow> ext_loop exts 0 no_meta;
         Some (if m_maxTLSVersion m = 0 then m\<lparr>m_maxTLSVersion := legacyVersion\<rparr> else m) } }"

text \<open>One round of the record scan at \<open>i\<close>: go on at a later offset, or return.\<close>
datatype scan_step = Skip nat | Found bytes uint16

definition hello_record :: "bytes \<Rightarrow> scan_step option" where
  "hello_record rec = do {
     hl0 \<leftarrow> rd24 rec 1;
     let hl = (if 4 + hl0 > length rec then length rec - 4 else hl0);
     if 4 + hl0 > length rec \<and> hl = 0 then Some (Skip 1)
     else do {
       ch \<leftarrow> gslice rec 4 (4 + hl);
       m \<leftarrow> parseTLSClientHelloMeta ch;
       Some (if m_sni m = [] then Skip 1
             else if \<not> validateSNI (m_sni m) then Skip 1
             else Found (m_sni m) (m_maxTLSVersion m)) } }"

definition hello_record_at :: "bytes \<Rightarrow> nat \<Rightarrow> nat \<Rightarrow> scan_step option" where
  "hello_record_at b i recLen =
     (if recLen = 0 then Some (Skip 1)
      else do {
        rec \<leftarrow> gslice b (i + 5) (i + 5 + recLen);
        if length rec < 4 then Some (Skip 1)
        else do {
          h0 \<leftarrow> idx rec 0;
          if h0 = 0x01 then hello_record rec
          else Some (Skip (5 + recLen)) } })"

definition hello_at :: "bytes \<Rightarrow> nat \<Rightarrow> scan_step option" where
  "hello_at b i = do {
     t \<leftarrow> idx b i;
     if t \<noteq> 0x16 then Some (Skip 1)
     else do {
       recLen \<leftarrow> rd16 b (i + 3);
       if recLen = 0 then Some (Skip 1)
       else hello_record_at b i (if i + 5 + recLen > length b then length b - i - 5 else recLen) } }"

fun scan_ok :: "scan_step \<Rightarrow> bool" where
  "scan_ok (Skip n) \<longleftrightarrow> 0 < n"
| "scan_ok (Found sni ver) \<longleftrightarrow> validateSNI sni"

lemma hello_record_step: "hello_record rec = Some s \<Longrightarrow> scan_ok s"
  unfolding hello_record_def by (auto elim!: bind_SomeE simp: Let_def split: if_split_asm)

lemma hello_record_at_step: "hello_record_at b i n = Some s \<Longrightarrow> scan_ok s"
  unfolding hello_record_at_def
  by (auto elim!: bind_SomeE split: if_split_asm) (erule hello_record_step)

lemma hello_at_step: "hello_at b i = Some s \<Longrightarrow> scan_ok s"
  unfolding hello_at_def
  by (auto elim!: bind_SomeE split: if_split_asm) (erule hello_record_at_step)+

text \<open>The scan. The inner \<^term>\<open>None\<close> is \<^verbatim>\<open>"", 0, false\<close>.\<close>
function hello_scan :: "bytes \<Rightarrow> nat \<Rightarrow> (bytes \<times> uint16) option option" where
  "hello_scan b i =
     (if i + 5 \<le> length b then
        (case hello_at b i of
           None \<Rightarrow> None
         | Some (Skip n) \<Rightarrow> hello_scan b (i + n)
         | Some (Found sni ver) \<Rightarrow> Some (Some (sni, ver)))
      else Some None)"
  by pat_completeness auto
termination
  by (relation "measure (\<lambda>(b, i). length b - i)") (auto dest!: hello_at_step)

declare hello_scan.simps [simp del]

definition ParseTLSClientHelloSNI :: "bytes \<Rightarrow> (bytes \<times> uint16) option option" where
  "ParseTLSClientHelloSNI b = hello_scan b 0"

definition ParseTLSClientHelloBodySNI :: "bytes \<Rightarrow> bytes option option" where
  "ParseTLSClientHelloBodySNI ch = do {
     m \<leftarrow> parseTLSClientHelloMeta ch;
     Some (if m_sni m = [] \<or> \<not> validateSNI (m_sni m) then None else Some (m_sni m)) }"

section \<open>The parser never reads out of bounds\<close>

lemma rd16_ok [go_simps]:
  "i + 1 < length b \<Longrightarrow> rd16 b i = Some (unat (b ! i) * 256 + unat (b ! (i + 1)))"
  by (simp add: rd16_def idx_ok)

lemma sni_name_loop_total: "e \<le> length ed \<Longrightarrow> \<exists>s. sni_name_loop ed r e = Some s"
proof (induction ed r e rule: sni_name_loop.induct)
  case (1 ed r e)
  then show ?case
    by (subst sni_name_loop.simps) (auto simp: idx_ok rd16_ok gslice_ok Let_def)
qed

lemma alpn_loop_total: "\<exists>s. alpn_loop ed r e a = Some s"
proof (induction ed r e a rule: alpn_loop.induct)
  case (1 ed r e a)
  then show ?case
    by (subst alpn_loop.simps) (auto simp: idx_ok gslice_ok Let_def)
qed

lemma version_loop_total: "e \<le> length ed \<Longrightarrow> \<exists>s. version_loop ed i e v = Some s"
proof (induction ed i e v rule: version_loop.induct)
  case (1 ed i e v)
  then show ?case
    by (subst version_loop.simps) (auto simp: idx_ok Let_def)
qed

lemma rd16_None_iff [go_panics]: "rd16 b i = None \<longleftrightarrow> length b < i + 2"
  by (auto simp: rd16_def go_panics idx_Some_iff)

lemma rd24_None_iff [go_panics]: "rd24 b i = None \<longleftrightarrow> length b < i + 3"
  by (auto simp: rd24_def go_panics idx_Some_iff)

lemma ext_step_total: "ext_step et ed m \<noteq> None"
proof
  assume "ext_step et ed m = None"
  moreover have "sni_name_loop ed r e \<noteq> None" if "e \<le> length ed" for r e
    using sni_name_loop_total [OF that] by simp
  moreover have "version_loop ed r e v \<noteq> None" if "e \<le> length ed" for r e v
    using version_loop_total [OF that] by simp
  moreover have "alpn_loop ed r e a \<noteq> None" for r e a
    using alpn_loop_total by simp
  ultimately show False
    by (auto simp: ext_step_def extractSNIFromExtension_def extractALPNFromExtension_def
        extractMaxSupportedVersion_def go_panics Let_def split: if_splits simp del: not_None_eq)
qed

lemma ext_loop_total: "\<exists>m'. ext_loop x q m = Some m'"
proof (induction x q m rule: ext_loop.induct)
  case (1 x q m)
  then show ?case
    using ext_step_total by (subst ext_loop.simps) (fastforce simp: rd16_ok gslice_ok Let_def)
qed

lemma hello_extensions_total: "\<exists>r. hello_extensions ch = Some r"
proof (cases "length ch < 2")
  case False
  then have "ch \<noteq> []" by auto
  then show ?thesis
    by (auto simp: hello_extensions_def idx_ok idx_0 rd16_ok gslice_ok Let_def)
qed (simp add: hello_extensions_def)

lemma parseTLSClientHelloMeta_total: "\<exists>m. parseTLSClientHelloMeta ch = Some m"
proof -
  obtain r where r: "hello_extensions ch = Some r" using hello_extensions_total by blast
  show ?thesis
  proof (cases r)
    case (Some p)
    obtain m where "ext_loop (snd p) 0 no_meta = Some m" using ext_loop_total by blast
    then show ?thesis using r Some by (cases p) (simp add: parseTLSClientHelloMeta_def)
  qed (simp add: parseTLSClientHelloMeta_def r)
qed

lemma hello_record_total: "4 \<le> length rec \<Longrightarrow> hello_record rec \<noteq> None"
proof
  assume "4 \<le> length rec" "hello_record rec = None"
  moreover have "parseTLSClientHelloMeta ch \<noteq> None" for ch
    using parseTLSClientHelloMeta_total by simp
  ultimately show False
    by (auto simp: hello_record_def Let_def go_panics split: if_splits simp del: not_None_eq)
qed

lemma hello_record_at_total: "i + 5 + n \<le> length b \<Longrightarrow> hello_record_at b i n \<noteq> None"
proof
  assume "i + 5 + n \<le> length b" "hello_record_at b i n = None"
  then show False
    by (auto simp: hello_record_at_def go_panics hello_record_total gslice_Some_iff split: if_splits)
qed

lemma hello_at_total: "i + 5 \<le> length b \<Longrightarrow> hello_at b i \<noteq> None"
proof
  assume "i + 5 \<le> length b" "hello_at b i = None"
  then show False
    by (auto simp: hello_at_def go_panics hello_record_at_total split: if_splits)
qed

lemma hello_scan_safe:
  "\<exists>r. hello_scan b i = Some r \<and> (case r of None \<Rightarrow> True | Some (sni, ver) \<Rightarrow> validateSNI sni)"
proof (induction b i rule: hello_scan.induct)
  case (1 b i)
  then show ?case
    using hello_at_total [of i b] hello_at_step [of b i]
    by (subst hello_scan.simps) (auto split: scan_step.split)
qed

text \<open>C23: the ClientHello parser is safe on every input: whatever bytes a connection carries, the scan
  terminates without an out-of-range access, and a name it returns is non-empty, consists of host
  name characters only and is \<open>localhost\<close> or contains a dot.\<close>
theorem ParseTLSClientHelloSNI_safe:
  "\<exists>r. ParseTLSClientHelloSNI b = Some r \<and>
     (case r of None \<Rightarrow> True | Some (sni, ver) \<Rightarrow> validateSNI sni)"
  unfolding ParseTLSClientHelloSNI_def by (rule hello_scan_safe)

end
