(* ===== verification/TlsGen.thy ===== *)
theory TlsGen
  imports ClientHello
begin

text \<open>
  \<^verbatim>\<open>src/src/tlsgen/generator.go\<close>: a ClientHello for a cover domain with the server name as its first
  extension. What \<^verbatim>\<open>crypto/rand\<close> returns is an argument (\<^term>\<open>None\<close> for a read error where the code
  checks for it). The main result is the round trip with the parser of the theory \<open>ClientHello\<close>.
\<close>

text \<open>\<open>b := make([]byte, n); rand.Read(b)\<close>\<close>
definition rand_fill :: "nat \<Rightarrow> bytes \<Rightarrow> bytes" where
  "rand_fill n r = take n (r @ mk n)"

text \<open>\<open>byte(n>>8), byte(n)\<close>\<close>
definition len16 :: "nat \<Rightarrow> bytes" where
  "len16 n = [of_nat (n div 256), of_nat n]"

text \<open>\<open>byte(n>>16), byte(n>>8), byte(n)\<close>\<close>
definition len24 :: "nat \<Rightarrow> bytes" where
  "len24 n = [of_nat (n div 65536), of_nat (n div 256), of_nat n]"

record Extension =
  ext_Type :: uint16
  ext_Data :: bytes

definition buildSNI :: "bytes \<Rightarrow> bytes option" where
  "buildSNI domain = do {
     let sniLen = length domain;
     let data = mk (5 + sniLen);
     data \<leftarrow> put16 data 0 (of_nat (3 + sniLen));
     data \<leftarrow> upd data 2 0x00;
     data \<leftarrow> put16 data 3 (of_nat sniLen);
     copy_from data 5 domain }"

definition buildKeyShare :: "bytes \<Rightarrow> bytes \<Rightarrow> bytes option" where
  "buildKeyShare r1 r2 = do {
     let x25519Key = rand_fill 32 r1;
     let secp256r1Key = rand_fill 65 r2;
     let data = mk (2 + 4 + 32 + 4 + 65);
     data \<leftarrow> put16 data 0 (of_nat (4 + 32 + 4 + 65));
     data \<leftarrow> put16 data 2 0x001d;
     data \<leftarrow> put16 data 4 32;
     data \<leftarrow> copy_from data 6 x25519Key;
     data \<leftarrow> put16 data 38 0x0017;
     data \<leftarrow> put16 data 40 65;
     copy_from data 42 secp256r1Key }"

definition buildECH :: "bytes \<Rightarrow> bytes" where
  "buildECH r = [0xfe, 0x0d, 0x01, 0x19, 0x00, 0x00, 0x01, 0x00, 0x01, 0xf8, 0x00, 0x20]
     @ rand_fill 269 r"

text \<open>A 16-bit count in bytes followed by 16-bit values, as the code fills \<open>groupsData\<close> and
  \<open>sigData\<close>.\<close>
definition u16_list :: "uint16 list \<Rightarrow> bytes" where
  "u16_list vs = (let n = of_nat (length vs * 2) in [hi8 n, lo8 n] @ concat (map (\<lambda>v. [hi8 v, lo8 v]) vs))"

definition buildExtensions :: "bytes \<Rightarrow> bytes \<Rightarrow> bytes \<Rightarrow> bytes \<Rightarrow> Extension list option" where
  "buildExtensions r1 r2 r3 domain = do {
     sniData \<leftarrow> buildSNI domain;
     keyShareData \<leftarrow> buildKeyShare r1 r2;
     Some
      [\<lparr>ext_Type = 0x0000, ext_Data = sniData\<rparr>,
       \<lparr>ext_Type = 0x0017, ext_Data = []\<rparr>,
       \<lparr>ext_Type = 0xff01, ext_Data = [0x00]\<rparr>,
       \<lparr>ext_Type = 0x000a, ext_Data = u16_list [0x001d, 0x0017, 0x0018, 0x0019, 0x0100, 0x0101]\<rparr>,
       \<lparr>ext_Type = 0x000b, ext_Data = [0x01, 0x00]\<rparr>,
       \<lparr>ext_Type = 0x0023, ext_Data = []\<rparr>,
       \<lparr>ext_Type = 0x0010, ext_Data = [0x00, 0x0c, 0x02, 0x68, 0x32, 0x08, 0x68, 0x74, 0x74, 0x70, 0x2f, 0x31, 0x2e, 0x31]\<rparr>,
       \<lparr>ext_Type = 0x0005, ext_Data = [0x01, 0x00, 0x00, 0x00, 0x00]\<rparr>,
       \<lparr>ext_Type = 0x0022, ext_Data = [0x00, 0x04, 0x03, 0x05, 0x03, 0x06, 0x03, 0x02, 0x03, 0x00]\<rparr>,
       \<lparr>ext_Type = 0x0033, ext_Data = keyShareData\<rparr>,
       \<lparr>ext_Type = 0x002b, ext_Data = [0x04, 0x03, 0x04, 0x03, 0x03]\<rparr>,
       \<lparr>ext_Type = 0x000d, ext_Data = u16_list [0x0403, 0x0503, 0x0603, 0x0804, 0x0805, 0x0806,
          0x0401, 0x0501, 0x0601, 0x0203, 0x0201]\<rparr>,
       \<lparr>ext_Type = 0x002d, ext_Data = [0x01, 0x01]\<rparr>,
       \<lparr>ext_Type = 0x001c, ext_Data = [0x40, 0x01]\<rparr>,
       \<lparr>ext_Type = 0xfe0d, ext_Data = buildECH r3\<rparr>] }"

definition serialize_ext :: "Extension \<Rightarrow> bytes" where
  "serialize_ext ext = [hi8 (ext_Type ext), lo8 (ext_Type ext)] @ len16 (length (ext_Data ext)) @ ext_Data ext"

definition serializeExtensions :: "Extension list \<Rightarrow> bytes" where
  "serializeExtensions extensions = concat (map serialize_ext extensions)"

definition cipherSuites :: "uint16 list" where
  "cipherSuites = [0x1301, 0x1303, 0x1302, 0xc02b, 0xc02f, 0xcca9, 0xcca8, 0xc02c, 0xc030,
     0xc00a, 0xc009, 0xc013, 0xc014, 0x009c, 0x009d, 0x002f, 0x0035]"

text \<open>The message body, then the handshake and record headers around it.\<close>
definition hello_body :: "bytes \<Rightarrow> bytes \<Rightarrow> bytes \<Rightarrow> bytes" where
  "hello_body random sessionID extensionsData =
     [0x03, 0x03] @ random
     @ [of_nat (length sessionID)] @ sessionID
     @ len16 (length cipherSuites * 2) @ concat (map (\<lambda>cs. [hi8 cs, lo8 cs]) cipherSuites)
     @ [0x01, 0x00]
     @ len16 (length extensionsData) @ extensionsData"

definition hello_frame :: "bytes \<Rightarrow> bytes" where
  "hello_frame clientHello =
     (let handshake = [0x01] @ len24 (length clientHello) @ clientHello
      in [0x16] @ [0x03, 0x01] @ len16 (length handshake) @ handshake)"

text \<open>The inner \<^term>\<open>None\<close> is an error result.\<close>
definition GenerateTLSClientHello ::
  "bytes option \<Rightarrow> bytes option \<Rightarrow> bytes \<Rightarrow> bytes \<Rightarrow> bytes \<Rightarrow> bytes \<Rightarrow> bytes option option" where
  "GenerateTLSClientHello rr rs r1 r2 r3 domain =
     (if domain = [] then Some None
      else case rr of None \<Rightarrow> Some None
      | Some ra \<Rightarrow> (case rs of None \<Rightarrow> Some None
        | Some sa \<Rightarrow> do {
            extensions \<leftarrow> buildExtensions r1 r2 r3 domain;
            let clientHello = hello_body (rand_fill 32 ra) (rand_fill 32 sa)
                                (serializeExtensions extensions);
            Some (Some (hello_frame clientHello)) }))"

section \<open>Reading back what is written\<close>

lemma rand_fill_length [simp, go_lens]: "length (rand_fill n r) = n"
  by (simp add: rand_fill_def)

lemma len16_length [simp]: "length (len16 n) = 2"
  by (simp add: len16_def)

lemma len24_length [simp]: "length (len24 n) = 3"
  by (simp add: len24_def)

lemma unat_of_nat_byte: "unat (of_nat n :: byte) = n mod 256"
  by (simp add: unat_of_nat)

lemma rd16_at:
  "rd16 (pre @ a # b # suf) (length pre) = Some (unat a * 256 + unat b)"
  by (simp add: rd16_ok nth_append)

lemma rd16_len16:
  assumes "n < 65536" "i = length pre"
  shows "rd16 (pre @ len16 n @ suf) i = Some n"
proof -
  have "n div 256 mod 256 * 256 + n mod 256 = n" using assms by simp
  then show ?thesis
    using rd16_at [of pre "of_nat (n div 256)" "of_nat n" suf] assms(2)
    by (simp add: len16_def unat_of_nat_byte del: of_nat_div)
qed

lemma rd16_u16: "i = length pre \<Longrightarrow> rd16 (pre @ hi8 v # lo8 v # suf) i = Some (unat v)"
  using rd16_at [of pre "hi8 v" "lo8 v" suf] unat_u16 [of "hi8 v" "lo8 v"] by simp

lemma rd24_len24:
  assumes "n < 2 ^ 24" "i = length pre"
  shows "rd24 (pre @ len24 n @ suf) i = Some n"
proof -
  have "n div 65536 mod 256 = n div 65536" using assms(1) by simp
  moreover have "n div 256 = n div 65536 * 256 + n div 256 mod 256"
    using div_mult_mod_eq [of "n div 256" 256] by (simp add: div_mult2_eq [symmetric])
  moreover have "n = n div 256 * 256 + n mod 256" by simp
  ultimately have "n div 65536 mod 256 * 65536 + n div 256 mod 256 * 256 + n mod 256 = n"
    by linarith
  moreover have "rd24 (pre @ len24 n @ suf) i
      = Some (n div 65536 mod 256 * 65536 + n div 256 mod 256 * 256 + n mod 256)"
    using assms(2)
    by (simp add: rd24_def len24_def idx_ok nth_append unat_of_nat_byte del: of_nat_div)
  ultimately show ?thesis by (simp only:)
qed

fun fold_ext :: "Extension list \<Rightarrow> hello_meta \<Rightarrow> hello_meta option" where
  "fold_ext [] m = Some m"
| "fold_ext (e # es) m = ext_step (unat (ext_Type e)) (ext_Data e) m \<bind> fold_ext es"

lemma gslice_mid: "i = length pre \<Longrightarrow> j = i + length d \<Longrightarrow> gslice (pre @ d @ suf) i j = Some d"
  by (simp add: gslice_ok)

lemma ext_loop_serialize:
  "\<forall>e \<in> set es. length (ext_Data e) < 65536 \<Longrightarrow>
   ext_loop (pre @ serializeExtensions es) (length pre) m = fold_ext es m"
proof (induction es arbitrary: pre m)
  case Nil
  then show ?case by (simp add: serializeExtensions_def ext_loop.simps)
next
  case (Cons e es)
  let ?t = "ext_Type e" and ?d = "ext_Data e" and ?r = "serializeExtensions es"
  let ?x = "pre @ serializeExtensions (e # es)"
  have x: "?x = pre @ [hi8 ?t, lo8 ?t] @ len16 (length ?d) @ ?d @ ?r"
    by (simp add: serializeExtensions_def serialize_ext_def)
  have "rd16 ?x (length pre) = Some (unat ?t)"
    unfolding x using rd16_u16 [of _ pre ?t] by simp
  moreover have "rd16 ?x (length pre + 2) = Some (length ?d)"
    unfolding x using rd16_len16 [of "length ?d" _ "pre @ [hi8 ?t, lo8 ?t]" "?d @ ?r"] Cons.prems
    by simp
  moreover have "gslice ?x (length pre + 4) (length pre + 4 + length ?d) = Some ?d"
    unfolding x
    using gslice_mid [of _ "pre @ [hi8 ?t, lo8 ?t] @ len16 (length ?d)" _ ?d ?r] by simp
  moreover have "ext_loop ?x (length pre + 4 + length ?d) = fold_ext es"
  proof
    fix m'
    let ?p = "pre @ [hi8 ?t, lo8 ?t] @ len16 (length ?d) @ ?d"
    have "ext_loop (?p @ ?r) (length ?p) m' = fold_ext es m'"
      by (rule Cons.IH) (use Cons.prems in simp)
    moreover have "?x = ?p @ ?r" "length pre + 4 + length ?d = length ?p" by (simp_all add: x)
    ultimately show "ext_loop ?x (length pre + 4 + length ?d) m' = fold_ext es m'" by (simp only:)
  qed
  moreover have "length pre + 4 + length ?d \<le> length ?x" by (simp add: x)
  ultimately show ?case
    by (subst ext_loop.simps) simp
qed

lemma buildSNI_eq:
  "buildSNI d = Some ([hi8 (of_nat (3 + length d)), lo8 (of_nat (3 + length d)), 0,
     hi8 (of_nat (length d)), lo8 (of_nat (length d))] @ d)"
proof -
  have m: "mk (5 + length d) = [0, 0, 0, 0, 0] @ mk (length d)"
    by (simp add: mk_def eval_nat_numeral)
  have c: "copy_from ([a, b, c, e, f] @ mk (length d)) 5 d = Some ([a, b, c, e, f] @ d)"
    for a b c e f :: byte
    by (subst copy_from_mk) simp_all
  show ?thesis
    unfolding buildSNI_def Let_def m using c
    by (simp add: put16_ok upd_ok eval_nat_numeral)
qed

lemma extractSNI_buildSNI:
  assumes "buildSNI d = Some s" "d \<noteq> []" "length d + 3 < 65536" "list_all isValidSNIChar d"
  shows "extractSNIFromExtension s = Some d" "length s = 5 + length d"
proof -
  let ?n = "of_nat (3 + length d) :: uint16" and ?k = "of_nat (length d) :: uint16"
  have s: "s = [hi8 ?n, lo8 ?n, 0, hi8 ?k, lo8 ?k] @ d" using assms(1) buildSNI_eq by simp
  then show len: "length s = 5 + length d" by simp
  have r0: "rd16 s 0 = Some (3 + length d)"
    using rd16_u16 [of 0 "[]" ?n] assms(3) by (simp add: s unat_of_nat16 del: of_nat_add)
  have r3: "rd16 s 3 = Some (length d)"
    using rd16_u16 [of 3 "[hi8 ?n, lo8 ?n, 0]" ?k] assms(3) by (simp add: s unat_of_nat16)
  have "gslice s 5 (5 + length d) = Some d" "idx s 2 = Some 0"
    by (simp_all add: s gslice_ok idx_ok)
  then have "sni_name_loop s 2 (2 + (3 + length d)) = Some (sni_prefix d)"
    using assms(2) r3 len by (subst sni_name_loop.simps) (simp add: eval_nat_numeral)
  moreover have "sni_prefix d = d"
    using assms(4) by (simp add: sni_prefix_def takeWhile_eq_all_conv list_all_iff)
  ultimately show "extractSNIFromExtension s = Some d"
    using len r0 by (simp add: extractSNIFromExtension_def)
qed

lemma buildKeyShare_length: "\<exists>k. buildKeyShare r1 r2 = Some k \<and> length k = 107"
proof -
  have "buildKeyShare r1 r2 \<noteq> None"
  proof
    assume "buildKeyShare r1 r2 = None"
    then show False
      by (auto simp: buildKeyShare_def Let_def go_panics dest!: put16_length copy_into_length
          simp: copy_from_def)
  qed
  then obtain k where k: "buildKeyShare r1 r2 = Some k" by auto
  then have "length k = 107"
    by (auto simp: buildKeyShare_def Let_def copy_from_def elim!: bind_SomeE
        dest!: put16_length copy_into_length)
  then show ?thesis using k by blast
qed

lemma ext_step_other:
  "et \<notin> {0, 16, 43, 0xfe0d, 0xfe0e, 0xfe0f} \<Longrightarrow> ext_step et ed m = Some m"
  by (simp add: ext_step_def)

lemma supported_versions_1_3: "extractMaxSupportedVersion [4, 3, 4, 3, 3] = Some 0x0304"
  by (simp add: extractMaxSupportedVersion_def idx_ok version_loop.simps u16_def)

lemma alpn_some: "\<exists>a. extractALPNFromExtension d = Some a"
  using ext_step_total [of 16 d no_meta] by (auto simp: ext_step_def split: bind_splits)

lemma u16_list_length: "length (u16_list vs) = 2 + 2 * length vs"
  by (induction vs) (auto simp: u16_list_def Let_def)

lemma buildExtensions_reads:
  assumes "d \<noteq> []" "length d + 5 < 65536" "list_all isValidSNIChar d"
  shows "\<exists>es a. buildExtensions r1 r2 r3 d = Some es \<and>
     fold_ext es no_meta =
       Some \<lparr>m_sni = d, m_hasECH = True, m_alpns = a, m_maxTLSVersion = 0x0304\<rparr> \<and>
     (\<forall>e \<in> set es. length (ext_Data e) < 65536) \<and>
     length (serializeExtensions es) = 532 + length d"
proof -
  obtain s where s: "buildSNI d = Some s" using buildSNI_eq by blast
  obtain k where k: "buildKeyShare r1 r2 = Some k" "length k = 107" using buildKeyShare_length by blast
  let ?alpn = "[0, 12, 2, 0x68, 0x32, 8, 0x68, 0x74, 0x74, 0x70, 0x2f, 0x31, 0x2e, 0x31] :: bytes"
  obtain a where a: "extractALPNFromExtension ?alpn = Some a" using alpn_some by blast
  have d3: "length d + 3 < 65536" using assms(2) by simp
  note sn = extractSNI_buildSNI [OF s assms(1) d3 assms(3)]
  obtain es where es: "buildExtensions r1 r2 r3 d = Some es"
    by (simp add: buildExtensions_def s k)
  have "fold_ext es no_meta =
       Some \<lparr>m_sni = d, m_hasECH = True, m_alpns = a, m_maxTLSVersion = 0x0304\<rparr>"
    using es assms(1) a
    by (auto simp: buildExtensions_def s k ext_step_def sn supported_versions_1_3 no_meta_def)
  moreover have "\<forall>e \<in> set es. length (ext_Data e) < 65536"
    using es sn(2) assms(2) k(2)
    by (auto simp: buildExtensions_def s k(1) u16_list_length buildECH_def)
  moreover have "length (serializeExtensions es) = 532 + length d"
    using es sn(2) k(2)
    by (auto simp: buildExtensions_def s k(1) u16_list_length buildECH_def serializeExtensions_def
        serialize_ext_def)
  ultimately show ?thesis using es by blast
qed

lemma cipherSuites_length: "length cipherSuites = 17"
  by (simp add: cipherSuites_def)

lemma hello_extensions_body:
  assumes "length ra = 32" "length sa = 32" "0 < length ex" "length ex < 65536"
  shows "hello_extensions (hello_body ra sa ex) = Some (Some (0x0303, ex))"
proof -
  let ?cs = "concat (map (\<lambda>cs. [hi8 cs, lo8 cs]) cipherSuites)"
  let ?p1 = "[3, 3] @ ra @ [32] @ sa"
  let ?p2 = "?p1 @ len16 34 @ ?cs"
  let ?p3 = "?p2 @ [1, 0]"
  let ?p4 = "?p3 @ len16 (length ex)"
  let ?h = "hello_body ra sa ex"
  have cs: "length ?cs = 34" by (simp add: cipherSuites_def)
  have h: "?h = ?p1 @ len16 34 @ (?cs @ [1, 0] @ len16 (length ex) @ ex)"
      "?h = ?p2 @ [1, 0] @ len16 (length ex) @ ex" "?h = ?p3 @ len16 (length ex) @ ex" "?h = ?p4 @ ex @ []"
    using assms(2) by (simp_all add: hello_body_def cipherSuites_length)
  have l: "length ?h = 107 + length ex" using assms cs by (simp add: h(4))
  have lp: "length ?p1 = 67" "length ?p2 = 103" "length ?p3 = 105" "length ?p4 = 107"
    using assms cs by simp_all
  have "idx ?h 0 = Some 3" "idx ?h 1 = Some 3" "idx ?h 34 = Some 32" "idx ?h 103 = Some 1"
    using assms(1,2) cs by (simp_all add: idx_ok l) (simp_all add: h(2) nth_append)
  moreover have "rd16 ?h 67 = Some 34"
    unfolding h(1) using lp by (intro rd16_len16) simp_all
  moreover have "rd16 ?h 105 = Some (length ex)"
    unfolding h(3) using lp assms(4) by (intro rd16_len16) simp_all
  moreover have "gslice ?h 107 (107 + length ex) = Some ex"
    unfolding h(4) using lp by (intro gslice_mid) simp_all
  moreover have "u16 3 3 = 0x0303" by (simp add: u16_def)
  ultimately show ?thesis
    using assms(3) by (simp add: hello_extensions_def l)
qed

lemma hello_scan_frame:
  assumes "length ch < 65532" "parseTLSClientHelloMeta ch = Some m" "validateSNI (m_sni m)"
  shows "hello_scan (hello_frame ch) 0 = Some (Some (m_sni m, m_maxTLSVersion m))"
proof -
  let ?hs = "[1] @ len24 (length ch) @ ch"
  let ?b = "hello_frame ch"
  have b: "?b = [0x16, 3, 1] @ len16 (4 + length ch) @ ?hs" by (simp add: hello_frame_def)
  have lb: "length ?b = 9 + length ch" by (simp add: b)
  have r: "rd16 ?b 3 = Some (4 + length ch)"
    unfolding b using assms(1) by (intro rd16_len16) simp_all
  have g: "gslice ?b 5 (9 + length ch) = Some ?hs"
    using gslice_mid [of 5 "[0x16, 3, 1] @ len16 (4 + length ch)" "9 + length ch" ?hs "[]"]
    by (simp add: b)
  have "rd24 ?hs 1 = Some (length ch)"
    using assms(1) by (intro rd24_len24) simp_all
  moreover have "gslice ?hs 4 (4 + length ch) = Some ch"
    using gslice_mid [of 4 "[1] @ len24 (length ch)" "4 + length ch" ch "[]"] by simp
  moreover have "m_sni m \<noteq> []" using assms(3) by (auto simp: validateSNI_def)
  ultimately have "hello_record ?hs = Some (Found (m_sni m) (m_maxTLSVersion m))"
    using assms(2,3) by (simp add: hello_record_def)
  moreover have "idx ?b 0 = Some 0x16" "idx ?hs 0 = Some 1" by (simp_all add: b idx_ok)
  ultimately have "hello_at ?b 0 = Some (Found (m_sni m) (m_maxTLSVersion m))"
    using r g lb by (simp add: hello_at_def hello_record_at_def)
  then show ?thesis using lb by (subst hello_scan.simps) simp
qed

lemma first_extension:
  assumes "es = e # es'" "ext_Type e = 0" "length ra = 32" "length sa = 32"
  shows "take 4 (drop 116 (hello_frame (hello_body ra sa (serializeExtensions es))))
    = [0, 0] @ len16 (length (ext_Data e))"
proof -
  have "length (concat (map (\<lambda>cs. [hi8 cs, lo8 cs]) cipherSuites)) = 34"
    by (simp add: cipherSuites_def)
  moreover have "hi8 0 = 0" "lo8 0 = 0" by (simp_all add: hi8_def lo8_def)
  ultimately show ?thesis
    using assms
    by (simp add: hello_frame_def hello_body_def serializeExtensions_def serialize_ext_def)
qed

text \<open>C24: the generated ClientHello is read back by the program's own parser: for every valid host
  name that fits, the record is built without error, and parsing it yields exactly this name and
  TLS 1.3 as the highest version; the server name is the first extension of the message.\<close>
theorem GenerateTLSClientHello_roundtrip:
  assumes "validateSNI d" "length d \<le> 64000"
  shows "\<exists>b. GenerateTLSClientHello (Some ra) (Some sa) r1 r2 r3 d = Some (Some b) \<and>
     ParseTLSClientHelloSNI b = Some (Some (d, 0x0304)) \<and>
     take 4 (drop (9 + 107) b) = [0, 0] @ len16 (5 + length d)"
proof -
  have d: "d \<noteq> []" "length d + 5 < 65536" "list_all isValidSNIChar d"
    using assms by (auto simp: validateSNI_def)
  obtain es a where es: "buildExtensions r1 r2 r3 d = Some es"
      "fold_ext es no_meta =
        Some \<lparr>m_sni = d, m_hasECH = True, m_alpns = a, m_maxTLSVersion = 0x0304\<rparr>"
      "\<forall>e \<in> set es. length (ext_Data e) < 65536" "length (serializeExtensions es) = 532 + length d"
    using buildExtensions_reads [OF d] by blast
  let ?x = "serializeExtensions es"
  let ?ch = "hello_body (rand_fill 32 ra) (rand_fill 32 sa) ?x"
  let ?b = "hello_frame ?ch"
  have gen: "GenerateTLSClientHello (Some ra) (Some sa) r1 r2 r3 d = Some (Some ?b)"
    using d(1) by (simp add: GenerateTLSClientHello_def es(1))
  have "hello_extensions ?ch = Some (Some (0x0303, ?x))"
    by (rule hello_extensions_body) (use es(4) assms(2) in simp_all)
  moreover have "ext_loop ?x 0 no_meta = fold_ext es no_meta"
    using ext_loop_serialize [OF es(3), of "[]" no_meta] by simp
  ultimately have "parseTLSClientHelloMeta ?ch =
      Some \<lparr>m_sni = d, m_hasECH = True, m_alpns = a, m_maxTLSVersion = 0x0304\<rparr>"
    by (simp add: parseTLSClientHelloMeta_def es(2))
  moreover have lc: "length ?ch = 639 + length d"
    using es(4) by (simp add: hello_body_def cipherSuites_def)
  ultimately have "ParseTLSClientHelloSNI ?b = Some (Some (d, 0x0304))"
    using assms hello_scan_frame [of ?ch] by (simp add: ParseTLSClientHelloSNI_def)
  moreover obtain e es' where "es = e # es'" "ext_Type e = 0" "length (ext_Data e) = 5 + length d"
    using es(1) buildKeyShare_length [of r1 r2] by (auto simp: buildExtensions_def buildSNI_eq)
  ultimately show ?thesis using gen first_extension [of es e es'] by auto
qed

definition example_com :: bytes where
  "example_com = [0x65, 0x78, 0x2e, 0x63, 0x6f, 0x6d]"

theorem GenerateTLSClientHello_witness:
  "\<exists>b. GenerateTLSClientHello (Some []) (Some []) [] [] [] example_com = Some (Some b) \<and>
     ParseTLSClientHelloSNI b = Some (Some (example_com, 0x0304))"
proof -
  have "validateSNI example_com" "length example_com \<le> 64000"
    by (simp_all add: validateSNI_def example_com_def isValidSNIChar_def)
  then show ?thesis using GenerateTLSClientHello_roundtrip by blast
qed

end
