(* ===== verification/Dns.thy ===== *)
theory Dns
  imports Fragment
begin

text \<open>
  DNS messages and the redirection of DNS queries: \<^verbatim>\<open>src/src/dns/dns.go\<close>, \<^verbatim>\<open>query.go\<close>, the splitting
  of \<^verbatim>\<open>forward.go\<close>, and \<^verbatim>\<open>src/src/nfq/dns.go\<close> with the table of pending routes of
  \<^verbatim>\<open>nfq/dns_routing.go\<close>. Names are byte lists; a result pair with \<open>false\<close> is \<^term>\<open>None\<close> inside
  the panic option.
\<close>

section \<open>\<^verbatim>\<open>dns.go\<close>\<close>

function query_loop :: "bytes \<Rightarrow> nat \<Rightarrow> bytes \<Rightarrow> bytes option option" where
  "query_loop payload pos domain =
     (if pos < length payload then do {
        l \<leftarrow> idx payload pos;
        let len = unat l;
        if len = 0 then Some (Some domain)
        else if pos + 1 + len > length payload then Some None
        else do {
          s \<leftarrow> gslice payload (pos + 1) (pos + 1 + len);
          query_loop payload (pos + 1 + len)
            ((if length domain > 0 then domain @ [46] else domain) @ s) } }
      else Some (Some domain))"
  by pat_completeness auto
termination
  by (relation "measure (\<lambda>(p, pos, d). length p - pos)") auto

declare query_loop.simps [simp del]

definition ParseQueryDomain :: "bytes \<Rightarrow> bytes option option" where
  "ParseQueryDomain payload =
     (if length payload < 12 then Some None
      else do {
        r \<leftarrow> query_loop payload 12 [];
        Some (case r of None \<Rightarrow> None | Some domain \<Rightarrow> if length domain = 0 then None else Some domain) })"

definition ParseTransactionID :: "bytes \<Rightarrow> uint16 option option" where
  "ParseTransactionID payload =
     (if length payload < 2 then Some None else do { v \<leftarrow> be16 payload 0; Some (Some v) })"

text \<open>The endless loop of \<open>skipDNSName\<close>; it stops because labels move forward and at most 16
  pointers are followed.\<close>
function skip_loop :: "bytes \<Rightarrow> nat \<Rightarrow> nat \<Rightarrow> bool \<Rightarrow> nat \<Rightarrow> nat option option" where
  "skip_loop payload pos jumps jumped next =
     (if pos \<ge> length payload then Some None
      else do {
        l \<leftarrow> idx payload pos;
        if l = 0 then Some (Some (if jumped then next else pos + 1))
        else if l AND 0xC0 = 0xC0 then
          (if pos + 1 \<ge> length payload then Some None
           else do {
             w \<leftarrow> be16 payload pos;
             let ptr = unat (w AND 0x3FFF);
             if ptr \<ge> length payload then Some None
             else if jumps + 1 > 16 then Some None
             else skip_loop payload ptr (jumps + 1) True (if jumped then next else pos + 2) })
        else
          (let pos' = pos + 1 in
           if pos' + unat l > length payload then Some None
           else skip_loop payload (pos' + unat l) jumps jumped
                  (if jumped then next else pos' + unat l)) })"
  by pat_completeness auto
termination
  by (relation "measures [\<lambda>(p, pos, j, jd, n). 17 - j, \<lambda>(p, pos, j, jd, n). length p - pos]") auto

declare skip_loop.simps [simp del]

definition skipDNSName :: "bytes \<Rightarrow> nat \<Rightarrow> nat option option" where
  "skipDNSName payload start =
     (if start \<ge> length payload then Some None else skip_loop payload start 0 False start)"

text \<open>\<open>nil\<close> is the inner \<^term>\<open>None\<close>.\<close>
definition BuildBlockResponse :: "bytes \<Rightarrow> bytes option option" where
  "BuildBlockResponse query =
     (if length query < 12 then Some None
      else do {
        r \<leftarrow> skipDNSName query 12;
        case r of None \<Rightarrow> Some None
        | Some qend \<Rightarrow>
            if qend + 4 > length query then Some None
            else do {
              let questionEnd = qend + 4;
              q \<leftarrow> gslice query 0 questionEnd;
              resp \<leftarrow> copy_from (mk questionEnd) 0 q;
              q2 \<leftarrow> idx query 2;
              resp \<leftarrow> upd resp 2 (0x80 OR (q2 AND 0x79));
              resp \<leftarrow> upd resp 3 0x83;
              resp \<leftarrow> put16 resp 4 1;
              resp \<leftarrow> put16 resp 6 0;
              resp \<leftarrow> put16 resp 8 0;
              resp \<leftarrow> put16 resp 10 0;
              Some (Some resp) } })"

definition BuildServfailResponse :: "bytes \<Rightarrow> bytes option option" where
  "BuildServfailResponse query = do {
     r \<leftarrow> BuildBlockResponse query;
     case r of None \<Rightarrow> Some None
     | Some resp \<Rightarrow> do {
         b \<leftarrow> idx resp 3;
         resp \<leftarrow> upd resp 3 ((b AND 0xF0) OR 0x02);
         Some (Some resp) } }"

text \<open>The question section is skipped \<open>qdCount\<close> times; \<^term>\<open>None\<close> inside is \<open>return nil\<close>.\<close>
fun questions_loop :: "bytes \<Rightarrow> nat \<Rightarrow> nat \<Rightarrow> nat option option" where
  "questions_loop payload 0 offset = Some (Some offset)"
| "questions_loop payload (Suc n) offset = do {
     r \<leftarrow> skipDNSName payload offset;
     case r of None \<Rightarrow> Some None
     | Some next \<Rightarrow>
         if next + 4 > length payload then Some None
         else questions_loop payload n (next + 4) }"

fun answers_loop :: "bytes \<Rightarrow> nat \<Rightarrow> nat \<Rightarrow> bytes list \<Rightarrow> bytes list option" where
  "answers_loop payload 0 offset ips = Some ips"
| "answers_loop payload (Suc n) offset ips = do {
     r \<leftarrow> skipDNSName payload offset;
     case r of None \<Rightarrow> Some ips
     | Some next \<Rightarrow>
         if next + 10 > length payload then Some ips
         else do {
           typ \<leftarrow> be16 payload next;
           rl \<leftarrow> be16 payload (next + 8);
           let rdLen = unat rl;
           let offset = next + 10;
           if offset + rdLen > length payload then Some ips
           else do {
             ips \<leftarrow> (if typ = 1 \<and> rdLen = 4 then do {
                       ip \<leftarrow> gslice payload offset (offset + 4); Some (ips @ [ip]) }
                     else if typ = 28 \<and> rdLen = 16 then do {
                       ip \<leftarrow> gslice payload offset (offset + 16); Some (ips @ [ip]) }
                     else Some ips);
             answers_loop payload n (offset + rdLen) ips } } }"

definition ParseResponseIPs :: "bytes \<Rightarrow> bytes list option" where
  "ParseResponseIPs payload =
     (if length payload < 12 then Some []
      else do {
        qd \<leftarrow> be16 payload 4;
        an \<leftarrow> be16 payload 6;
        if unat an = 0 then Some []
        else do {
          r \<leftarrow> questions_loop payload (unat qd) 12;
          case r of None \<Rightarrow> Some []
          | Some offset \<Rightarrow> answers_loop payload (unat an) offset [] } })"

section \<open>\<^verbatim>\<open>query.go\<close>\<close>

text \<open>\<open>strings.TrimSpace\<close> on ASCII text and \<open>strings.TrimSuffix(s, ".")\<close>\<close>
definition trim_space :: "bytes \<Rightarrow> bytes" where
  "trim_space s = (let sp = (\<lambda>b. b \<in> {9, 10, 11, 12, 13, 32 :: byte})
     in rev (dropWhile sp (rev (dropWhile sp s))))"

definition trim_dot :: "bytes \<Rightarrow> bytes" where
  "trim_dot s = (if s \<noteq> [] \<and> last s = 46 then butlast s else s)"

text \<open>\<open>strings.Split(s, ".")\<close> for a non-empty string\<close>
fun split_dot :: "bytes \<Rightarrow> bytes list" where
  "split_dot [] = [[]]"
| "split_dot (c # cs) =
     (if c = 46 then [] # split_dot cs
      else case split_dot cs of [] \<Rightarrow> [[c]] | l # ls \<Rightarrow> (c # l) # ls)"

definition query_labels :: "bytes \<Rightarrow> bytes list" where
  "query_labels domain =
     (if domain = [] then []
      else map (take 63) (filter (\<lambda>l. l \<noteq> []) (split_dot domain)))"

definition encode_labels :: "bytes list \<Rightarrow> bytes" where
  "encode_labels ls = concat (map (\<lambda>l. of_nat (length l) # l) ls)"

definition BuildQuery :: "bytes \<Rightarrow> uint16 \<Rightarrow> uint16 \<Rightarrow> bytes option" where
  "BuildQuery domain txid qtype = do {
     let domain = trim_dot (trim_space domain);
     buf \<leftarrow> put16 (mk 12) 0 txid;
     buf \<leftarrow> put16 buf 2 0x0100;
     buf \<leftarrow> put16 buf 4 1;
     buf \<leftarrow> put16 buf 6 0;
     buf \<leftarrow> put16 buf 8 0;
     buf \<leftarrow> put16 buf 10 0;
     let buf = buf @ encode_labels (query_labels domain);
     let buf = buf @ [0];
     qsuffix \<leftarrow> put16 (mk 4) 0 qtype;
     qsuffix \<leftarrow> put16 qsuffix 2 1;
     Some (buf @ qsuffix) }"

definition BuildAQuery :: "bytes \<Rightarrow> uint16 \<Rightarrow> bytes option" where
  "BuildAQuery domain txid = BuildQuery domain txid 1"

section \<open>\<^verbatim>\<open>forward.go\<close>\<close>

text \<open>The label walk: the end of the name, or \<^term>\<open>None\<close> where the code gives up.\<close>
function qname_loop :: "bytes \<Rightarrow> nat \<Rightarrow> nat \<Rightarrow> nat option option" where
  "qname_loop p pos qnameEnd =
     (if pos < length p then do {
        l \<leftarrow> idx p pos;
        let labelLen = unat l;
        if labelLen = 0 then Some (Some (pos + 1))
        else if labelLen > 63 \<or> pos + 1 + labelLen > length p then Some None
        else qname_loop p (pos + 1 + labelLen) qnameEnd }
      else Some (Some qnameEnd))"
  by pat_completeness auto
termination
  by (relation "measure (\<lambda>(p, pos, e). length p - pos)") auto

declare qname_loop.simps [simp del]

definition findDNSSplitPoint :: "bytes \<Rightarrow> int option" where
  "findDNSSplitPoint dnsPayload =
     (let half = int (length dnsPayload div 2) in
      if length dnsPayload < 13 then Some (- 1)
      else do {
        r \<leftarrow> qname_loop dnsPayload 12 12;
        Some (case r of None \<Rightarrow> half
              | Some qnameEnd \<Rightarrow>
                  if qnameEnd \<le> 12 then half
                  else (let qnameLen = qnameEnd - 12
                        in if qnameLen > 4 then int (12 + qnameLen div 2) else half)) })"

section \<open>Safety of the walks\<close>

lemma query_loop_total: "query_loop p pos d \<noteq> None"
proof (induction p pos d rule: query_loop.induct)
  case (1 p pos d)
  then show ?case
    by (subst query_loop.simps) (auto simp: idx_ok gslice_ok Let_def)
qed

lemma skip_end: "length p \<le> pos \<Longrightarrow> skip_loop p pos j jd nx = Some None"
  by (simp add: skip_loop.simps [of p pos])

lemma skip_zero:
  "pos < length p \<Longrightarrow> p ! pos = 0 \<Longrightarrow>
   skip_loop p pos j jd nx = Some (Some (if jd then nx else pos + 1))"
  by (simp add: skip_loop.simps [of p pos] idx_ok)

lemma skip_ptr:
  assumes "pos < length p" "p ! pos AND 0xC0 = 0xC0"
  defines "q \<equiv> unat (u16 (p ! pos) (p ! Suc pos) AND 0x3FFF)"
  shows "skip_loop p pos j jd nx =
     (if pos + 1 < length p \<and> q < length p \<and> j < 16
      then skip_loop p q (j + 1) True (if jd then nx else pos + 2) else Some None)"
proof -
  have nz: "p ! pos \<noteq> 0" using assms(2) by auto
  show ?thesis
  proof (cases "pos + 1 < length p")
    case True
    then have "be16 p pos = Some (u16 (p ! pos) (p ! Suc pos))" by (simp add: be16_ok)
    then show ?thesis
      using assms(1,2) nz True
      by (subst skip_loop.simps) (simp add: idx_ok Let_def not_le q_def)
  qed (use assms(1,2) nz in \<open>subst skip_loop.simps, simp add: idx_ok\<close>)
qed

lemma skip_label:
  assumes "pos < length p" "p ! pos \<noteq> 0" "p ! pos AND 0xC0 \<noteq> 0xC0"
  defines "q \<equiv> pos + 1 + unat (p ! pos)"
  shows "skip_loop p pos j jd nx =
     (if q \<le> length p then skip_loop p q j jd (if jd then nx else q) else Some None)"
  using assms(1-3) by (subst skip_loop.simps) (simp add: idx_ok Let_def not_le q_def)

definition skip_ok :: "bytes \<Rightarrow> nat \<Rightarrow> bool \<Rightarrow> nat \<Rightarrow> nat option option \<Rightarrow> bool" where
  "skip_ok p pos jd nx res \<longleftrightarrow>
     (case res of None \<Rightarrow> False | Some None \<Rightarrow> True
      | Some (Some n) \<Rightarrow> if jd then n = nx else pos < n \<and> n \<le> length p)"

lemma skip_ok_none: "skip_ok p pos jd nx (Some None)"
  by (simp add: skip_ok_def)

lemma skip_ok_jump:
  "skip_ok p q True n r \<Longrightarrow> (if jd then n = nx else pos < n \<and> n \<le> length p) \<Longrightarrow> skip_ok p pos jd nx r"
  by (auto simp: skip_ok_def split: option.splits if_splits)

lemma skip_ok_forward:
  "skip_ok p q jd (if jd then nx else q) r \<Longrightarrow> pos < q \<Longrightarrow> skip_ok p pos jd nx r"
  by (auto simp: skip_ok_def split: option.splits if_splits)

lemma skip_loop_bound: "skip_ok p pos jd nx (skip_loop p pos j jd nx)"
proof (induction "(17 - j, length p - pos)" arbitrary: pos j jd nx
    rule: wf_induct_rule [OF wf_lex_prod [OF wf_less_than wf_less_than]])
  case (1 pos j jd nx)
  note IH = 1
  consider (e) "length p \<le> pos" | (z) "pos < length p" "p ! pos = 0"
    | (ptr) "pos < length p" "p ! pos AND 0xC0 = 0xC0"
    | (lab) "pos < length p" "p ! pos \<noteq> 0" "p ! pos AND 0xC0 \<noteq> 0xC0"
    by linarith
  then show ?case
  proof cases
    case e
    then show ?thesis by (simp add: skip_end skip_ok_def)
  next
    case z
    then show ?thesis by (simp add: skip_zero skip_ok_def)
  next
    case ptr
    let ?q = "unat (u16 (p ! pos) (p ! Suc pos) AND 0x3FFF)"
    let ?n = "if jd then nx else pos + 2"
    have "skip_ok p ?q True ?n (skip_loop p ?q (j + 1) True ?n)" if "j < 16"
      using that by (intro IH) auto
    then show ?thesis
      unfolding skip_ptr [OF ptr] using skip_ok_jump [of p ?q ?n _ jd nx pos]
      by (cases jd) (simp_all add: skip_ok_none)
  next
    case lab
    let ?q = "pos + 1 + unat (p ! pos)"
    let ?n = "if jd then nx else ?q"
    have "skip_ok p ?q jd ?n (skip_loop p ?q j jd ?n)" if "?q \<le> length p"
      using that lab(1) by (intro IH) auto
    then show ?thesis
      unfolding skip_label [OF lab] using skip_ok_forward [of p ?q jd nx _ pos]
      by (simp add: skip_ok_none)
  qed
qed

lemma skipDNSName_bound:
  "\<exists>r. skipDNSName p s = Some r \<and> (\<forall>n. r = Some n \<longrightarrow> s < n \<and> n \<le> length p)"
  using skip_loop_bound [of p s False s 0]
  by (auto simp: skipDNSName_def skip_ok_def split: option.splits)

section \<open>Queries round trip\<close>

fun join_dot :: "bytes list \<Rightarrow> bytes" where
  "join_dot [] = []"
| "join_dot (l # ls) = l @ concat (map ((#) 46) ls)"

definition label_ok :: "bytes \<Rightarrow> bool" where
  "label_ok l \<longleftrightarrow> l \<noteq> [] \<and> length l \<le> 63"

text \<open>A name as it is written: no surrounding blanks, labels of 1 to 63 bytes.\<close>
definition domain_ok :: "bytes \<Rightarrow> bool" where
  "domain_ok d \<longleftrightarrow> d \<noteq> [] \<and> trim_space d = d \<and> list_all label_ok (split_dot d)"

lemma split_dot_not_Nil: "split_dot d \<noteq> []"
  by (induction d) (auto split: list.splits)

lemma join_split_dot: "join_dot (split_dot d) = d"
  by (induction d) (use split_dot_not_Nil in \<open>auto split: list.splits, (metis join_dot.simps(2))?\<close>)

lemma query_labels_ok: "list_all label_ok (query_labels d)"
  by (auto simp: query_labels_def list_all_iff label_ok_def)

lemma split_dot_empty: "split_dot d = [[]] \<longleftrightarrow> d = []"
  using join_split_dot [of d] by (cases d) (auto split: list.splits)

lemma split_dot_last: "d \<noteq> [] \<Longrightarrow> last d = 46 \<Longrightarrow> last (split_dot d) = []"
  by (induction d) (use split_dot_not_Nil split_dot_empty in \<open>auto split: list.splits if_splits\<close>)

lemma domain_ok_labels:
  assumes "domain_ok d"
  shows "query_labels (trim_dot (trim_space d)) = split_dot d" "trim_dot (trim_space d) = d"
proof -
  have l: "d \<noteq> []" "trim_space d = d" "list_all label_ok (split_dot d)"
    using assms by (auto simp: domain_ok_def)
  have "label_ok (last (split_dot d))"
    using l(3) split_dot_not_Nil [of d] by (simp add: list_all_iff)
  then have "last d \<noteq> 46" using l(1) split_dot_last [of d] by (auto simp: label_ok_def)
  then show t: "trim_dot (trim_space d) = d" by (simp add: l trim_dot_def)
  have "filter (\<lambda>l. l \<noteq> []) (split_dot d) = split_dot d"
    using l(3) by (auto simp: list_all_iff label_ok_def)
  moreover have "map (take 63) (split_dot d) = split_dot d"
    using l(3) by (intro map_idI) (auto simp: list_all_iff label_ok_def)
  ultimately show "query_labels (trim_dot (trim_space d)) = split_dot d"
    by (simp add: t query_labels_def l(1))
qed

text \<open>The accumulator of \<open>ParseQueryDomain\<close> after reading labels\<close>
definition add_label :: "bytes \<Rightarrow> bytes \<Rightarrow> bytes" where
  "add_label d l = (if length d > 0 then d @ [46] else d) @ l"

lemma add_labels_join: "list_all label_ok ls \<Longrightarrow> foldl add_label [] ls = join_dot ls"
proof -
  have *: "foldl add_label d ls = d @ concat (map ((#) 46) ls)" if "d \<noteq> []" for d ls
    using that by (induction ls arbitrary: d) (auto simp: add_label_def)
  show "list_all label_ok ls \<Longrightarrow> foldl add_label [] ls = join_dot ls"
    by (cases ls) (auto simp: add_label_def * label_ok_def)
qed

lemma unat_label: "label_ok l \<Longrightarrow> unat (of_nat (length l) :: byte) = length l"
  by (simp add: label_ok_def unat_of_nat)

lemma query_loop_labels:
  "list_all label_ok ls \<Longrightarrow>
   query_loop (pre @ encode_labels ls @ 0 # post) (length pre) d = Some (Some (foldl add_label d ls))"
proof (induction ls arbitrary: pre d)
  case Nil
  show ?case by (subst query_loop.simps) (simp add: idx_ok encode_labels_def nth_append)
next
  case (Cons l ls)
  define p where "p = pre @ encode_labels (l # ls) @ 0 # post"
  have l: "label_ok l" "l \<noteq> []" using Cons.prems by (auto simp: label_ok_def)
  have i: "idx p (length pre) = Some (of_nat (length l))"
    by (simp add: idx_ok encode_labels_def nth_append p_def)
  have s: "gslice p (length pre + 1) (length pre + 1 + length l) = Some l"
    by (simp add: gslice_ok encode_labels_def p_def)
  have n: "length pre + 1 + length l < length p" by (simp add: p_def encode_labels_def)
  have "query_loop p (length pre) d = query_loop p (length pre + 1 + length l) (add_label d l)"
    using l s n by (subst query_loop.simps) (simp add: i unat_label add_label_def)
  moreover have "p = (pre @ of_nat (length l) # l) @ encode_labels ls @ 0 # post"
    by (simp add: encode_labels_def p_def)
  ultimately show ?case
    using Cons.IH [of "pre @ of_nat (length l) # l" "add_label d l"] Cons.prems
    by (simp flip: p_def)
qed

lemma label_no_pointer: "label_ok l \<Longrightarrow> (of_nat (length l) :: byte) AND 0xC0 \<noteq> 0xC0"
proof
  assume l: "label_ok l" and a: "(of_nat (length l) :: byte) AND 0xC0 = 0xC0"
  have "(of_nat (length l) :: byte) AND 0xC0 \<le> of_nat (length l)" by (rule word_and_le2)
  then have "unat (0xC0 :: byte) \<le> length l" using unat_label [OF l] by (simp add: a word_le_nat_alt)
  then show False using l by (simp add: label_ok_def)
qed

lemma skip_loop_labels:
  "list_all label_ok ls \<Longrightarrow>
   skip_loop (pre @ encode_labels ls @ 0 # post) (length pre) 0 False nx = Some (Some (length pre + length (encode_labels ls) + 1))"
proof (induction ls arbitrary: pre nx)
  case Nil
  show ?case by (subst skip_loop.simps) (simp add: idx_ok encode_labels_def nth_append)
next
  case (Cons l ls)
  define p where "p = pre @ encode_labels (l # ls) @ 0 # post"
  have l: "label_ok l" "l \<noteq> []" using Cons.prems by (auto simp: label_ok_def)
  have i: "idx p (length pre) = Some (of_nat (length l))" "length pre < length p"
    by (simp_all add: idx_ok encode_labels_def nth_append p_def)
  have n: "length pre + 1 + length l < length p" by (simp add: p_def encode_labels_def)
  have z: "(of_nat (length l) :: byte) \<noteq> 0" using unat_label [OF l(1)] l(2) by (metis length_greater_0_conv less_numeral_extra(3) unat_0)
  have "skip_loop p (length pre) 0 False nx = skip_loop p (length pre + 1 + length l) 0 False (length pre + 1 + length l)"
    using i n z label_no_pointer [OF l(1)] unat_label [OF l(1)] by (subst skip_loop.simps) simp
  moreover have "p = (pre @ of_nat (length l) # l) @ encode_labels ls @ 0 # post"
    by (simp add: encode_labels_def p_def)
  ultimately show ?case
    using Cons.IH [of "pre @ of_nat (length l) # l"] Cons.prems
    by (simp add: encode_labels_def flip: p_def)
qed

definition query_header :: "uint16 \<Rightarrow> bytes" where
  "query_header txid = [hi8 txid, lo8 txid, 1, 0, 0, 1, 0, 0, 0, 0, 0, 0]"

lemma BuildQuery_shape:
  "BuildQuery d txid qtype = Some (query_header txid @
     encode_labels (query_labels (trim_dot (trim_space d))) @ 0 # [hi8 qtype, lo8 qtype, 0, 1])"
proof -
  have w: "hi8 256 = 1" "lo8 256 = 0" "hi8 1 = 0" "lo8 1 = 1" "hi8 0 = 0" "lo8 0 = 0"
    by (simp_all add: hi8_def lo8_def)
  have m: "mk 12 = [0, 0, 0, 0, 0, 0, 0, 0, 0, 0, 0, 0]" "mk 4 = [0, 0, 0, 0]"
    by (simp_all add: mk_def numeral_eq_Suc)
  show ?thesis by (simp add: BuildQuery_def m put16_ok query_header_def Let_def w)
qed

text \<open>C28: the parser of DNS queries reads back what the builder wrote, for every domain string: the
  labels after trimming, each cut to 63 bytes, joined by dots, and no name when there are none. A name
  whose labels have 1 to 63 bytes comes back unchanged. The message ends with the question behind its name: the type that
  was asked for and the class IN; its header asks for recursion and counts one question and no records.\<close>
theorem BuildQuery_roundtrip:
  "\<exists>m. BuildQuery d txid qtype = Some m \<and> ParseTransactionID m = Some (Some txid) \<and>
     (let ls = query_labels (trim_dot (trim_space d))
      in ParseQueryDomain m = Some (if ls = [] then None else Some (join_dot ls))) \<and>
     (domain_ok d \<longrightarrow> ParseQueryDomain m = Some (Some d)) \<and>
     take 10 (drop 2 m) = [1, 0, 0, 1, 0, 0, 0, 0, 0, 0] \<and>
     (\<exists>e. skipDNSName m 12 = Some (Some e) \<and> length m = e + 4 \<and> be16 m e = Some qtype \<and> be16 m (e + 2) = Some 1)"
proof -
  let ?ls = "query_labels (trim_dot (trim_space d))"
  let ?m = "query_header txid @ encode_labels ?ls @ 0 # [hi8 qtype, lo8 qtype, 0, 1]"
  let ?e = "12 + length (encode_labels ?ls) + 1"
  have l: "length (query_header txid) = 12" by (simp add: query_header_def)
  have "query_loop ?m 12 [] = Some (Some (join_dot ?ls))"
    using query_loop_labels [OF query_labels_ok, of "query_header txid"]
    by (simp add: l add_labels_join query_labels_ok)
  moreover have "length (join_dot ?ls) = 0 \<longleftrightarrow> ?ls = []"
    using query_labels_ok [of "trim_dot (trim_space d)"] by (cases ?ls) (auto simp: label_ok_def)
  ultimately have p: "ParseQueryDomain ?m = Some (if ?ls = [] then None else Some (join_dot ?ls))"
    by (simp add: ParseQueryDomain_def l)
  moreover have "domain_ok d \<longrightarrow> ParseQueryDomain ?m = Some (Some d)"
    using domain_ok_labels [of d] p by (auto simp: join_split_dot split_dot_not_Nil)
  moreover have "ParseTransactionID ?m = Some (Some txid)"
    by (simp add: ParseTransactionID_def be16_ok query_header_def)
  moreover have "take 10 (drop 2 ?m) = [1, 0, 0, 1, 0, 0, 0, 0, 0, 0]" by (simp add: query_header_def)
  moreover have "skipDNSName ?m 12 = Some (Some ?e)" "length ?m = ?e + 4"
    using skip_loop_labels [OF query_labels_ok, of "query_header txid"] by (simp_all add: skipDNSName_def l)
  moreover have "be16 ?m ?e = Some qtype" "be16 ?m (?e + 2) = Some 1"
    by (simp_all add: be16_ok nth_append l) (simp add: u16_def)
  ultimately show ?thesis by (auto simp: BuildQuery_shape Let_def)
qed

definition sample_domain :: bytes where
  "sample_domain = [97, 46, 98, 99, 46, 100]"

theorem BuildQuery_roundtrip_witness:
  "\<exists>m. BuildQuery sample_domain 7 1 = Some m \<and> ParseQueryDomain m = Some (Some sample_domain)"
proof -
  have "domain_ok sample_domain"
    by (simp add: domain_ok_def sample_domain_def trim_space_def label_ok_def)
  then show ?thesis using BuildQuery_roundtrip [of sample_domain 7 1] by blast
qed

section \<open>Responses\<close>

text \<open>the NXDOMAIN answer of the sinkhole. On every input the builder returns; it returns nil
  exactly when the message has no complete question, and otherwise an answer that repeats the id and
  the question, keeps opcode and recursion-desired of the query, sets the response bit, clears
  authoritative and truncated, has code NXDOMAIN and counts one question and no records.\<close>
theorem BuildBlockResponse_correct:
  "\<exists>r. BuildBlockResponse q = Some r \<and>
     (case r of
        None \<Rightarrow> length q < 12 \<or> skipDNSName q 12 = Some None \<or>
                (\<exists>e. skipDNSName q 12 = Some (Some e) \<and> length q < e + 4)
      | Some resp \<Rightarrow> \<exists>e. skipDNSName q 12 = Some (Some e) \<and> length resp = e + 4 \<and> e + 4 \<le> length q \<and>
          take 2 resp = take 2 q \<and> drop 12 resp = drop 12 (take (e + 4) q) \<and>
          resp ! 2 AND 0x79 = q ! 2 AND 0x79 \<and> bit (resp ! 2) 7 \<and> resp ! 2 AND 6 = 0 \<and>
          resp ! 3 = 0x83 \<and> take 8 (drop 4 resp) = [0, 1, 0, 0, 0, 0, 0, 0])"
proof -
  obtain s where s: "skipDNSName q 12 = Some s" "\<And>e. s = Some e \<Longrightarrow> 12 < e \<and> e \<le> length q"
    using skipDNSName_bound by blast
  show ?thesis
  proof (cases "length q < 12 \<or> s = None \<or> length q < the s + 4")
    case True
    then show ?thesis using s(1) by (cases s) (auto simp: BuildBlockResponse_def)
  next
    case False
    then obtain e where e: "s = Some e" "12 < e" "e + 4 \<le> length q" "12 \<le> length q" using s(2) by auto
    define b where "b = 0x80 OR (q ! 2 AND 0x79)"
    define r where "r = (take (e + 4) q)[2 := b, 3 := 0x83, 4 := 0, 5 := 1, 6 := 0, 7 := 0, 8 := 0,
      9 := 0, 10 := 0, 11 := 0]"
    have w: "hi8 1 = 0" "lo8 1 = 1" "hi8 0 = 0" "lo8 0 = 0" by (simp_all add: hi8_def lo8_def)
    have "BuildBlockResponse q = Some (Some r)"
      using e s(1)
      by (simp add: BuildBlockResponse_def gslice_ok copy_from_mk0 idx_ok upd_ok put16_ok w b_def r_def)
    moreover have "length r = e + 4" "drop 12 r = drop 12 (take (e + 4) q)" "r ! 3 = 0x83" "r ! 2 = b"
      using e by (simp_all add: r_def drop_update_cancel)
    moreover have "take 2 r = take 2 q" using e by (simp add: r_def take_update_cancel min_def)
    moreover have "take 8 (drop 4 r) = [0, 1, 0, 0, 0, 0, 0, 0]"
      using e by (intro nth_equalityI) (auto simp: r_def less_Suc_eq numeral_eq_Suc)
    moreover have "b AND 0x79 = q ! 2 AND 0x79" "bit b 7" "b AND 6 = 0"
      by (simp_all add: b_def bit.conj_disj_distrib2 and.assoc bit_simps)
    ultimately show ?thesis using s(1) e by auto
  qed
qed

lemma questions_loop_total: "questions_loop p n off \<noteq> None"
proof (induction n arbitrary: off)
  case (Suc n)
  then show ?case using skipDNSName_bound [of p off] by (auto split: option.splits)
qed simp

text \<open>An address the response carries: 4 or 16 consecutive bytes of the message.\<close>
definition addr_in :: "bytes \<Rightarrow> bytes \<Rightarrow> bool" where
  "addr_in p ip \<longleftrightarrow> (\<exists>i n. (n = 4 \<or> n = 16) \<and> i + n \<le> length p \<and> ip = take n (drop i p))"

lemma answers_loop_ok:
  "list_all (addr_in p) ips \<Longrightarrow>
   \<exists>r. answers_loop p n off ips = Some r \<and> list_all (addr_in p) r \<and> length r \<le> length ips + n"
proof (induction n arbitrary: off ips)
  case (Suc n)
  obtain s where s: "skipDNSName p off = Some s" using skipDNSName_bound by blast
  show ?case
  proof (cases "s = None \<or> length p < the s + 10")
    case True
    then show ?thesis using s Suc.prems by (auto split: option.splits)
  next
    case False
    then obtain k where k: "s = Some k" "k + 10 \<le> length p" by auto
    obtain w t where b: "be16 p k = Some t" "be16 p (k + 8) = Some w"
      using k(2) by (simp add: be16_ok del: add_Suc_right)
    define l where "l = unat w"
    define d where "d = take l (drop (k + 10) p)"
    let ?new = "if t = 1 \<and> l = 4 \<or> t = 28 \<and> l = 16 then ips @ [d] else ips"
    have eq: "answers_loop p (Suc n) off ips =
        (if length p < k + 10 + l then Some ips else answers_loop p n (k + 10 + l) ?new)"
      using k(2) by (auto simp: s k(1) b gslice_ok l_def d_def Let_def)
    have "list_all (addr_in p) ?new" if "k + 10 + l \<le> length p"
      using that Suc.prems unfolding addr_in_def d_def by auto
    moreover have "length ?new \<le> length ips + 1" by simp
    ultimately show ?thesis
      unfolding eq using Suc.IH [of ?new "k + 10 + l"] Suc.prems by (fastforce simp del: answers_loop.simps)
  qed
qed simp

text \<open>C29: the extraction of addresses from DNS answers. On every input it returns without reading out
  of range; it reports at most as many addresses as the header counts answers, each of them four or
  sixteen consecutive bytes of the message.\<close>
theorem ParseResponseIPs_safe:
  "\<exists>ips. ParseResponseIPs p = Some ips \<and> list_all (addr_in p) ips \<and>
     (if length p < 12 then ips = [] else length ips \<le> unat (u16 (p ! 6) (p ! 7)))"
proof (cases "length p < 12")
  case False
  obtain q where q: "questions_loop p (unat (u16 (p ! 4) (p ! 5))) 12 = Some q"
    using questions_loop_total by blast
  have b: "be16 p 4 = Some (u16 (p ! 4) (p ! 5))" "be16 p 6 = Some (u16 (p ! 6) (p ! 7))"
    using False by (simp_all add: be16_ok eval_nat_numeral)
  show ?thesis
    using False answers_loop_ok [of p "[]" "unat (u16 (p ! 6) (p ! 7))" "the q"]
    by (cases q) (auto simp: ParseResponseIPs_def b q)
qed (simp add: ParseResponseIPs_def)

section \<open>Sending a fragmented query\<close>

text \<open>What the raw sender is asked to do. Whether a send succeeds is up to the network: \<open>ok\<close> says
  which sends do.\<close>
datatype send_event = SendIPv4 bytes bytes | SendIPv6 bytes bytes | Sleep int | WriteConn bytes

definition sendTwoFragments ::
  "(send_event \<Rightarrow> bool) \<Rightarrow> bool \<Rightarrow> bytes list \<Rightarrow> bytes \<Rightarrow> int \<Rightarrow> bool \<Rightarrow> (send_event list \<times> bool) option" where
  "sendTwoFragments ok v4 frags dst delay reverse = do {
     let send = (\<lambda>p. if v4 then SendIPv4 p dst else SendIPv6 p dst);
     a \<leftarrow> idx frags 0;
     b \<leftarrow> idx frags 1;
     let (a, b) = (if reverse then (b, a) else (a, b));
     if \<not> ok (send a) then Some ([send a], False)
     else Some (send a # (if delay > 0 then [Sleep delay] else []) @ [send b], ok (send b)) }"

record ForwardOptions =
  HasSender :: bool
  FragmentQuery :: bool
  Seg2Delay :: int
  ReverseOrder :: bool
  Timeout :: int
  Port :: int
  Mark :: int

text \<open>\<open>la\<close> is the local UDP address (\<^term>\<open>None\<close> when the connection has another kind of address),
  \<open>v6ready\<close> what the sender's \<open>IPv6Ready\<close> says, \<open>rid\<close> and \<open>ident\<close> are the random identifications.\<close>
definition sendFragmentedQuery ::
  "(send_event \<Rightarrow> bool) \<Rightarrow> bool \<Rightarrow> uint16 \<Rightarrow> uint32 \<Rightarrow> (bytes \<times> uint16) option \<Rightarrow> bytes \<Rightarrow> bytes \<Rightarrow> uint16 \<Rightarrow>
   ForwardOptions \<Rightarrow> (send_event list \<times> bool) option" where
  "sendFragmentedQuery ok v6ready rid ident la query target port opts =
     (case la of None \<Rightarrow> Some ([], False)
      | Some (laIP, laPort) \<Rightarrow> do {
          splitPos \<leftarrow> findDNSSplitPoint query;
          let splitPos = (if splitPos \<le> 0 then int (length query div 2) else splitPos);
          if To4 target \<noteq> None then do {
            pkt \<leftarrow> BuildUDPPacketV4 rid laIP target laPort port query;
            case pkt of None \<Rightarrow> Some ([], False)
            | Some pkt \<Rightarrow> do {
                (frags, ok') \<leftarrow> IPv4FragmentUDP pkt splitPos;
                if \<not> ok' then Some ([], False)
                else sendTwoFragments ok True frags target (Seg2Delay opts) (ReverseOrder opts) } }
          else if \<not> v6ready then Some ([], False)
          else do {
            pkt \<leftarrow> BuildUDPPacketV6 laIP target laPort port query;
            case pkt of None \<Rightarrow> Some ([], False)
            | Some pkt \<Rightarrow> do {
                (frags, ok') \<leftarrow> IPv6FragmentUDP ident pkt splitPos;
                if \<not> ok' then Some ([], False)
                else sendTwoFragments ok False frags target (Seg2Delay opts) (ReverseOrder opts) } } })"

text \<open>\<open>ResolveUpstream\<close>. The socket is the environment: \<open>dial target port mark\<close> gives the local
  address of the new connection or fails (the outer \<^term>\<open>None\<close>), \<open>recv timeout\<close> is what \<open>Read\<close>
  returns before the deadline. The inner \<^term>\<open>None\<close> of the result is the error return.\<close>
definition ResolveUpstream ::
  "(bytes \<Rightarrow> int \<Rightarrow> int \<Rightarrow> (bytes \<times> uint16) option option) \<Rightarrow> (int \<Rightarrow> bytes option) \<Rightarrow> (send_event \<Rightarrow> bool) \<Rightarrow>
   bool \<Rightarrow> uint16 \<Rightarrow> uint32 \<Rightarrow> bytes \<Rightarrow> bytes \<Rightarrow> ForwardOptions \<Rightarrow> (send_event list \<times> bytes option) option" where
  "ResolveUpstream dial recv ok v6ready rid ident query target opts =
     (let port = (if Port opts = 0 then 53 else Port opts) in
      case dial target port (Mark opts) of None \<Rightarrow> Some ([], None)
      | Some la \<Rightarrow> do {
          (evs, sent) \<leftarrow>
            (if FragmentQuery opts \<and> HasSender opts
             then sendFragmentedQuery ok v6ready rid ident la query target (of_int port) opts
             else Some ([], False));
          let evs = evs @ (if sent then [] else [WriteConn query]);
          if \<not> sent \<and> \<not> ok (WriteConn query) then Some (evs, None)
          else (let timeout = (if Timeout opts \<le> 0 then 5000000000 else Timeout opts)
                in Some (evs, recv timeout)) })"

lemma qname_loop_bound:
  "pos \<le> length p \<Longrightarrow> e \<le> length p \<Longrightarrow>
   \<exists>r. qname_loop p pos e = Some r \<and> (\<forall>n. r = Some n \<longrightarrow> n \<le> length p)"
proof (induction p pos e rule: qname_loop.induct)
  case (1 p pos e)
  show ?case
  proof (cases "pos < length p")
    case True
    then show ?thesis
      using 1 by (subst qname_loop.simps) (auto simp: idx_ok Let_def)
  qed (use 1(3) in \<open>subst qname_loop.simps, simp\<close>)
qed

lemma findDNSSplitPoint_cases:
  "\<exists>s. findDNSSplitPoint p = Some s \<and>
     (if length p < 13 then s = - 1 else 0 < s \<and> s < int (length p))"
proof (cases "length p < 13")
  case False
  then obtain r where r: "qname_loop p 12 12 = Some r" "\<And>n. r = Some n \<Longrightarrow> n \<le> length p"
    using qname_loop_bound [of 12 p 12] by auto
  then show ?thesis
    using False by (cases r) (force simp: findDNSSplitPoint_def Let_def)+
qed (simp add: findDNSSplitPoint_def)

text \<open>The position at which the query is cut: inside the query.\<close>
lemma split_inside:
  assumes "2 \<le> length p"
  shows "\<exists>s. findDNSSplitPoint p = Some s \<and>
     (let t = (if s \<le> 0 then int (length p div 2) else s) in 0 < t \<and> t < int (length p))"
  using assms findDNSSplitPoint_cases [of p] by (auto simp: Let_def split: if_splits)

lemma udp_first_aligned_inside:
  "0 < s \<Longrightarrow> s < int n \<Longrightarrow> udp_first_aligned n s < 8 + n"
  by (simp add: udp_first_aligned_def Let_def) linarith?

text \<open>The packets among the events\<close>
fun sent_packets :: "send_event list \<Rightarrow> bytes list" where
  "sent_packets [] = []"
| "sent_packets (SendIPv4 p d # es) = p # sent_packets es"
| "sent_packets (SendIPv6 p d # es) = p # sent_packets es"
| "sent_packets (Sleep n # es) = sent_packets es"
| "sent_packets (WriteConn p # es) = sent_packets es"

lemma sendTwoFragments_all:
  assumes "length fs = 2"
  shows "\<exists>evs. sendTwoFragments (\<lambda>_. True) v4 fs dst delay rev' = Some (evs, True) \<and>
     mset (sent_packets evs) = mset fs"
proof -
  obtain a b where "fs = [a, b]" using assms by (auto simp: length_Suc_conv numeral_2_eq_2)
  then show ?thesis by (auto simp: sendTwoFragments_def idx_def)
qed

text \<open>The datagram a receiver gets over IPv4 or IPv6.\<close>
definition udp_datagram :: "uint16 \<Rightarrow> uint16 \<Rightarrow> bytes \<Rightarrow> bytes \<Rightarrow> bool" where
  "udp_datagram sp dp payload u \<longleftrightarrow> u16 (u ! 0) (u ! 1) = sp \<and> u16 (u ! 2) (u ! 3) = dp \<and>
     unat (u16 (u ! 4) (u ! 5)) = length u \<and> drop 8 u = payload"

lemma udp4_frag_wf:
  assumes "udp4_packet q src dst sp dp payload" "0 < s" "s < int (length payload)"
  shows "fragu4_wf q s" "udp_datagram sp dp payload (udp4_data q)"
proof -
  have f: "q ! 0 = 0x45" "ihl4 q = 20" "tot4 q = length q" "drop 28 q = payload"
      "ulen_at 20 q = 8 + length payload" "u16 (q ! 20) (q ! 21) = sp" "u16 (q ! 22) (q ! 23) = dp"
    using assms(1) by (auto simp: udp4_packet_def)
  have lq: "length q = 28 + length payload" using f(4) assms(2,3) by (auto simp flip: f(4))
  have d: "udp4_data q = drop 20 q" by (simp add: udp4_data_def f)
  show "fragu4_wf q s"
    using udp_first_aligned_inside [OF assms(2,3)] by (simp add: fragu4_wf_def f d lq)
  show "udp_datagram sp dp payload (udp4_data q)"
    using f(4-7) by (simp add: udp_datagram_def d lq ulen_at_def)
qed

lemma udp6_frag_wf:
  assumes "udp6_packet q src dst sp dp payload" "0 < s" "s < int (length payload)"
    "length payload < 65520"
  shows "fragu6_wf q s" "udp_datagram sp dp payload (payload6 q)"
proof -
  have f: "q ! 0 = 0x60" "length q = 48 + length payload" "plen6 q = 8 + length payload" "q ! 6 = 17"
      "drop 48 q = payload" "ulen_at 40 q = 8 + length payload"
      "u16 (q ! 40) (q ! 41) = sp" "u16 (q ! 42) (q ! 43) = dp"
    using assms(1) by (auto simp: udp6_packet_def)
  have d: "payload6 q = drop 40 q" by (simp add: payload6_def f)
  show "fragu6_wf q s"
    using udp_first_aligned_inside [OF assms(2,3)] assms(4)
    by (simp add: fragu6_wf_def frag6_wf_def f)
  show "udp_datagram sp dp payload (payload6 q)"
    using f(2,5-8) by (simp add: udp_datagram_def d ulen_at_def)
qed

lemma sendFragmentedQuery_v4:
  assumes "To4 laIP = Some src" "To4 target = Some dst" "2 \<le> length query" "length query \<le> 65507"
  shows "\<exists>evs u. sendFragmentedQuery (\<lambda>_. True) v6ready rid ident (Some (laIP, lp)) query target port opts
       = Some (evs, True) \<and> udp_datagram lp port query u \<and>
     (\<forall>gs. mset gs = mset (sent_packets evs) \<longrightarrow> reassemble (map frag4 gs) = Some u)"
proof -
  obtain q where q: "BuildUDPPacketV4 rid laIP target lp port query = Some (Some q)"
      "udp4_packet q src dst lp port query"
    using BuildUDPPacketV4_ok [OF assms(1,2,4)] by blast
  obtain s where s: "findDNSSplitPoint query = Some s"
      "0 < (if s \<le> 0 then int (length query div 2) else s)"
      "(if s \<le> 0 then int (length query div 2) else s) < int (length query)"
    using split_inside [OF assms(3)] by (auto simp: Let_def)
  let ?t = "if s \<le> 0 then int (length query div 2) else s"
  note w = udp4_frag_wf [OF q(2) s(2,3)]
  obtain fs where fs: "IPv4FragmentUDP q ?t = Some (fs, True)" "length fs = 2"
      "\<And>gs. mset gs = mset fs \<Longrightarrow> reassemble (map frag4 gs) = Some (udp4_data q)"
    using fu4.any_order [OF w(1)] by blast
  obtain evs where e: "sendTwoFragments (\<lambda>_. True) True fs target (Seg2Delay opts) (ReverseOrder opts)
      = Some (evs, True)" "mset (sent_packets evs) = mset fs"
    using sendTwoFragments_all [OF fs(2)] by blast
  have "sendFragmentedQuery (\<lambda>_. True) v6ready rid ident (Some (laIP, lp)) query target port opts
      = Some (evs, True)"
    unfolding sendFragmentedQuery_def using assms(2) s(1) q(1) fs(1) e(1) by (simp add: Let_def)
  then show ?thesis using w(2) fs(3) e(2) by auto
qed

lemma sendFragmentedQuery_v6:
  assumes "To16 laIP = Some src" "To16 target = Some dst" "To4 laIP = None" "To4 target = None"
    "2 \<le> length query" "length query < 65520"
  shows "\<exists>evs u. sendFragmentedQuery (\<lambda>_. True) True rid ident (Some (laIP, lp)) query target port opts
       = Some (evs, True) \<and> udp_datagram lp port query u \<and>
     (\<forall>gs. mset gs = mset (sent_packets evs) \<longrightarrow> reassemble (map frag6 gs) = Some u)"
proof -
  obtain q where q: "BuildUDPPacketV6 laIP target lp port query = Some (Some q)"
      "udp6_packet q src dst lp port query"
    using BuildUDPPacketV6_ok [OF assms(1-4), of query lp port] assms(6) by auto
  obtain s where s: "findDNSSplitPoint query = Some s"
      "0 < (if s \<le> 0 then int (length query div 2) else s)"
      "(if s \<le> 0 then int (length query div 2) else s) < int (length query)"
    using split_inside [OF assms(5)] by (auto simp: Let_def)
  let ?t = "if s \<le> 0 then int (length query div 2) else s"
  note w = udp6_frag_wf [OF q(2) s(2,3) assms(6)]
  obtain fs where fs: "IPv6FragmentUDP ident q ?t = Some (fs, True)" "length fs = 2"
      "\<And>gs. mset gs = mset fs \<Longrightarrow> reassemble (map frag6 gs) = Some (payload6 q)"
    using fu6.any_order [OF w(1)] by blast
  obtain evs where e: "sendTwoFragments (\<lambda>_. True) False fs target (Seg2Delay opts) (ReverseOrder opts)
      = Some (evs, True)" "mset (sent_packets evs) = mset fs"
    using sendTwoFragments_all [OF fs(2)] by blast
  have "sendFragmentedQuery (\<lambda>_. True) True rid ident (Some (laIP, lp)) query target port opts
      = Some (evs, True)"
    unfolding sendFragmentedQuery_def using assms(4) s(1) q(1) fs(1) e(1) by (simp add: Let_def)
  then show ?thesis using w(2) fs(3) e(2) by auto
qed

text \<open>C30: a query sent in fragments arrives. When the sends succeed, the code cuts every query of at
  least two bytes, over IPv4 and over IPv6, into packets that a receiver reassembles in any order to
  the UDP datagram from the local port to the server port whose payload is the query.\<close>
theorem sendFragmentedQuery_delivers:
  "(To4 laIP \<noteq> None \<and> To4 target \<noteq> None \<and> 2 \<le> length query \<and> length query \<le> 65507 \<longrightarrow>
      (\<exists>evs u. sendFragmentedQuery (\<lambda>_. True) v6ready rid ident (Some (laIP, lp)) query target port opts
           = Some (evs, True) \<and> udp_datagram lp port query u \<and>
         (\<forall>gs. mset gs = mset (sent_packets evs) \<longrightarrow> reassemble (map frag4 gs) = Some u))) \<and>
   (To4 laIP = None \<and> To4 target = None \<and> length laIP = 16 \<and> length target = 16 \<and>
      2 \<le> length query \<and> length query < 65520 \<longrightarrow>
      (\<exists>evs u. sendFragmentedQuery (\<lambda>_. True) True rid ident (Some (laIP, lp)) query target port opts
           = Some (evs, True) \<and> udp_datagram lp port query u \<and>
         (\<forall>gs. mset gs = mset (sent_packets evs) \<longrightarrow> reassemble (map frag6 gs) = Some u)))"
  using sendFragmentedQuery_v4 [of laIP _ target _ query v6ready rid ident lp port opts]
    sendFragmentedQuery_v6 [of laIP laIP target target query rid ident lp port opts]
  by (auto simp: To16_def)

theorem sendFragmentedQuery_witness:
  "\<exists>evs u. sendFragmentedQuery (\<lambda>_. True) False 7 9 (Some ([10, 0, 0, 1], 4000)) (mk 40) [8, 8, 8, 8] 53
       \<lparr>HasSender = True, FragmentQuery = True, Seg2Delay = 5, ReverseOrder = True, Timeout = 0,
        Port = 0, Mark = 0\<rparr> = Some (evs, True) \<and>
     udp_datagram 4000 53 (mk 40) u \<and> reassemble (map frag4 (sent_packets evs)) = Some u"
proof -
  have "To4 [10, 0, 0, 1] \<noteq> None" "To4 [8, 8, 8, 8] \<noteq> None" by (simp_all add: To4_def)
  then show ?thesis
    using sendFragmentedQuery_delivers [of "[10, 0, 0, 1]" "[8, 8, 8, 8]" "mk 40" False 7 9 4000 53
        "\<lparr>HasSender = True, FragmentQuery = True, Seg2Delay = 5, ReverseOrder = True, Timeout = 0,
          Port = 0, Mark = 0\<rparr>", THEN conjunct1]
    by auto
qed

end
