(* ===== verification/GoMap.thy ===== *)
theory GoMap
  imports B4_Prelude "HOL-Library.Multiset"
begin

text \<open>
  Go maps, for the caches and trackers of the program. A map is an association list with distinct
  keys; the order of the list is the order in which a \<open>range\<close> loop visits the entries. Go leaves that
  order open, so what is proved here holds for every list, and the state machines of the components
  have a step that permutes their maps. Strings are byte lists.

  \<open>evict\<close> is the eviction code that four caches of \<^verbatim>\<open>nfq/connstate.go\<close> repeat; the locale
  \<open>bounded_table\<close> proves once what a client of such a cache relies on.
\<close>

type_synonym ('k, 'v) gomap = "('k \<times> 'v) list"

text \<open>Points in time and durations, in nanoseconds\<close>
type_synonym gotime = int

definition Second :: int where "Second = 1000000000"

abbreviation gget :: "('k, 'v) gomap \<Rightarrow> 'k \<Rightarrow> 'v option" where
  "gget m k \<equiv> map_of m k"

text \<open>\<open>m[k] = v\<close>: an existing entry keeps its place.\<close>
fun gput :: "'k \<Rightarrow> 'v \<Rightarrow> ('k, 'v) gomap \<Rightarrow> ('k, 'v) gomap" where
  "gput k v [] = [(k, v)]"
| "gput k v ((k', v') # m) = (if k' = k then (k, v) # m else (k', v') # gput k v m)"

text \<open>\<open>delete(m, k)\<close>\<close>
definition gdel :: "'k \<Rightarrow> ('k, 'v) gomap \<Rightarrow> ('k, 'v) gomap" where
  "gdel k m = filter (\<lambda>(k', v). k' \<noteq> k) m"

text \<open>\<open>for k, v := range m { if P(v) { delete(m, k) } }\<close>\<close>
definition gsweep :: "('v \<Rightarrow> bool) \<Rightarrow> ('k, 'v) gomap \<Rightarrow> ('k, 'v) gomap" where
  "gsweep P m = filter (\<lambda>(k, v). \<not> P v) m"

definition gok :: "('k, 'v) gomap \<Rightarrow> bool" where
  "gok m \<longleftrightarrow> distinct (map fst m)"

lemma gget_gput: "gget (gput k v m) k' = (if k' = k then Some v else gget m k')"
  by (induction m) auto

lemma gget_gdel: "gget (gdel k m) k' = (if k' = k then None else gget m k')"
  by (induction m) (auto simp: gdel_def)

lemma keys_gput: "set (map fst (gput k v m)) = insert k (set (map fst m))"
proof (induction m)
  case (Cons x m)
  then show ?case by (cases x) (simp add: insert_commute)
qed simp

lemma set_gput: "x \<in> set (gput k v m) \<Longrightarrow> x = (k, v) \<or> x \<in> set m"
  by (induction m) (auto split: if_splits)

lemma set_gdel: "set (gdel k m) = {x \<in> set m. fst x \<noteq> k}"
  by (auto simp: gdel_def)

lemma set_gsweep: "set (gsweep P m) = {x \<in> set m. \<not> P (snd x)}"
  by (auto simp: gsweep_def)

lemma gok_gput [intro]: "gok m \<Longrightarrow> gok (gput k v m)"
proof (induction m)
  case (Cons x m)
  then show ?case using keys_gput [of k v m] by (cases x) (auto simp: gok_def)
qed (simp add: gok_def)

lemma gok_filter: "gok m \<Longrightarrow> gok (filter P m)"
  by (simp add: gok_def distinct_map_filter)

lemma gok_gdel [intro]: "gok m \<Longrightarrow> gok (gdel k m)"
  by (simp add: gdel_def gok_filter)

lemma gok_gsweep [intro]: "gok m \<Longrightarrow> gok (gsweep P m)"
  by (simp add: gsweep_def gok_filter)

lemma gok_Nil [simp]: "gok []"
  by (simp add: gok_def)

lemma gok_mset: "mset m' = mset m \<Longrightarrow> gok m' = gok m"
  by (metis gok_def mset_eq_imp_distinct_iff mset_map)

lemma gget_mset: "gok m \<Longrightarrow> mset m' = mset m \<Longrightarrow> gget m' k = gget m k"
  by (metis gok_def gok_mset map_of_inject_set mset_eq_setD)

lemma gget_Some: "gok m \<Longrightarrow> gget m k = Some v \<longleftrightarrow> (k, v) \<in> set m"
  by (simp add: gok_def map_of_eq_Some_iff)

lemma gget_gsweep:
  "gok m \<Longrightarrow> gget (gsweep P m) k = (case gget m k of Some v \<Rightarrow> if P v then None else Some v | None \<Rightarrow> None)"
proof (induction m)
  case (Cons x m)
  then show ?case
    by (cases x) (force simp: gsweep_def gok_def split: option.splits dest: map_of_SomeD)
qed (simp add: gsweep_def)

lemma length_gput: "length (gput k v m) = (if gget m k = None then Suc (length m) else length m)"
  by (induction m) auto

lemma length_gput_le: "length (gput k v m) \<le> Suc (length m)"
  by (simp add: length_gput)

lemma length_gdel: "gok m \<Longrightarrow> gget m k \<noteq> None \<Longrightarrow> Suc (length (gdel k m)) = length m"
proof (induction m)
  case (Cons x m)
  obtain k' v where x: "x = (k', v)" by (cases x)
  have g: "gok m" "k' \<notin> fst ` set m" using Cons.prems(1) by (auto simp: gok_def x)
  show ?case
  proof (cases "k' = k")
    case True
    then have "gdel k m = m" using g(2) by (force simp: gdel_def filter_id_conv)
    then show ?thesis using True by (simp add: gdel_def x)
  next
    case False
    then show ?thesis using Cons.IH [OF g(1)] Cons.prems(2) by (simp add: gdel_def x)
  qed
qed simp

lemma length_gdel_le: "length (gdel k m) \<le> length m"
  by (simp add: gdel_def)

lemma length_gsweep_le: "length (gsweep P m) \<le> length m"
  by (simp add: gsweep_def)

lemma gdel_gput: "gdel k (gput k v m) = gdel k m"
  by (induction m) (auto simp: gdel_def)

lemma gput_gput: "gput k v (gput k w m) = gput k v m"
  by (induction m) auto

section \<open>Eviction\<close>

text \<open>The loop over a full cache: expired entries are deleted, and the key of the oldest other entry
  is remembered. \<open>oldestTime\<close> is \<^term>\<open>None\<close> while it is the zero time; the times in the entries
  come from the clock and are not.\<close>
fun evict_scan :: "('v \<Rightarrow> bool) \<Rightarrow> ('v \<Rightarrow> gotime) \<Rightarrow> (bytes, 'v) gomap \<Rightarrow> bytes \<Rightarrow> gotime option \<Rightarrow>
    (bytes, 'v) gomap \<times> bytes" where
  "evict_scan expired stamp [] oldestKey oldestTime = ([], oldestKey)"
| "evict_scan expired stamp ((k, v) # m) oldestKey oldestTime =
     (if expired v then evict_scan expired stamp m oldestKey oldestTime
      else let (oldestKey, oldestTime) =
             (if oldestTime = None \<or> stamp v < the oldestTime then (k, Some (stamp v))
              else (oldestKey, oldestTime));
             (rest, oldest) = evict_scan expired stamp m oldestKey oldestTime
           in ((k, v) # rest, oldest))"

definition evict :: "nat \<Rightarrow> ('v \<Rightarrow> bool) \<Rightarrow> ('v \<Rightarrow> gotime) \<Rightarrow> (bytes, 'v) gomap \<Rightarrow> (bytes, 'v) gomap" where
  "evict cap expired stamp m =
     (if length m \<ge> cap
      then let (m', oldestKey) = evict_scan expired stamp m [] None
           in if length m' \<ge> cap \<and> oldestKey \<noteq> [] then gdel oldestKey m' else m'
      else m)"

lemma evict_scan_keeps: "fst (evict_scan expired stamp m o0 t0) = gsweep expired m"
  by (induction expired stamp m o0 t0 rule: evict_scan.induct)
    (auto simp: gsweep_def Let_def split: prod.splits)

text \<open>The remembered key is that of a surviving entry with the least time stamp.\<close>
lemma evict_scan_oldest:
  "snd (evict_scan expired stamp m o0 t0) = o0 \<and>
       (case t0 of None \<Rightarrow> gsweep expired m = [] | Some t \<Rightarrow> \<forall>(k, v) \<in> set (gsweep expired m). t \<le> stamp v)
   \<or> (\<exists>v. (snd (evict_scan expired stamp m o0 t0), v) \<in> set (gsweep expired m) \<and>
        (\<forall>(k', v') \<in> set (gsweep expired m). stamp v \<le> stamp v') \<and>
        (case t0 of None \<Rightarrow> True | Some t \<Rightarrow> stamp v \<le> t))"
proof (induction expired stamp m o0 t0 rule: evict_scan.induct)
  case (1 expired stamp o0 t0)
  then show ?case by (simp add: gsweep_def split: option.split)
next
  case (2 expired stamp k v m o0 t0)
  show ?case
  proof (cases "expired v")
    case True
    then have "gsweep expired ((k, v) # m) = gsweep expired m" by (simp add: gsweep_def)
    then show ?thesis unfolding evict_scan.simps using 2(1) [OF True] by (simp only: True if_True)
  next
    case False
    let ?b = "t0 = None \<or> stamp v < the t0"
    have s: "gsweep expired ((k, v) # m) = (k, v) # gsweep expired m"
      using False by (simp add: gsweep_def)
    have e: "snd (evict_scan expired stamp ((k, v) # m) o0 t0) =
        (if ?b then snd (evict_scan expired stamp m k (Some (stamp v)))
         else snd (evict_scan expired stamp m o0 t0))"
      using False by (simp add: Let_def split: prod.splits)
    show ?thesis
    proof (cases ?b)
      case True
      have ih: "snd (evict_scan expired stamp m k (Some (stamp v))) = k \<and>
          (\<forall>(k, w) \<in> set (gsweep expired m). stamp v \<le> stamp w) \<or>
        (\<exists>w. (snd (evict_scan expired stamp m k (Some (stamp v))), w) \<in> set (gsweep expired m) \<and>
          (\<forall>(k', w') \<in> set (gsweep expired m). stamp w \<le> stamp w') \<and> stamp w \<le> stamp v)"
        using 2(2) [OF False refl, of k "Some (stamp v)"] True by simp
      then show ?thesis
        unfolding s e using True by (cases t0) fastforce+
    next
      case f: False
      then obtain t where t: "t0 = Some t" "t \<le> stamp v" by (cases t0) auto
      have ih: "snd (evict_scan expired stamp m o0 t0) = o0 \<and>
          (\<forall>(k, w) \<in> set (gsweep expired m). t \<le> stamp w) \<or>
        (\<exists>w. (snd (evict_scan expired stamp m o0 t0), w) \<in> set (gsweep expired m) \<and>
          (\<forall>(k', w') \<in> set (gsweep expired m). stamp w \<le> stamp w') \<and> stamp w \<le> t)"
        using 2(2) [OF False refl, of o0 t0] f t by simp
      then show ?thesis
        unfolding s e using f t by fastforce
    qed
  qed
qed

lemma evict_cases:
  "evict cap expired stamp m = m \<or> evict cap expired stamp m = gsweep expired m \<or>
   (\<exists>k. evict cap expired stamp m = gdel k (gsweep expired m))"
  using evict_scan_keeps [of expired stamp m "[]" None]
  by (cases "evict_scan expired stamp m [] None") (auto simp: evict_def)

lemma evict_ok: "gok m \<Longrightarrow> gok (evict cap expired stamp m)"
  using evict_cases [of cap expired stamp m] gok_gdel [OF gok_gsweep] gok_gsweep by metis

lemma evict_subset: "set (evict cap expired stamp m) \<subseteq> set m"
  using evict_cases [of cap expired stamp m] set_gdel [of _ "gsweep expired m"] set_gsweep [of expired m]
  by fastforce

lemma evict_room:
  assumes "gok m" "[] \<notin> set (map fst m)" "length m \<le> cap" "0 < cap"
  shows "length (evict cap expired stamp m) < cap"
proof (cases "cap \<le> length m")
  case True
  obtain m' o' where s: "evict_scan expired stamp m [] None = (m', o')" by force
  have m': "m' = gsweep expired m" using evict_scan_keeps [of expired stamp m "[]" None] by (simp add: s)
  have le: "length m' \<le> cap" using length_gsweep_le [of expired m] assms(3) by (simp add: m')
  show ?thesis
  proof (cases "cap \<le> length m'")
    case full: True
    then have "m' \<noteq> []" using assms(4) by auto
    then obtain v where v: "(o', v) \<in> set m'"
      using evict_scan_oldest [of expired stamp m "[]" None] by (auto simp: s m')
    then have "o' \<noteq> []" using assms(2) by (force simp: m' set_gsweep)
    moreover have "gget m' o' \<noteq> None" using v by (simp add: weak_map_of_SomeI)
    ultimately show ?thesis
      using full le True length_gdel [of m' o'] gok_gsweep [OF assms(1), of expired]
      by (simp add: evict_def s m')
  qed (use True in \<open>simp add: evict_def s\<close>)
qed (simp add: evict_def)

text \<open>An entry that eviction removes was expired, or the cache was full and no unexpired entry was
  older.\<close>
lemma evict_drops:
  assumes "gok m" "gget m k = Some v" "gget (evict cap expired stamp m) k = None"
  shows "expired v \<or> (cap \<le> length m \<and> (\<forall>(k', v') \<in> set m. \<not> expired v' \<longrightarrow> stamp v \<le> stamp v'))"
proof (cases "cap \<le> length m \<and> \<not> expired v")
  case True
  obtain m' o' where s: "evict_scan expired stamp m [] None = (m', o')" by force
  have m': "m' = gsweep expired m" using evict_scan_keeps [of expired stamp m "[]" None] by (simp add: s)
  have g: "gget m' k = Some v" using True assms(2) by (simp add: m' gget_gsweep [OF assms(1)])
  then have ok: "o' = k" using assms(3) True by (auto simp: evict_def s gget_gdel split: if_splits)
  have "m' \<noteq> []" using g by auto
  then obtain w where w: "(o', w) \<in> set m'" "\<And>k' v'. (k', v') \<in> set m' \<Longrightarrow> stamp w \<le> stamp v'"
    using evict_scan_oldest [of expired stamp m "[]" None] by (auto simp: s m')
  have "gok m'" using assms(1) by (auto simp: m')
  then have "w = v" using g w(1) by (simp add: ok flip: gget_Some)
  then show ?thesis using w(2) True by (auto simp: m' set_gsweep)
qed (use assms(2,3) in \<open>auto simp: evict_def\<close>)

text \<open>What the clients of a bounded cache rely on: making room keeps distinct keys, adds nothing, and
  leaves a free place. \<open>good\<close> is what every entry satisfies.\<close>

locale bounded_table =
  fixes make_room :: "(bytes, 'v) gomap \<Rightarrow> (bytes, 'v) gomap"
    and cap :: nat
    and good :: "'v \<Rightarrow> bool"
  assumes room_ok: "gok m \<Longrightarrow> gok (make_room m)"
    and room_subset: "set (make_room m) \<subseteq> set m"
    and room_free: "gok m \<Longrightarrow> [] \<notin> set (map fst m) \<Longrightarrow> length m \<le> cap \<Longrightarrow> length (make_room m) < cap"
begin

definition inv :: "(bytes, 'v) gomap \<Rightarrow> bool" where
  "inv m \<longleftrightarrow> gok m \<and> [] \<notin> set (map fst m) \<and> length m \<le> cap \<and> (\<forall>x \<in> set m. good (snd x))"

lemma inv_empty: "inv []"
  by (simp add: inv_def)

lemma inv_sub: "inv m \<Longrightarrow> gok m' \<Longrightarrow> set m' \<subseteq> set m \<Longrightarrow> length m' \<le> cap \<Longrightarrow> inv m'"
  unfolding inv_def set_map by blast

lemma inv_del: "inv m \<Longrightarrow> inv (gdel k m)"
  by (rule inv_sub, assumption)
    (auto simp: inv_def set_gdel intro: order_trans [OF length_gdel_le])

lemma inv_sweep: "inv m \<Longrightarrow> inv (gsweep P m)"
  by (rule inv_sub, assumption)
    (auto simp: inv_def set_gsweep intro: order_trans [OF length_gsweep_le])

lemma inv_perm:
  assumes "inv m" "mset m' = mset m"
  shows "inv m'"
  by (rule inv_sub [OF assms(1)])
    (use assms(1) gok_mset [OF assms(2)] mset_eq_setD [OF assms(2)] mset_eq_length [OF assms(2)]
     in \<open>simp_all add: inv_def\<close>)

lemma inv_room:
  assumes "inv m"
  shows "inv (make_room m)" "length (make_room m) < cap"
proof -
  show l: "length (make_room m) < cap" using assms by (intro room_free) (simp_all add: inv_def)
  show "inv (make_room m)"
    by (rule inv_sub [OF assms])
      (use room_subset [of m] room_ok [of m] l assms in \<open>simp_all add: inv_def\<close>)
qed

lemma inv_grow:
  assumes "inv m" "k \<noteq> []" "good v" "length (gput k v m) \<le> cap"
  shows "inv (gput k v m)"
proof -
  have "good (snd x)" if "x \<in> set (gput k v m)" for x
    using set_gput [OF that] assms(1,3) by (auto simp: inv_def)
  then show ?thesis using assms keys_gput [of k v m] by (simp add: inv_def gok_gput)
qed

lemma inv_set:
  assumes "inv m" "gget m k \<noteq> None" "good v"
  shows "inv (gput k v m)"
proof (rule inv_grow [OF assms(1) _ assms(3)])
  have "k \<in> fst ` set m" using assms(2) by (simp add: map_of_eq_None_iff)
  then show "k \<noteq> []" using assms(1) by (auto simp: inv_def simp flip: set_map)
qed (use assms(1,2) in \<open>auto simp: length_gput inv_def\<close>)

lemma inv_put:
  assumes "inv m" "k \<noteq> []" "good v"
  shows "inv (gput k v (make_room m))"
  by (rule inv_grow [OF inv_room(1) [OF assms(1)] assms(2,3)])
    (use inv_room(2) [OF assms(1)] length_gput_le [of k v "make_room m"] in simp)

end

section \<open>Printing numbers\<close>

text \<open>\<open>%d\<close> for a number that is not negative\<close>
fun dec :: "nat \<Rightarrow> bytes" where
  "dec n = (if n < 10 then [48 + of_nat n] else dec (n div 10) @ [48 + of_nat (n mod 10)])"

declare dec.simps [simp del]

definition dec_val :: "bytes \<Rightarrow> nat" where
  "dec_val = foldl (\<lambda>a d. a * 10 + unat (d - 48)) 0"

lemma dec_val_dec: "dec_val (dec n) = n"
proof (induction n rule: dec.induct)
  case (1 n)
  have u: "unat (of_nat k :: byte) = k" if "k < 10" for k using that by (simp add: unat_of_nat)
  show ?case
  proof (cases "n < 10")
    case True
    then show ?thesis by (subst dec.simps) (simp add: dec_val_def u)
  next
    case False
    then show ?thesis
      using 1 u [of "n mod 10"] by (subst dec.simps) (simp add: dec_val_def)
  qed
qed

lemma dec_inj: "dec a = dec b \<Longrightarrow> a = b"
  by (metis dec_val_dec)

lemma digit_word: "k < 10 \<Longrightarrow> (48 + of_nat k :: byte) \<in> {48..57}"
proof -
  assume "k < 10"
  then have "unat (48 + of_nat k :: byte) = 48 + k" by (simp add: unat_word_ariths unat_of_nat)
  then show ?thesis using \<open>k < 10\<close> by (simp add: word_le_nat_alt)
qed

lemma dec_digits: "set (dec n) \<subseteq> {48..57}"
proof (induction n rule: dec.induct)
  case (1 n)
  then show ?case using digit_word [of n] digit_word [of "n mod 10"] by (subst dec.simps) auto
qed

lemma dec_not: "c < 48 \<or> 57 < c \<Longrightarrow> c \<notin> set (dec n)"
  using subsetD [OF dec_digits, of c n] by (auto simp: not_le)

text \<open>Two texts cut at a character neither head contains.\<close>
lemma sep_eq:
  assumes "a @ c # b = a' @ c # b'" "c \<notin> set a" "c \<notin> set a'"
  shows "a = a' \<and> b = b'"
proof -
  have *: "takeWhile (\<lambda>x. x \<noteq> c) (u @ c # w) = u" if "c \<notin> set u" for u w
    using that by (induction u) auto
  then have "a = a'" using assms by metis
  then show ?thesis using assms(1) by simp
qed

lemma sep_eq_last:
  assumes "a @ c # b = a' @ c # b'" "c \<notin> set b" "c \<notin> set b'"
  shows "a = a' \<and> b = b'"
proof -
  have "rev (a @ c # b) = rev (a' @ c # b')" by (simp only: assms(1))
  then show ?thesis using sep_eq [of "rev b" c "rev a" "rev b'" "rev a'"] assms(2,3) by simp
qed

end
