(* ===== verification/ConnState.thy ===== *)
theory ConnState
  imports GoMap ConfigTypes
begin

text \<open>
  The per-connection and per-destination state of the packet workers: \<^verbatim>\<open>src/src/nfq/connstate.go\<close>.

  \<^verbatim>\<open>tlsInfoCache\<close>, \<^verbatim>\<open>connStateTracker\<close> and \<^verbatim>\<open>destStateTracker\<close> hold their maps behind a mutex, so each
  method is one atomic operation on the state, which it takes and returns. Every reading of the clock
  in the source is an argument of its own (\<open>now\<close>, \<open>now'\<close>, \<dots>, in the order of the calls), and so is the result
  of \<open>rand.Intn\<close>. A \<open>*config.SetConfig\<close> is a value of a type variable, \<open>nil\<close> is \<^term>\<open>None\<close>. The texts
  that \<open>CheckRST\<close> gives as reasons are the constructors of \<open>rst_reason\<close>.
\<close>

section \<open>The TLS cache\<close>

record tlsInfo =
  ti_host :: bytes
  ti_tlsVersion :: uint16
  ti_lastSeen :: gotime

type_synonym tlsInfoCache = "(bytes, tlsInfo) gomap"

definition maxTLSCacheEntries :: nat where "maxTLSCacheEntries = 20000"

definition tls_room :: "gotime \<Rightarrow> tlsInfoCache \<Rightarrow> tlsInfoCache" where
  "tls_room now = evict maxTLSCacheEntries (\<lambda>v. now - ti_lastSeen v > 120 * Second) ti_lastSeen"

definition tls_Store :: "gotime \<Rightarrow> gotime \<Rightarrow> bytes \<Rightarrow> bytes \<Rightarrow> uint16 \<Rightarrow> tlsInfoCache \<Rightarrow> tlsInfoCache" where
  "tls_Store now now' connKey host tlsVersion c =
     gput connKey \<lparr>ti_host = host, ti_tlsVersion = tlsVersion, ti_lastSeen = now'\<rparr> (tls_room now c)"

definition tls_Lookup :: "bytes \<Rightarrow> tlsInfoCache \<Rightarrow> (bytes \<times> uint16) option" where
  "tls_Lookup connKey c =
     (case gget c connKey of None \<Rightarrow> None | Some info \<Rightarrow> Some (ti_host info, ti_tlsVersion info))"

definition tls_Cleanup :: "gotime \<Rightarrow> tlsInfoCache \<Rightarrow> tlsInfoCache" where
  "tls_Cleanup now c = gsweep (\<lambda>v. now - ti_lastSeen v > 120 * Second) c"

section \<open>Destinations\<close>

record ipBlockEntry =
  firstSeen :: gotime
  retransmits :: nat
  rstSent :: bool
  ib_host :: bytes

record escalationEntry =
  ee_setId :: bytes
  ee_setAt :: gotime
  ee_hops :: nat
  ee_ttl :: int

record rstKillEntry =
  rk_count :: nat
  rk_firstAt :: gotime
  rk_window :: int

record destStateTracker =
  ib_conns :: "(bytes, ipBlockEntry) gomap"
  blocked :: "(bytes, gotime) gomap"
  escalations :: "(bytes, escalationEntry) gomap"
  rstKills :: "(bytes, rstKillEntry) gomap"

definition maxIPBlockEntries :: nat where "maxIPBlockEntries = 10000"
definition maxIPBlockCacheEntries :: nat where "maxIPBlockCacheEntries = 5000"
definition maxEscalationCacheEntries :: nat where "maxEscalationCacheEntries = 5000"
definition maxRSTKillEntries :: nat where "maxRSTKillEntries = 5000"
definition RSTKillThreshold :: int where "RSTKillThreshold = 3"
definition RSTKillWindow :: int where "RSTKillWindow = 30 * Second"
definition EscalationTTL :: int where "EscalationTTL = 3600 * Second"
definition MaxEscalationHops :: nat where "MaxEscalationHops = 8"

definition RecordClientHello ::
  "gotime \<Rightarrow> gotime \<Rightarrow> bytes \<Rightarrow> bytes \<Rightarrow> destStateTracker \<Rightarrow> destStateTracker \<times> nat \<times> gotime" where
  "RecordClientHello now now' connKey host t =
     (let conns = (if length (ib_conns t) \<ge> maxIPBlockEntries
                   then gsweep (\<lambda>v. now - firstSeen v > 120 * Second) (ib_conns t) else ib_conns t);
          entry = (case gget conns connKey of
                     Some e \<Rightarrow> e
                   | None \<Rightarrow> \<lparr>firstSeen = now', retransmits = 0, rstSent = False, ib_host = host\<rparr>);
          entry = entry\<lparr>retransmits := retransmits entry + 1\<rparr>
      in (t\<lparr>ib_conns := gput connKey entry conns\<rparr>, retransmits entry, firstSeen entry))"

definition HasRSTSent :: "bytes \<Rightarrow> destStateTracker \<Rightarrow> bool" where
  "HasRSTSent connKey t = (case gget (ib_conns t) connKey of Some e \<Rightarrow> rstSent e | None \<Rightarrow> False)"

definition MarkRSTSent :: "bytes \<Rightarrow> destStateTracker \<Rightarrow> destStateTracker" where
  "MarkRSTSent connKey t =
     (case gget (ib_conns t) connKey of
        Some e \<Rightarrow> t\<lparr>ib_conns := gput connKey (e\<lparr>rstSent := True\<rparr>) (ib_conns t)\<rparr>
      | None \<Rightarrow> t)"

definition IsBlocked :: "gotime \<Rightarrow> bytes \<Rightarrow> destStateTracker \<Rightarrow> destStateTracker \<times> bool" where
  "IsBlocked now dstIPPort t =
     (case gget (blocked t) dstIPPort of
        Some e \<Rightarrow> (t\<lparr>blocked := gput dstIPPort now (blocked t)\<rparr>, True)
      | None \<Rightarrow> (t, False))"

definition AddBlocked :: "gotime \<Rightarrow> gotime \<Rightarrow> bytes \<Rightarrow> destStateTracker \<Rightarrow> destStateTracker" where
  "AddBlocked now now' dstIPPort t =
     (let b = (if length (blocked t) \<ge> maxIPBlockCacheEntries
               then gsweep (\<lambda>v. now - v > 300 * Second) (blocked t) else blocked t)
      in t\<lparr>blocked := gput dstIPPort now' b\<rparr>)"

definition dest_Cleanup :: "gotime \<Rightarrow> int \<Rightarrow> destStateTracker \<Rightarrow> destStateTracker" where
  "dest_Cleanup now cacheTTL t = t\<lparr>
     ib_conns := gsweep (\<lambda>v. now - firstSeen v > 120 * Second) (ib_conns t),
     blocked := (if cacheTTL > 0 then gsweep (\<lambda>v. now - v > cacheTTL) (blocked t) else blocked t),
     escalations := gsweep (\<lambda>v. now - ee_setAt v > ee_ttl v) (escalations t),
     rstKills := gsweep (\<lambda>v. now - rk_firstAt v > rk_window v) (rstKills t)\<rparr>"

definition GetEscalation :: "gotime \<Rightarrow> bytes \<Rightarrow> destStateTracker \<Rightarrow> (bytes \<times> nat) option" where
  "GetEscalation now host t =
     (case gget (escalations t) host of None \<Rightarrow> None
      | Some e \<Rightarrow> if now - ee_setAt e > ee_ttl e then None else Some (ee_setId e, ee_hops e))"

definition esc_room ::
  "gotime \<Rightarrow> (bytes, escalationEntry) gomap \<Rightarrow> (bytes, escalationEntry) gomap" where
  "esc_room now = evict maxEscalationCacheEntries (\<lambda>v. now - ee_setAt v > ee_ttl v) ee_setAt"

definition SetEscalation ::
  "gotime \<Rightarrow> gotime \<Rightarrow> gotime \<Rightarrow> bytes \<Rightarrow> bytes \<Rightarrow> int \<Rightarrow> destStateTracker \<Rightarrow> destStateTracker \<times> bool" where
  "SetEscalation now now' now'' host setId ttl t =
     (let ttl = (if ttl \<le> 0 then EscalationTTL else ttl);
          es = esc_room now (escalations t);
          prev = gget es host;
          (es, prev) =
            (case prev of Some p \<Rightarrow> if now' - ee_setAt p > ee_ttl p then (gdel host es, None) else (es, prev)
             | None \<Rightarrow> (es, prev));
          hops = (case prev of Some p \<Rightarrow> ee_hops p + 1 | None \<Rightarrow> 1)
      in if hops > MaxEscalationHops then (t\<lparr>escalations := es\<rparr>, False)
         else (t\<lparr>escalations :=
                 gput host \<lparr>ee_setId = setId, ee_setAt = now'', ee_hops = hops, ee_ttl = ttl\<rparr> es\<rparr>, True))"

record EscalationSnapshot =
  Host :: bytes
  SetId :: bytes
  Hops :: nat
  SetAt :: gotime
  ExpiresAt :: gotime

definition ListEscalations :: "gotime \<Rightarrow> destStateTracker \<Rightarrow> EscalationSnapshot list" where
  "ListEscalations now t =
     map (\<lambda>(host, e). \<lparr>Host = host, SetId = ee_setId e, Hops = ee_hops e, SetAt = ee_setAt e,
                        ExpiresAt = ee_setAt e + ee_ttl e\<rparr>)
       (filter (\<lambda>(host, e). \<not> now - ee_setAt e > ee_ttl e) (escalations t))"

definition ClearEscalation :: "bytes \<Rightarrow> destStateTracker \<Rightarrow> destStateTracker" where
  "ClearEscalation host t = t\<lparr>escalations := gdel host (escalations t)\<rparr>"

definition ResetEscalations :: "destStateTracker \<Rightarrow> destStateTracker" where
  "ResetEscalations t = t\<lparr>escalations := [], rstKills := []\<rparr>"

definition kill_room :: "gotime \<Rightarrow> (bytes, rstKillEntry) gomap \<Rightarrow> (bytes, rstKillEntry) gomap" where
  "kill_room now = evict maxRSTKillEntries (\<lambda>v. now - rk_firstAt v > rk_window v) rk_firstAt"

definition RecordRSTKill ::
  "gotime \<Rightarrow> gotime \<Rightarrow> bytes \<Rightarrow> int \<Rightarrow> int \<Rightarrow> destStateTracker \<Rightarrow> destStateTracker \<times> bool" where
  "RecordRSTKill now now' host threshold window t =
     (let threshold = (if threshold \<le> 0 then RSTKillThreshold else threshold);
          window = (if window \<le> 0 then RSTKillWindow else window);
          ks = kill_room now (rstKills t);
          fresh = (t\<lparr>rstKills := gput host \<lparr>rk_count = 1, rk_firstAt = now', rk_window = window\<rparr> ks\<rparr>, False)
      in case gget ks host of None \<Rightarrow> fresh
         | Some entry \<Rightarrow>
             if now' - rk_firstAt entry > rk_window entry then fresh
             else (let entry = entry\<lparr>rk_count := rk_count entry + 1\<rparr>
                   in if int (rk_count entry) \<ge> threshold then (t\<lparr>rstKills := gdel host ks\<rparr>, True)
                      else (t\<lparr>rstKills := gput host entry ks\<rparr>, False)))"

section \<open>Connections\<close>

record 's connInfo =
  bytesIn :: "64 word"
  threshold :: "64 word"
  ci_set :: "'s option"
  ci_lastSeen :: gotime
  serverTTL :: byte
  ttlRecorded :: bool
  responseSeen :: bool
  rstCount :: nat
  serverHasOpts :: bool
  established :: bool

type_synonym 's connStateTracker = "(bytes, 's connInfo) gomap"

definition maxConnStateEntries :: nat where "maxConnStateEntries = 10000"

text \<open>\<open>fmt.Sprintf("%s:%d->%s:%d", \<dots>)\<close>\<close>
definition connKeyFormat :: "bytes \<Rightarrow> uint16 \<Rightarrow> bytes \<Rightarrow> uint16 \<Rightarrow> bytes" where
  "connKeyFormat clientIP clientPort serverIP serverPort =
     (clientIP @ 58 # dec (unat clientPort)) @ 45 # 62 # (serverIP @ 58 # dec (unat serverPort))"

definition conn_room :: "gotime \<Rightarrow> 's connStateTracker \<Rightarrow> 's connStateTracker" where
  "conn_room now = evict maxConnStateEntries (\<lambda>v. now - ci_lastSeen v > 120 * Second) ci_lastSeen"

definition new_connInfo :: "'s option \<Rightarrow> gotime \<Rightarrow> 's connInfo" where
  "new_connInfo st now = \<lparr>bytesIn = 0, threshold = 0, ci_set = st, ci_lastSeen = now, serverTTL = 0,
     ttlRecorded = False, responseSeen = False, rstCount = 0, serverHasOpts = False, established = False\<rparr>"

definition RegisterOutgoing ::
  "gotime \<Rightarrow> gotime \<Rightarrow> bytes \<Rightarrow> 's option \<Rightarrow> 's connStateTracker \<Rightarrow> 's connStateTracker" where
  "RegisterOutgoing now now' connKey st t =
     (let t = conn_room now t
      in case gget t connKey of
           Some existing \<Rightarrow> gput connKey (existing\<lparr>ci_set := st, ci_lastSeen := now'\<rparr>) t
         | None \<Rightarrow> gput connKey (new_connInfo st now') t)"

definition RecordServerResponse ::
  "bytes \<Rightarrow> uint16 \<Rightarrow> bytes \<Rightarrow> uint16 \<Rightarrow> byte \<Rightarrow> bool \<Rightarrow> 's connStateTracker \<Rightarrow> 's connStateTracker" where
  "RecordServerResponse clientIP clientPort serverIP serverPort ttl hasOpts t =
     (let outKey = connKeyFormat clientIP clientPort serverIP serverPort
      in case gget t outKey of None \<Rightarrow> t
         | Some info \<Rightarrow>
             let info = info\<lparr>responseSeen := True\<rparr>;
                 info = (if \<not> ttlRecorded info then info\<lparr>serverTTL := ttl, ttlRecorded := True\<rparr> else info);
                 info = (if hasOpts then info\<lparr>serverHasOpts := True\<rparr> else info)
             in gput outKey info t)"

datatype rst_reason =
    NoReason
  | MultipleRSTs nat
  | BeforeResponse
  | OptionsStripped
  | BareRST
  | TTLMismatch byte byte int

definition CheckRST ::
  "bytes \<Rightarrow> uint16 \<Rightarrow> bytes \<Rightarrow> uint16 \<Rightarrow> byte \<Rightarrow> bool \<Rightarrow> bool \<Rightarrow> int \<Rightarrow> 's connStateTracker \<Rightarrow>
   's connStateTracker \<times> bool \<times> rst_reason" where
  "CheckRST clientIP clientPort serverIP serverPort rstTTL rstHasOpts rstHasACK tolerance t =
     (let outKey = connKeyFormat clientIP clientPort serverIP serverPort
      in case gget t outKey of None \<Rightarrow> (t, False, NoReason)
         | Some info \<Rightarrow>
             let info = info\<lparr>rstCount := rstCount info + 1\<rparr>;
                 t = gput outKey info t
             in if rstCount info > 1 then (t, True, MultipleRSTs (rstCount info))
                else if \<not> responseSeen info then (t, True, BeforeResponse)
                else if serverHasOpts info \<and> \<not> rstHasOpts then (t, True, OptionsStripped)
                else if serverHasOpts info \<and> \<not> rstHasACK then (t, True, BareRST)
                else if ttlRecorded info then
                  (let delta = \<bar>int (unat rstTTL) - int (unat (serverTTL info))\<bar>
                   in if delta > tolerance then (t, True, TTLMismatch rstTTL (serverTTL info) delta)
                      else (t, False, NoReason))
                else (t, False, NoReason))"

definition MarkEstablished :: "gotime \<Rightarrow> bytes \<Rightarrow> 's connStateTracker \<Rightarrow> 's connStateTracker" where
  "MarkEstablished now connKey t =
     (case gget t connKey of
        Some info \<Rightarrow> gput connKey (info\<lparr>established := True, ci_lastSeen := now\<rparr>) t
      | None \<Rightarrow> t)"

definition ShouldDropOutboundRST :: "bytes \<Rightarrow> 's connStateTracker \<Rightarrow> bool" where
  "ShouldDropOutboundRST connKey t =
     (case gget t connKey of None \<Rightarrow> False | Some info \<Rightarrow> \<not> established info)"

definition GetSetForIncoming ::
  "gotime \<Rightarrow> bytes \<Rightarrow> uint16 \<Rightarrow> bytes \<Rightarrow> uint16 \<Rightarrow> 's connStateTracker \<Rightarrow> 's connStateTracker \<times> 's option" where
  "GetSetForIncoming now clientIP clientPort serverIP serverPort t =
     (let outKey = connKeyFormat clientIP clientPort serverIP serverPort
      in case gget t outKey of None \<Rightarrow> (t, None)
         | Some info \<Rightarrow>
             if ci_set info = None then (t, None)
             else (gput outKey (info\<lparr>ci_lastSeen := now\<rparr>) t, ci_set info))"

text \<open>The first part of \<open>TrackIncomingBytes\<close>: the next threshold. \<open>rnd\<close> is the result of
  \<open>rand.Intn(maxKB-minKB+1)\<close>.\<close>
definition next_threshold :: "int \<Rightarrow> IncomingConfig \<Rightarrow> 64 word" where
  "next_threshold rnd inc =
     (let minKB = Min inc;
          maxKB = Max inc;
          maxKB = (if maxKB = 0 \<or> maxKB < minKB then minKB else maxKB);
          (minKB, maxKB) = (if minKB \<le> 0 then (14, 14) else (minKB, maxKB))
      in if minKB = maxKB then of_int (minKB * 1024) else of_int ((minKB + rnd) * 1024))"

definition TrackIncomingBytes ::
  "int \<Rightarrow> gotime \<Rightarrow> bytes \<Rightarrow> uint16 \<Rightarrow> bytes \<Rightarrow> uint16 \<Rightarrow> 64 word \<Rightarrow> IncomingConfig \<Rightarrow> 's connStateTracker \<Rightarrow>
   's connStateTracker \<times> bool" where
  "TrackIncomingBytes rnd now clientIP clientPort serverIP serverPort n inc t =
     (let outKey = connKeyFormat clientIP clientPort serverIP serverPort
      in case gget t outKey of None \<Rightarrow> (t, False)
         | Some info \<Rightarrow>
             let info = (if threshold info = 0 then info\<lparr>threshold := next_threshold rnd inc\<rparr> else info);
                 prevBytes = bytesIn info;
                 info = info\<lparr>bytesIn := bytesIn info + n, ci_lastSeen := now\<rparr>
             in if prevBytes < threshold info \<and> bytesIn info \<ge> threshold info
                then (gput outKey (info\<lparr>bytesIn := 0, threshold := 0\<rparr>) t, True)
                else (gput outKey info t, False))"

definition conn_Cleanup :: "gotime \<Rightarrow> 's connStateTracker \<Rightarrow> 's connStateTracker" where
  "conn_Cleanup now t = gsweep (\<lambda>v. now - ci_lastSeen v > 120 * Second) t"

record 's runtimeState =
  tlsCache :: tlsInfoCache
  connState :: "'s connStateTracker"
  destState :: destStateTracker

definition newRuntimeState :: "'s runtimeState" where
  "newRuntimeState = \<lparr>tlsCache = [], connState = [],
     destState = \<lparr>ib_conns = [], blocked = [], escalations = [], rstKills = []\<rparr>\<rparr>"

section \<open>The caches stay bounded\<close>

definition esc_good :: "escalationEntry \<Rightarrow> bool" where
  "esc_good e \<longleftrightarrow> 1 \<le> ee_hops e \<and> ee_hops e \<le> MaxEscalationHops"

definition kill_good :: "rstKillEntry \<Rightarrow> bool" where
  "kill_good e \<longleftrightarrow> 1 \<le> rk_count e"

interpretation tls: bounded_table "tls_room now" maxTLSCacheEntries "\<lambda>_. True" for now
  by unfold_locales
    (auto simp: tls_room_def maxTLSCacheEntries_def evict_ok evict_room dest: subsetD [OF evict_subset])

interpretation esc: bounded_table "esc_room now" maxEscalationCacheEntries esc_good for now
  by unfold_locales
    (auto simp: esc_room_def maxEscalationCacheEntries_def evict_ok evict_room dest: subsetD [OF evict_subset])

interpretation kill: bounded_table "kill_room now" maxRSTKillEntries kill_good for now
  by unfold_locales
    (auto simp: kill_room_def maxRSTKillEntries_def evict_ok evict_room dest: subsetD [OF evict_subset])

interpretation conn: bounded_table "conn_room now" maxConnStateEntries "\<lambda>_. True" for now
  by unfold_locales
    (auto simp: conn_room_def maxConnStateEntries_def evict_ok evict_room dest: subsetD [OF evict_subset])

lemma connKey_not_Nil [simp]: "connKeyFormat a p b q \<noteq> []"
  by (simp add: connKeyFormat_def)

text \<open>One operation of a worker on the shared state. Keys are built by \<open>connKeyFormat\<close> and hosts are not
  empty, as at the call sites in \<^verbatim>\<open>handler.go\<close> and \<^verbatim>\<open>inc.go\<close>; the last three rules are the freedom of
  Go's map order.\<close>
inductive rt_step :: "'s runtimeState \<Rightarrow> 's runtimeState \<Rightarrow> bool" where
  tls_store: "rt_step s (s\<lparr>tlsCache := tls_Store n n' (connKeyFormat a p b q) h v (tlsCache s)\<rparr>)"
| tls_clean: "rt_step s (s\<lparr>tlsCache := tls_Cleanup n (tlsCache s)\<rparr>)"
| register: "rt_step s (s\<lparr>connState := RegisterOutgoing n n' (connKeyFormat a p b q) st (connState s)\<rparr>)"
| response: "rt_step s (s\<lparr>connState := RecordServerResponse a p b q ttl opts (connState s)\<rparr>)"
| check: "rt_step s (s\<lparr>connState := fst (CheckRST a p b q ttl opts ack tol (connState s))\<rparr>)"
| established: "rt_step s (s\<lparr>connState := MarkEstablished n (connKeyFormat a p b q) (connState s)\<rparr>)"
| getset: "rt_step s (s\<lparr>connState := fst (GetSetForIncoming n a p b q (connState s))\<rparr>)"
| track: "rt_step s (s\<lparr>connState := fst (TrackIncomingBytes r n a p b q k inc (connState s))\<rparr>)"
| conn_clean: "rt_step s (s\<lparr>connState := conn_Cleanup n (connState s)\<rparr>)"
| hello: "rt_step s (s\<lparr>destState := fst (RecordClientHello n n' (connKeyFormat a p b q) h (destState s))\<rparr>)"
| mark_rst: "rt_step s (s\<lparr>destState := MarkRSTSent (connKeyFormat a p b q) (destState s)\<rparr>)"
| is_blocked: "rt_step s (s\<lparr>destState := fst (IsBlocked n d (destState s))\<rparr>)"
| add_blocked: "rt_step s (s\<lparr>destState := AddBlocked n n' d (destState s)\<rparr>)"
| dest_clean: "rt_step s (s\<lparr>destState := dest_Cleanup n c (destState s)\<rparr>)"
| escalate: "h \<noteq> [] \<Longrightarrow> rt_step s (s\<lparr>destState := fst (SetEscalation n n' n'' h i ttl' (destState s))\<rparr>)"
| clear: "rt_step s (s\<lparr>destState := ClearEscalation h (destState s)\<rparr>)"
| reset: "rt_step s (s\<lparr>destState := ResetEscalations (destState s)\<rparr>)"
| rst_kill: "h \<noteq> [] \<Longrightarrow> rt_step s (s\<lparr>destState := fst (RecordRSTKill n n' h th win (destState s))\<rparr>)"
| reorder_tls: "mset c' = mset (tlsCache s) \<Longrightarrow> rt_step s (s\<lparr>tlsCache := c'\<rparr>)"
| reorder_conn: "mset c' = mset (connState s) \<Longrightarrow> rt_step s (s\<lparr>connState := c'\<rparr>)"
| reorder_dest: "mset (ib_conns d') = mset (ib_conns (destState s)) \<Longrightarrow> mset (blocked d') = mset (blocked (destState s)) \<Longrightarrow>
    mset (escalations d') = mset (escalations (destState s)) \<Longrightarrow> mset (rstKills d') = mset (rstKills (destState s)) \<Longrightarrow>
    rt_step s (s\<lparr>destState := d'\<rparr>)"

inductive rt_reachable :: "'s runtimeState \<Rightarrow> bool" where
  init: "rt_reachable newRuntimeState"
| step: "rt_reachable s \<Longrightarrow> rt_step s s' \<Longrightarrow> rt_reachable s'"

definition dest_inv :: "destStateTracker \<Rightarrow> bool" where
  "dest_inv d \<longleftrightarrow> esc.inv (escalations d) \<and> kill.inv (rstKills d) \<and> gok (ib_conns d) \<and> gok (blocked d)"

definition rt_inv :: "'s runtimeState \<Rightarrow> bool" where
  "rt_inv s \<longleftrightarrow> tls.inv (tlsCache s) \<and> conn.inv (connState s) \<and> dest_inv (destState s)"

lemmas conn_ops = RecordServerResponse_def CheckRST_def MarkEstablished_def GetSetForIncoming_def
  TrackIncomingBytes_def

text \<open>The operations on one connection only overwrite an existing entry.\<close>
lemma conn_inv_ops:
  assumes "conn.inv t"
  shows "conn.inv (RecordServerResponse a p b q ttl opts t)"
    "conn.inv (fst (CheckRST a p b q ttl opts ack tol t))"
    "conn.inv (MarkEstablished n k t)"
    "conn.inv (fst (GetSetForIncoming n a p b q t))"
    "conn.inv (fst (TrackIncomingBytes r n a p b q k' inc t))"
  using assms conn.inv_set [OF assms]
  by (auto simp: conn_ops Let_def split: option.split)

lemma RegisterOutgoing_inv: "conn.inv t \<Longrightarrow> k \<noteq> [] \<Longrightarrow> conn.inv (RegisterOutgoing n n' k st t)"
  using conn.inv_put [of t k] by (auto simp: RegisterOutgoing_def Let_def split: option.split)

lemma SetEscalation_inv:
  assumes "dest_inv d" "h \<noteq> []"
  shows "dest_inv (fst (SetEscalation n n' n'' h i ttl d))"
proof -
  let ?es = "esc_room n (escalations d)"
  have e: "esc.inv (escalations d)" using assms(1) by (simp add: dest_inv_def)
  note r = esc.inv_room [OF e, of n]
  have put: "esc.inv (gput h v es)" if "esc_good v" "esc.inv es" "length es < maxEscalationCacheEntries" for v es
    using that assms(2) length_gput_le [of h v es] by (intro esc.inv_grow) auto
  have d: "esc.inv (gdel h ?es)" "length (gdel h ?es) < maxEscalationCacheEntries"
    using esc.inv_del [OF r(1)] r(2) length_gdel_le [of h ?es] by auto
  show ?thesis
    using assms(1) put r d by (auto simp: SetEscalation_def dest_inv_def Let_def esc_good_def split: option.split)
qed

lemma RecordRSTKill_inv:
  assumes "dest_inv d" "h \<noteq> []"
  shows "dest_inv (fst (RecordRSTKill n n' h th win d))"
proof -
  let ?ks = "kill_room n (rstKills d)"
  have e: "kill.inv (rstKills d)" using assms(1) by (simp add: dest_inv_def)
  have put: "kill.inv (gput h v ?ks)" if "kill_good v" for v
    using kill.inv_put [OF e assms(2) that] .
  show ?thesis
    using assms(1) put kill.inv_del [OF kill.inv_room(1) [OF e]]
    by (auto simp: RecordRSTKill_def dest_inv_def Let_def kill_good_def split: option.split)
qed

lemma dest_inv_ops:
  assumes "dest_inv d"
  shows "dest_inv (fst (RecordClientHello n n' k h d))" "dest_inv (MarkRSTSent k d)"
    "dest_inv (fst (IsBlocked n k d))" "dest_inv (AddBlocked n n' k d)" "dest_inv (dest_Cleanup n c d)"
    "dest_inv (ClearEscalation k d)" "dest_inv (ResetEscalations d)"
  using assms
  by (auto simp: dest_inv_def RecordClientHello_def MarkRSTSent_def IsBlocked_def AddBlocked_def Let_def
      dest_Cleanup_def ClearEscalation_def ResetEscalations_def esc.inv_del esc.inv_sweep kill.inv_sweep
      esc.inv_empty kill.inv_empty split: option.split)

lemma rt_inv_step: "rt_step s s' \<Longrightarrow> rt_inv s \<Longrightarrow> rt_inv s'"
proof (induction rule: rt_step.induct)
  case (reorder_dest d' s)
  have i: "esc.inv (escalations (destState s))" "kill.inv (rstKills (destState s))"
    using reorder_dest.prems by (simp_all add: rt_inv_def dest_inv_def)
  show ?case
    using reorder_dest esc.inv_perm [OF i(1) reorder_dest(3)] kill.inv_perm [OF i(2) reorder_dest(4)]
    by (simp add: rt_inv_def dest_inv_def gok_mset [OF reorder_dest(1)] gok_mset [OF reorder_dest(2)])
next
  case (reorder_tls c' s)
  then show ?case using tls.inv_perm [of "tlsCache s" c'] by (simp add: rt_inv_def)
next
  case (reorder_conn c' s)
  then show ?case using conn.inv_perm [of "connState s" c'] by (simp add: rt_inv_def)
qed (simp_all add: rt_inv_def tls_Store_def tls_Cleanup_def conn_Cleanup_def tls.inv_put tls.inv_sweep
    conn.inv_sweep RegisterOutgoing_inv conn_inv_ops dest_inv_ops SetEscalation_inv RecordRSTKill_inv)

lemma rt_reachable_inv: "rt_reachable s \<Longrightarrow> rt_inv s"
proof (induction rule: rt_reachable.induct)
  case init
  show ?case
    by (simp add: rt_inv_def newRuntimeState_def dest_inv_def tls.inv_empty conn.inv_empty
        esc.inv_empty kill.inv_empty)
qed (rule rt_inv_step)

text \<open>the shared state of the workers stays well formed and bounded. In every state that the
  operations on the caches and trackers can reach, in any order, with any clock readings and any map
  order, no map has a duplicate key, the TLS cache, the connection tracker, the escalation table and
  the RST table stay within their limits, and every escalation chain has between one and eight hops.\<close>
theorem runtime_bounded:
  assumes "rt_reachable s"
  shows "length (tlsCache s) \<le> maxTLSCacheEntries \<and> length (connState s) \<le> maxConnStateEntries \<and>
    length (escalations (destState s)) \<le> maxEscalationCacheEntries \<and>
    length (rstKills (destState s)) \<le> maxRSTKillEntries \<and>
    gok (tlsCache s) \<and> gok (connState s) \<and> gok (escalations (destState s)) \<and> gok (rstKills (destState s)) \<and>
    gok (ib_conns (destState s)) \<and> gok (blocked (destState s)) \<and>
    (\<forall>(h, e) \<in> set (escalations (destState s)). 1 \<le> ee_hops e \<and> ee_hops e \<le> MaxEscalationHops)"
  using rt_reachable_inv [OF assms]
  by (auto simp: rt_inv_def dest_inv_def tls.inv_def conn.inv_def esc.inv_def kill.inv_def esc_good_def)

definition sample_state :: "unit runtimeState" where
  "sample_state = newRuntimeState\<lparr>destState :=
     fst (SetEscalation 0 0 0 [97] [98] 0 (destState (newRuntimeState :: unit runtimeState)))\<rparr>"

theorem runtime_bounded_witness:
  "rt_reachable sample_state \<and> length (escalations (destState sample_state)) = 1 \<and>
   length (escalations (destState sample_state)) \<le> maxEscalationCacheEntries"
proof -
  have "rt_reachable sample_state"
    unfolding sample_state_def by (rule rt_reachable.step [OF rt_reachable.init]) (rule rt_step.escalate, simp)
  moreover have "length (escalations (destState sample_state)) = 1"
    by (simp add: sample_state_def SetEscalation_def newRuntimeState_def esc_room_def evict_def
        maxEscalationCacheEntries_def MaxEscalationHops_def Let_def)
  ultimately show ?thesis using runtime_bounded [of sample_state] by simp
qed

section \<open>Connection keys\<close>

text \<open>no two connections share an entry of the trackers. Address texts contain no minus sign, so
  equal keys come from the same client address, client port, server address and server port, even
  though IPv6 addresses contain the colon that separates address and port.\<close>
theorem connKeyFormat_inj:
  assumes "connKeyFormat a p b q = connKeyFormat a' p' b' q'" "45 \<notin> set a" "45 \<notin> set a'"
  shows "a = a' \<and> p = p' \<and> b = b' \<and> q = q'"
proof -
  have d: "45 \<notin> set (dec n)" "58 \<notin> set (dec n)" for n by (simp_all add: dec_not)
  have "a @ 58 # dec (unat p) = a' @ 58 # dec (unat p') \<and>
      62 # (b @ 58 # dec (unat q)) = 62 # (b' @ 58 # dec (unat q'))"
    using assms by (intro sep_eq [of _ 45]) (simp_all add: connKeyFormat_def d)
  then show ?thesis
    using sep_eq_last [of a 58 "dec (unat p)" a' "dec (unat p')"]
      sep_eq_last [of b 58 "dec (unat q)" b' "dec (unat q')"] d
    by (auto dest: dec_inj simp: word_unat_eq_iff)
qed

theorem connKeyFormat_inj_witness:
  "connKeyFormat [58, 58, 49] 22 [49] 443 \<noteq> connKeyFormat [58, 58, 49, 58, 50] 2 [49] 443"
  using connKeyFormat_inj [of "[58, 58, 49]" 22 "[49]" 443 "[58, 58, 49, 58, 50]" 2 "[49]" 443] by auto

section \<open>The TLS cache as a bounded map\<close>

text \<open>what is stored in the TLS cache is found again, with its host and version. Storing one
  connection removes another one only if its entry has been unused for more than 120 seconds, or if
  the cache is full and no live entry is older.\<close>
theorem tls_Store_Lookup:
  assumes "gok c"
  shows "tls_Lookup k (tls_Store now now' k host ver c) = Some (host, ver) \<and>
    (\<forall>k' info. k' \<noteq> k \<and> gget c k' = Some info \<longrightarrow>
       gget (tls_Store now now' k host ver c) k' = Some info \<or> now - ti_lastSeen info > 120 * Second \<or>
       (maxTLSCacheEntries \<le> length c \<and>
        (\<forall>(j, i) \<in> set c. now - ti_lastSeen i > 120 * Second \<or> ti_lastSeen info \<le> ti_lastSeen i)))"
proof -
  have "gget (tls_Store now now' k host ver c) k' = Some info \<or> now - ti_lastSeen info > 120 * Second \<or>
      (maxTLSCacheEntries \<le> length c \<and>
       (\<forall>(j, i) \<in> set c. now - ti_lastSeen i > 120 * Second \<or> ti_lastSeen info \<le> ti_lastSeen i))"
    if "k' \<noteq> k" "gget c k' = Some info" for k' info
  proof (cases "gget (tls_room now c) k'")
    case None
    then show ?thesis
      using evict_drops [OF assms that(2) None [unfolded tls_room_def]] by blast
  next
    case (Some i)
    then have "(k', i) \<in> set c"
      using evict_subset [of maxTLSCacheEntries "\<lambda>v. now - ti_lastSeen v > 120 * Second" ti_lastSeen c]
      by (auto simp: tls_room_def dest: map_of_SomeD)
    then have "i = info" using that(2) by (simp add: gget_Some [OF assms, symmetric])
    then show ?thesis using Some that(1) by (simp add: tls_Store_def gget_gput)
  qed
  moreover have "tls_Lookup k (tls_Store now now' k host ver c) = Some (host, ver)"
    by (simp add: tls_Lookup_def tls_Store_def gget_gput)
  ultimately show ?thesis by blast
qed

theorem tls_Store_Lookup_witness:
  "tls_Lookup [1] (tls_Store 5 6 [1] [97] 0x0304
     [([2], \<lparr>ti_host = [98], ti_tlsVersion = 0x0303, ti_lastSeen = 4\<rparr>)]) = Some ([97], 0x0304)"
  using tls_Store_Lookup [of "[([2], \<lparr>ti_host = [98], ti_tlsVersion = 0x0303, ti_lastSeen = 4\<rparr>)]"
      "[1]" 5 6 "[97]" "0x0304", THEN conjunct1]
  by (simp add: gok_def)

section \<open>Escalation\<close>

lemma evict_id: "length m < cap \<Longrightarrow> evict cap e st m = m"
  by (simp add: evict_def)

text \<open>Making room takes an answer away only from the oldest live entry.\<close>
lemma esc_room_answers:
  assumes "gok (escalations t)" "now \<le> \<tau>"
  defines "t0 \<equiv> t\<lparr>escalations := esc_room now (escalations t)\<rparr>"
  shows "GetEscalation \<tau> h t0 = GetEscalation \<tau> h t \<or> GetEscalation \<tau> h t0 = None \<and>
    (\<exists>e. gget (escalations t) h = Some e \<and> (\<forall>(k, x) \<in> set (escalations t). \<not> now - ee_setAt x > ee_ttl x \<longrightarrow> ee_setAt e \<le> ee_setAt x))"
proof (cases "gget (escalations t0) h")
  case (Some e)
  have "gok (escalations t0)" using evict_ok [OF assms(1)] by (simp add: t0_def esc_room_def)
  then have "(h, e) \<in> set (escalations t0)" using Some by (simp add: gget_Some)
  then have "(h, e) \<in> set (escalations t)"
    using evict_subset by (fastforce simp: t0_def esc_room_def)
  then have "gget (escalations t) h = Some e" by (simp add: gget_Some [OF assms(1)])
  then show ?thesis using Some by (simp add: GetEscalation_def)
next
  case None
  show ?thesis
  proof (cases "gget (escalations t) h")
    case (Some e)
    show ?thesis
      using evict_drops [OF assms(1) Some, of maxEscalationCacheEntries "\<lambda>v. now - ee_setAt v > ee_ttl v" ee_setAt] None Some assms(2)
      by (auto simp: t0_def esc_room_def GetEscalation_def)
  qed (use None in \<open>simp add: GetEscalation_def\<close>)
qed



section \<open>Counting resets\<close>

text \<open>Calls of \<open>RecordRSTKill\<close> for one host at the given times\<close>
fun kill_run :: "bytes \<Rightarrow> int \<Rightarrow> int \<Rightarrow> gotime list \<Rightarrow> destStateTracker \<Rightarrow> destStateTracker \<times> bool list" where
  "kill_run host th win [] t = (t, [])"
| "kill_run host th win (\<tau> # \<tau>s) t =
     (let (t, b) = RecordRSTKill \<tau> \<tau> host th win t; (t, bs) = kill_run host th win \<tau>s t in (t, b # bs))"

lemma kill_room_id: "length m < maxRSTKillEntries \<Longrightarrow> kill_room now m = m"
  by (simp add: kill_room_def evict_id)

text \<open>How many kills it takes: a threshold of one is not compared on the first kill, and a threshold of zero or less is the default.\<close>
definition kills_needed :: "int \<Rightarrow> nat" where
  "kills_needed th = (if th \<le> 0 then 3 else nat (max 2 th))"

lemma kill_run_counting:
  assumes "gget (rstKills t) host = Some e" "length (rstKills t) < maxRSTKillEntries" "0 < rk_count e"
    "rk_count e + length \<tau>s = kills_needed th" "\<tau>s \<noteq> []" "\<forall>\<tau> \<in> set \<tau>s. \<tau> - rk_firstAt e \<le> rk_window e"
  shows "snd (kill_run host th win \<tau>s t) = replicate (length \<tau>s - 1) False @ [True] \<and>
     rstKills (fst (kill_run host th win \<tau>s t)) = gdel host (rstKills t)"
  using assms
proof (induction \<tau>s arbitrary: t e)
  case (Cons \<tau> \<tau>s)
  show ?case
  proof (cases \<tau>s)
    case Nil
    then show ?thesis
      using Cons.prems by (auto simp: RecordRSTKill_def kill_room_id Let_def kills_needed_def RSTKillThreshold_def split: if_splits)
  next
    case (Cons \<sigma> \<sigma>s)
    define e' where "e' = e\<lparr>rk_count := rk_count e + 1\<rparr>"
    define t' where "t' = t\<lparr>rstKills := gput host e' (rstKills t)\<rparr>"
    have r: "RecordRSTKill \<tau> \<tau> host th win t = (t', False)"
      using Cons.prems Cons
      by (auto simp: RecordRSTKill_def kill_room_id Let_def t'_def e'_def kills_needed_def RSTKillThreshold_def split: if_splits)
    have "snd (kill_run host th win \<tau>s t') = replicate (length \<tau>s - 1) False @ [True] \<and>
        rstKills (fst (kill_run host th win \<tau>s t')) = gdel host (rstKills t')"
      using Cons.prems Cons by (intro Cons.IH [of _ e']) (auto simp: t'_def e'_def gget_gput length_gput)
    moreover have "gdel host (rstKills t') = gdel host (rstKills t)"
      by (simp add: t'_def gdel_gput)
    ultimately show ?thesis using r Cons by (simp split: prod.splits)
  qed
qed simp

text \<open>No kill of the host is being counted at this time.\<close>
definition no_live_kill :: "gotime \<Rightarrow> bytes \<Rightarrow> destStateTracker \<Rightarrow> bool" where
  "no_live_kill now host t \<longleftrightarrow>
     (case gget (rstKills t) host of None \<Rightarrow> True | Some e \<Rightarrow> now - rk_firstAt e > rk_window e)"

lemma first_kill:
  assumes "no_live_kill \<tau> host t" "length (rstKills t) < maxRSTKillEntries"
  shows "RecordRSTKill \<tau> \<tau> host th win t =
    (t\<lparr>rstKills := gput host \<lparr>rk_count = 1, rk_firstAt = \<tau>,
       rk_window = (if win \<le> 0 then RSTKillWindow else win)\<rparr> (rstKills t)\<rparr>, False)"
  using assms by (auto simp: RecordRSTKill_def no_live_kill_def kill_room_id Let_def split: option.splits)

text \<open>C25: counting connections killed by resets, with room in the table and for every configured threshold and window. It takes
  as many kills of a host inside the window as the threshold says, but never fewer than two, and three when none is configured: all
  but the last do not trigger, the last does, and then the host is no longer counted and the counts of other hosts are as before.\<close>
theorem RecordRSTKill_counts:
  assumes "no_live_kill \<tau> host t" "Suc (length (rstKills t)) < maxRSTKillEntries"
    "Suc (length \<tau>s) = kills_needed th" "\<forall>\<sigma> \<in> set \<tau>s. \<sigma> - \<tau> \<le> (if win \<le> 0 then RSTKillWindow else win)"
  shows "snd (kill_run host th win (\<tau> # \<tau>s) t) = replicate (length \<tau>s) False @ [True] \<and>
     rstKills (fst (kill_run host th win (\<tau> # \<tau>s) t)) = gdel host (rstKills t)"
proof -
  define e where "e = \<lparr>rk_count = 1, rk_firstAt = \<tau>, rk_window = (if win \<le> 0 then RSTKillWindow else win)\<rparr>"
  define t' where "t' = t\<lparr>rstKills := gput host e (rstKills t)\<rparr>"
  have r: "RecordRSTKill \<tau> \<tau> host th win t = (t', False)"
    using first_kill [OF assms(1), of th win] assms(2) by (simp add: t'_def e_def)
  have n: "\<tau>s \<noteq> []" using assms(3) by (auto simp: kills_needed_def split: if_splits)
  have "snd (kill_run host th win \<tau>s t') = replicate (length \<tau>s - 1) False @ [True] \<and>
      rstKills (fst (kill_run host th win \<tau>s t')) = gdel host (rstKills t')"
    using assms n by (intro kill_run_counting [of _ _ e]) (auto simp: t'_def e_def gget_gput length_gput)
  moreover have "gdel host (rstKills t') = gdel host (rstKills t)" by (simp add: t'_def gdel_gput)
  moreover have "False # replicate (length \<tau>s - 1) False = replicate (length \<tau>s) False"
    using n by (cases \<tau>s) auto
  moreover obtain u bs where "kill_run host th win \<tau>s t' = (u, bs)" by force
  ultimately show ?thesis using r by (simp flip: append_Cons)
qed

theorem RecordRSTKill_counts_witness:
  "snd (kill_run [97] 3 10 [5, 8, 15] (destState sample_state)) = [False, False, True] \<and>
   snd (kill_run [97] 1 10 [5, 8] (destState sample_state)) = [False, True]"
proof -
  have r: "rstKills (destState sample_state) = []"
    by (simp add: sample_state_def SetEscalation_def newRuntimeState_def esc_room_def evict_def
        maxEscalationCacheEntries_def MaxEscalationHops_def Let_def)
  show ?thesis
    using RecordRSTKill_counts [of 5 "[97]" "destState sample_state" "[8, 15]" 3 10]
      RecordRSTKill_counts [of 5 "[97]" "destState sample_state" "[8]" 1 10]
    by (simp add: r no_live_kill_def maxRSTKillEntries_def kills_needed_def numeral_2_eq_2)
qed

text \<open>A threshold of one never triggers on the first kill: the branch that starts a count returns
  before it compares.\<close>
lemma RecordRSTKill_threshold_one:
  "no_live_kill \<tau> host t \<Longrightarrow> length (rstKills t) < maxRSTKillEntries \<Longrightarrow>
   snd (RecordRSTKill \<tau> \<tau> host 1 win t) = False"
  by (simp add: first_kill)

section \<open>Judging resets\<close>



section \<open>Counting incoming bytes\<close>

text \<open>Incoming packets of one connection: their sizes, arrival times and the random numbers drawn for them\<close>
fun track_run :: "bytes \<Rightarrow> uint16 \<Rightarrow> bytes \<Rightarrow> uint16 \<Rightarrow> IncomingConfig \<Rightarrow> (64 word \<times> gotime \<times> int) list \<Rightarrow>
    's connStateTracker \<Rightarrow> bool list" where
  "track_run a p b q inc [] t = []"
| "track_run a p b q inc ((n, now, r) # ns) t =
     (let (t, fired) = TrackIncomingBytes r now a p b q n inc t
      in fired # track_run a p b q inc ns t)"

text \<open>What is expected: a threshold of \<open>lo + r\<close> KiB holds from the packet it is drawn for until the bytes since then reach it.
  \<open>T\<close> is the current threshold, if one is drawn, and \<open>s\<close> the bytes so far.\<close>
fun fires :: "int \<Rightarrow> nat option \<Rightarrow> nat \<Rightarrow> (64 word \<times> gotime \<times> int) list \<Rightarrow> bool list" where
  "fires lo T s [] = []"
| "fires lo T s ((n, now, r) # ns) =
     (let T = (case T of Some T \<Rightarrow> T | None \<Rightarrow> nat ((lo + r) * 1024))
      in if T \<le> s + unat n then True # fires lo None 0 ns else False # fires lo (Some T) (s + unat n) ns)"

text \<open>The configured bounds in KiB, with their defaults\<close>
definition lowKB :: "IncomingConfig \<Rightarrow> int" where
  "lowKB inc = (if Min inc \<le> 0 then 14 else Min inc)"

definition highKB :: "IncomingConfig \<Rightarrow> int" where
  "highKB inc = (if Min inc \<le> 0 then 14 else max (Min inc) (Max inc))"

lemma next_threshold_unat:
  assumes "highKB inc < 2 ^ 53" "0 \<le> r" "r \<le> highKB inc - lowKB inc"
  shows "unat (next_threshold r inc) = nat ((lowKB inc + r) * 1024)"
proof -
  have u: "unat (of_int k :: 64 word) = nat k" if "0 \<le> k" "k < 2 ^ 64" for k
    using that by (simp add: unat_eq_nat_uint uint_word_of_int_eq take_bit_int_eq_self)
  have l: "0 < lowKB inc" by (simp add: lowKB_def)
  have "(lowKB inc + r) * 1024 < 2 ^ 64" using assms by simp
  moreover have "next_threshold r inc = of_int ((lowKB inc + r) * 1024)"
    using assms(2,3) by (auto simp: next_threshold_def lowKB_def highKB_def Let_def max_def split: if_splits)
  ultimately show ?thesis using u [of "(lowKB inc + r) * 1024"] l assms(2) by (simp only: zero_le_mult_iff) simp
qed

text \<open>The count of a connection: the bytes so far, and below the threshold if there is one\<close>
definition counting :: "nat option \<Rightarrow> nat \<Rightarrow> 's connInfo \<Rightarrow> bool" where
  "counting T s info \<longleftrightarrow> unat (bytesIn info) = s \<and>
     (case T of None \<Rightarrow> threshold info = 0 \<and> s = 0 | Some T \<Rightarrow> unat (threshold info) = T \<and> s < T)"

lemma track_run_fires:
  assumes "gget t (connKeyFormat a p b q) = Some info" "counting T s info" "highKB inc < 2 ^ 53"
    "\<forall>(n, \<tau>, r) \<in> set ns. 0 \<le> r \<and> r \<le> highKB inc - lowKB inc" "s + (\<Sum>(n, \<tau>, r) \<leftarrow> ns. unat n) < 2 ^ 64"
  shows "track_run a p b q inc ns t = fires (lowKB inc) T s ns"
  using assms
proof (induction ns arbitrary: t info T s)
  case (Cons x ns)
  obtain n \<tau> r where x: "x = (n, \<tau>, r)" by (metis prod_cases3)
  let ?k = "connKeyFormat a p b q"
  let ?i = "if threshold info = 0 then info\<lparr>threshold := next_threshold r inc\<rparr> else info"
  let ?T = "case T of Some T \<Rightarrow> T | None \<Rightarrow> nat ((lowKB inc + r) * 1024)"
  have r: "0 \<le> r" "r \<le> highKB inc - lowKB inc" using Cons.prems(4) by (auto simp: x)
  have pos: "0 < nat ((lowKB inc + r) * 1024)" using r(1) by (simp add: lowKB_def)
  have c: "unat (threshold ?i) = ?T" "s < ?T" "bytesIn ?i = bytesIn info" "unat (bytesIn info) = s"
    using Cons.prems(2) next_threshold_unat [OF Cons.prems(3) r] pos by (auto simp: counting_def split: option.splits)
  have s: "unat (bytesIn info + n) = s + unat n"
    using Cons.prems(5) c(4) by (simp add: x unat_word_ariths)
  have step: "TrackIncomingBytes r \<tau> a p b q n inc t =
      (if ?T \<le> s + unat n then (gput ?k (?i\<lparr>ci_lastSeen := \<tau>, bytesIn := 0, threshold := 0\<rparr>) t, True)
       else (gput ?k (?i\<lparr>bytesIn := bytesIn info + n, ci_lastSeen := \<tau>\<rparr>) t, False))"
    using Cons.prems(1) c s unfolding TrackIncomingBytes_def Let_def
    by (simp add: word_le_nat_alt word_less_nat_alt del: if_split split del: if_split) (simp split: if_splits)
  have rest: "track_run a p b q inc ns (gput ?k i t) = fires (lowKB inc) T' s' ns" if "counting T' s' i" "s' \<le> s + unat n" for i T' s'
    using Cons.prems(3-5) that by (intro Cons.IH [of _ i]) (auto simp: gget_gput x)
  show ?case
  proof (cases "?T \<le> s + unat n")
    case True
    then show ?thesis
      using step rest [of None 0 "?i\<lparr>ci_lastSeen := \<tau>, bytesIn := 0, threshold := 0\<rparr>"] by (simp add: x counting_def Let_def)
  next
    case False
    then show ?thesis
      using step rest [of "Some ?T" "s + unat n" "?i\<lparr>bytesIn := bytesIn info + n, ci_lastSeen := \<tau>\<rparr>"] c(1) s
      by (simp add: x counting_def Let_def split: if_splits)
  qed
qed simp



section \<open>Tables without a bound\<close>

text \<open>The limits of the other two tables of destinations only trigger the removal of old entries: when all entries are recent, the
  tables grow past them.\<close>
lemma AddBlocked_overflows:
  assumes "maxIPBlockCacheEntries \<le> length (blocked t)" "gget (blocked t) k = None" "\<forall>(h, v) \<in> set (blocked t). now - v \<le> 300 * Second"
  shows "length (blocked (AddBlocked now now' k t)) = Suc (length (blocked t))"
proof -
  have "gsweep (\<lambda>v. now - v > 300 * Second) (blocked t) = blocked t"
    using assms(3) by (force simp: gsweep_def filter_id_conv)
  then show ?thesis using assms(1,2) by (simp add: AddBlocked_def length_gput)
qed

lemma RecordClientHello_overflows:
  assumes "maxIPBlockEntries \<le> length (ib_conns t)" "gget (ib_conns t) k = None"
    "\<forall>(h, v) \<in> set (ib_conns t). now - firstSeen v \<le> 120 * Second"
  shows "length (ib_conns (fst (RecordClientHello now now' k host t))) = Suc (length (ib_conns t))"
proof -
  have "gsweep (\<lambda>v. now - firstSeen v > 120 * Second) (ib_conns t) = ib_conns t"
    using assms(3) by (force simp: gsweep_def filter_id_conv)
  then show ?thesis using assms(1,2) by (simp add: RecordClientHello_def length_gput Let_def)
qed

end
