(* ===== verification/Settings.thy ===== *)
theory Settings
  imports GoMap ConfigTypes
begin

text \<open>
  The methods of \<^verbatim>\<open>src/src/config/methods.go\<close> that prepare a configuration for the packet path: port
  filters (with \<^verbatim>\<open>utils/port.go\<close>), the table of intercepted ports, version filters and the repair of
  escalation chains.
\<close>

section \<open>Text\<close>

definition ascii_space :: "byte \<Rightarrow> bool" where
  "ascii_space b \<longleftrightarrow> b \<in> {9, 10, 11, 12, 13, 32}"

text \<open>\<open>strings.TrimSpace\<close>, \<open>strings.ToLower\<close>, \<open>strings.Split\<close> and \<open>strings.SplitN(s, sep, 2)\<close> on ASCII text\<close>
definition trim :: "bytes \<Rightarrow> bytes" where
  "trim s = rev (dropWhile ascii_space (rev (dropWhile ascii_space s)))"

definition lower :: "bytes \<Rightarrow> bytes" where
  "lower s = map (\<lambda>b. if 65 \<le> b \<and> b \<le> 90 then b + 32 else b) s"

fun split_on :: "byte \<Rightarrow> bytes \<Rightarrow> bytes list" where
  "split_on c [] = [[]]"
| "split_on c (b # bs) =
     (if b = c then [] # split_on c bs
      else case split_on c bs of [] \<Rightarrow> [[b]] | l # ls \<Rightarrow> (b # l) # ls)"

definition split2 :: "byte \<Rightarrow> bytes \<Rightarrow> bytes list" where
  "split2 c s = (if c \<in> set s then [takeWhile (\<lambda>b. b \<noteq> c) s, tl (dropWhile (\<lambda>b. b \<noteq> c) s)] else [s])"

text \<open>\<open>strconv.Atoi\<close>: the value and whether there was no error. Text that is no number gives 0, a number
  out of range the nearest \<open>int\<close>.\<close>
definition digit :: "byte \<Rightarrow> bool" where
  "digit b \<longleftrightarrow> 48 \<le> b \<and> b \<le> 57"

definition Atoi :: "bytes \<Rightarrow> int \<times> bool" where
  "Atoi s =
     (let neg = (s \<noteq> [] \<and> hd s = 45);
          ds = (if s \<noteq> [] \<and> (hd s = 45 \<or> hd s = 43) then tl s else s)
      in if ds = [] \<or> \<not> list_all digit ds then (0, False)
         else (let v = (if neg then - int (dec_val ds) else int (dec_val ds))
               in if v > 2 ^ 63 - 1 then (2 ^ 63 - 1, False)
                  else if v < - (2 ^ 63) then (- (2 ^ 63), False)
                  else (v, True)))"

section \<open>Filters\<close>

definition TLSVersionCode :: "bytes \<Rightarrow> uint16" where
  "TLSVersionCode flt =
     (if flt = [49, 46, 48] then 0x0301 else if flt = [49, 46, 49] then 0x0302
      else if flt = [49, 46, 50] then 0x0303 else if flt = [49, 46, 51] then 0x0304 else 0)"

definition TLSVersionString :: "uint16 \<Rightarrow> bytes" where
  "TLSVersionString ver =
     (if ver = 0x0301 then [49, 46, 48] else if ver = 0x0302 then [49, 46, 49]
      else if ver = 0x0303 then [49, 46, 50] else if ver = 0x0304 then [49, 46, 51] else [])"

definition MatchesTLSVersion :: "SetConfig \<Rightarrow> uint16 \<Rightarrow> bool" where
  "MatchesTLSVersion st tlsVersion =
     (if TLSVersion (Targets st) = [] then True
      else let filterVer = TLSVersionCode (TLSVersion (Targets st))
           in if filterVer = 0 then False else tlsVersion = 0 \<or> tlsVersion = filterVer)"

definition MatchesIPVersion :: "SetConfig \<Rightarrow> byte \<Rightarrow> bool" where
  "MatchesIPVersion st version =
     (if IPVersion (Targets st) = [] then True
      else if IPVersion (Targets st) = [52] then version = 0 \<or> version = 4
      else if IPVersion (Targets st) = [54] then version = 0 \<or> version = 6
      else False)"

definition HasIPOrDomainTargets :: "SetConfig \<Rightarrow> bool" where
  "HasIPOrDomainTargets st \<longleftrightarrow> length (IpsToMatch (Targets st)) > 0 \<or> length (DomainsToMatch (Targets st)) > 0"

definition in_ranges :: "PortRange list \<Rightarrow> uint16 \<Rightarrow> bool" where
  "in_ranges rs port = list_ex (\<lambda>r. port \<ge> pr_Min r \<and> port \<le> pr_Max r) rs"

definition MatchesTCPDPort :: "SetConfig \<Rightarrow> uint16 \<Rightarrow> bool" where
  "MatchesTCPDPort st port = (if length (TCPPortRanges st) = 0 then True else in_ranges (TCPPortRanges st) port)"

definition MatchesUDPDPort :: "SetConfig \<Rightarrow> uint16 \<Rightarrow> bool" where
  "MatchesUDPDPort st port = (if length (UDPPortRanges st) = 0 then True else in_ranges (UDPPortRanges st) port)"

definition GetSetById :: "bytes \<Rightarrow> SetConfig list \<Rightarrow> SetConfig option" where
  "GetSetById i sets = find (\<lambda>st. Id st = i) sets"

section \<open>Ports\<close>

definition parsePortRangeStr :: "bytes \<Rightarrow> PortRange option" where
  "parsePortRangeStr part =
     (let part = trim part in
      if part = [] then None
      else if 45 \<in> set part then
        (case split2 45 part of
           [b0, b1] \<Rightarrow>
             let (mn, ok1) = Atoi b0; (mx, ok2) = Atoi b1
             in if ok1 \<and> ok2 \<and> mn \<ge> 1 \<and> mx \<ge> 1 \<and> mn \<le> mx \<and> mn \<le> 65535 \<and> mx \<le> 65535
                then Some \<lparr>pr_Min = of_int mn, pr_Max = of_int mx\<rparr> else None
         | _ \<Rightarrow> None)
      else let (port, ok) = Atoi part
           in if ok \<and> port \<ge> 1 \<and> port \<le> 65535
              then Some \<lparr>pr_Min = of_int port, pr_Max = of_int port\<rparr> else None)"

definition port_ranges :: "bytes \<Rightarrow> PortRange list" where
  "port_ranges flt = (if flt = [] then [] else List.map_filter parsePortRangeStr (split_on 44 flt))"

definition BuildSetPortRanges :: "SetConfig list \<Rightarrow> SetConfig list" where
  "BuildSetPortRanges sets =
     map (\<lambda>st. st\<lparr>TCPPortRanges := port_ranges (tcp_DPortFilter (TCP st)),
                   UDPPortRanges := port_ranges (udp_DPortFilter (UDP st))\<rparr>) sets"

text \<open>The first loop of \<open>mergeAndNormalizePorts\<close>\<close>
definition parse_merge :: "bytes \<Rightarrow> (int \<times> int) option" where
  "parse_merge p =
     (let p = trim p in
      if p = [] then None
      else let p = map (\<lambda>b. if b = 58 then 45 else b) p in
        if 45 \<in> set p then
          (case split_on 45 p of
             [a, b] \<Rightarrow> let s = fst (Atoi a); e = fst (Atoi b)
                       in if s > 0 \<and> e > 0 \<and> s \<le> e then Some (s, e) else None
           | _ \<Rightarrow> None)
        else let port = fst (Atoi p) in if port > 0 then Some (port, port) else None)"

text \<open>\<open>int\<close> arithmetic of 64 bits\<close>
definition wrap64 :: "int \<Rightarrow> int" where
  "wrap64 x = (x + 2 ^ 63) mod 2 ^ 64 - 2 ^ 63"

text \<open>The merging loop; \<open>lst\<close> is the last range of \<open>merged\<close>.\<close>
fun merge_loop :: "int \<times> int \<Rightarrow> (int \<times> int) list \<Rightarrow> (int \<times> int) list" where
  "merge_loop lst [] = [lst]"
| "merge_loop lst (cur # rest) =
     (if fst cur \<le> wrap64 (snd lst + 1)
      then merge_loop (fst lst, if snd cur > snd lst then snd cur else snd lst) rest
      else lst # merge_loop cur rest)"

definition merge_ranges :: "(int \<times> int) list \<Rightarrow> (int \<times> int) list" where
  "merge_ranges rs = (case sort_key fst rs of [] \<Rightarrow> [] | r # rest \<Rightarrow> merge_loop r rest)"

definition print_range :: "int \<times> int \<Rightarrow> bytes" where
  "print_range r = (if fst r = snd r then dec (nat (fst r)) else dec (nat (fst r)) @ 45 # dec (nat (snd r)))"

definition mergeAndNormalizePorts :: "bytes list \<Rightarrow> bytes list" where
  "mergeAndNormalizePorts ports = map print_range (merge_ranges (List.map_filter parse_merge ports))"

text \<open>The port texts of the enabled sets and \<open>443\<close>; the order, which \<open>mergeAndNormalizePorts\<close> makes
  irrelevant, is that of the configuration.\<close>
definition collect_ports :: "(SetConfig \<Rightarrow> bytes) \<Rightarrow> SetConfig list \<Rightarrow> bytes list" where
  "collect_ports flt sets =
     [52, 52, 51] # concat (map (\<lambda>st. if \<not> Enabled st \<or> flt st = [] then []
       else filter (\<lambda>p. p \<noteq> []) (map trim (split_on 44 (flt st)))) sets)"

definition CollectUDPPorts :: "SetConfig list \<Rightarrow> bytes list" where
  "CollectUDPPorts sets = mergeAndNormalizePorts (collect_ports (\<lambda>st. udp_DPortFilter (UDP st)) sets)"

definition CollectTCPPorts :: "SetConfig list \<Rightarrow> bytes list" where
  "CollectTCPPorts sets = mergeAndNormalizePorts (collect_ports (\<lambda>st. tcp_DPortFilter (TCP st)) sets)"

text \<open>The ports one text adds to the table: a loop over \<open>start..end\<close>, each converted to \<open>uint16\<close>. With
  the largest \<open>int\<close> as its end the loop never stops, which is \<^term>\<open>None\<close>.\<close>
definition port_entries :: "bytes \<Rightarrow> uint16 list option" where
  "port_entries p =
     (let p = trim p in
      if 45 \<in> set p then
        (case split_on 45 p of
           [a, b] \<Rightarrow> let s = fst (Atoi a); e = fst (Atoi b)
                     in if e = 2 ^ 63 - 1 then None else Some (map of_int [s..e])
         | _ \<Rightarrow> Some [])
      else let port = fst (Atoi p) in Some (if port > 0 then [of_int port] else []))"

text \<open>\<open>tcpPortMap\<close> as the set of its keys\<close>
definition BuildTCPPortMap :: "SetConfig list \<Rightarrow> uint16 set option" where
  "BuildTCPPortMap sets =
     (let es = map port_entries (CollectTCPPorts sets)
      in if None \<in> set es then None else Some (set (concat (map the es))))"

text \<open>\<^verbatim>\<open>utils.ValidatePorts\<close>, which every filter passes before the tables are built: one part, then the
  list.\<close>
definition valid_port :: "bytes \<Rightarrow> bytes option" where
  "valid_port part =
     (let part = map (\<lambda>b. if b = 58 then 45 else b) (trim part) in
      if 45 \<in> set part then
        (case split_on 45 part of
           [b0, b1] \<Rightarrow>
             let (startPort, ok1) = Atoi (trim b0); (endPort, ok2) = Atoi (trim b1)
             in if \<not> ok1 \<or> \<not> ok2 \<or> startPort < 1 \<or> startPort > 65535 \<or> endPort < 1 \<or> endPort > 65535
                then None
                else if startPort \<ge> endPort then None
                else Some (dec (nat startPort) @ 45 # dec (nat endPort))
         | _ \<Rightarrow> None)
      else let port = trim part; (portNum, ok) = Atoi port
           in if \<not> ok \<or> portNum < 1 \<or> portNum > 65535 then None else Some port)"

fun join_on :: "byte \<Rightarrow> bytes list \<Rightarrow> bytes" where
  "join_on c [] = []"
| "join_on c [p] = p"
| "join_on c (p # q # ps) = p @ c # join_on c (q # ps)"

definition ValidatePorts :: "bytes \<Rightarrow> bytes" where
  "ValidatePorts ports =
     (if ports = [] then [] else join_on 44 (List.map_filter valid_port (split_on 44 ports)))"

text \<open>\<^term>\<open>None\<close> is a table that has not been built.\<close>
definition IsTCPPort :: "uint16 set option \<Rightarrow> uint16 \<Rightarrow> bool" where
  "IsTCPPort tcpPortMap port = (case tcpPortMap of None \<Rightarrow> port = 443 | Some m \<Rightarrow> port \<in> m)"

section \<open>Escalation chains\<close>

text \<open>\<open>byID\<close> maps an id to the position of its set; a later set with the same id wins.\<close>
fun by_id :: "nat \<Rightarrow> SetConfig list \<Rightarrow> (bytes, nat) gomap \<Rightarrow> (bytes, nat) gomap" where
  "by_id i [] m = m"
| "by_id i (s # ss) m = by_id (Suc i) ss (if Id s \<noteq> [] then gput (Id s) i m else m)"

definition clear_to :: "SetConfig \<Rightarrow> SetConfig" where
  "clear_to s = s\<lparr>Escalate := (Escalate s)\<lparr>To := []\<rparr>\<rparr>"

definition esc_to :: "SetConfig \<Rightarrow> bytes" where
  "esc_to s = To (Escalate s)"

text \<open>The first loop body: references to itself, to unknown and to disabled sets are cleared.\<close>
definition fix_target :: "(bytes, nat) gomap \<Rightarrow> SetConfig list \<Rightarrow> SetConfig \<Rightarrow> SetConfig" where
  "fix_target byID sets s =
     (if esc_to s = [] then s
      else if esc_to s = Id s then clear_to s
      else case gget byID (esc_to s) of None \<Rightarrow> clear_to s
        | Some j \<Rightarrow> if \<not> Enabled (sets ! j) then clear_to s else s)"

lemma filter_unseen_less:
  "gget m k = Some j \<Longrightarrow> k \<notin> set seen \<Longrightarrow>
   length (filter (\<lambda>(k', v). k' \<noteq> k \<and> k' \<notin> set seen) m) < length (filter (\<lambda>(k', v). k' \<notin> set seen) m)"
  using length_filter_less [of "(k, j)" "filter (\<lambda>(k', v). k' \<notin> set seen) m" "\<lambda>(k', v). k' \<noteq> k"]
  by (auto dest: map_of_SomeD simp: case_prod_unfold conj_commute)

text \<open>The walk along one chain; the set at which it closes a cycle loses its target.\<close>
function chain_loop ::
  "(bytes, nat) gomap \<Rightarrow> bytes list \<Rightarrow> nat \<Rightarrow> SetConfig list \<Rightarrow> SetConfig list" where
  "chain_loop byID seen cur sets =
     (if esc_to (sets ! cur) = [] then sets
      else if esc_to (sets ! cur) \<in> set seen then sets[cur := clear_to (sets ! cur)]
      else case gget byID (esc_to (sets ! cur)) of None \<Rightarrow> sets
        | Some j \<Rightarrow> chain_loop byID (esc_to (sets ! cur) # seen) j sets)"
  by pat_completeness auto

termination
  by (relation "measure (\<lambda>(m, seen, cur, sets). length (filter (\<lambda>(k, v). k \<notin> set seen) m))")
    (auto intro: filter_unseen_less)

declare chain_loop.simps [simp del]

definition break_chain :: "(bytes, nat) gomap \<Rightarrow> nat \<Rightarrow> SetConfig list \<Rightarrow> SetConfig list" where
  "break_chain byID i sets =
     (if esc_to (sets ! i) = [] then sets else chain_loop byID [Id (sets ! i)] i sets)"

definition sanitizeEscalation :: "SetConfig list \<Rightarrow> SetConfig list" where
  "sanitizeEscalation sets =
     (let byID = by_id 0 sets [];
          sets = map (fix_target byID sets) sets
      in fold (break_chain byID) [0..<length sets] sets)"

section \<open>The table of intercepted ports\<close>

lemma split_on_not_Nil: "split_on c s \<noteq> []"
  by (induction s) (auto split: list.splits)

lemma split_on_none: "c \<notin> set s \<Longrightarrow> split_on c s = [s]"
  by (induction s) auto

lemma split_on_append: "c \<notin> set a \<Longrightarrow> split_on c (a @ c # b) = a # split_on c b"
  by (induction a) (auto split: list.splits)

lemma split_join: "ps \<noteq> [] \<Longrightarrow> \<forall>p \<in> set ps. c \<notin> set p \<Longrightarrow> split_on c (join_on c ps) = ps"
  by (induction c ps rule: join_on.induct) (auto simp: split_on_none split_on_append)

lemma split_on_parts: "p \<in> set (split_on c s) \<Longrightarrow> c \<notin> set p"
proof (induction s arbitrary: p)
  case (Cons b s)
  then show ?case using split_on_not_Nil [of c s] by (force split: if_splits list.splits)
qed simp

lemma dec_not_Nil: "dec n \<noteq> []"
  by (subst dec.simps) simp

lemma dec_digit: "list_all digit (dec n)"
  using dec_digits [of n] by (auto simp: list_all_iff digit_def)

lemma Atoi_dec: "int n < 2 ^ 63 \<Longrightarrow> Atoi (dec n) = (int n, True)"
proof -
  assume n: "int n < 2 ^ 63"
  have "hd (dec n) \<in> set (dec n)" using dec_not_Nil by simp
  then have "hd (dec n) \<noteq> 45" "hd (dec n) \<noteq> 43" using dec_not [of 45 n] dec_not [of 43 n] by auto
  then show ?thesis using n dec_digit [of n] by (simp add: Atoi_def dec_not_Nil dec_val_dec)
qed

lemma trim_id: "\<forall>b \<in> set s. \<not> ascii_space b \<Longrightarrow> trim s = s"
proof -
  assume a: "\<forall>b \<in> set s. \<not> ascii_space b"
  have "dropWhile ascii_space s = s" using a by (cases s) auto
  moreover have "dropWhile ascii_space (rev s) = rev s" using a by (cases "rev s") (auto simp: rev_eq_Cons_iff)
  ultimately show ?thesis by (simp add: trim_def)
qed

lemma trim_dash_dec: "trim (dec a @ 45 # dec b) = dec a @ 45 # dec b" "trim (dec a) = dec a"
  by (auto intro!: trim_id simp: ascii_space_def dec_not)

text \<open>A part that validation lets through, with the ports it stands for.\<close>
definition good_part :: "bytes \<Rightarrow> int \<times> int \<Rightarrow> bool" where
  "good_part p r \<longleftrightarrow> 44 \<notin> set p \<and> 1 \<le> fst r \<and> fst r \<le> snd r \<and> snd r \<le> 65535 \<and>
     (p = dec (nat (fst r)) @ 45 # dec (nat (snd r)) \<or>
      45 \<notin> set p \<and> 58 \<notin> set p \<and> p \<noteq> [] \<and> trim p = p \<and> fst r = snd r \<and> Atoi p = (fst r, True))"

lemma trim_trim: "trim (trim s) = trim s"
proof -
  define d where "d = dropWhile ascii_space s"
  have "dropWhile ascii_space (rev (dropWhile ascii_space (rev d))) = rev (dropWhile ascii_space (rev d))"
  proof (cases "dropWhile ascii_space (rev d)")
    case Nil
    show ?thesis by (simp only: Nil rev.simps dropWhile.simps)
  next
    case (Cons b bs)
    then obtain u where u: "rev d = u @ b # bs" by (metis takeWhile_dropWhile_id)
    have "rev (b # bs) \<noteq> []" by simp
    then have "hd (rev (b # bs)) = hd d" using u by (metis hd_append2 rev_append rev_rev_ident)
    moreover have "\<not> ascii_space (hd d)"
      using u hd_dropWhile [of ascii_space s] by (fastforce simp: d_def)
    ultimately show ?thesis using Cons by (cases "rev (b # bs)") auto
  qed
  then show ?thesis by (simp add: trim_def d_def dropWhile_idem)
qed

lemma set_trim: "set (trim s) \<subseteq> set s"
  by (auto simp: trim_def dest!: set_dropWhileD)

lemma valid_port_good:
  assumes "valid_port p = Some q" "44 \<notin> set p"
  shows "\<exists>r. good_part q r"
proof -
  define u where "u = map (\<lambda>b. if b = 58 then 45 else b) (trim p)"
  have c: "44 \<notin> set u" "58 \<notin> set u" using assms(2) set_trim [of p] by (auto simp: u_def)
  show ?thesis
  proof (cases "45 \<in> set u")
    case True
    then obtain a b where ab: "1 \<le> a" "a < b" "b \<le> 65535" "q = dec (nat a) @ 45 # dec (nat b)"
      using assms(1)
      by (auto simp: valid_port_def u_def [symmetric] Let_def split: list.splits prod.splits if_splits)
        (metis not_le not_less)
    moreover have "44 \<notin> set q" using dec_not [of 44] by (simp add: ab)
    ultimately show ?thesis by (intro exI [of _ "(a, b)"]) (simp add: good_part_def)
  next
    case False
    then obtain n where n: "q = trim u" "Atoi q = (n, True)" "1 \<le> n" "n \<le> 65535"
      using assms(1) by (auto simp: valid_port_def u_def [symmetric] Let_def split: prod.splits if_splits)
    moreover have "set q \<subseteq> set u" using set_trim by (simp add: n)
    moreover have "q \<noteq> []" using n(2) by (auto simp: Atoi_def)
    ultimately show ?thesis
      using False c by (intro exI [of _ "(n, n)"]) (auto simp: good_part_def trim_trim)
  qed
qed

lemma good_part_parses:
  assumes "good_part p r"
  shows "parse_merge p = Some r"
    "parsePortRangeStr p = Some \<lparr>pr_Min = of_int (fst r), pr_Max = of_int (snd r)\<rparr>" "trim p = p" "p \<noteq> []"
proof -
  obtain a b where r: "r = (a, b)" by (cases r)
  have ab: "1 \<le> a" "a \<le> b" "b \<le> 65535" using assms by (auto simp: good_part_def r)
  have A: "Atoi (dec (nat a)) = (a, True)" "Atoi (dec (nat b)) = (b, True)"
    using ab by (simp_all add: Atoi_dec)
  have i: "map (\<lambda>c. if c = 58 then 45 else c) p = p" if "58 \<notin> set p"
    using that by (intro map_idI) auto
  have "parse_merge p = Some r \<and>
      parsePortRangeStr p = Some \<lparr>pr_Min = of_int a, pr_Max = of_int b\<rparr> \<and> trim p = p \<and> p \<noteq> []"
  proof (cases "p = dec (nat a) @ 45 # dec (nat b)")
    case True
    have d: "45 \<notin> set (dec n)" "58 \<notin> set (dec n)" for n by (simp_all add: dec_not)
    have "split2 45 p = [dec (nat a), dec (nat b)]"
      using d by (auto simp: split2_def True takeWhile_append takeWhile_eq_all_conv dropWhile_append)
    moreover have "split_on 45 p = [dec (nat a), dec (nat b)]"
      using d by (simp add: True split_on_append split_on_none)
    moreover have "58 \<notin> set p" using d by (simp add: True)
    ultimately show ?thesis
      using ab trim_dash_dec(1) [of "nat a" "nat b"] i
      by (simp add: parse_merge_def parsePortRangeStr_def A r True [symmetric]) (simp add: True)
  next
    case False
    then have "45 \<notin> set p" "58 \<notin> set p" "p \<noteq> []" "trim p = p" "a = b" "Atoi p = (a, True)"
      using assms by (auto simp: good_part_def r)
    then show ?thesis using ab i by (simp add: parse_merge_def parsePortRangeStr_def r)
  qed
  then show "parse_merge p = Some r" "trim p = p" "p \<noteq> []"
    "parsePortRangeStr p = Some \<lparr>pr_Min = of_int (fst r), pr_Max = of_int (snd r)\<rparr>" by (simp_all add: r)
qed

definition covers :: "(int \<times> int) list \<Rightarrow> int \<Rightarrow> bool" where
  "covers rs x \<longleftrightarrow> (\<exists>r \<in> set rs. fst r \<le> x \<and> x \<le> snd r)"

definition range_ok :: "int \<times> int \<Rightarrow> bool" where
  "range_ok r \<longleftrightarrow> 1 \<le> fst r \<and> fst r \<le> snd r \<and> snd r \<le> 65535"

lemma wrap64_small: "0 \<le> x \<Longrightarrow> x < 2 ^ 63 \<Longrightarrow> wrap64 x = x"
  by (simp add: wrap64_def)

lemma merge_loop_covers:
  assumes "range_ok l" "\<forall>r \<in> set rs. range_ok r" "sorted (map fst (l # rs))"
  shows "(\<forall>x. covers (merge_loop l rs) x = covers (l # rs) x) \<and> (\<forall>r \<in> set (merge_loop l rs). range_ok r)"
  using assms
proof (induction rs arbitrary: l)
  case (Cons c rs)
  have w: "wrap64 (snd l + 1) = snd l + 1" using Cons.prems(1) by (intro wrap64_small) (auto simp: range_ok_def)
  have s: "sorted (map fst (c # rs))" "fst l \<le> fst c" "\<forall>r \<in> set rs. fst l \<le> fst r" using Cons.prems(3) by auto
  show ?case
  proof (cases "fst c \<le> snd l + 1")
    case True
    define m where "m = (fst l, if snd c > snd l then snd c else snd l)"
    have "range_ok m" using Cons.prems(1,2) by (auto simp: range_ok_def m_def)
    then have ih: "(\<forall>x. covers (merge_loop m rs) x = covers (m # rs) x) \<and> (\<forall>r \<in> set (merge_loop m rs). range_ok r)"
      using Cons.prems(2) s by (intro Cons.IH) (auto simp: m_def)
    have "covers (m # rs) x = covers (l # c # rs) x" for x
      using True s(2) Cons.prems(1,2) by (auto simp: covers_def m_def range_ok_def)
    then show ?thesis using ih True by (simp add: w m_def)
  next
    case False
    then show ?thesis using Cons.IH [of c] Cons.prems s by (auto simp: covers_def w)
  qed
qed (auto simp: covers_def)

lemma merge_ranges_covers:
  assumes "\<forall>r \<in> set rs. range_ok r"
  shows "covers (merge_ranges rs) x = covers rs x" "\<forall>r \<in> set (merge_ranges rs). range_ok r"
proof -
  have "(covers (merge_ranges rs) x = covers rs x) \<and> (\<forall>r \<in> set (merge_ranges rs). range_ok r)"
  proof (cases "sort_key fst rs")
    case Nil
    then have "rs = []" by (metis length_0_conv length_sort)
    then show ?thesis by (simp add: merge_ranges_def covers_def)
  next
    case (Cons l ls)
    have st: "set (l # ls) = set rs" by (metis Cons set_sort)
    have "sorted (map fst (l # ls))" by (metis Cons sorted_sort_key)
    then have "(\<forall>x. covers (merge_loop l ls) x = covers (l # ls) x) \<and> (\<forall>r \<in> set (merge_loop l ls). range_ok r)"
      using assms st by (intro merge_loop_covers) auto
    moreover have "covers (l # ls) x = covers rs x" by (simp only: covers_def st)
    ultimately show ?thesis by (simp add: merge_ranges_def Cons)
  qed
  then show "covers (merge_ranges rs) x = covers rs x" "\<forall>r \<in> set (merge_ranges rs). range_ok r" by auto
qed

lemma port_entries_print:
  assumes "range_ok r"
  shows "\<exists>es. port_entries (print_range r) = Some es \<and>
     (\<forall>port. port \<in> set es \<longleftrightarrow> fst r \<le> uint port \<and> uint port \<le> snd r)"
proof -
  obtain a b where r: "r = (a, b)" by (cases r)
  have ab: "1 \<le> a" "a \<le> b" "b \<le> 65535" using assms by (auto simp: range_ok_def r)
  have A: "Atoi (dec (nat a)) = (a, True)" "Atoi (dec (nat b)) = (b, True)" using ab by (simp_all add: Atoi_dec)
  have u: "uint (of_int k :: uint16) = k" if "0 \<le> k" "k \<le> 65535" for k
    using that by (simp add: uint_word_of_int_eq take_bit_int_eq_self)
  have m: "port \<in> set (map of_int [a..b]) \<longleftrightarrow> a \<le> uint port \<and> uint port \<le> b" for port :: uint16
  proof
    assume "port \<in> set (map of_int [a..b])"
    then obtain k where "port = of_int k" "a \<le> k" "k \<le> b" by auto
    then show "a \<le> uint port \<and> uint port \<le> b" using u [of k] ab by simp
  next
    assume "a \<le> uint port \<and> uint port \<le> b"
    then show "port \<in> set (map of_int [a..b])" by (auto intro!: image_eqI [of _ _ "uint port"])
  qed
  have d: "45 \<notin> set (dec n)" for n by (simp add: dec_not)
  show ?thesis
  proof (cases "a = b")
    case True
    then show ?thesis using ab d m by (auto simp: print_range_def port_entries_def r trim_dash_dec A)
  next
    case False
    then have "port_entries (print_range r) = Some (map of_int [a..b])"
      using ab d by (simp add: print_range_def port_entries_def r trim_dash_dec split_on_append split_on_none A)
    then show ?thesis using m by (simp add: r)
  qed
qed

text \<open>The parts of a validated filter, with their port ranges\<close>
lemma validated_parts:
  assumes "f = ValidatePorts raw" "f \<noteq> []"
  shows "\<exists>rs. list_all2 good_part (split_on 44 f) rs"
proof -
  define ps where "ps = List.map_filter valid_port (split_on 44 raw)"
  have g: "\<exists>r. good_part p r" if "p \<in> set ps" for p
    using that valid_port_good split_on_parts [of _ 44 raw] by (auto simp: ps_def map_filter_def)
  have f: "f = join_on 44 ps" using assms by (auto simp: ValidatePorts_def ps_def split: if_splits)
  then have "ps \<noteq> []" using assms(2) by auto
  moreover have "\<forall>p \<in> set ps. 44 \<notin> set p" using g by (auto simp: good_part_def)
  ultimately have "split_on 44 f = ps" by (simp add: f split_join)
  then show ?thesis
    using g by (intro exI [of _ "map (\<lambda>p. SOME r. good_part p r) ps"])
      (auto simp: list_all2_conv_all_nth intro: someI_ex)
qed

lemma good_part_lists:
  assumes "list_all2 good_part ps rs"
  shows "List.map_filter parse_merge ps = rs" "\<forall>r \<in> set rs. range_ok r"
    "List.map_filter parsePortRangeStr ps = map (\<lambda>r. \<lparr>pr_Min = of_int (fst r), pr_Max = of_int (snd r)\<rparr>) rs"
    "filter (\<lambda>p. p \<noteq> []) (map trim ps) = ps"
  using assms
  by (induction rule: list_all2_induct)
    (auto simp: map_filter_def good_part_parses, auto simp: good_part_def range_ok_def)

lemma in_ranges_covers:
  assumes "\<forall>r \<in> set rs. range_ok r"
  shows "in_ranges (map (\<lambda>r. \<lparr>pr_Min = of_int (fst r), pr_Max = of_int (snd r)\<rparr>) rs) port = covers rs (uint port)"
proof -
  have u: "uint (of_int k :: uint16) = k" if "0 \<le> k" "k \<le> 65535" for k
    using that by (simp add: uint_word_of_int_eq take_bit_int_eq_self)
  show ?thesis
    using assms by (induction rs) (auto simp: in_ranges_def covers_def range_ok_def word_le_def u)
qed

text \<open>What one set contributes\<close>
lemma collected_ranges:
  assumes "f = ValidatePorts raw"
  shows "\<exists>rs. List.map_filter parse_merge (if f = [] then [] else filter (\<lambda>p. p \<noteq> []) (map trim (split_on 44 f))) = rs \<and>
     (\<forall>r \<in> set rs. range_ok r) \<and> (\<forall>port. in_ranges (port_ranges f) port = covers rs (uint port))"
proof (cases "f = []")
  case True
  then show ?thesis by (simp add: map_filter_def port_ranges_def in_ranges_def covers_def)
next
  case False
  then obtain rs where "list_all2 good_part (split_on 44 f) rs" using validated_parts [OF assms] by blast
  note g = good_part_lists [OF this]
  then show ?thesis using False in_ranges_covers [OF g(2)] by (simp add: port_ranges_def)
qed

lemma map_filter_append: "List.map_filter g (xs @ ys) = List.map_filter g xs @ List.map_filter g ys"
  by (simp add: map_filter_def)

lemma parse_443: "parse_merge [52, 52, 51] = Some (443, 443)"
proof -
  have "Atoi [52, 52, 51] = (443, True)" by (simp add: Atoi_def digit_def dec_val_def)
  moreover have "trim [52, 52, 51] = [52, 52, 51]" by (simp add: trim_def ascii_space_def)
  ultimately show ?thesis by (simp add: parse_merge_def)
qed

lemma collect_ports_ranges:
  assumes "\<forall>s \<in> set sets. \<exists>raw. flt s = ValidatePorts raw"
  shows "\<exists>rs. List.map_filter parse_merge (collect_ports flt sets) = (443, 443) # rs \<and> (\<forall>r \<in> set rs. range_ok r) \<and>
     (\<forall>port. covers rs (uint port) = (\<exists>s \<in> set sets. Enabled s \<and> in_ranges (port_ranges (flt s)) port))"
  using assms
proof (induction sets)
  case Nil
  show ?case by (simp add: collect_ports_def map_filter_simps parse_443 covers_def)
next
  case (Cons s sets)
  then obtain rs where rs: "List.map_filter parse_merge (collect_ports flt sets) = (443, 443) # rs"
      "\<forall>r \<in> set rs. range_ok r"
      "\<forall>port. covers rs (uint port) = (\<exists>s \<in> set sets. Enabled s \<and> in_ranges (port_ranges (flt s)) port)"
    by auto
  obtain raw where "flt s = ValidatePorts raw" using Cons.prems by auto
  then obtain qs where qs: "List.map_filter parse_merge (if flt s = [] then []
        else filter (\<lambda>p. p \<noteq> []) (map trim (split_on 44 (flt s)))) = qs"
      "\<forall>r \<in> set qs. range_ok r" "\<forall>port. in_ranges (port_ranges (flt s)) port = covers qs (uint port)"
    using collected_ranges by blast
  let ?qs = "if Enabled s then qs else []"
  have "List.map_filter parse_merge (collect_ports flt (s # sets)) = (443, 443) # ?qs @ rs"
    using rs(1) qs(1)
    by (auto simp: collect_ports_def map_filter_simps map_filter_append parse_443 split: if_splits)
  moreover have "covers (?qs @ rs) x = (covers ?qs x \<or> covers rs x)" for x by (simp add: covers_def bex_Un)
  ultimately show ?case
    using rs(2,3) qs(2,3) by (intro exI [of _ "?qs @ rs"]) (auto simp: covers_def [of "[]"])
qed

text \<open>C31: the table of intercepted TCP ports. For filters that went through validation, building the
  table ends, and a port is intercepted exactly if it is 443 or lies in a range of an enabled set's
  filter, as the per-set port check reads that filter. So splitting, trimming, merging, printing and
  parsing the port lists again loses and adds no port.\<close>
theorem BuildTCPPortMap_correct:
  assumes "\<forall>s \<in> set sets. \<exists>raw. tcp_DPortFilter (TCP s) = ValidatePorts raw"
  shows "\<exists>m. BuildTCPPortMap sets = Some m \<and>
    (\<forall>port. IsTCPPort (Some m) port \<longleftrightarrow>
       port = 443 \<or> (\<exists>s \<in> set sets. Enabled s \<and> in_ranges (port_ranges (tcp_DPortFilter (TCP s))) port))"
proof -
  obtain rs where rs: "List.map_filter parse_merge (collect_ports (\<lambda>s. tcp_DPortFilter (TCP s)) sets) = (443, 443) # rs"
      "\<forall>r \<in> set rs. range_ok r"
      "\<forall>port. covers rs (uint port) = (\<exists>s \<in> set sets. Enabled s \<and> in_ranges (port_ranges (tcp_DPortFilter (TCP s))) port)"
    using collect_ports_ranges [OF assms] by blast
  let ?rs = "(443, 443) # rs"
  have ok: "\<forall>r \<in> set ?rs. range_ok r" using rs(2) by (simp add: range_ok_def)
  note m = merge_ranges_covers [OF ok]
  define ms where "ms = merge_ranges ?rs"
  have c: "CollectTCPPorts sets = map print_range ms"
    by (simp add: CollectTCPPorts_def mergeAndNormalizePorts_def rs(1) ms_def)
  define e where "e = (\<lambda>r. the (port_entries (print_range r)))"
  have e: "port_entries (print_range r) = Some (e r)"
      "port \<in> set (e r) \<longleftrightarrow> fst r \<le> uint port \<and> uint port \<le> snd r" if "r \<in> set ms" for r port
    using port_entries_print [of r] m(2) that by (auto simp: e_def ms_def)
  have es: "map port_entries (CollectTCPPorts sets) = map (\<lambda>r. Some (e r)) ms" using e(1) by (simp add: c)
  have "BuildTCPPortMap sets = Some (\<Union>r \<in> set ms. set (e r))"
    unfolding BuildTCPPortMap_def Let_def es by (auto simp: comp_def)
  moreover have "port \<in> (\<Union>r \<in> set ms. set (e r)) \<longleftrightarrow> port = 443 \<or> covers rs (uint port)" for port :: uint16
  proof -
    have "port \<in> (\<Union>r \<in> set ms. set (e r)) \<longleftrightarrow> covers ms (uint port)" using e(2) by (auto simp: covers_def)
    also have "\<dots> \<longleftrightarrow> covers ?rs (uint port)" using m(1) by (simp add: ms_def)
    also have "\<dots> \<longleftrightarrow> uint port = 443 \<or> covers rs (uint port)" by (auto simp: covers_def)
    finally show ?thesis by (simp add: word_uint_eq_iff)
  qed
  ultimately show ?thesis using rs(3) by (simp add: IsTCPPort_def)
qed

definition sample_port_set :: SetConfig where
  "sample_port_set = (plain_set [97])\<lparr>TCP := (TCP (plain_set [97]))\<lparr>tcp_DPortFilter := [56, 48]\<rparr>\<rparr>"

theorem BuildTCPPortMap_witness:
  "\<exists>m. BuildTCPPortMap [sample_port_set] = Some m \<and> IsTCPPort (Some m) 80 \<and> \<not> IsTCPPort (Some m) 81"
proof -
  have a: "Atoi [56, 48] = (80, True)" by (simp add: Atoi_def digit_def dec_val_def)
  have t: "trim [56, 48] = [56, 48]" by (simp add: trim_def ascii_space_def)
  have f: "tcp_DPortFilter (TCP sample_port_set) = [56, 48]" "Enabled sample_port_set"
    by (simp_all add: sample_port_set_def plain_defs)
  have "tcp_DPortFilter (TCP sample_port_set) = ValidatePorts [56, 48]"
    by (simp add: f ValidatePorts_def map_filter_simps valid_port_def t a)
  moreover have "port_ranges [56, 48] = [\<lparr>pr_Min = 80, pr_Max = 80\<rparr>]"
    by (simp add: port_ranges_def map_filter_simps parsePortRangeStr_def t a)
  ultimately obtain m where "BuildTCPPortMap [sample_port_set] = Some m"
      "\<And>port. IsTCPPort (Some m) port \<longleftrightarrow> port = 443 \<or> (80 \<le> port \<and> port \<le> 80)"
    using BuildTCPPortMap_correct [of "[sample_port_set]"] by (auto simp: f in_ranges_def)
  then show ?thesis by auto
qed

section \<open>Escalation chains end\<close>

lemma by_id_spec:
  assumes "gget (by_id n ss m) k = Some j"
  shows "gget m k = Some j \<or> n \<le> j \<and> j < n + length ss \<and> Id (ss ! (j - n)) = k"
  using assms
proof (induction n ss m rule: by_id.induct)
  case (2 i s ss m)
  then show ?case by (auto simp: gget_gput nth_Cons' split: if_splits)
qed simp

lemma by_id_total: "\<exists>j. gget (by_id n ss m) k = Some j" if "k \<noteq> []" "k \<in> Id ` set ss \<or> gget m k \<noteq> None"
  using that
proof (induction n ss m rule: by_id.induct)
  case (2 i s ss m)
  then show ?case by (auto simp: gget_gput)
qed simp

lemma esc_to_clear [simp]: "esc_to (clear_to s) = []" "Id (clear_to s) = Id s" "Enabled (clear_to s) = Enabled s"
  by (simp_all add: clear_to_def esc_to_def)

lemma clear_to_twice [simp]: "clear_to (clear_to s) = clear_to s"
  by (simp add: clear_to_def)

text \<open>Sets of which some have lost their target\<close>
definition cleared :: "SetConfig list \<Rightarrow> SetConfig list \<Rightarrow> bool" where
  "cleared ss ss' \<longleftrightarrow> list_all2 (\<lambda>s s'. s' = s \<or> s' = clear_to s) ss ss'"

lemma cleared_refl [simp]: "cleared ss ss"
  by (simp add: cleared_def list_all2_refl)

lemma cleared_trans: "cleared a b \<Longrightarrow> cleared b c \<Longrightarrow> cleared a c"
  unfolding cleared_def list_all2_conv_all_nth by (metis clear_to_twice)

lemma cleared_nth: "cleared a b \<Longrightarrow> i < length a \<Longrightarrow> b ! i = a ! i \<or> b ! i = clear_to (a ! i)"
  by (auto simp: cleared_def dest: list_all2_nthD)

lemma cleared_length: "cleared a b \<Longrightarrow> length b = length a"
  by (simp add: cleared_def list_all2_lengthD)

lemma cleared_update: "cleared ss (ss[i := clear_to (ss ! i)])"
  unfolding cleared_def list_all2_conv_all_nth
proof (intro conjI allI impI)
  fix k assume "k < length ss"
  then show "ss[i := clear_to (ss ! i)] ! k = ss ! k \<or> ss[i := clear_to (ss ! i)] ! k = clear_to (ss ! k)"
    by (cases "i = k") auto
qed simp

lemma chain_loop_cleared: "cleared ss (chain_loop m seen cur ss)"
proof (induction m seen cur ss rule: chain_loop.induct)
  case (1 m seen cur ss)
  then show ?case by (subst chain_loop.simps) (auto simp: cleared_update split: option.splits)
qed

text \<open>Following the targets from a set comes to an end.\<close>
inductive chain_ends :: "(bytes, nat) gomap \<Rightarrow> SetConfig list \<Rightarrow> nat \<Rightarrow> bool" for m ss where
  stop: "esc_to (ss ! i) = [] \<or> gget m (esc_to (ss ! i)) = None \<Longrightarrow> chain_ends m ss i"
| hop: "gget m (esc_to (ss ! i)) = Some j \<Longrightarrow> chain_ends m ss j \<Longrightarrow> chain_ends m ss i"

definition ids_ok :: "(bytes, nat) gomap \<Rightarrow> nat \<Rightarrow> bool" where
  "ids_ok m n \<longleftrightarrow> (\<forall>k j. gget m k = Some j \<longrightarrow> j < n)"

lemma chain_ends_cleared:
  assumes "chain_ends m ss i" "i < length ss" "ids_ok m (length ss)" "cleared ss ss'"
  shows "chain_ends m ss' i"
  using assms
proof (induction rule: chain_ends.induct)
  case (stop i)
  then show ?case using cleared_nth [of ss ss' i] by (auto intro: chain_ends.stop)
next
  case (hop i j)
  then have "chain_ends m ss' j" by (auto simp: ids_ok_def)
  then show ?case using hop cleared_nth [of ss ss' i] by (auto intro: chain_ends.intros)
qed

lemma chain_loop_ends:
  assumes "cur < length ss" "ids_ok m (length ss)"
  shows "chain_ends m (chain_loop m seen cur ss) cur"
  using assms
proof (induction m seen cur ss rule: chain_loop.induct)
  case (1 m seen cur ss)
  let ?t = "esc_to (ss ! cur)"
  consider (nil) "?t = []" | (cut) "?t \<noteq> []" "?t \<in> set seen" | (out) "?t \<noteq> []" "?t \<notin> set seen" "gget m ?t = None"
    | (go) j where "?t \<noteq> []" "?t \<notin> set seen" "gget m ?t = Some j"
    by fastforce
  then show ?case
  proof cases
    case go
    have "j < length ss" using go(3) 1(3) by (auto simp: ids_ok_def)
    then have e: "chain_ends m (chain_loop m (?t # seen) j ss) j" using 1 go by auto
    have "chain_loop m seen cur ss = chain_loop m (?t # seen) j ss"
      using go by (subst chain_loop.simps) simp
    then show ?thesis
      using e go(3) cleared_nth [OF chain_loop_cleared 1(2), of m "?t # seen" j]
      by (auto intro: chain_ends.intros)
  qed (use 1(2) in \<open>(subst chain_loop.simps, simp add: chain_ends.stop)+\<close>)
qed

lemma fold_break_chain:
  assumes "ids_ok m (length ss)" "\<forall>i \<in> set is. i < length ss" "\<forall>i \<in> D. i < length ss \<and> chain_ends m ss i"
  shows "cleared ss (fold (break_chain m) is ss) \<and>
     (\<forall>i \<in> D \<union> set is. chain_ends m (fold (break_chain m) is ss) i)"
  using assms
proof (induction "is" arbitrary: ss D)
  case (Cons i "is")
  let ?s = "break_chain m i ss"
  have c: "cleared ss ?s" by (simp add: break_chain_def chain_loop_cleared)
  have l: "length ?s = length ss" using cleared_length [OF c] .
  have "chain_ends m ?s i"
    using chain_loop_ends [of i ss m "[Id (ss ! i)]"] Cons.prems by (auto simp: break_chain_def intro: chain_ends.stop)
  moreover have "chain_ends m ?s k" if "k \<in> D" for k
    using chain_ends_cleared [OF _ _ Cons.prems(1) c] Cons.prems(3) that by blast
  ultimately have "cleared ?s (fold (break_chain m) is ?s) \<and>
      (\<forall>k \<in> insert i D \<union> set is. chain_ends m (fold (break_chain m) is ?s) k)"
    using Cons.prems by (intro Cons.IH) (auto simp: l)
  then show ?case using cleared_trans [OF c] by auto
qed simp

text \<open>The set that a set escalates to, by position\<close>
definition esc_edges :: "SetConfig list \<Rightarrow> (nat \<times> nat) set" where
  "esc_edges ss = {(i, j). i < length ss \<and> j < length ss \<and> esc_to (ss ! i) \<noteq> [] \<and> Id (ss ! j) = esc_to (ss ! i)}"

lemma chain_ends_acyclic:
  assumes "\<And>i. i < length ss \<Longrightarrow> chain_ends m ss i"
    and "\<And>i j. (i, j) \<in> esc_edges ss \<Longrightarrow> gget m (esc_to (ss ! i)) = Some j"
  shows "acyclic (esc_edges ss)"
proof -
  have "i \<in> Wellfounded.acc ((esc_edges ss)\<inverse>)" if "chain_ends m ss i" for i
    using that
  proof (induction rule: chain_ends.induct)
    case (stop i)
    then have "(i, k) \<notin> esc_edges ss" for k using assms(2) [of i k] by (auto simp: esc_edges_def)
    then show ?case by (auto intro!: accI [of i])
  next
    case (hop i j)
    then have "k = j" if "(i, k) \<in> esc_edges ss" for k using assms(2) [OF that] by simp
    then show ?case using hop.IH by (auto intro!: accI [of i])
  qed
  moreover have "i \<in> Wellfounded.acc ((esc_edges ss)\<inverse>)" if "\<not> i < length ss" for i
    by (rule accI) (use that in \<open>auto simp: esc_edges_def\<close>)
  ultimately have "\<forall>i. i \<in> Wellfounded.acc ((esc_edges ss)\<inverse>)" using assms(1) by blast
  then have "wf ((esc_edges ss)\<inverse>)" by (rule acc_wfI)
  then have "acyclic ((esc_edges ss)\<inverse>)" by (rule wf_acyclic)
  then show ?thesis by (simp only: acyclic_converse)
qed

lemma fix_target_cleared: "cleared ss (map (fix_target m u) ss)"
  unfolding cleared_def list_all2_conv_all_nth by (auto simp: fix_target_def split: option.splits)

lemma fix_target_sound:
  "esc_to (fix_target m u s) \<noteq> [] \<Longrightarrow>
   fix_target m u s = s \<and> esc_to s \<noteq> Id s \<and> (\<exists>j. gget m (esc_to s) = Some j \<and> Enabled (u ! j))"
  by (auto simp: fix_target_def split: if_splits option.splits)

lemma cleared_Id: "cleared a b \<Longrightarrow> i < length a \<Longrightarrow> Id (b ! i) = Id (a ! i) \<and> Enabled (b ! i) = Enabled (a ! i)"
  using cleared_nth by fastforce

text \<open>C8: \<^const>\<open>sanitizeEscalation\<close> removes exactly targets and nothing else, every target that
  is left names another set that is enabled, and following targets from set to set never returns
  to a set already visited. The validated configuration has non-empty, different identifiers.\<close>
theorem sanitizeEscalation_acyclic:
  assumes "distinct (map Id sets)" "[] \<notin> set (map Id sets)"
  shows "acyclic (esc_edges (sanitizeEscalation sets)) \<and> cleared sets (sanitizeEscalation sets) \<and>
    (\<forall>i < length sets. esc_to (sanitizeEscalation sets ! i) \<noteq> [] \<longrightarrow>
       (\<exists>j < length sets. j \<noteq> i \<and> Enabled (sets ! j) \<and> Id (sets ! j) = esc_to (sets ! i)))"
proof -
  define m where "m = by_id 0 sets []"
  define A where "A = map (fix_target m sets) sets"
  define R where "R = sanitizeEscalation sets"
  have m: "j < length sets \<and> Id (sets ! j) = k" if "gget m k = Some j" for k j
    using by_id_spec [of 0 sets "[]" k j] that by (simp add: m_def)
  have lA: "length A = length sets" by (simp add: A_def)
  have cA: "cleared sets A" by (simp add: A_def fix_target_cleared)
  have R: "R = fold (break_chain m) [0..<length sets] A"
    by (simp add: R_def sanitizeEscalation_def m_def A_def Let_def)
  have ok: "ids_ok m (length A)" using m by (auto simp: ids_ok_def lA)
  have f: "cleared A R \<and> (\<forall>i \<in> {} \<union> set [0..<length sets]. chain_ends m R i)"
    unfolding R by (rule fold_break_chain [OF ok]) (auto simp: lA)
  then have c: "cleared sets R" using cleared_trans [OF cA] by blast
  have lR: "length R = length sets" using c by (rule cleared_length)
  have e: "gget m (esc_to (R ! i)) = Some j" if "(i, j) \<in> esc_edges R" for i j
  proof -
    have j: "j < length sets" "Id (sets ! j) = esc_to (R ! i)" "esc_to (R ! i) \<noteq> []"
      using that cleared_Id [OF c, of j] by (auto simp: esc_edges_def lR)
    then obtain j' where j': "gget m (esc_to (R ! i)) = Some j'"
      using by_id_total [of "esc_to (R ! i)" sets "[]" 0] unfolding m_def by (metis image_eqI nth_mem)
    then have "map Id sets ! j' = map Id sets ! j" "j' < length sets" using m [OF j'] j by auto
    then show ?thesis using j' j(1) assms(1) by (simp only: nth_eq_iff_index_eq length_map)
  qed
  have "acyclic (esc_edges R)" using f by (intro chain_ends_acyclic [of R m] e) (auto simp: lR)
  moreover have "\<exists>j < length sets. j \<noteq> i \<and> Enabled (sets ! j) \<and> Id (sets ! j) = esc_to (sets ! i)"
    if i: "i < length sets" and t: "esc_to (R ! i) \<noteq> []" for i
  proof -
    have "R ! i = A ! i" using cleared_nth [of A R i] f i t lA by auto
    then have "esc_to (fix_target m sets (sets ! i)) \<noteq> []" using t i by (simp add: A_def)
    from fix_target_sound [OF this] m show ?thesis by metis
  qed
  ultimately show ?thesis using c unfolding R_def by blast
qed

text \<open>Two sets that escalate to one another: the second loses its target.\<close>
definition sample_ring :: "SetConfig list" where
  "sample_ring =
     [(plain_set [97])\<lparr>Escalate := (Escalate (plain_set [97]))\<lparr>To := [98]\<rparr>\<rparr>,
      (plain_set [98])\<lparr>Escalate := (Escalate (plain_set [98]))\<lparr>To := [97]\<rparr>\<rparr>]"

theorem sanitizeEscalation_witness:
  "acyclic (esc_edges (sanitizeEscalation sample_ring)) \<and> \<not> acyclic (esc_edges sample_ring)"
proof
  show "acyclic (esc_edges (sanitizeEscalation sample_ring))"
    using sanitizeEscalation_acyclic [of sample_ring] by (simp add: sample_ring_def plain_defs)
  have "(0, 1) \<in> esc_edges sample_ring" "(1, 0) \<in> esc_edges sample_ring"
    by (simp_all add: esc_edges_def sample_ring_def plain_defs esc_to_def)
  then have "(0, 0) \<in> (esc_edges sample_ring)\<^sup>+" by (meson trancl.intros)
  then show "\<not> acyclic (esc_edges sample_ring)" unfolding acyclic_def by blast
qed

end
