(* ===== verification/NetIP.thy ===== *)
theory NetIP
  imports Fragment GoMap
begin

text \<open>
  What the program uses of Go's package \<^verbatim>\<open>net\<close>: printing addresses (\<^verbatim>\<open>IP.String\<close>), parsing them
  (\<^verbatim>\<open>net.ParseIP\<close>, \<^verbatim>\<open>net.ParseCIDR\<close>), masks. Text is a byte list. An address is the slice of a \<^verbatim>\<open>net.IP\<close>:
  4 or 16 bytes. Cache keys of the matcher, the trackers and the DNS code are printed addresses; that
  printing loses nothing is \<open>IP_String_inj\<close>.
\<close>

section \<open>Printing\<close>

definition hex_digit :: "nat \<Rightarrow> byte" where
  "hex_digit d = (if d < 10 then of_nat (48 + d) else of_nat (87 + d))"

text \<open>Hexadecimal without leading zeros\<close>
fun hexs :: "nat \<Rightarrow> bytes" where
  "hexs n = (if n < 16 then [hex_digit n] else hexs (n div 16) @ [hex_digit (n mod 16)])"

declare hexs.simps [simp del]

definition dotted :: "bytes \<Rightarrow> bytes" where
  "dotted ip = dec (unat (ip ! 0)) @ 46 # dec (unat (ip ! 1)) @ 46 # dec (unat (ip ! 2)) @ 46 # dec (unat (ip ! 3))"

text \<open>The eight 16-bit groups of an IPv6 address\<close>
fun groups :: "bytes \<Rightarrow> nat list" where
  "groups (a # b # bs) = (unat a * 256 + unat b) # groups bs"
| "groups bs = []"

text \<open>The first longest run of two or more zero groups; \<open>best\<close> is the run found so far as
  \<open>(zeroStart, zeroEnd)\<close>, \<open>(255, 255)\<close> for none.\<close>
definition zero_run :: "nat list \<Rightarrow> nat \<times> nat" where
  "zero_run gs = fold (\<lambda>i best.
     let j = i + length (takeWhile (\<lambda>g. g = 0) (drop i gs)); l = j - i
     in if l \<ge> 2 \<and> l > snd best - fst best then (i, j) else best) [0..<8] (255, 255)"

fun join_hex :: "nat list \<Rightarrow> bytes" where
  "join_hex [] = []"
| "join_hex [g] = hexs g"
| "join_hex (g # gs) = hexs g @ 58 # join_hex gs"

definition print6 :: "nat list \<Rightarrow> bytes" where
  "print6 gs =
     (let (zeroStart, zeroEnd) = zero_run gs
      in if zeroStart = 255 then join_hex gs
         else join_hex (take zeroStart gs) @ [58, 58] @ join_hex (drop zeroEnd gs))"

definition IP_String :: "bytes \<Rightarrow> bytes" where
  "IP_String ip =
     (if length ip = 0 then [60, 110, 105, 108, 62]
      else if length ip \<noteq> 4 \<and> length ip \<noteq> 16 then
        63 # concat (map (\<lambda>b. [hex_digit (unat b div 16), hex_digit (unat b mod 16)]) ip)
      else case To4 ip of Some p4 \<Rightarrow> dotted p4 | None \<Rightarrow> print6 (groups ip))"

section \<open>Parsing\<close>

definition is_digit :: "byte \<Rightarrow> bool" where
  "is_digit c \<longleftrightarrow> 48 \<le> c \<and> c \<le> 57"

text \<open>\<open>parseIPv4Fields\<close>: the loop with the fields so far, the value and number of digits of the current
  field; \<open>prev\<close> is the byte before, \<^term>\<open>None\<close> at the start.\<close>
fun v4_loop :: "bytes \<Rightarrow> byte option \<Rightarrow> bytes \<Rightarrow> nat \<Rightarrow> nat \<Rightarrow> bytes option" where
  "v4_loop [] prev fields val digLen = (if length fields < 3 then None else Some (fields @ [of_nat val]))"
| "v4_loop (c # s) prev fields val digLen =
     (if is_digit c then
        if digLen = 1 \<and> val = 0 then None
        else let val = val * 10 + unat c - 48
             in if val > 255 then None else v4_loop s (Some c) fields val (digLen + 1)
      else if c = 46 then
        if prev = None \<or> s = [] \<or> prev = Some 46 \<or> length fields = 3 then None
        else v4_loop s (Some c) (fields @ [of_nat val]) 0 0
      else None)"

definition parseIPv4Fields :: "bytes \<Rightarrow> bytes option" where
  "parseIPv4Fields s = v4_loop s None [] 0 0"

definition hex_val :: "byte \<Rightarrow> nat option" where
  "hex_val c =
     (if 48 \<le> c \<and> c \<le> 57 then Some (unat c - 48)
      else if 97 \<le> c \<and> c \<le> 102 then Some (unat c - 87)
      else if 65 \<le> c \<and> c \<le> 70 then Some (unat c - 55) else None)"

text \<open>One group of hexadecimal digits: its value, the number of digits and the rest. More than four
  digits are an error.\<close>
fun hex_group :: "bytes \<Rightarrow> nat \<Rightarrow> nat \<Rightarrow> (nat \<times> nat \<times> bytes) option" where
  "hex_group [] off acc = Some (acc, off, [])"
| "hex_group (c # s) off acc =
     (case hex_val c of None \<Rightarrow> Some (acc, off, c # s)
      | Some d \<Rightarrow> if off > 3 then None else hex_group s (off + 1) (acc * 16 + d))"

text \<open>The loop of \<open>parseIPv6\<close>: the bytes so far, the place of the ellipsis and the rest of the text.
  \<open>fuel\<close> bounds the eight rounds the source's \<open>i < 16\<close> allows.\<close>
fun v6_loop :: "nat \<Rightarrow> bytes \<Rightarrow> nat option \<Rightarrow> bytes \<Rightarrow> (bytes \<times> nat option \<times> bytes) option" where
  "v6_loop 0 ip ellipsis s = Some (ip, ellipsis, s)"
| "v6_loop (Suc n) ip ellipsis s =
     (case hex_group s 0 0 of None \<Rightarrow> None
      | Some (acc, off, rest) \<Rightarrow>
          if off = 0 then None
          else if rest \<noteq> [] \<and> hd rest = 46 then
            if ellipsis = None \<and> length ip \<noteq> 12 then None
            else if length ip + 4 > 16 then None
            else (case parseIPv4Fields s of None \<Rightarrow> None | Some q \<Rightarrow> Some (ip @ q, ellipsis, []))
          else let ip = ip @ [of_nat (acc div 256), of_nat acc] in
            if rest = [] then Some (ip, ellipsis, [])
            else if hd rest \<noteq> 58 \<or> length rest = 1 then None
            else let s = tl rest in
              if hd s = 58 then
                if ellipsis \<noteq> None then None
                else let ellipsis = Some (length ip); s = tl s
                     in if s = [] then Some (ip, ellipsis, []) else v6_loop n ip ellipsis s
              else v6_loop n ip ellipsis s)"

text \<open>\<open>parseIPv6\<close> on a text without a zone\<close>
definition parseIPv6 :: "bytes \<Rightarrow> bytes option" where
  "parseIPv6 s =
     (let (ellipsis, s) = (if take 2 s = [58, 58] then (Some 0, drop 2 s) else (None, s))
      in if ellipsis = Some 0 \<and> s = [] then Some (mk 16)
         else case v6_loop 8 [] ellipsis s of None \<Rightarrow> None
           | Some (ip, ellipsis, rest) \<Rightarrow>
               if rest \<noteq> [] then None
               else if length ip < 16 then
                 (case ellipsis of None \<Rightarrow> None
                  | Some e \<Rightarrow> Some (take e ip @ mk (16 - length ip) @ drop e ip))
               else if ellipsis \<noteq> None then None else Some ip)"

text \<open>\<open>netip.ParseAddr\<close> without zones, which both callers refuse: the bytes (4 or 16) of the address\<close>
definition ParseAddr :: "bytes \<Rightarrow> bytes option" where
  "ParseAddr s =
     (case dropWhile (\<lambda>c. c \<noteq> 46 \<and> c \<noteq> 58 \<and> c \<noteq> 37) s of
        [] \<Rightarrow> None
      | c # _ \<Rightarrow>
          if c = 46 then parseIPv4Fields s
          else if c = 58 then (if 37 \<in> set s then None else parseIPv6 s)
          else None)"

definition ParseIP :: "bytes \<Rightarrow> bytes option" where
  "ParseIP s = ParseAddr s \<bind> To16"

text \<open>A network: its address and mask. \<open>dtoi\<close> reads the prefix length.\<close>
record IPNet =
  net_IP :: bytes
  net_Mask :: bytes

definition dtoi :: "bytes \<Rightarrow> nat option" where
  "dtoi s = (if s = [] \<or> \<not> list_all is_digit s \<or> dec_val s \<ge> 0xFFFFFF then None else Some (dec_val s))"

text \<open>\<open>CIDRMask(n, 8 * l)\<close>, for at most all bits\<close>
definition CIDRMask :: "nat \<Rightarrow> nat \<Rightarrow> bytes" where
  "CIDRMask n l = map (\<lambda>i. if 8 * i + 8 \<le> n then 255 else if n \<le> 8 * i then 0
                           else 255 - push_bit (8 - (n - 8 * i)) 1 + 1) [0..<l]"

definition ParseCIDR :: "bytes \<Rightarrow> IPNet option" where
  "ParseCIDR s =
     (if 47 \<notin> set s then None
      else let addr = takeWhile (\<lambda>c. c \<noteq> 47) s; mask = tl (dropWhile (\<lambda>c. c \<noteq> 47) s)
      in case (ParseAddr addr, dtoi mask) of
           (Some ip, Some n) \<Rightarrow>
             if n > 8 * length ip then None
             else let m = CIDRMask n (length ip)
                  in Some \<lparr>net_IP = map2 (AND) ip m, net_Mask = m\<rparr>
         | _ \<Rightarrow> None)"

text \<open>The number of ones of a mask, the first result of \<open>Mask.Size\<close> on a canonical mask\<close>
definition mask_ones :: "bytes \<Rightarrow> nat" where
  "mask_ones m = length (filter (\<lambda>b. b) (concat (map (\<lambda>w. map (bit w) [0..<8]) m)))"

section \<open>Printed addresses are parsed back\<close>

fun ungroups :: "nat list \<Rightarrow> bytes" where
  "ungroups [] = []"
| "ungroups (g # gs) = of_nat (g div 256) # of_nat g # ungroups gs"

lemma length_ungroups [simp]: "length (ungroups gs) = 2 * length gs"
  by (induction gs) auto

lemma ungroups_append: "ungroups (gs @ hs) = ungroups gs @ ungroups hs"
  by (induction gs) auto

lemma ungroups_zeros: "ungroups (replicate n 0) = mk (2 * n)"
  by (induction n) (auto simp: mk_def)

lemma take_ungroups: "take (2 * n) (ungroups gs) = ungroups (take n gs)"
proof (induction gs arbitrary: n)
  case (Cons g gs)
  then show ?case by (cases n) auto
qed simp

lemma groups_bound: "g \<in> set (groups ip) \<Longrightarrow> g < 65536"
proof (induction ip rule: groups.induct)
  case (1 a b bs)
  have "unat a < 256" "unat b < 256" by (simp_all add: unat_byte_bound)
  then show ?case using 1 by auto
qed auto

lemma length_groups: "length (groups ip) = length ip div 2"
  by (induction ip rule: groups.induct) auto

lemma ungroups_groups: "even (length ip) \<Longrightarrow> ungroups (groups ip) = ip"
proof (induction ip rule: groups.induct)
  case (1 a b bs)
  have "unat b < 256" by (simp add: unat_byte_bound)
  then have "(unat a * 256 + unat b) div 256 = unat a" by simp
  moreover have "(of_nat (unat a * 256 + unat b) :: byte) = b"
  proof -
    have "(256::byte) = 0" by simp
    then show ?thesis by (simp only: of_nat_add of_nat_mult of_nat_numeral of_nat_unat ucast_id mult_zero_right add_0)
  qed
  ultimately show ?case using 1 by simp
qed auto

subsection \<open>Groups of hexadecimal digits\<close>

fun hexds :: "nat \<Rightarrow> nat list" where
  "hexds n = (if n < 16 then [n] else hexds (n div 16) @ [n mod 16])"

declare hexds.simps [simp del]

lemma hexs_hexds: "hexs n = map hex_digit (hexds n)"
proof (induction n rule: hexs.induct)
  case (1 n)
  then show ?case by (subst hexs.simps, subst hexds.simps) auto
qed

lemma hexds_val: "foldl (\<lambda>a d. a * 16 + d) 0 (hexds n) = n"
proof (induction n rule: hexs.induct)
  case (1 n)
  then show ?case by (subst hexds.simps) auto
qed

lemma hexds_small: "set (hexds n) \<subseteq> {..<16}"
proof (induction n rule: hexs.induct)
  case (1 n)
  then show ?case by (subst hexds.simps) auto
qed

lemma hexds_length: "n < 16 ^ k \<Longrightarrow> 0 < k \<Longrightarrow> length (hexds n) \<le> k \<and> hexds n \<noteq> []"
proof (induction k arbitrary: n)
  case (Suc k)
  show ?case
  proof (cases "n < 16")
    case True
    then show ?thesis by (subst hexds.simps, subst (2) hexds.simps) auto
  next
    case False
    then have "0 < k" using Suc.prems(1) by (cases k) auto
    moreover have "n div 16 < 16 ^ k" using Suc.prems(1) by (auto simp: less_mult_imp_div_less mult.commute)
    ultimately have "length (hexds (n div 16)) \<le> k" using Suc.IH by simp
    then show ?thesis using False by (subst hexds.simps, subst (2) hexds.simps) auto
  qed
qed simp

lemma hex_digits_all:
  "list_all (\<lambda>d. hex_val (hex_digit d) = Some d \<and> hex_digit d \<notin> {58, 46, 37, 45, 124}) [0..<16]"
  by code_simp

lemma hex_val_digit: "d < 16 \<Longrightarrow> hex_val (hex_digit d) = Some d"
  using hex_digits_all by (simp add: list_all_iff)

lemma hex_digit_not: "d < 16 \<Longrightarrow> hex_digit d \<noteq> 58 \<and> hex_digit d \<noteq> 46 \<and> hex_digit d \<noteq> 37 \<and> hex_digit d \<noteq> 45 \<and> hex_digit d \<noteq> 124"
  using hex_digits_all by (simp add: list_all_iff)

lemma hex_group_digits:
  "set ds \<subseteq> {..<16} \<Longrightarrow> off + length ds \<le> 4 \<Longrightarrow>
   hex_group (map hex_digit ds @ rest) off acc = hex_group rest (off + length ds) (foldl (\<lambda>a d. a * 16 + d) acc ds)"
  by (induction ds arbitrary: off acc) (auto simp: hex_val_digit)

lemma hex_group_hexs:
  assumes "g < 65536" "rest = [] \<or> hex_val (hd rest) = None"
  obtains k where "hex_group (hexs g @ rest) 0 0 = Some (g, Suc k, rest)"
proof -
  have l: "length (hexds g) \<le> 4 \<and> hexds g \<noteq> []" using hexds_length [of g 4] assms(1) by simp
  have "hex_group (hexs g @ rest) 0 0 = hex_group rest (length (hexds g)) g"
    using hex_group_digits [OF hexds_small, of 0 g rest 0] l by (simp add: hexs_hexds hexds_val)
  also have "\<dots> = Some (g, length (hexds g), rest)" using assms(2) by (cases rest) auto
  finally show ?thesis using l that by (cases "hexds g") auto
qed

lemma hexs_chars: "c \<in> set (hexs g) \<Longrightarrow> c \<noteq> 58 \<and> c \<noteq> 46 \<and> c \<noteq> 37 \<and> c \<noteq> 45 \<and> c \<noteq> 124"
  using hexds_small [of g] hex_digit_not by (auto simp: hexs_hexds)

lemma hexs_not_Nil: "hexs g \<noteq> []"
  by (subst hexs.simps) auto


subsection \<open>IPv6\<close>

lemma join_hex_Cons: "gs \<noteq> [] \<Longrightarrow> join_hex (g # gs) = hexs g @ 58 # join_hex gs"
  by (cases gs) auto

lemma join_hex_head: "gs \<noteq> [] \<Longrightarrow> join_hex gs \<noteq> [] \<and> hd (join_hex gs) \<noteq> 58"
proof (cases gs)
  case (Cons g gs')
  then have "\<exists>r. join_hex gs = hexs g @ r" by (cases gs') auto
  then show ?thesis using hexs_not_Nil [of g] hexs_chars [of "hd (hexs g)" g] by auto
qed simp

lemma hex_val_colon [simp]: "hex_val 58 = None"
  by (simp add: hex_val_def)

text \<open>One round on a group that a colon and more follow\<close>
lemma v6_loop_group:
  assumes "g < 65536" "s \<noteq> []" "hd s \<noteq> 58"
  shows "v6_loop (Suc n) ip e (hexs g @ 58 # s) = v6_loop n (ip @ ungroups [g]) e s"
proof -
  obtain k where k: "hex_group (hexs g @ 58 # s) 0 0 = Some (g, Suc k, 58 # s)"
    using hex_group_hexs [OF assms(1), of "58 # s"] by auto
  show ?thesis using assms(2,3) by (simp add: k)
qed

lemma v6_loop_last:
  assumes "g < 65536"
  shows "v6_loop (Suc n) ip e (hexs g) = Some (ip @ ungroups [g], e, [])"
proof -
  obtain k where k: "hex_group (hexs g @ []) 0 0 = Some (g, Suc k, [])"
    using hex_group_hexs [OF assms, of "[]"] by auto
  then show ?thesis by (simp add: k)
qed

text \<open>The group before the two colons\<close>
lemma v6_loop_ellipsis:
  assumes "g < 65536"
  shows "v6_loop (Suc n) ip None (hexs g @ 58 # 58 # s) =
    (if s = [] then Some (ip @ ungroups [g], Some (length ip + 2), [])
     else v6_loop n (ip @ ungroups [g]) (Some (length ip + 2)) s)"
proof -
  obtain k where k: "hex_group (hexs g @ 58 # 58 # s) 0 0 = Some (g, Suc k, 58 # 58 # s)"
    using hex_group_hexs [OF assms, of "58 # 58 # s"] by auto
  show ?thesis by (simp add: k)
qed

lemma v6_loop_groups:
  "gs \<noteq> [] \<Longrightarrow> length gs \<le> n \<Longrightarrow> \<forall>g \<in> set gs. g < 65536 \<Longrightarrow>
   v6_loop n ip e (join_hex gs) = Some (ip @ ungroups gs, e, [])"
proof (induction gs arbitrary: n ip)
  case (Cons g gs)
  obtain m where n: "n = Suc m" using Cons.prems(2) by (cases n) auto
  show ?case
  proof (cases "gs = []")
    case True
    then show ?thesis using Cons.prems(3) v6_loop_last [of g m ip e] by (simp add: n)
  next
    case False
    then show ?thesis
      using Cons v6_loop_group [of g "join_hex gs" m ip e] join_hex_head [OF False] by (simp add: n join_hex_Cons)
  qed
qed simp

lemma v6_loop_both:
  "gs \<noteq> [] \<Longrightarrow> length gs + length hs \<le> n \<Longrightarrow> \<forall>g \<in> set gs \<union> set hs. g < 65536 \<Longrightarrow>
   v6_loop n ip None (join_hex gs @ [58, 58] @ join_hex hs) =
     Some (ip @ ungroups (gs @ hs), Some (length ip + 2 * length gs), [])"
proof (induction gs arbitrary: n ip)
  case (Cons g gs)
  obtain m where n: "n = Suc m" using Cons.prems(2) by (cases n) auto
  show ?case
  proof (cases "gs = []")
    case True
    then show ?thesis
      using Cons.prems v6_loop_ellipsis [of g m ip "join_hex hs"] v6_loop_groups [of hs m] join_hex_head [of hs]
      by (cases "hs = []") (auto simp: n)
  next
    case False
    then show ?thesis
      using Cons v6_loop_group [of g "join_hex gs @ [58, 58] @ join_hex hs" m ip None] join_hex_head [OF False]
      by (simp add: n join_hex_Cons)
  qed
qed simp

definition run_ok :: "nat list \<Rightarrow> nat \<times> nat \<Rightarrow> bool" where
  "run_ok gs r \<longleftrightarrow> r = (255, 255) \<or>
     fst r + 2 \<le> snd r \<and> snd r \<le> length gs \<and> take (snd r - fst r) (drop (fst r) gs) = replicate (snd r - fst r) 0"

lemma zero_run_ok: "run_ok gs (zero_run gs)"
proof -
  have "run_ok gs (fold (\<lambda>i best.
     let j = i + length (takeWhile (\<lambda>g. g = 0) (drop i gs)); l = j - i
     in if l \<ge> 2 \<and> l > snd best - fst best then (i, j) else best) us r)" if "run_ok gs r" for us r
    using that
  proof (induction us arbitrary: r)
    case (Cons i us)
    let ?t = "takeWhile (\<lambda>g. g = 0) (drop i gs)"
    have "?t = replicate (length ?t) 0"
      by (rule replicate_length_same [symmetric]) (auto dest: set_takeWhileD)
    moreover have "take (length ?t) (drop i gs) = ?t" by (rule takeWhile_eq_take [symmetric])
    ultimately have a: "take (length ?t) (drop i gs) = replicate (length ?t) 0" by (rule trans [rotated])
    have b: "length ?t \<le> length gs - i" by (metis length_drop length_takeWhile_le)
    then have "2 \<le> length ?t \<Longrightarrow> run_ok gs (i, i + length ?t)" using a by (auto simp: run_ok_def)
    then show ?case using Cons by (simp add: Let_def)
  qed simp
  moreover have "run_ok gs (255, 255)" by (simp add: run_ok_def)
  ultimately show ?thesis unfolding zero_run_def by blast
qed

lemma print6_cases:
  assumes "length gs = 8"
  shows "print6 gs = join_hex gs \<or>
    (\<exists>z n. z + n \<le> 8 \<and> 2 \<le> n \<and> print6 gs = join_hex (take z gs) @ [58, 58] @ join_hex (drop (z + n) gs) \<and>
       gs = take z gs @ replicate n 0 @ drop (z + n) gs)"
proof -
  obtain z e where r: "zero_run gs = (z, e)" by force
  show ?thesis
  proof (cases "z = 255")
    case False
    then have o: "z + 2 \<le> e" "e \<le> 8" "take (e - z) (drop z gs) = replicate (e - z) 0"
      using zero_run_ok [of gs] assms by (auto simp: run_ok_def r)
    have "gs = take z gs @ take (e - z) (drop z gs) @ drop e gs"
      using o(1) by (metis add_diff_inverse_nat append_take_drop_id drop_drop add_leD1 not_less add.commute)
    then show ?thesis using o False by (intro disjI2 exI [of _ z] exI [of _ "e - z"]) (simp add: print6_def r)
  qed (simp add: print6_def r)
qed

lemma parseIPv6_print6:
  assumes "length gs = 8" "\<forall>g \<in> set gs. g < 65536"
  shows "parseIPv6 (print6 gs) = Some (ungroups gs)"
  using print6_cases [OF assms(1)]
proof (elim disjE exE conjE)
  assume p: "print6 gs = join_hex gs"
  have "gs \<noteq> []" using assms(1) by auto
  then have "take 2 (join_hex gs) \<noteq> [58, 58]" using join_hex_head [of gs] by (cases "join_hex gs") auto
  then show ?thesis
    using v6_loop_groups [of gs 8 "[]" None] assms \<open>gs \<noteq> []\<close> by (simp add: p parseIPv6_def)
next
  fix z n assume zn: "z + n \<le> 8" "2 \<le> n"
    and p: "print6 gs = join_hex (take z gs) @ [58, 58] @ join_hex (drop (z + n) gs)"
    and g: "gs = take z gs @ replicate n 0 @ drop (z + n) gs"
  let ?a = "take z gs" and ?b = "drop (z + n) gs"
  have l: "length ?a = z" "length ?b = 8 - (z + n)" using zn assms(1) by auto
  have bd: "\<forall>g \<in> set ?a \<union> set ?b. g < 65536" using assms(2) by (auto dest: in_set_takeD in_set_dropD)
  have u: "ungroups gs = ungroups ?a @ mk (2 * n) @ ungroups ?b"
    by (subst g) (simp add: ungroups_append ungroups_zeros)
  have m: "16 - length (ungroups (?a @ ?b)) = 2 * n" using l zn by (simp add: ungroups_append)
  show ?thesis
  proof (cases "z = 0")
    case True
    show ?thesis
    proof (cases "?b = []")
      case True
      then have "n = 8" using l zn \<open>z = 0\<close> by simp
      then show ?thesis using \<open>z = 0\<close> True u by (simp add: p parseIPv6_def)
    next
      case False
      then have "v6_loop 8 [] (Some 0) (join_hex ?b) = Some (ungroups ?b, Some 0, [])"
        using v6_loop_groups [of ?b 8 "[]" "Some 0"] bd l by simp
      then show ?thesis
        using True False join_hex_head [OF False] zn l u m by (simp add: p parseIPv6_def)
    qed
  next
    case False
    then have a: "?a \<noteq> []" using l(1) by auto
    have t: "take 2 (join_hex ?a @ [58, 58] @ join_hex ?b) \<noteq> [58, 58]"
      using join_hex_head [OF a] by (cases "join_hex ?a") auto
    have v: "v6_loop 8 [] None (join_hex ?a @ [58, 58] @ join_hex ?b) = Some (ungroups (?a @ ?b), Some (2 * z), [])"
      using v6_loop_both [of ?a ?b 8 "[]"] a bd l zn by simp
    have "length (ungroups (?a @ ?b)) < 16" using l zn by simp
    then show ?thesis
      using t v m u l by (simp add: p parseIPv6_def ungroups_append)
  qed
qed


subsection \<open>IPv4\<close>

lemma v4_digit:
  assumes "d < 10"
  shows "is_digit (48 + of_nat d)" "unat (48 + of_nat d :: byte) = 48 + d" "(48 + of_nat d :: byte) \<noteq> 46"
proof -
  show u: "unat (48 + of_nat d :: byte) = 48 + d"
    using assms by (simp add: unat_word_ariths unat_of_nat take_bit_eq_mod)
  show "(48 + of_nat d :: byte) \<noteq> 46"
  proof
    assume "(48 + of_nat d :: byte) = 46"
    then have "unat (48 + of_nat d :: byte) = unat (46 :: byte)" by (rule arg_cong)
    then show False by (simp only: u) simp
  qed
  show "is_digit (48 + of_nat d)" using assms u by (simp add: is_digit_def word_le_nat_alt)
qed

lemma v4_loop_digit:
  "d < 10 \<Longrightarrow> \<not> (digLen = 1 \<and> val = 0) \<Longrightarrow> val * 10 + d \<le> 255 \<Longrightarrow>
   v4_loop ((48 + of_nat d) # s) prev fds val digLen =
     v4_loop s (Some (48 + of_nat d)) fds (val * 10 + d) (digLen + 1)"
  using v4_digit [of d] by (auto simp: Let_def)

declare v4_loop.simps(2) [simp del]

lemma v4_field:
  assumes "n < 256"
  shows "\<exists>k c. c \<noteq> 46 \<and> v4_loop (dec n @ s) prev fds 0 0 = v4_loop s (Some c) fds n (Suc k)"
proof -
  consider "n < 10" | "10 \<le> n" "n < 100" | "100 \<le> n" by linarith
  then show ?thesis
  proof cases
    case 1
    then have "dec n = [48 + of_nat n]" by (subst dec.simps) simp
    then show ?thesis using 1 v4_digit(3) [of n] v4_loop_digit [of n 0 0 s prev fds]
      by (intro exI [of _ 0] exI [of _ "48 + of_nat n"]) simp
  next
    case 2
    then have d: "dec n = [48 + of_nat (n div 10), 48 + of_nat (n mod 10)]" by (subst dec.simps, subst dec.simps) auto
    have "n div 10 < 10" "0 < n div 10" using 2 by auto
    then show ?thesis
      using v4_digit(3) [of "n mod 10"] v4_loop_digit [of "n div 10" 0 0 "(48 + of_nat (n mod 10)) # s" prev fds]
        v4_loop_digit [of "n mod 10" 1 "n div 10" s "Some (48 + of_nat (n div 10))" fds] assms
      by (intro exI [of _ 1] exI [of _ "48 + of_nat (n mod 10)"]) (simp add: d del: of_nat_mod)
  next
    case 3
    let ?a = "n div 100" and ?b = "n div 10 mod 10" and ?c = "n mod 10"
    have e: "n div 10 div 10 = ?a" by (simp add: div_mult2_eq [symmetric])
    have d: "dec n = [48 + of_nat ?a, 48 + of_nat ?b, 48 + of_nat ?c]"
      using 3 assms e by (subst dec.simps, subst dec.simps, subst dec.simps) auto
    have s: "?a < 10" "0 < ?a" "?a * 10 + ?b = n div 10" "n div 10 * 10 + ?c = n" "n div 10 \<le> 255"
      using 3 assms div_mult_mod_eq [of "n div 10" 10] by (simp_all add: e)
    have 1: "v4_loop (dec n @ s) prev fds 0 0 =
        v4_loop ((48 + of_nat ?b) # (48 + of_nat ?c) # s) (Some (48 + of_nat ?a)) fds ?a 1"
      using v4_loop_digit [of ?a 0 0 "(48 + of_nat ?b) # (48 + of_nat ?c) # s" prev fds] s by (simp add: d)
    also have "\<dots> = v4_loop ((48 + of_nat ?c) # s) (Some (48 + of_nat ?b)) fds (n div 10) (Suc (Suc 0))"
      using v4_loop_digit [of ?b 1 ?a "(48 + of_nat ?c) # s" "Some (48 + of_nat ?a)" fds] s
      by (simp del: of_nat_mod)
    also have "\<dots> = v4_loop s (Some (48 + of_nat ?c)) fds n (Suc (Suc (Suc 0)))"
      using v4_loop_digit [of ?c "Suc (Suc 0)" "n div 10" s "Some (48 + of_nat ?b)" fds] s assms by (simp del: of_nat_mod)
    finally show ?thesis using v4_digit(3) [of ?c] by (intro exI [of _ "Suc (Suc 0)"] exI [of _ "48 + of_nat ?c"]) simp
  qed
qed

lemma v4_loop_dotted:
  assumes "length ip = 4"
  shows "parseIPv4Fields (dotted ip) = Some ip"
proof -
  obtain a b c d where ip: "ip = [a, b, c, d]" using assms by (auto simp: length_Suc_conv numeral_eq_Suc)
  have bd: "unat x < 256" for x :: byte by (rule unat_byte_bound)
  have ne: "dec n \<noteq> []" for n by (subst dec.simps) auto
  obtain k1 c1 where 1: "c1 \<noteq> 46" "v4_loop (dec (unat a) @ 46 # dec (unat b) @ 46 # dec (unat c) @ 46 # dec (unat d)) None [] 0 0 =
      v4_loop (46 # dec (unat b) @ 46 # dec (unat c) @ 46 # dec (unat d)) (Some c1) [] (unat a) (Suc k1)"
    using v4_field [OF bd] by meson
  obtain k2 c2 where 2: "c2 \<noteq> 46" "v4_loop (dec (unat b) @ 46 # dec (unat c) @ 46 # dec (unat d)) (Some 46) [a] 0 0 =
      v4_loop (46 # dec (unat c) @ 46 # dec (unat d)) (Some c2) [a] (unat b) (Suc k2)"
    using v4_field [OF bd] by meson
  obtain k3 c3 where 3: "c3 \<noteq> 46" "v4_loop (dec (unat c) @ 46 # dec (unat d)) (Some 46) [a, b] 0 0 =
      v4_loop (46 # dec (unat d)) (Some c3) [a, b] (unat c) (Suc k3)"
    using v4_field [OF bd] by meson
  obtain k4 c4 where 4: "c4 \<noteq> 46" "v4_loop (dec (unat d) @ []) (Some 46) [a, b, c] 0 0 = v4_loop [] (Some c4) [a, b, c] (unat d) (Suc k4)"
    using v4_field [OF bd] by meson
  show ?thesis
    using 1 2 3 4 ne by (simp add: parseIPv4Fields_def dotted_def ip is_digit_def v4_loop.simps(2) [of 46])
qed

subsection \<open>The round trip\<close>

lemma dropWhile_first:
  "c \<in> set s \<Longrightarrow> (\<And>x. x \<in> set s \<Longrightarrow> P x \<or> x = c) \<Longrightarrow> \<not> P c \<Longrightarrow> \<exists>r. dropWhile P s = c # r"
  by (induction s) auto

lemma join_hex_chars: "c \<in> set (join_hex gs) \<Longrightarrow> c \<noteq> 46 \<and> c \<noteq> 37 \<and> c \<noteq> 45 \<and> c \<noteq> 124"
  by (induction gs rule: join_hex.induct) (auto dest: hexs_chars)

lemma print6_chars:
  assumes "length gs = 8"
  shows "58 \<in> set (print6 gs)" "c \<in> set (print6 gs) \<Longrightarrow> c \<noteq> 46 \<and> c \<noteq> 37 \<and> c \<noteq> 45 \<and> c \<noteq> 124"
proof -
  have "\<exists>g h r. gs = g # h # r" using assms by (auto simp: length_Suc_conv numeral_eq_Suc)
  then have "58 \<in> set (join_hex gs)" by (auto simp: join_hex_Cons)
  then show "58 \<in> set (print6 gs)" using print6_cases [OF assms] by auto
  show "c \<in> set (print6 gs) \<Longrightarrow> c \<noteq> 46 \<and> c \<noteq> 37 \<and> c \<noteq> 45 \<and> c \<noteq> 124"
    using print6_cases [OF assms] join_hex_chars by fastforce
qed

lemma dotted_chars: "c \<in> set (dotted ip) \<Longrightarrow> c = 46 \<or> is_digit c"
  using dec_digits by (fastforce simp: dotted_def is_digit_def)

lemma To4_cases: "length ip = 4 \<or> length ip = 16 \<Longrightarrow>
    (\<exists>p4. To4 ip = Some p4 \<and> length p4 = 4 \<and> To16 ip = Some (v4InV6Prefix @ p4)) \<or>
    To4 ip = None \<and> length ip = 16 \<and> To16 ip = Some ip"
proof (cases "length ip = 16 \<and> take 12 ip = v4InV6Prefix")
  case True
  then have "ip = v4InV6Prefix @ drop 12 ip" by (metis append_take_drop_id)
  then show ?thesis using True by (simp add: To4_def To16_def)
qed (auto simp: To4_def To16_def)

lemma ParseIP_String:
  assumes "length ip = 4 \<or> length ip = 16"
  shows "ParseIP (IP_String ip) = To16 ip"
  using To4_cases [OF assms]
proof (elim disjE exE conjE)
  fix p4 assume p: "To4 ip = Some p4" "length p4 = 4" "To16 ip = Some (v4InV6Prefix @ p4)"
  have s: "IP_String ip = dotted p4" using assms p by (auto simp: IP_String_def)
  have "46 \<in> set (dotted p4)" by (simp add: dotted_def)
  then obtain r where "dropWhile (\<lambda>c. c \<noteq> 46 \<and> c \<noteq> 58 \<and> c \<noteq> 37) (dotted p4) = 46 # r"
    using dropWhile_first [of 46 "dotted p4" "\<lambda>c. c \<noteq> 46 \<and> c \<noteq> 58 \<and> c \<noteq> 37"] dotted_chars [of _ p4]
    by (fastforce simp: is_digit_def)
  then show ?thesis
    using v4_loop_dotted [OF p(2)] p by (simp add: ParseIP_def ParseAddr_def s To16_def)
next
  assume p: "To4 ip = None" "length ip = 16" "To16 ip = Some ip"
  have s: "IP_String ip = print6 (groups ip)" using p by (simp add: IP_String_def)
  have l: "length (groups ip) = 8" by (simp add: length_groups p(2))
  note ch = print6_chars [OF l]
  obtain r where "dropWhile (\<lambda>c. c \<noteq> 46 \<and> c \<noteq> 58 \<and> c \<noteq> 37) (print6 (groups ip)) = 58 # r"
    using dropWhile_first [of 58 "print6 (groups ip)" "\<lambda>c. c \<noteq> 46 \<and> c \<noteq> 58 \<and> c \<noteq> 37"] ch by blast
  moreover have "37 \<notin> set (print6 (groups ip))" using ch by blast
  ultimately show ?thesis
    using parseIPv6_print6 [OF l] groups_bound [of _ ip] p
    by (simp add: ParseIP_def ParseAddr_def s ungroups_groups To16_def)
qed

lemma To4_prefix: "length p = 4 \<Longrightarrow> To4 (v4InV6Prefix @ p) = Some p"
  by (simp add: To4_def v4InV6Prefix_def)

lemma same_address:
  assumes "length a = 4 \<or> length a = 16" "length b = 4 \<or> length b = 16" "To16 a = To16 b"
  shows "To4 a = To4 b \<and> (To4 a = None \<longrightarrow> a = b)"
proof -
  have n: "To4 b = None \<Longrightarrow> To16 b = Some b \<Longrightarrow> length p = 4 \<Longrightarrow> To16 b \<noteq> Some (v4InV6Prefix @ p)" for b p
    using To4_prefix [of p] by auto
  show ?thesis
    using To4_cases [OF assms(1)]
  proof (elim disjE exE conjE)
    fix p assume p: "To4 a = Some p" "length p = 4" "To16 a = Some (v4InV6Prefix @ p)"
    then show ?thesis using To4_cases [OF assms(2)] n [of b p] assms(3) by auto
  next
    assume p: "To4 a = None" "To16 a = Some a"
    then show ?thesis using To4_cases [OF assms(2)] n [of a] assms(3) by auto
  qed
qed

text \<open>Two addresses print alike exactly if they are the same address, as 4 or as 16 bytes.\<close>
lemma IP_String_inj:
  assumes "length a = 4 \<or> length a = 16" "length b = 4 \<or> length b = 16"
  shows "IP_String a = IP_String b \<longleftrightarrow> To16 a = To16 b"
proof
  show "IP_String a = IP_String b \<Longrightarrow> To16 a = To16 b"
    using ParseIP_String [OF assms(1)] ParseIP_String [OF assms(2)] by simp
  assume t: "To16 a = To16 b"
  consider "a = b" | p where "To4 a = Some p" "To4 b = Some p" using same_address [OF assms t] by fastforce
  then show "IP_String a = IP_String b"
  proof cases
    case 2
    then show ?thesis using assms unfolding IP_String_def by (elim disjE) simp_all
  qed simp
qed

lemma IP_String_chars:
  assumes "length ip = 4 \<or> length ip = 16"
  shows "45 \<notin> set (IP_String ip)" "124 \<notin> set (IP_String ip)"
proof -
  have "45 \<notin> set (IP_String ip) \<and> 124 \<notin> set (IP_String ip)"
  proof (cases "To4 ip")
    case None
    then have "length ip = 16" using assms by (auto simp: To4_def)
    then show ?thesis using None print6_chars(2) [of "groups ip"] by (auto simp: IP_String_def length_groups)
  next
    case (Some p)
    then show ?thesis using assms dotted_chars [of 45 p] dotted_chars [of 124 p] by (auto simp: IP_String_def is_digit_def)
  qed
  then show "45 \<notin> set (IP_String ip)" "124 \<notin> set (IP_String ip)" by simp_all
qed

end
