(* ===== verification/Matcher.thy ===== *)
theory Matcher
  imports NetIP Settings "HOL-Library.Sublist"
begin

text \<open>
  Which set a connection belongs to: \<^verbatim>\<open>src/src/sni/match.go\<close>. A \<^verbatim>\<open>SuffixSet\<close> is built from the
  configuration and answers by name, address, port and learned address; answers by name and address
  are cached with least-recently-used eviction.

  \<^item> A \<^verbatim>\<open>*config.SetConfig\<close> is the set, \<open>nil\<close> is \<^term>\<open>None\<close>; a method of a \<open>nil\<close> receiver is not
    modelled, every caller of the packet path holds a \<^verbatim>\<open>SuffixSet\<close>.
  \<^item> A cache is the Go map and the \<^verbatim>\<open>list.List\<close> of its keys, most recent first; the \<open>element\<close> pointer of an
    entry is the place of its key in that list.
  \<^item> \<^verbatim>\<open>regexp\<close> is the parameter \<open>rx\<close>: \<open>rx p\<close> is \<^term>\<open>None\<close> if \<open>p\<close> does not compile and otherwise what
    \<open>MatchString\<close> decides. The ranger of \<^verbatim>\<open>cidranger\<close> is the list of what was inserted, and the parameter \<open>cn\<close>
    is \<open>ContainingNetworks\<close> on it, \<^term>\<open>None\<close> for an error.
  \<^item> Readings of the clock are arguments.
\<close>

section \<open>Types\<close>

record ipRange =
  ipNet :: IPNet
  ir_set :: SetConfig

record portRange =
  pmin :: int
  pmax :: int
  pr_set :: SetConfig

record regexWithSet =
  regex :: bytes
  rw_set :: SetConfig

type_synonym cacheEntry = "bool \<times> SetConfig option"

record learnedIPEntry =
  le_domain :: bytes
  le_set :: SetConfig
  learnedAt :: gotime

record 'v lru =
  entries :: "(bytes, 'v) gomap"
  order :: "bytes list"

record SuffixSet =
  sx_sets :: "(bytes, SetConfig) gomap"
  multiSets :: "(bytes, SetConfig list) gomap"
  regexes :: "regexWithSet list"
  regexCache :: "(bytes, cacheEntry) gomap"
  ipRanger :: "ipRange list"
  udpPortRanges :: "portRange list"
  tcpPortRanges :: "portRange list"
  ipCache :: "cacheEntry lru"
  domainCache :: "cacheEntry lru"
  learnedIPCache :: "learnedIPEntry lru"
  regexCacheSize :: nat

definition ipCacheLimit :: nat where "ipCacheLimit = 2000"
definition domainCacheLimit :: nat where "domainCacheLimit = 2000"
definition learnedIPCacheLimit :: nat where "learnedIPCacheLimit = 5000"
definition learnedIPTTL :: int where "learnedIPTTL = 600 * Second"
definition regexCacheMax :: nat where "regexCacheMax = 2000"

section \<open>Caches\<close>

text \<open>\<open>MoveToFront(entry.element)\<close>\<close>
definition lru_front :: "bytes \<Rightarrow> 'v lru \<Rightarrow> 'v lru" where
  "lru_front k c = c\<lparr>order := k # remove1 k (order c)\<rparr>"

text \<open>A full cache loses the entry at the back of the list.\<close>
definition lru_room :: "nat \<Rightarrow> 'v lru \<Rightarrow> 'v lru" where
  "lru_room limit c =
     (if length (entries c) \<ge> limit \<and> order c \<noteq> []
      then c\<lparr>entries := gdel (last (order c)) (entries c), order := butlast (order c)\<rparr> else c)"

text \<open>\<open>PushFront\<close> and the new entry\<close>
definition lru_add :: "nat \<Rightarrow> bytes \<Rightarrow> 'v \<Rightarrow> 'v lru \<Rightarrow> 'v lru" where
  "lru_add limit k v c =
     (let c = lru_room limit c
      in c\<lparr>entries := gput k v (entries c), order := k # order c\<rparr>)"

definition lru_remove :: "bytes \<Rightarrow> 'v lru \<Rightarrow> 'v lru" where
  "lru_remove k c = c\<lparr>entries := gdel k (entries c), order := remove1 k (order c)\<rparr>"

definition lru_empty :: "'v lru" where
  "lru_empty = \<lparr>entries = [], order = []\<rparr>"

section \<open>Construction\<close>

definition parsePortRange :: "bytes \<Rightarrow> SetConfig \<Rightarrow> portRange option" where
  "parsePortRange part st =
     (let part = trim part in
      if part = [] then None
      else if 45 \<in> set part then
        (case split2 45 part of
           [b0, b1] \<Rightarrow>
             let (mn, ok1) = Atoi b0; (mx, ok2) = Atoi b1
             in if ok1 \<and> ok2 \<and> mn \<ge> 0 \<and> mx \<ge> 0 \<and> mn \<le> mx
                then Some \<lparr>pmin = mn, pmax = mx, pr_set = st\<rparr> else None
         | _ \<Rightarrow> None)
      else let (port, ok) = Atoi part
           in if ok \<and> port \<ge> 0 then Some \<lparr>pmin = port, pmax = port, pr_set = st\<rparr> else None)"

definition regexp_prefix :: bytes where "regexp_prefix = [114, 101, 103, 101, 120, 112, 58]"

text \<open>\<open>strings.TrimRight(d, ".")\<close>\<close>
definition trim_dots :: "bytes \<Rightarrow> bytes" where
  "trim_dots d = rev (dropWhile (\<lambda>b. b = 46) (rev d))"

text \<open>The loop over the domains of one set; \<open>seen\<close> are the keys of \<open>seenRegexes\<close>.\<close>
definition add_domain ::
  "(bytes \<Rightarrow> (bytes \<Rightarrow> bool) option) \<Rightarrow> SetConfig \<Rightarrow> bytes \<Rightarrow> SuffixSet \<times> bytes list \<Rightarrow> SuffixSet \<times> bytes list" where
  "add_domain rx st d = (\<lambda>(s, seen).
     let d = lower (trim d) in
     if d = [] then (s, seen)
     else if prefix regexp_prefix d then
       let pattern = drop (length regexp_prefix) d in
       if pattern \<in> set seen then (s, seen)
       else if rx pattern \<noteq> None
         then (s\<lparr>regexes := regexes s @ [\<lparr>regex = pattern, rw_set = st\<rparr>]\<rparr>, pattern # seen)
         else (s, seen)
     else let d = trim_dots d;
              old = (case gget (multiSets s) d of None \<Rightarrow> [] | Some l \<Rightarrow> l);
              s = s\<lparr>multiSets := gput d (old @ [st]) (multiSets s)\<rparr>
          in (if gget (sx_sets s) d = None then s\<lparr>sx_sets := gput d st (sx_sets s)\<rparr> else s, seen))"

definition parse_target_net :: "bytes \<Rightarrow> IPNet option" where
  "parse_target_net ipStr =
     (if 47 \<in> set ipStr then ParseCIDR ipStr
      else case ParseIP ipStr of None \<Rightarrow> None
        | Some ip \<Rightarrow> if To4 ip \<noteq> None then ParseCIDR (ipStr @ [47, 51, 50]) else ParseCIDR (ipStr @ [47, 49, 50, 56]))"

definition add_ip :: "SetConfig \<Rightarrow> bytes \<Rightarrow> SuffixSet \<Rightarrow> SuffixSet" where
  "add_ip st ipStr s =
     (let ipStr = trim ipStr in
      if ipStr = [] then s
      else case parse_target_net ipStr of None \<Rightarrow> s
        | Some n \<Rightarrow> s\<lparr>ipRanger := ipRanger s @ [\<lparr>ipNet = n, ir_set = st\<rparr>]\<rparr>)"

definition add_ports :: "SetConfig \<Rightarrow> SuffixSet \<Rightarrow> SuffixSet" where
  "add_ports st s =
     (let ranges = (\<lambda>flt. if flt = [] then [] else List.map_filter (\<lambda>p. parsePortRange p st) (split_on 44 flt))
      in s\<lparr>udpPortRanges := udpPortRanges s @ ranges (udp_DPortFilter (UDP st)),
           tcpPortRanges := tcpPortRanges s @ ranges (tcp_DPortFilter (TCP st))\<rparr>)"

definition add_set ::
  "(bytes \<Rightarrow> (bytes \<Rightarrow> bool) option) \<Rightarrow> SetConfig \<Rightarrow> SuffixSet \<times> bytes list \<Rightarrow> SuffixSet \<times> bytes list" where
  "add_set rx st = (\<lambda>(s, seen).
     if \<not> Enabled st then (s, seen)
     else let (s, seen) = fold (add_domain rx st) (DomainsToMatch (Targets st)) (s, seen);
              s = fold (add_ip st) (IpsToMatch (Targets st)) s
          in (add_ports st s, seen))"

definition empty_SuffixSet :: SuffixSet where
  "empty_SuffixSet = \<lparr>sx_sets = [], multiSets = [], regexes = [], regexCache = [], ipRanger = [],
     udpPortRanges = [], tcpPortRanges = [], ipCache = lru_empty, domainCache = lru_empty,
     learnedIPCache = lru_empty, regexCacheSize = 0\<rparr>"

definition NewSuffixSet :: "(bytes \<Rightarrow> (bytes \<Rightarrow> bool) option) \<Rightarrow> SetConfig list \<Rightarrow> SuffixSet" where
  "NewSuffixSet rx sets = fst (fold (add_set rx) sets (empty_SuffixSet, []))"

section \<open>Ports\<close>

definition match_port :: "portRange list \<Rightarrow> uint16 \<Rightarrow> SetConfig option" where
  "match_port rs dport =
     map_option pr_set (find (\<lambda>r. \<not> HasIPOrDomainTargets (pr_set r) \<and> uint dport \<ge> pmin r \<and> uint dport \<le> pmax r) rs)"

definition MatchUDPPort :: "uint16 \<Rightarrow> SuffixSet \<Rightarrow> SetConfig option" where
  "MatchUDPPort dport s = (if length (udpPortRanges s) = 0 then None else match_port (udpPortRanges s) dport)"

definition MatchTCPPort :: "uint16 \<Rightarrow> SuffixSet \<Rightarrow> SetConfig option" where
  "MatchTCPPort dport s = (if length (tcpPortRanges s) = 0 then None else match_port (tcpPortRanges s) dport)"

section \<open>Names\<close>

lemma after_dot_shorter: "c \<in> set s \<Longrightarrow> length (dropWhile P s) - Suc 0 < length s"
  using length_dropWhile_le [of P s] by (cases s) auto

text \<open>The loop over the parents of a name: the part after the first dot, as long as there is one\<close>
function find_parent :: "(bytes, 'v) gomap \<Rightarrow> bytes \<Rightarrow> 'v option" where
  "find_parent m remaining =
     (if 46 \<notin> set remaining then None
      else let remaining = tl (dropWhile (\<lambda>b. b \<noteq> 46) remaining)
           in case gget m remaining of Some v \<Rightarrow> Some v | None \<Rightarrow> find_parent m remaining)"
  by pat_completeness auto

termination
  by (relation "measure (\<lambda>(m, r). length r)") (auto intro: after_dot_shorter)

declare find_parent.simps [simp del]

definition find_suffix :: "(bytes, 'v) gomap \<Rightarrow> bytes \<Rightarrow> 'v option" where
  "find_suffix m host = (case gget m host of Some v \<Rightarrow> Some v | None \<Rightarrow> find_parent m host)"

definition domain_result :: "SuffixSet \<Rightarrow> bytes \<Rightarrow> cacheEntry" where
  "domain_result s host = (case find_suffix (sx_sets s) host of None \<Rightarrow> (False, None) | Some st \<Rightarrow> (True, Some st))"

text \<open>\<open>matchDomain\<close>: the look into the cache under its lock, then, without the lock, the search, and under the
  lock again the insertion, which finds the entry that another worker may have added meanwhile.\<close>
definition domain_cached :: "bytes \<Rightarrow> SuffixSet \<Rightarrow> (SuffixSet \<times> cacheEntry) option" where
  "domain_cached host s =
     (case gget (entries (domainCache s)) host of None \<Rightarrow> None
      | Some e \<Rightarrow> Some (s\<lparr>domainCache := lru_front host (domainCache s)\<rparr>, e))"

definition domain_insert :: "bytes \<Rightarrow> cacheEntry \<Rightarrow> SuffixSet \<Rightarrow> SuffixSet \<times> cacheEntry" where
  "domain_insert host e s =
     (case gget (entries (domainCache s)) host of
        Some e' \<Rightarrow> (s\<lparr>domainCache := lru_front host (domainCache s)\<rparr>, e')
      | None \<Rightarrow> (s\<lparr>domainCache := lru_add domainCacheLimit host e (domainCache s)\<rparr>, e))"

definition matchDomain :: "bytes \<Rightarrow> SuffixSet \<Rightarrow> SuffixSet \<times> cacheEntry" where
  "matchDomain host s =
     (case domain_cached host s of Some r \<Rightarrow> r | None \<Rightarrow> domain_insert host (domain_result s host) s)"

definition regex_matches :: "(bytes \<Rightarrow> (bytes \<Rightarrow> bool) option) \<Rightarrow> bytes \<Rightarrow> regexWithSet \<Rightarrow> bool" where
  "regex_matches rx host r = (case rx (regex r) of None \<Rightarrow> False | Some ms \<Rightarrow> ms host)"

definition regex_result :: "(bytes \<Rightarrow> (bytes \<Rightarrow> bool) option) \<Rightarrow> SuffixSet \<Rightarrow> bytes \<Rightarrow> cacheEntry" where
  "regex_result rx s host =
     (case find (regex_matches rx host) (regexes s) of None \<Rightarrow> (False, None) | Some r \<Rightarrow> (True, Some (rw_set r)))"

text \<open>\<open>s.regexCache.Store\<close> and \<open>atomic.AddInt32\<close>: other workers may run between the look at the size and these two\<close>
definition regex_put :: "bytes \<Rightarrow> cacheEntry \<Rightarrow> SuffixSet \<Rightarrow> SuffixSet" where
  "regex_put host e s = s\<lparr>regexCache := gput host e (regexCache s)\<rparr>"

definition regex_count :: "SuffixSet \<Rightarrow> SuffixSet" where
  "regex_count s = s\<lparr>regexCacheSize := regexCacheSize s + 1\<rparr>"

definition matchRegex :: "(bytes \<Rightarrow> (bytes \<Rightarrow> bool) option) \<Rightarrow> bytes \<Rightarrow> SuffixSet \<Rightarrow> SuffixSet \<times> cacheEntry" where
  "matchRegex rx host s =
     (case gget (regexCache s) host of Some e \<Rightarrow> (s, e)
      | None \<Rightarrow>
          let e = regex_result rx s host
          in (if regexCacheSize s < regexCacheMax
              then regex_count (regex_put host e s) else s, e))"

definition MatchSNI :: "(bytes \<Rightarrow> (bytes \<Rightarrow> bool) option) \<Rightarrow> bytes \<Rightarrow> SuffixSet \<Rightarrow> SuffixSet \<times> cacheEntry" where
  "MatchSNI rx host s =
     (if length (sx_sets s) = 0 \<and> length (regexes s) = 0 \<or> host = [] then (s, (False, None))
      else let lw = lower host;
               (s, (matched, st)) = matchDomain lw s
           in if matched then (s, (True, st))
              else if length (regexes s) > 0 then matchRegex rx lw s
              else (s, (False, None)))"

section \<open>Addresses\<close>

text \<open>\<open>sort.Slice\<close> by prefix length, longest first. The networks that contain one address have different
  lengths, so the result does not depend on the sorting algorithm.\<close>
definition sortEntriesBySpecificity :: "ipRange list \<Rightarrow> ipRange list" where
  "sortEntriesBySpecificity es = sort_key (\<lambda>e. - int (mask_ones (net_Mask (ipNet e)))) es"

definition cacheIPResult :: "bytes \<Rightarrow> cacheEntry \<Rightarrow> SuffixSet \<Rightarrow> SuffixSet" where
  "cacheIPResult ipStr e s =
     (case gget (entries (ipCache s)) ipStr of
        Some e' \<Rightarrow> s\<lparr>ipCache := lru_front ipStr (ipCache s)\<rparr>
      | None \<Rightarrow> s\<lparr>ipCache := lru_add ipCacheLimit ipStr e (ipCache s)\<rparr>)"

definition ip_result :: "(ipRange list \<Rightarrow> bytes \<Rightarrow> ipRange list option) \<Rightarrow> SuffixSet \<Rightarrow> bytes \<Rightarrow> cacheEntry" where
  "ip_result cn s ip =
     (case cn (ipRanger s) ip of None \<Rightarrow> (False, None)
      | Some es \<Rightarrow>
          if length es = 0 then (False, None)
          else let es = (if length es > 1 then sortEntriesBySpecificity es else es)
               in (True, Some (ir_set (hd es))))"

definition MatchIP ::
  "(ipRange list \<Rightarrow> bytes \<Rightarrow> ipRange list option) \<Rightarrow> bytes \<Rightarrow> SuffixSet \<Rightarrow> SuffixSet \<times> cacheEntry" where
  "MatchIP cn ip s =
     (let ipStr = IP_String ip
      in case gget (entries (ipCache s)) ipStr of
           Some e \<Rightarrow> (s\<lparr>ipCache := lru_front ipStr (ipCache s)\<rparr>, e)
         | None \<Rightarrow> let e = ip_result cn s ip in (cacheIPResult ipStr e s, e))"

section \<open>Learned addresses\<close>

text \<open>\<open>ip\<close> and \<open>set\<close> may be \<open>nil\<close>.\<close>
definition LearnIPToDomain :: "gotime \<Rightarrow> bytes option \<Rightarrow> bytes \<Rightarrow> SetConfig option \<Rightarrow> SuffixSet \<Rightarrow> SuffixSet" where
  "LearnIPToDomain now ip domain st s =
     (case (ip, st) of
        (Some ip, Some st) \<Rightarrow>
          if domain = [] \<or> DomainOnly (Targets st) then s
          else let ipStr = IP_String ip; c = learnedIPCache s;
                   e = \<lparr>le_domain = domain, le_set = st, learnedAt = now\<rparr>
               in if gget (entries c) ipStr \<noteq> None
                  then s\<lparr>learnedIPCache := (lru_front ipStr c)\<lparr>entries := gput ipStr e (entries c)\<rparr>\<rparr>
                  else s\<lparr>learnedIPCache := lru_add learnedIPCacheLimit ipStr e c\<rparr>
      | _ \<Rightarrow> s)"

text \<open>An entry that is used again\<close>
definition refresh_learned :: "gotime \<Rightarrow> bytes \<Rightarrow> learnedIPEntry \<Rightarrow> SuffixSet \<Rightarrow> SuffixSet" where
  "refresh_learned now' ipStr e s =
     s\<lparr>learnedIPCache := (lru_front ipStr (learnedIPCache s))
        \<lparr>entries := gput ipStr (e\<lparr>learnedAt := now'\<rparr>) (entries (learnedIPCache s))\<rparr>\<rparr>"

definition MatchLearnedIP :: "gotime \<Rightarrow> gotime \<Rightarrow> bytes \<Rightarrow> SuffixSet \<Rightarrow> SuffixSet \<times> (SetConfig \<times> bytes) option" where
  "MatchLearnedIP now now' ip s =
     (let ipStr = IP_String ip
      in case gget (entries (learnedIPCache s)) ipStr of None \<Rightarrow> (s, None)
         | Some e \<Rightarrow>
             if DomainOnly (Targets (le_set e)) then (s, None)
             else if now - learnedAt e > learnedIPTTL
               then (s\<lparr>learnedIPCache := lru_remove ipStr (learnedIPCache s)\<rparr>, None)
             else (refresh_learned now' ipStr e s, Some (le_set e, le_domain e)))"

text \<open>The entries that are not expired, in the order of the map, are matched again in the new set. \<open>nows i\<close>
  is the clock when the \<open>i\<close>-th of them is learned.\<close>
definition transfer_one ::
  "(bytes \<Rightarrow> (bytes \<Rightarrow> bool) option) \<Rightarrow> gotime \<Rightarrow> bytes \<times> learnedIPEntry \<Rightarrow> SuffixSet \<Rightarrow> SuffixSet" where
  "transfer_one rx now = (\<lambda>(ipStr, e) s.
     let (s, (matched, newSet)) = MatchSNI rx (le_domain e) s
     in if matched then LearnIPToDomain now (ParseIP ipStr) (le_domain e) newSet s else s)"

definition TransferLearnedIPs ::
  "(bytes \<Rightarrow> (bytes \<Rightarrow> bool) option) \<Rightarrow> gotime \<Rightarrow> (nat \<Rightarrow> gotime) \<Rightarrow> SuffixSet \<Rightarrow> SuffixSet \<Rightarrow> SuffixSet" where
  "TransferLearnedIPs rx now nows old s =
     (let live = filter (\<lambda>(k, e). now - learnedAt e \<le> learnedIPTTL) (entries (learnedIPCache old))
      in fold (\<lambda>(t, e). transfer_one rx t e) (zip (map nows [0..<length live]) live) s)"

definition GetCacheStats :: "SuffixSet \<Rightarrow> (string \<times> nat) list" where
  "GetCacheStats s =
     [(''ip_cache_size'', length (entries (ipCache s))), (''ip_cache_limit'', ipCacheLimit),
      (''domain_cache_size'', length (entries (domainCache s))), (''domain_cache_limit'', domainCacheLimit),
      (''learned_ip_cache_size'', length (entries (learnedIPCache s))), (''learned_ip_cache_limit'', learnedIPCacheLimit),
      (''regex_cache_size'', regexCacheSize s), (''regex_cache_limit'', 10000)]"

section \<open>Sources and versions\<close>

definition setMatchesSource :: "SetConfig \<Rightarrow> bytes \<Rightarrow> bool" where
  "setMatchesSource st srcMAC =
     (if length (SourceDevices (Targets st)) = 0 then True
      else let exclude = SourceDevicesExclude (Targets st)
           in if srcMAC = [] then exclude
              else if list_ex (\<lambda>mac. lower mac = lower srcMAC) (SourceDevices (Targets st)) then \<not> exclude
              else exclude)"

text \<open>A candidate with source devices that match, then one without source devices, then the same
  ignoring the versions. The recursion ends because its versions are 0.\<close>
function selectSetBySourceAndTLS :: "SetConfig list \<Rightarrow> bytes \<Rightarrow> uint16 \<Rightarrow> byte \<Rightarrow> SetConfig option" where
  "selectSetBySourceAndTLS candidates srcMAC tlsVersion ipVersion =
     (if length candidates = 0 then None
      else case find (\<lambda>st. length (SourceDevices (Targets st)) > 0 \<and> setMatchesSource st srcMAC \<and>
                 MatchesTLSVersion st tlsVersion \<and> MatchesIPVersion st ipVersion) candidates of
        Some st \<Rightarrow> Some st
      | None \<Rightarrow>
          (case find (\<lambda>st. length (SourceDevices (Targets st)) = 0 \<and>
                 MatchesTLSVersion st tlsVersion \<and> MatchesIPVersion st ipVersion) candidates of
             Some st \<Rightarrow> Some st
           | None \<Rightarrow>
               if tlsVersion \<noteq> 0 \<or> ipVersion \<noteq> 0 then selectSetBySourceAndTLS candidates srcMAC 0 0 else None))"
  by pat_completeness auto

termination
  by (relation "measure (\<lambda>(c, m, t, i). if t \<noteq> 0 \<or> i \<noteq> 0 then 1 else 0)") auto

declare selectSetBySourceAndTLS.simps [simp del]

definition selectSetBySource :: "SetConfig list \<Rightarrow> bytes \<Rightarrow> byte \<Rightarrow> SetConfig option" where
  "selectSetBySource candidates srcMAC ipVersion = selectSetBySourceAndTLS candidates srcMAC 0 ipVersion"

definition findDomainCandidates :: "SuffixSet \<Rightarrow> bytes \<Rightarrow> SetConfig list" where
  "findDomainCandidates s host = (case find_suffix (multiSets s) host of None \<Rightarrow> [] | Some l \<Rightarrow> l)"

definition matchDomainWithSourceTLS :: "SuffixSet \<Rightarrow> bytes \<Rightarrow> bytes \<Rightarrow> uint16 \<Rightarrow> byte \<Rightarrow> SetConfig option" where
  "matchDomainWithSourceTLS s host srcMAC tlsVersion ipVersion =
     (let candidates = findDomainCandidates s host
      in if length candidates = 0 then None else selectSetBySourceAndTLS candidates srcMAC tlsVersion ipVersion)"

definition matchRegexWithSourceTLS ::
  "(bytes \<Rightarrow> (bytes \<Rightarrow> bool) option) \<Rightarrow> SuffixSet \<Rightarrow> bytes \<Rightarrow> bytes \<Rightarrow> uint16 \<Rightarrow> byte \<Rightarrow> SetConfig option" where
  "matchRegexWithSourceTLS rx s host srcMAC tlsVersion ipVersion =
     (let candidates = map rw_set (filter (regex_matches rx host) (regexes s))
      in if length candidates = 0 then None else selectSetBySourceAndTLS candidates srcMAC tlsVersion ipVersion)"

definition MatchSNIWithSourceTLS ::
  "(bytes \<Rightarrow> (bytes \<Rightarrow> bool) option) \<Rightarrow> SuffixSet \<Rightarrow> bytes \<Rightarrow> bytes \<Rightarrow> uint16 \<Rightarrow> byte \<Rightarrow> SetConfig option" where
  "MatchSNIWithSourceTLS rx s host srcMAC tlsVersion ipVersion =
     (if length (sx_sets s) = 0 \<and> length (regexes s) = 0 \<or> host = [] then None
      else let lw = lower host
           in case matchDomainWithSourceTLS s lw srcMAC tlsVersion ipVersion of
                Some st \<Rightarrow> Some st
              | None \<Rightarrow> if length (regexes s) > 0 then matchRegexWithSourceTLS rx s lw srcMAC tlsVersion ipVersion
                        else None)"

definition MatchSNIWithSource ::
  "(bytes \<Rightarrow> (bytes \<Rightarrow> bool) option) \<Rightarrow> SuffixSet \<Rightarrow> bytes \<Rightarrow> bytes \<Rightarrow> SetConfig option" where
  "MatchSNIWithSource rx s host srcMAC = MatchSNIWithSourceTLS rx s host srcMAC 0 0"

definition ipVersionOf :: "bytes \<Rightarrow> byte" where
  "ipVersionOf ip = (if To4 ip \<noteq> None then 4 else 6)"

definition MatchIPWithSource ::
  "(ipRange list \<Rightarrow> bytes \<Rightarrow> ipRange list option) \<Rightarrow> SuffixSet \<Rightarrow> bytes \<Rightarrow> bytes \<Rightarrow> SetConfig option" where
  "MatchIPWithSource cn s ip srcMAC =
     (case cn (ipRanger s) ip of None \<Rightarrow> None
      | Some es \<Rightarrow>
          if length es = 0 then None
          else let candidates = map ir_set (sortEntriesBySpecificity es)
               in selectSetBySource candidates srcMAC (ipVersionOf ip))"

definition MatchLearnedIPWithSource ::
  "(bytes \<Rightarrow> (bytes \<Rightarrow> bool) option) \<Rightarrow> gotime \<Rightarrow> gotime \<Rightarrow> bytes \<Rightarrow> bytes \<Rightarrow> SuffixSet \<Rightarrow>
   SuffixSet \<times> (SetConfig \<times> bytes) option" where
  "MatchLearnedIPWithSource rx now now' ip srcMAC s =
     (let ipStr = IP_String ip
      in case gget (entries (learnedIPCache s)) ipStr of None \<Rightarrow> (s, None)
         | Some e \<Rightarrow>
             if DomainOnly (Targets (le_set e)) then (s, None)
             else if now - learnedAt e > learnedIPTTL
               then (s\<lparr>learnedIPCache := lru_remove ipStr (learnedIPCache s)\<rparr>, None)
             else if \<not> setMatchesSource (le_set e) srcMAC then
               (case MatchSNIWithSourceTLS rx s (le_domain e) srcMAC 0 (ipVersionOf ip) of
                  Some altSet \<Rightarrow> (refresh_learned now' ipStr e s, Some (altSet, le_domain e))
                | None \<Rightarrow> (s, None))
             else (refresh_learned now' ipStr e s, Some (le_set e, le_domain e)))"

section \<open>What the caches promise\<close>

text \<open>A cache in front of a function: entries can be looked up, moved and added. The client's lemma says
  that asking the cache first and adding the computed value otherwise gives the function's value
  and keeps the cache sound, whatever the cache forgets.\<close>
locale memo =
  fixes ok :: "'c \<Rightarrow> bool"
    and look :: "'c \<Rightarrow> bytes \<Rightarrow> 'v option"
    and touch :: "bytes \<Rightarrow> 'c \<Rightarrow> 'c"
    and add :: "bytes \<Rightarrow> 'v \<Rightarrow> 'c \<Rightarrow> 'c"
  assumes touch_ok: "ok c \<Longrightarrow> look c k \<noteq> None \<Longrightarrow> ok (touch k c)"
    and touch_look: "ok c \<Longrightarrow> look (touch k c) k' = look c k'"
    and add_ok: "ok c \<Longrightarrow> look c k = None \<Longrightarrow> ok (add k v c)"
    and add_look: "ok c \<Longrightarrow> look c k = None \<Longrightarrow> look (add k v c) k' = Some w \<Longrightarrow>
      k' = k \<and> w = v \<or> look c k' = Some w"
begin

lemma query_sound:
  fixes k :: bytes
  assumes "ok c" "\<And>k v. look c k = Some v \<Longrightarrow> v = f k"
  defines "q \<equiv> (case look c k of Some v \<Rightarrow> (touch k c, v) | None \<Rightarrow> (add k (f k) c, f k))"
  shows "snd q = f k" "ok (fst q)" "look (fst q) k' = Some v \<Longrightarrow> v = f k'"
proof -
  show "snd q = f k" using assms(2) by (auto simp: q_def split: option.split)
  show "ok (fst q)"
    using touch_ok [of c k] add_ok [of c k] assms(1) by (auto simp: q_def split: option.split)
  show "look (fst q) k' = Some v \<Longrightarrow> v = f k'"
    using touch_look [OF assms(1)] add_look [OF assms(1), of k] assms(2)
    by (force simp: q_def split: option.splits)
qed

end

definition lru_ok :: "nat \<Rightarrow> 'v lru \<Rightarrow> bool" where
  "lru_ok limit c \<longleftrightarrow> gok (entries c) \<and> distinct (order c) \<and> set (order c) = fst ` set (entries c) \<and>
     length (entries c) \<le> limit"

lemma lru_ok_empty [simp]: "lru_ok limit lru_empty"
  by (simp add: lru_ok_def lru_empty_def)

lemma gget_None_key: "gget m k = None \<longleftrightarrow> k \<notin> fst ` set m"
  by (simp add: map_of_eq_None_iff)

lemma lru_ok_front:
  assumes "lru_ok limit c" "gget (entries c) k \<noteq> None"
  shows "lru_ok limit (lru_front k c)"
proof -
  have "k \<in> set (order c)" using assms by (auto simp: lru_ok_def gget_None_key)
  then show ?thesis using assms(1) by (auto simp: lru_ok_def lru_front_def)
qed

lemma entries_front [simp]: "entries (lru_front k c) = entries c"
  by (simp add: lru_front_def)

text \<open>A full cache gives up its least recently used entry and nothing else.\<close>
lemma lru_room_full:
  assumes "lru_ok limit c" "length (entries c) = limit" "0 < limit"
  shows "order c \<noteq> []" "lru_ok limit (lru_room limit c)" "length (entries (lru_room limit c)) < limit"
    "gget (entries (lru_room limit c)) k = (if k = last (order c) then None else gget (entries c) k)"
    "order (lru_room limit c) = butlast (order c)"
proof -
  have s: "set (order c) = fst ` set (entries c)" and d: "distinct (order c)" and g: "gok (entries c)"
    using assms(1) by (auto simp: lru_ok_def)
  show ne: "order c \<noteq> []" using s assms(2,3) by auto
  then have r: "lru_room limit c = c\<lparr>entries := gdel (last (order c)) (entries c), order := butlast (order c)\<rparr>"
    using assms(2) by (simp add: lru_room_def)
  have l: "last (order c) \<in> fst ` set (entries c)" using ne s last_in_set by blast
  then have "Suc (length (gdel (last (order c)) (entries c))) = length (entries c)"
    using g by (intro length_gdel) (auto simp: gget_None_key)
  then show k: "length (entries (lru_room limit c)) < limit" using assms(2) by (simp add: r)
  have "set (butlast (order c)) = set (order c) - {last (order c)}"
  proof -
    obtain xs x where o: "order c = xs @ [x]" using ne by (metis append_butlast_last_id)
    then show ?thesis using d by auto
  qed
  then show "lru_ok limit (lru_room limit c)"
    using k s d g by (auto simp: r lru_ok_def set_gdel distinct_butlast gok_gdel)
  show "gget (entries (lru_room limit c)) k = (if k = last (order c) then None else gget (entries c) k)"
    by (simp add: r gget_gdel)
  show "order (lru_room limit c) = butlast (order c)" by (simp add: r)
qed

lemma lru_room_id: "length (entries c) < limit \<Longrightarrow> lru_room limit c = c"
  by (simp add: lru_room_def)

lemma lru_ok_put:
  assumes "lru_ok limit c" "gget (entries c) k = None" "length (entries c) < limit"
  shows "lru_ok limit (c\<lparr>entries := gput k v (entries c), order := k # order c\<rparr>)"
  using assms keys_gput [of k v "entries c"] length_gput_le [of k v "entries c"]
  by (auto simp: lru_ok_def gget_None_key gok_gput)

lemma lru_room_cases:
  assumes "lru_ok limit c" "0 < limit"
  shows "lru_ok limit (lru_room limit c) \<and> length (entries (lru_room limit c)) < limit \<and>
    (\<forall>k. gget (entries (lru_room limit c)) k = gget (entries c) k \<or> gget (entries (lru_room limit c)) k = None)"
proof (cases "length (entries c) = limit")
  case True
  then show ?thesis using lru_room_full [OF assms(1) True assms(2)] by simp
next
  case False
  then have "length (entries c) < limit" using assms(1) by (simp add: lru_ok_def)
  then show ?thesis using assms(1) by (simp add: lru_room_id)
qed

lemma lru_add_ok:
  assumes "lru_ok limit c" "0 < limit" "gget (entries c) k = None"
  shows "lru_ok limit (lru_add limit k v c)"
  using lru_room_cases [OF assms(1,2)] assms(3) unfolding lru_add_def Let_def
  by (intro lru_ok_put) (auto, metis option.distinct(1))

lemma lru_add_look:
  assumes "lru_ok limit c" "0 < limit"
  shows "gget (entries (lru_add limit k v c)) k' =
    (if k' = k then Some v
     else if length (entries c) = limit \<and> k' = last (order c) then None else gget (entries c) k')"
proof (cases "length (entries c) = limit")
  case True
  then show ?thesis using lru_room_full [OF assms(1) True assms(2)] by (simp add: lru_add_def Let_def gget_gput)
next
  case False
  then have "length (entries c) < limit" using assms(1) by (simp add: lru_ok_def)
  then show ?thesis using False by (simp add: lru_add_def lru_room_id gget_gput)
qed

lemma lru_ok_remove:
  assumes "lru_ok limit c"
  shows "lru_ok limit (lru_remove k c)"
  using assms length_gdel_le [of k "entries c"] by (auto simp: lru_ok_def lru_remove_def set_gdel gok_gdel)

lemma lru_ok_update:
  assumes "lru_ok limit c" "gget (entries c) k \<noteq> None"
  shows "lru_ok limit ((lru_front k c)\<lparr>entries := gput k v (entries c)\<rparr>)"
proof -
  have "k \<in> fst ` set (entries c)" using assms(2) by (auto simp: gget_None_key)
  then show ?thesis
    using lru_ok_front [OF assms] keys_gput [of k v "entries c"] assms(2)
    by (auto simp: lru_ok_def lru_front_def gok_gput length_gput insert_absorb)
qed

interpretation lruc: memo "lru_ok 2000" "\<lambda>c. gget (entries c)" lru_front "lru_add 2000"
proof unfold_locales
  show "lru_ok 2000 (lru_front k c)" if "lru_ok 2000 c" "gget (entries c) k \<noteq> None" for c :: "'a lru" and k
    using that by (rule lru_ok_front)
  show "lru_ok 2000 (lru_add 2000 k v c)" if "lru_ok 2000 c" "gget (entries c) k = None" for c :: "'a lru" and k v
    using that by (intro lru_add_ok) auto
  show "k' = k \<and> w = v \<or> gget (entries c) k' = Some w"
    if "lru_ok 2000 c" "gget (entries (lru_add 2000 k v c)) k' = Some w" for c :: "'a lru" and k v k' w
    using that lru_add_look [of 2000 c k v k'] by (auto split: if_splits)
qed simp

text \<open>The cache of regular expressions has no eviction: it stops growing. How far it grows depends on the number of workers
  (\<open>regex_race_bound\<close>).\<close>
definition rc_ok :: "(bytes, cacheEntry) gomap \<times> nat \<Rightarrow> bool" where
  "rc_ok = (\<lambda>(m, n). gok m)"

definition rc_add :: "bytes \<Rightarrow> cacheEntry \<Rightarrow> (bytes, cacheEntry) gomap \<times> nat \<Rightarrow> (bytes, cacheEntry) gomap \<times> nat" where
  "rc_add k e = (\<lambda>(m, n). if n < regexCacheMax then (gput k e m, n + 1) else (m, n))"

interpretation regc: memo rc_ok "\<lambda>c. gget (fst c)" "\<lambda>k c. c" rc_add
  by unfold_locales (auto simp: rc_ok_def rc_add_def length_gput gget_gput split: if_splits)


section \<open>The longest domain wins\<close>

text \<open>A name is covered by a domain if it is that domain or ends with a dot and the domain.\<close>
definition covered :: "bytes \<Rightarrow> bytes \<Rightarrow> bool" where
  "covered host d \<longleftrightarrow> host = d \<or> suffix (46 # d) host"

lemma covered_step:
  assumes "46 \<in> set r"
  shows "suffix (46 # d) r \<longleftrightarrow> covered (tl (dropWhile (\<lambda>b. b \<noteq> 46) r)) d"
proof -
  let ?p = "takeWhile (\<lambda>b. b \<noteq> 46) r" and ?t = "tl (dropWhile (\<lambda>b. b \<noteq> 46) r)"
  have p: "46 \<notin> set ?p" by (auto dest: set_takeWhileD)
  have "dropWhile (\<lambda>b. b \<noteq> 46) r \<noteq> []" using assms by (simp add: dropWhile_eq_Nil_conv)
  then have "dropWhile (\<lambda>b. b \<noteq> 46) r = 46 # ?t" using hd_dropWhile [of "\<lambda>b. b \<noteq> 46" r] by (metis list.collapse)
  then have r: "r = ?p @ 46 # ?t" using takeWhile_dropWhile_id [of "\<lambda>b. b \<noteq> 46" r] by simp
  have "suffix (46 # d) (p @ 46 # t) \<longleftrightarrow> covered t d" if "46 \<notin> set p" for p t
    using that by (induction p) (auto simp: covered_def suffix_Cons)
  from this [OF p] show ?thesis using r by metis
qed

lemma covered_shorter: "covered host d \<Longrightarrow> length d \<le> length host"
  by (auto simp: covered_def dest: suffix_length_le)

lemma no_dot: "46 \<notin> set r \<Longrightarrow> \<not> suffix (46 # d) r"
  by (meson list.set_intros(1) set_mono_suffix subsetD)

definition longest :: "(bytes, 'v) gomap \<Rightarrow> (bytes \<Rightarrow> bool) \<Rightarrow> 'v option \<Rightarrow> bool" where
  "longest m P r \<longleftrightarrow>
     (case r of None \<Rightarrow> \<forall>d. P d \<longrightarrow> gget m d = None
      | Some v \<Rightarrow> \<exists>d. P d \<and> gget m d = Some v \<and> (\<forall>d'. P d' \<and> gget m d' \<noteq> None \<longrightarrow> length d' \<le> length d))"

lemma find_parent_longest: "longest m (\<lambda>d. suffix (46 # d) r) (find_parent m r)"
proof (induction m r rule: find_parent.induct)
  case (1 m r)
  let ?t = "tl (dropWhile (\<lambda>b. b \<noteq> 46) r)"
  show ?case
  proof (cases "46 \<in> set r")
    case False
    then show ?thesis by (subst find_parent.simps) (simp add: longest_def no_dot)
  next
    case True
    note st = covered_step [OF True]
    show ?thesis
    proof (cases "gget m ?t")
      case None
      then have ih: "longest m (\<lambda>d. suffix (46 # d) ?t) (find_parent m ?t)" using 1 True by simp
      have e: "find_parent m r = find_parent m ?t" using True None by (subst find_parent.simps) simp
      show ?thesis using ih None unfolding e longest_def st covered_def
        by (auto split: option.splits)
    next
      case (Some v)
      then have "find_parent m r = Some v" using True by (subst find_parent.simps) simp
      moreover have "covered ?t ?t" by (simp add: covered_def)
      ultimately show ?thesis
        using Some covered_shorter [of ?t] unfolding longest_def st by auto
    qed
  qed
qed

lemma find_suffix_longest: "longest m (covered host) (find_suffix m host)"
proof (cases "gget m host")
  case None
  then show ?thesis
    using find_parent_longest [of m host] unfolding longest_def find_suffix_def covered_def
    by (auto split: option.splits)
next
  case (Some v)
  moreover have "covered host host" by (simp add: covered_def)
  ultimately show ?thesis using covered_shorter [of host] unfolding longest_def find_suffix_def by auto
qed

section \<open>What the construction stores\<close>

text \<open>The domains of a set as they are compared, and its regular expressions\<close>
definition norm_domain :: "bytes \<Rightarrow> bytes option" where
  "norm_domain d = (let d = lower (trim d) in
     if d = [] \<or> prefix regexp_prefix d then None else Some (trim_dots d))"

definition norm_regex :: "bytes \<Rightarrow> bytes option" where
  "norm_regex d = (let d = lower (trim d) in
     if prefix regexp_prefix d then Some (drop (length regexp_prefix) d) else None)"

definition set_domains :: "SetConfig \<Rightarrow> (bytes \<times> SetConfig) list" where
  "set_domains st = map (\<lambda>d. (d, st)) (List.map_filter norm_domain (DomainsToMatch (Targets st)))"

definition set_regexes :: "SetConfig \<Rightarrow> (bytes \<times> SetConfig) list" where
  "set_regexes st = map (\<lambda>d. (d, st)) (List.map_filter norm_regex (DomainsToMatch (Targets st)))"

text \<open>All of them, in the order of the configuration\<close>
definition domain_targets :: "SetConfig list \<Rightarrow> (bytes \<times> SetConfig) list" where
  "domain_targets sets = concat (map set_domains (filter Enabled sets))"

definition regex_targets :: "SetConfig list \<Rightarrow> (bytes \<times> SetConfig) list" where
  "regex_targets sets = concat (map set_regexes (filter Enabled sets))"

text \<open>What the tables hold after the targets \<open>ds\<close> and \<open>rs\<close> have been added\<close>
definition built :: "(bytes \<Rightarrow> (bytes \<Rightarrow> bool) option) \<Rightarrow> (bytes \<times> SetConfig) list \<Rightarrow> (bytes \<times> SetConfig) list \<Rightarrow>
    SuffixSet \<times> bytes list \<Rightarrow> bool" where
  "built rx ds rs = (\<lambda>(s, seen).
     (\<forall>d. gget (sx_sets s) d = gget ds d) \<and>
     (\<forall>d. gget (multiSets s) d = (if gget ds d = None then None else Some (map snd (filter (\<lambda>e. fst e = d) ds)))) \<and>
     (\<forall>host. find (regex_matches rx host) (regexes s) =
        map_option (\<lambda>(p, st). \<lparr>regex = p, rw_set = st\<rparr>)
          (find (\<lambda>(p, st). regex_matches rx host \<lparr>regex = p, rw_set = st\<rparr>) rs)) \<and>
     (\<forall>p \<in> set seen. \<exists>st. (p, st) \<in> set rs) \<and>
     ipCache s = lru_empty \<and> domainCache s = lru_empty \<and> learnedIPCache s = lru_empty \<and>
     regexCache s = [] \<and> regexCacheSize s = 0)"

lemma find_append: "find P (xs @ ys) = (case find P xs of Some x \<Rightarrow> Some x | None \<Rightarrow> find P ys)"
  by (induction xs) auto

lemma map_filter_Cons: "List.map_filter f (x # xs) = (case f x of None \<Rightarrow> List.map_filter f xs | Some y \<Rightarrow> y # List.map_filter f xs)"
  by (simp add: map_filter_simps)

lemma find_seen:
  "(p, st) \<in> set rs \<Longrightarrow> regex_matches rx host \<lparr>regex = p, rw_set = st'\<rparr> \<Longrightarrow>
   \<exists>x. find (\<lambda>(p, st). regex_matches rx host \<lparr>regex = p, rw_set = st\<rparr>) rs = Some x"
  by (induction rs) (auto simp: regex_matches_def)

lemma add_domain_built:
  assumes "built rx ds rs (s, seen)"
  shows "built rx (ds @ (case norm_domain d of None \<Rightarrow> [] | Some d \<Rightarrow> [(d, st)]))
     (rs @ (case norm_regex d of None \<Rightarrow> [] | Some p \<Rightarrow> [(p, st)])) (add_domain rx st d (s, seen))"
proof -
  let ?d = "lower (trim d)"
  let ?p = "drop (length regexp_prefix) ?d"
  consider (nil) "?d = []" | (re) "?d \<noteq> []" "prefix regexp_prefix ?d" | (dom) "?d \<noteq> []" "\<not> prefix regexp_prefix ?d"
    by blast
  then show ?thesis
  proof cases
    case nil
    then show ?thesis using assms
      by (simp add: add_domain_def norm_domain_def norm_regex_def regexp_prefix_def)
  next
    case re
    then have n: "norm_domain d = None" "norm_regex d = Some ?p" by (simp_all add: norm_domain_def norm_regex_def Let_def)
    consider (seen) "?p \<in> set seen" | (bad) "?p \<notin> set seen" "rx ?p = None" | (new) "?p \<notin> set seen" "rx ?p \<noteq> None" by blast
    then show ?thesis
    proof cases
      case seen
      then obtain st' where "(?p, st') \<in> set rs" using assms by (auto simp: built_def)
      from find_seen [OF this, of rx _ st] show ?thesis
        using assms re seen n by (fastforce simp: add_domain_def Let_def built_def find_append split: option.split)
    next
      case bad
      then show ?thesis
        using assms re n by (auto simp: add_domain_def Let_def built_def find_append regex_matches_def split: option.split)
    next
      case new
      then show ?thesis
        using assms re n by (auto simp: add_domain_def Let_def built_def find_append split: option.split)
    qed
  next
    case dom
    then have n: "norm_domain d = Some (trim_dots ?d)" "norm_regex d = None"
      by (simp_all add: norm_domain_def norm_regex_def Let_def)
    have f: "filter (\<lambda>e. fst e = k) ds = []" if "gget ds k = None" for k
      using that by (auto simp: filter_empty_conv map_of_eq_None_iff)
    show ?thesis
      using assms dom n f [of "trim_dots ?d"]
      by (auto simp: add_domain_def Let_def built_def map_add_def gget_gput split: option.splits)
  qed
qed


lemma map_filter_split: "List.map_filter f (xs @ ys) = List.map_filter f xs @ List.map_filter f ys"
  by (simp add: List.map_filter_def)

lemma add_domains_built:
  assumes "built rx ds rs (s, seen)"
  shows "built rx (ds @ map (\<lambda>d. (d, st)) (List.map_filter norm_domain dl))
     (rs @ map (\<lambda>d. (d, st)) (List.map_filter norm_regex dl)) (fold (add_domain rx st) dl (s, seen))"
  using assms
proof (induction dl arbitrary: ds rs s seen)
  case (Cons d dl)
  obtain s' seen' where e: "add_domain rx st d (s, seen) = (s', seen')" by force
  from Cons.IH [OF add_domain_built [OF Cons.prems, where d = d and st = st, unfolded e]] show ?case
    by (simp add: e map_filter_Cons split: option.splits)
qed (simp add: map_filter_simps)

lemma built_add_ips: "built rx ds rs (fold (add_ip st) ips s, seen) = built rx ds rs (s, seen)"
proof (induction ips arbitrary: s)
  case (Cons i ips)
  have "built rx ds rs (add_ip st i s, seen) = built rx ds rs (s, seen)"
    by (simp add: add_ip_def built_def Let_def split: option.split)
  then show ?case using Cons by simp
qed simp

lemma built_add_ports: "built rx ds rs (add_ports st s, seen) = built rx ds rs (s, seen)"
  by (simp add: add_ports_def built_def Let_def)

lemma add_set_built:
  assumes "built rx ds rs (s, seen)"
  shows "built rx (ds @ (if Enabled st then set_domains st else [])) (rs @ (if Enabled st then set_regexes st else []))
     (add_set rx st (s, seen))"
proof (cases "Enabled st")
  case True
  obtain s' seen' where e: "fold (add_domain rx st) (DomainsToMatch (Targets st)) (s, seen) = (s', seen')" by force
  show ?thesis
    using add_domains_built [OF assms, of st "DomainsToMatch (Targets st)"] True
    by (simp add: add_set_def e Let_def built_add_ports built_add_ips set_domains_def set_regexes_def)
qed (use assms in \<open>simp add: add_set_def\<close>)

lemma NewSuffixSet_built: "\<exists>seen. built rx (domain_targets sets) (regex_targets sets) (NewSuffixSet rx sets, seen)"
proof -
  have "built rx (ds @ domain_targets sets) (rs @ regex_targets sets) (fold (add_set rx) sets p)"
    if "built rx ds rs p" for ds rs p
    using that
  proof (induction sets arbitrary: ds rs p)
    case (Cons st sets)
    obtain s seen where p: "p = (s, seen)" by force
    from Cons.IH [OF add_set_built [OF Cons.prems [unfolded p], of st]] show ?case
      by (simp add: p domain_targets_def regex_targets_def split: if_splits)
  qed (simp add: domain_targets_def regex_targets_def)
  from this [of "[]" "[]" "(empty_SuffixSet, [])"]
  have "built rx (domain_targets sets) (regex_targets sets) (fold (add_set rx) sets (empty_SuffixSet, []))"
    by (simp add: built_def empty_SuffixSet_def)
  then show ?thesis unfolding NewSuffixSet_def by (metis prod.collapse)
qed

section \<open>Reachable states\<close>

text \<open>The tables that only the construction writes\<close>
definition same_tables :: "SuffixSet \<Rightarrow> SuffixSet \<Rightarrow> bool" where
  "same_tables s t \<longleftrightarrow> sx_sets t = sx_sets s \<and> multiSets t = multiSets s \<and> regexes t = regexes s \<and>
     ipRanger t = ipRanger s \<and> udpPortRanges t = udpPortRanges s \<and> tcpPortRanges t = tcpPortRanges s"

text \<open>The operations of the packet path on a \<^verbatim>\<open>SuffixSet\<close>. \<open>domain_insert\<close>, \<open>regex_put\<close> and \<open>regex_count\<close> are steps of their own:
  between the look into the cache and the insertion other workers may take steps, and what is inserted was computed
  from tables that never change.\<close>
inductive sx_step ::
  "(bytes \<Rightarrow> (bytes \<Rightarrow> bool) option) \<Rightarrow> (ipRange list \<Rightarrow> bytes \<Rightarrow> ipRange list option) \<Rightarrow> SuffixSet \<Rightarrow> SuffixSet \<Rightarrow> bool"
  for rx cn where
  sni: "sx_step rx cn s (fst (MatchSNI rx host s))"
| cached: "domain_cached host s = Some (s', e) \<Longrightarrow> sx_step rx cn s s'"
| insert: "sx_step rx cn s (fst (domain_insert host (domain_result s host) s))"
| regex_store: "sx_step rx cn s (regex_put host (regex_result rx s host) s)"
| regex_size: "sx_step rx cn s (regex_count s)"
| ip: "length a = 4 \<or> length a = 16 \<Longrightarrow> sx_step rx cn s (fst (MatchIP cn a s))"
| learn: "sx_step rx cn s (LearnIPToDomain now a domain st s)"
| learned: "sx_step rx cn s (fst (MatchLearnedIP now now' a s))"
| learned_src: "sx_step rx cn s (fst (MatchLearnedIPWithSource rx now now' a mac s))"
| transfer: "sx_step rx cn s (TransferLearnedIPs rx now nows old s)"

inductive sx_reachable ::
  "(bytes \<Rightarrow> (bytes \<Rightarrow> bool) option) \<Rightarrow> (ipRange list \<Rightarrow> bytes \<Rightarrow> ipRange list option) \<Rightarrow> SetConfig list \<Rightarrow> SuffixSet \<Rightarrow> bool"
  for rx cn sets where
  new: "sx_reachable rx cn sets (NewSuffixSet rx sets)"
| step: "sx_reachable rx cn sets s \<Longrightarrow> sx_step rx cn s t \<Longrightarrow> sx_reachable rx cn sets t"

text \<open>\<^verbatim>\<open>cidranger\<close> sees an address, not its representation in 4 or 16 bytes.\<close>
definition cn_by_address :: "(ipRange list \<Rightarrow> bytes \<Rightarrow> ipRange list option) \<Rightarrow> bool" where
  "cn_by_address cn \<longleftrightarrow> (\<forall>rg a b. (length a = 4 \<or> length a = 16) \<and> (length b = 4 \<or> length b = 16) \<and> To16 a = To16 b \<longrightarrow>
     cn rg a = cn rg b)"

definition ip_of_key :: "(ipRange list \<Rightarrow> bytes \<Rightarrow> ipRange list option) \<Rightarrow> SuffixSet \<Rightarrow> bytes \<Rightarrow> cacheEntry" where
  "ip_of_key cn s k = (case ParseIP k of None \<Rightarrow> (False, None) | Some a \<Rightarrow> ip_result cn s a)"

text \<open>Every cached answer is the answer the tables give, and every cache is within its limit.\<close>
definition sx_inv :: "(bytes \<Rightarrow> (bytes \<Rightarrow> bool) option) \<Rightarrow> (ipRange list \<Rightarrow> bytes \<Rightarrow> ipRange list option) \<Rightarrow> SuffixSet \<Rightarrow> bool" where
  "sx_inv rx cn s \<longleftrightarrow>
     lru_ok domainCacheLimit (domainCache s) \<and> (\<forall>k e. gget (entries (domainCache s)) k = Some e \<longrightarrow> e = domain_result s k) \<and>
     lru_ok ipCacheLimit (ipCache s) \<and> (\<forall>k e. gget (entries (ipCache s)) k = Some e \<longrightarrow> e = ip_of_key cn s k) \<and>
     rc_ok (regexCache s, regexCacheSize s) \<and> (\<forall>k e. gget (regexCache s) k = Some e \<longrightarrow> e = regex_result rx s k) \<and>
     lru_ok learnedIPCacheLimit (learnedIPCache s)"

lemma results_tables:
  assumes "same_tables s t"
  shows "domain_result t k = domain_result s k" "regex_result rx t k = regex_result rx s k"
    "ip_result cn t a = ip_result cn s a" "ip_of_key cn t k = ip_of_key cn s k"
  using assms by (simp_all add: same_tables_def domain_result_def regex_result_def ip_result_def ip_of_key_def cong: option.case_cong)

lemma same_tables_refl [simp]: "same_tables s s"
  by (simp add: same_tables_def)

lemma same_tables_trans: "same_tables s t \<Longrightarrow> same_tables t u \<Longrightarrow> same_tables s u"
  by (simp add: same_tables_def)

lemma same_tables_caches [simp]:
  "same_tables s (s\<lparr>domainCache := c\<rparr>)" "same_tables s (s\<lparr>ipCache := c\<rparr>)" "same_tables s (s\<lparr>learnedIPCache := d\<rparr>)"
  "same_tables s (s\<lparr>regexCache := m, regexCacheSize := n\<rparr>)" "same_tables s (regex_put h e s)" "same_tables s (regex_count s)"
  by (simp_all add: same_tables_def regex_put_def regex_count_def)

lemma ip_result_key:
  assumes "cn_by_address cn" "length a = 4 \<or> length a = 16"
  shows "ip_of_key cn s (IP_String a) = ip_result cn s a"
proof -
  have "To16 a \<noteq> None" using assms(2) by (auto simp: To16_def)
  then obtain b where b: "To16 a = Some b" by auto
  then have "length b = 16" using To16_length by blast
  then have "To16 b = Some b" by (simp add: To16_def)
  then have "cn (ipRanger s) b = cn (ipRanger s) a"
    using assms b \<open>length b = 16\<close> unfolding cn_by_address_def by metis
  then show ?thesis
    using ParseIP_String [OF assms(2)] b by (simp add: ip_of_key_def ip_result_def cong: option.case_cong)
qed


subsection \<open>Every operation keeps the caches sound\<close>

lemma matchDomain_query:
  "matchDomain host s =
    (let q = (case gget (entries (domainCache s)) host of
        Some v \<Rightarrow> (lru_front host (domainCache s), v)
      | None \<Rightarrow> (lru_add 2000 host (domain_result s host) (domainCache s), domain_result s host))
     in (s\<lparr>domainCache := fst q\<rparr>, snd q))"
  by (simp add: matchDomain_def domain_cached_def domain_insert_def domainCacheLimit_def split: option.split)

lemma matchDomain_inv:
  assumes "sx_inv rx cn s"
  shows "snd (matchDomain host s) = domain_result s host" "sx_inv rx cn (fst (matchDomain host s))"
    "same_tables s (fst (matchDomain host s))"
proof -
  let ?c = "domainCache s"
  note q = lruc.query_sound [where c = ?c and f = "domain_result s" and k = host]
  have ok: "lru_ok 2000 ?c" "\<And>k v. gget (entries ?c) k = Some v \<Longrightarrow> v = domain_result s k"
    using assms by (auto simp: sx_inv_def domainCacheLimit_def)
  note r = q [OF ok]
  show "snd (matchDomain host s) = domain_result s host"
    using r(1) by (simp add: matchDomain_query Let_def domainCacheLimit_def)
  show t: "same_tables s (fst (matchDomain host s))" by (simp add: matchDomain_query Let_def)
  show "sx_inv rx cn (fst (matchDomain host s))"
    using assms r(2,3) results_tables [OF t] by (simp add: sx_inv_def matchDomain_query Let_def domainCacheLimit_def)
qed

lemma matchRegex_inv:
  assumes "sx_inv rx cn s"
  shows "snd (matchRegex rx host s) = regex_result rx s host" "sx_inv rx cn (fst (matchRegex rx host s))"
    "same_tables s (fst (matchRegex rx host s))"
proof -
  let ?c = "(regexCache s, regexCacheSize s)"
  have ok: "rc_ok ?c" "\<And>k v. gget (fst ?c) k = Some v \<Longrightarrow> v = regex_result rx s k"
    using assms by (auto simp: sx_inv_def)
  note r = regc.query_sound [where k = host and f = "regex_result rx s", OF ok]
  have e: "matchRegex rx host s =
      (let q = (case gget (fst ?c) host of Some v \<Rightarrow> (?c, v) | None \<Rightarrow> (rc_add host (regex_result rx s host) ?c, regex_result rx s host))
       in (s\<lparr>regexCache := fst (fst q), regexCacheSize := snd (fst q)\<rparr>, snd q))"
    by (simp add: matchRegex_def regex_put_def regex_count_def rc_add_def Let_def split: option.split)
  show "snd (matchRegex rx host s) = regex_result rx s host" using r(1) by (simp add: e Let_def)
  show t: "same_tables s (fst (matchRegex rx host s))" by (simp add: e Let_def)
  show "sx_inv rx cn (fst (matchRegex rx host s))"
    using assms r(2,3) results_tables [OF t] by (simp add: sx_inv_def e Let_def)
qed

text \<open>The answer of \<open>MatchSNI\<close> without caches\<close>
definition sni_result :: "(bytes \<Rightarrow> (bytes \<Rightarrow> bool) option) \<Rightarrow> SuffixSet \<Rightarrow> bytes \<Rightarrow> cacheEntry" where
  "sni_result rx s host =
     (if length (sx_sets s) = 0 \<and> length (regexes s) = 0 \<or> host = [] then (False, None)
      else if fst (domain_result s (lower host)) then domain_result s (lower host)
      else if length (regexes s) > 0 then regex_result rx s (lower host) else (False, None))"

lemma MatchSNI_inv:
  assumes "sx_inv rx cn s"
  shows "snd (MatchSNI rx host s) = sni_result rx s host" "sx_inv rx cn (fst (MatchSNI rx host s))"
    "same_tables s (fst (MatchSNI rx host s))"
proof -
  obtain s' b st where d: "matchDomain (lower host) s = (s', b, st)" using prod_cases3 by blast
  note m = matchDomain_inv [OF assms, of "lower host", unfolded d, simplified]
  note r = matchRegex_inv [OF m(2), of "lower host"]
  have g: "regexes s' = regexes s" using m(3) by (simp add: same_tables_def)
  have b: "domain_result s (lower host) = (b, st)" using m(1) by simp
  show "snd (MatchSNI rx host s) = sni_result rx s host"
    using r(1) results_tables(2) [OF m(3)] by (auto simp: MatchSNI_def sni_result_def d b g Let_def)
  show "sx_inv rx cn (fst (MatchSNI rx host s))" using assms m(2) r(2) by (auto simp: MatchSNI_def d Let_def)
  show "same_tables s (fst (MatchSNI rx host s))"
    using m(3) same_tables_trans [OF m(3) r(3)] by (auto simp: MatchSNI_def d Let_def)
qed

lemma MatchIP_inv:
  assumes "sx_inv rx cn s" "cn_by_address cn" "length a = 4 \<or> length a = 16"
  shows "snd (MatchIP cn a s) = ip_result cn s a" "sx_inv rx cn (fst (MatchIP cn a s))"
    "same_tables s (fst (MatchIP cn a s))"
proof -
  let ?c = "ipCache s" and ?k = "IP_String a"
  have ok: "lru_ok 2000 ?c" "\<And>k v. gget (entries ?c) k = Some v \<Longrightarrow> v = ip_of_key cn s k"
    using assms(1) by (auto simp: sx_inv_def ipCacheLimit_def)
  note r = lruc.query_sound [where k = ?k and f = "ip_of_key cn s", OF ok]
  have e: "MatchIP cn a s = (let q = (case gget (entries ?c) ?k of Some v \<Rightarrow> (lru_front ?k ?c, v)
        | None \<Rightarrow> (lru_add 2000 ?k (ip_of_key cn s ?k) ?c, ip_of_key cn s ?k)) in (s\<lparr>ipCache := fst q\<rparr>, snd q))"
    by (simp add: MatchIP_def cacheIPResult_def ip_result_key [OF assms(2,3)] ipCacheLimit_def Let_def split: option.split)
  show "snd (MatchIP cn a s) = ip_result cn s a" using r(1) by (simp add: e Let_def ip_result_key [OF assms(2,3)])
  show t: "same_tables s (fst (MatchIP cn a s))" by (simp add: e Let_def)
  show "sx_inv rx cn (fst (MatchIP cn a s))"
    using assms(1) r(2,3) results_tables [OF t] by (simp add: sx_inv_def e Let_def ipCacheLimit_def)
qed

lemma sx_inv_learned:
  assumes "sx_inv rx cn s" "lru_ok learnedIPCacheLimit c"
  shows "sx_inv rx cn (s\<lparr>learnedIPCache := c\<rparr>)"
  using assms results_tables [OF same_tables_caches(3) [where s = s and d = c]] by (simp add: sx_inv_def)

lemma sx_inv_learned_ok: "sx_inv rx cn s \<Longrightarrow> lru_ok learnedIPCacheLimit (learnedIPCache s)"
  by (simp add: sx_inv_def)

lemma LearnIPToDomain_inv:
  assumes "sx_inv rx cn s"
  shows "sx_inv rx cn (LearnIPToDomain now a domain st s)" "same_tables s (LearnIPToDomain now a domain st s)"
proof -
  have "lru_ok learnedIPCacheLimit (learnedIPCache s)" using assms by (simp add: sx_inv_def)
  then show "sx_inv rx cn (LearnIPToDomain now a domain st s)"
    using assms unfolding LearnIPToDomain_def Let_def
    by (auto split: option.split intro!: sx_inv_learned lru_ok_update lru_add_ok simp: learnedIPCacheLimit_def)
  show "same_tables s (LearnIPToDomain now a domain st s)"
    by (auto simp: LearnIPToDomain_def Let_def split: option.split)
qed

lemma refresh_learned_inv:
  assumes "sx_inv rx cn s" "gget (entries (learnedIPCache s)) k \<noteq> None"
  shows "sx_inv rx cn (refresh_learned now k e s)" "same_tables s (refresh_learned now k e s)"
  using assms by (auto simp: refresh_learned_def intro!: sx_inv_learned lru_ok_update dest: sx_inv_learned_ok)

lemma lookups_inv:
  assumes "sx_inv rx cn s"
  shows "sx_inv rx cn (fst (MatchLearnedIP now now' a s))" "same_tables s (fst (MatchLearnedIP now now' a s))"
    "sx_inv rx cn (fst (MatchLearnedIPWithSource rx now now' a mac s))"
    "same_tables s (fst (MatchLearnedIPWithSource rx now now' a mac s))"
  using assms refresh_learned_inv [OF assms] sx_inv_learned [OF assms lru_ok_remove [OF sx_inv_learned_ok [OF assms]]]
  by (auto simp: MatchLearnedIP_def MatchLearnedIPWithSource_def Let_def split: option.split)

lemma transfer_inv:
  assumes "sx_inv rx cn s"
  shows "sx_inv rx cn (TransferLearnedIPs rx now nows old s)" "same_tables s (TransferLearnedIPs rx now nows old s)"
proof -
  have one: "sx_inv rx cn (transfer_one rx t e u) \<and> same_tables u (transfer_one rx t e u)" if "sx_inv rx cn u" for t e u
    using MatchSNI_inv(2,3) [OF that, of "le_domain (snd e)"] LearnIPToDomain_inv same_tables_trans
    by (fastforce simp: transfer_one_def Let_def split: prod.splits)
  have "sx_inv rx cn (fold (\<lambda>(t, e). transfer_one rx t e) l s) \<and>
      same_tables s (fold (\<lambda>(t, e). transfer_one rx t e) l s)" for l
    using assms
  proof (induction l arbitrary: s)
    case (Cons p l)
    then show ?case using one [of s "fst p" "snd p"] same_tables_trans by (cases p) fastforce
  qed simp
  then show "sx_inv rx cn (TransferLearnedIPs rx now nows old s)" "same_tables s (TransferLearnedIPs rx now nows old s)"
    by (simp_all add: TransferLearnedIPs_def Let_def)
qed


lemma domain_insert_inv:
  assumes "sx_inv rx cn s"
  shows "sx_inv rx cn (fst (domain_insert host (domain_result s host) s))"
    "same_tables s (fst (domain_insert host (domain_result s host) s))"
proof -
  have "fst (domain_insert host (domain_result s host) s) = fst (matchDomain host s)"
    by (simp add: matchDomain_def domain_cached_def domain_insert_def split: option.split)
  then show "sx_inv rx cn (fst (domain_insert host (domain_result s host) s))"
    "same_tables s (fst (domain_insert host (domain_result s host) s))"
    using matchDomain_inv [OF assms, of host] by simp_all
qed

lemma domain_cached_inv:
  assumes "sx_inv rx cn s" "domain_cached host s = Some (s', e)"
  shows "sx_inv rx cn s'" "same_tables s s'"
  using matchDomain_inv [OF assms(1), of host] assms(2) by (simp_all add: matchDomain_def)

lemma regex_store_inv:
  assumes "sx_inv rx cn s"
  shows "sx_inv rx cn (regex_put host (regex_result rx s host) s)" "sx_inv rx cn (regex_count s)"
proof -
  let ?t = "regex_put host (regex_result rx s host) s"
  show "sx_inv rx cn ?t"
    using assms results_tables [of s ?t] by (simp add: sx_inv_def rc_ok_def) (auto simp: regex_put_def gget_gput)
  show "sx_inv rx cn (regex_count s)"
    using assms results_tables [of s "regex_count s"] by (simp add: sx_inv_def rc_ok_def) (simp add: regex_count_def)
qed

lemma sx_step_inv:
  assumes "sx_step rx cn s t" "cn_by_address cn" "sx_inv rx cn s"
  shows "sx_inv rx cn t \<and> same_tables s t"
  using assms
  by (cases rule: sx_step.cases)
    (simp_all add: MatchSNI_inv domain_cached_inv domain_insert_inv regex_store_inv MatchIP_inv LearnIPToDomain_inv lookups_inv transfer_inv)

lemma sx_reachable_inv:
  assumes "sx_reachable rx cn sets s" "cn_by_address cn"
  shows "sx_inv rx cn s \<and> same_tables (NewSuffixSet rx sets) s"
  using assms(1)
proof (induction rule: sx_reachable.induct)
  case new
  obtain seen where "built rx (domain_targets sets) (regex_targets sets) (NewSuffixSet rx sets, seen)"
    using NewSuffixSet_built by blast
  then show ?case by (simp add: built_def sx_inv_def rc_ok_def lru_empty_def lru_ok_def)
next
  case (step s t)
  then show ?case using sx_step_inv [OF step.hyps(2) assms(2)] same_tables_trans by blast
qed

lemma built_facts:
  assumes "same_tables (NewSuffixSet rx sets) s"
  shows "gget (sx_sets s) d = gget (domain_targets sets) d"
    "gget (multiSets s) d = (if gget (domain_targets sets) d = None then None
       else Some (map snd (filter (\<lambda>e. fst e = d) (domain_targets sets))))"
    "find (regex_matches rx host) (regexes s) =
        map_option (\<lambda>(p, st). \<lparr>regex = p, rw_set = st\<rparr>)
          (find (\<lambda>(p, st). regex_matches rx host \<lparr>regex = p, rw_set = st\<rparr>) (regex_targets sets))"
  using NewSuffixSet_built [of rx sets] assms by (auto simp: built_def same_tables_def)

lemma longest_cong: "(\<And>d. gget m d = gget m' d) \<Longrightarrow> longest m P r \<Longrightarrow> longest m' P r"
  by (simp add: longest_def cong: option.case_cong)

section \<open>Matching a name\<close>

text \<open>The set that a name belongs to, from the configuration: the owner (the first in the configuration)
  of the longest domain that covers the name; if no domain covers it, the set of the first regular
  expression that matches.\<close>
definition sni_spec :: "(bytes \<Rightarrow> (bytes \<Rightarrow> bool) option) \<Rightarrow> SetConfig list \<Rightarrow> bytes \<Rightarrow> cacheEntry \<Rightarrow> bool" where
  "sni_spec rx sets host r \<longleftrightarrow>
     (\<exists>d st. covered host d \<and> gget (domain_targets sets) d = Some st \<and> r = (True, Some st) \<and>
        (\<forall>d' st'. (d', st') \<in> set (domain_targets sets) \<and> covered host d' \<longrightarrow> length d' \<le> length d)) \<or>
     (\<forall>d st. (d, st) \<in> set (domain_targets sets) \<longrightarrow> \<not> covered host d) \<and>
     r = (case find (\<lambda>(p, st). case rx p of None \<Rightarrow> False | Some ms \<Rightarrow> ms host) (regex_targets sets) of
            None \<Rightarrow> (False, None) | Some (p, st) \<Rightarrow> (True, Some st))"

lemma sni_result_spec:
  assumes "same_tables (NewSuffixSet rx sets) s" "host \<noteq> []"
  shows "sni_spec rx sets (lower host) (sni_result rx s host)"
proof -
  let ?h = "lower host" and ?T = "domain_targets sets"
  note b = built_facts [OF assms(1)]
  have l: "longest ?T (covered ?h) (find_suffix (sx_sets s) ?h)"
    using find_suffix_longest [of "sx_sets s" ?h] by (rule longest_cong [rotated]) (simp add: b(1))
  have rx: "regex_matches rx ?h \<lparr>regex = p, rw_set = st\<rparr> = (case rx p of None \<Rightarrow> False | Some ms \<Rightarrow> ms ?h)" for p st
    by (simp add: regex_matches_def)
  have rr: "regex_result rx s ?h = (case find (\<lambda>(p, st). case rx p of None \<Rightarrow> False | Some ms \<Rightarrow> ms ?h) (regex_targets sets) of
            None \<Rightarrow> (False, None) | Some (p, st) \<Rightarrow> (True, Some st))"
    using b(3) [of ?h] by (simp add: regex_result_def rx split: option.split)
  have key: "gget ?T d \<noteq> None \<longleftrightarrow> (\<exists>st. (d, st) \<in> set ?T)" for d
    by (force simp: map_of_eq_None_iff)
  show ?thesis
  proof (cases "find_suffix (sx_sets s) ?h")
    case None
    then have n: "\<not> covered ?h d" if "(d, st) \<in> set ?T" for d st
      using l that key [of d] unfolding longest_def by auto
    have "sni_result rx s host = regex_result rx s ?h"
      using None assms(2) by (auto simp: sni_result_def domain_result_def regex_result_def)
    then show ?thesis unfolding sni_spec_def using n rr by auto
  next
    case (Some st)
    then obtain d where d: "covered ?h d" "gget ?T d = Some st" "\<And>d'. covered ?h d' \<Longrightarrow> gget ?T d' \<noteq> None \<Longrightarrow> length d' \<le> length d"
      using l unfolding longest_def by auto
    have "sx_sets s \<noteq> []" using d(2) b(1) [of d] by auto
    then have "sni_result rx s host = (True, Some st)" using Some assms(2) by (simp add: sni_result_def domain_result_def)
    then show ?thesis unfolding sni_spec_def using d key by blast
  qed
qed

text \<open>in every state that the workers can bring the matcher into, \<^const>\<open>MatchSNI\<close> answers from its
  caches exactly what the configuration says about the name: the caches, their eviction and the
  interleaving of the workers are invisible.\<close>
theorem MatchSNI_correct:
  assumes "sx_reachable rx cn sets s" "cn_by_address cn" "host \<noteq> []"
  shows "sni_spec rx sets (lower host) (snd (MatchSNI rx host s))"
  using sx_reachable_inv [OF assms(1,2)] MatchSNI_inv(1) [of rx cn s host] sni_result_spec [OF _ assms(3)] by simp

text \<open>The ranger that the theorems' examples use: all networks that contain the address, with the meaning
  of \<^verbatim>\<open>net.IPNet.Contains\<close> for the networks that \<^verbatim>\<open>ParseCIDR\<close> makes\<close>
definition net_contains :: "IPNet \<Rightarrow> bytes \<Rightarrow> bool" where
  "net_contains n ip =
     (let ip = (case To4 ip of Some q \<Rightarrow> q | None \<Rightarrow> ip)
      in length ip = length (net_Mask n) \<and> map2 (AND) ip (net_Mask n) = net_IP n)"

definition sample_ranger :: "ipRange list \<Rightarrow> bytes \<Rightarrow> ipRange list option" where
  "sample_ranger rg ip = Some (filter (\<lambda>e. net_contains (ipNet e) ip) rg)"

lemma sample_ranger_by_address: "cn_by_address sample_ranger"
proof -
  have "net_contains n a = net_contains n b"
    if "length a = 4 \<or> length a = 16" "length b = 4 \<or> length b = 16" "To16 a = To16 b" for n a b
  proof -
    from same_address [OF that] consider "a = b" | q where "To4 a = Some q" "To4 b = Some q" by fastforce
    then show ?thesis by cases (simp_all add: net_contains_def)
  qed
  note c = this
  show ?thesis
    unfolding cn_by_address_def sample_ranger_def
  proof (intro allI impI, elim conjE)
    fix rg :: "ipRange list" and a b :: bytes
    assume "length a = 4 \<or> length a = 16" "length b = 4 \<or> length b = 16" "To16 a = To16 b"
    then have "net_contains (ipNet e) a = net_contains (ipNet e) b" for e :: ipRange by (rule c)
    then show "Some (filter (\<lambda>e. net_contains (ipNet e) a) rg) = Some (filter (\<lambda>e. net_contains (ipNet e) b) rg)"
      by (simp only:)
  qed
qed

definition sample_domain_set :: SetConfig where
  "sample_domain_set = (plain_set [49])\<lparr>Targets := plain_targets\<lparr>DomainsToMatch := [[97, 46, 98]]\<rparr>\<rparr>"

text \<open>\<open>x.A.b\<close> belongs to the set with the domain \<open>a.b\<close>, and \<open>a\<close> to none.\<close>
theorem MatchSNI_witness:
  "snd (MatchSNI (\<lambda>p. None) [120, 46, 65, 46, 98] (NewSuffixSet (\<lambda>p. None) [sample_domain_set])) = (True, Some sample_domain_set) \<and>
   snd (MatchSNI (\<lambda>p. None) [97] (NewSuffixSet (\<lambda>p. None) [sample_domain_set])) = (False, None)"
proof -
  let ?s = "NewSuffixSet (\<lambda>p. None) [sample_domain_set]"
  have r: "sx_reachable (\<lambda>p. None) sample_ranger [sample_domain_set] ?s" by (rule sx_reachable.new)
  have t: "domain_targets [sample_domain_set] = [([97, 46, 98], sample_domain_set)]"
    by (simp add: domain_targets_def set_domains_def sample_domain_set_def plain_defs map_filter_simps norm_domain_def
        lower_def trim_def ascii_space_def trim_dots_def regexp_prefix_def Let_def)
  have g: "regex_targets [sample_domain_set] = []"
    by (simp add: regex_targets_def set_regexes_def sample_domain_set_def plain_defs map_filter_simps norm_regex_def
        lower_def trim_def ascii_space_def regexp_prefix_def Let_def)
  have l: "lower [120, 46, 65, 46, 98] = [120, 46, 97, 46, 98]" "lower [97] = [97]" by (simp_all add: lower_def)
  have c: "covered [120, 46, 97, 46, 98] [97, 46, 98]" "\<not> covered [97] [97, 46, 98]"
    by (auto simp: covered_def suffix_def)
  show ?thesis
    using MatchSNI_correct [OF r sample_ranger_by_address, of "[120, 46, 65, 46, 98]"]
      MatchSNI_correct [OF r sample_ranger_by_address, of "[97]"] c
    unfolding sni_spec_def t g l by (auto split: if_splits)
qed


section \<open>Bounds\<close>

text \<open>however many names and addresses are asked for or learned, no cache with eviction grows past its
  limit, the list of recently used keys always has exactly the keys of its cache, and no cache has a key twice.\<close>
theorem matcher_caches_bounded:
  assumes "sx_reachable rx cn sets s" "cn_by_address cn"
  shows "length (entries (domainCache s)) \<le> 2000 \<and> length (entries (ipCache s)) \<le> 2000 \<and>
    length (entries (learnedIPCache s)) \<le> 5000 \<and>
    gok (entries (domainCache s)) \<and> gok (entries (ipCache s)) \<and> gok (entries (learnedIPCache s)) \<and> gok (regexCache s) \<and>
    mset (order (domainCache s)) = mset (map fst (entries (domainCache s))) \<and>
    mset (order (ipCache s)) = mset (map fst (entries (ipCache s))) \<and>
    mset (order (learnedIPCache s)) = mset (map fst (entries (learnedIPCache s)))"
proof -
  have o: "mset (order c) = mset (map fst (entries c))" if "lru_ok limit c" for limit and c :: "'v lru"
    using that by (intro set_eq_iff_mset_eq_distinct [THEN iffD1]) (auto simp: lru_ok_def gok_def)
  have i: "sx_inv rx cn s" using sx_reachable_inv [OF assms] by blast
  show ?thesis
    using i o [of domainCacheLimit "domainCache s"] o [of ipCacheLimit "ipCache s"] o [of learnedIPCacheLimit "learnedIPCache s"]
    by (auto simp: sx_inv_def lru_ok_def rc_ok_def domainCacheLimit_def ipCacheLimit_def learnedIPCacheLimit_def)
qed

text \<open>The cache of regular expressions under \<open>n\<close> workers: of those that found room, \<open>k\<close> have not stored yet and \<open>j\<close> have stored but not
  counted. The limit can be exceeded by one entry per other worker and by no more.\<close>
inductive regex_race :: "nat \<Rightarrow> SuffixSet \<Rightarrow> nat \<Rightarrow> nat \<Rightarrow> bool" for n where
  start: "regexCache s = [] \<Longrightarrow> regexCacheSize s = 0 \<Longrightarrow> regex_race n s 0 0"
| look: "regex_race n s k j \<Longrightarrow> k + j < n \<Longrightarrow> regexCacheSize s < regexCacheMax \<Longrightarrow> regex_race n s (Suc k) j"
| store: "regex_race n s (Suc k) j \<Longrightarrow> regex_race n (regex_put host e s) k (Suc j)"
| add: "regex_race n s k (Suc j) \<Longrightarrow> regex_race n (regex_count s) k j"

lemma regex_race_bound:
  assumes "regex_race n s k j" "0 < n"
  shows "length (regexCache s) + k < regexCacheMax + n"
proof -
  have "length (regexCache s) \<le> regexCacheSize s + j \<and> regexCacheSize s + k + j < regexCacheMax + n"
    using assms
    by (induction rule: regex_race.induct)
      (auto simp: regex_put_def regex_count_def regexCacheMax_def length_gput)
  then show ?thesis by simp
qed

theorem matcher_caches_bounded_witness:
  "length (entries (domainCache (fst (MatchSNI (\<lambda>p. None) [97] (NewSuffixSet (\<lambda>p. None) [sample_domain_set]))))) \<le> 2000"
  using matcher_caches_bounded [OF sx_reachable.step [OF sx_reachable.new sx_step.sni] sample_ranger_by_address] by blast

section \<open>Choice by source and version\<close>

lemma versions_zero:
  "MatchesTLSVersion st t \<Longrightarrow> MatchesTLSVersion st 0" "MatchesIPVersion st i \<Longrightarrow> MatchesIPVersion st 0"
  by (auto simp: MatchesTLSVersion_def MatchesIPVersion_def Let_def split: if_splits)

text \<open>The candidates that fit a source device and versions, and what one pass over the candidates chooses\<close>
definition fits :: "bytes \<Rightarrow> uint16 \<Rightarrow> byte \<Rightarrow> SetConfig \<Rightarrow> bool" where
  "fits mac t i st \<longleftrightarrow> setMatchesSource st mac \<and> MatchesTLSVersion st t \<and> MatchesIPVersion st i"

definition by_device :: "SetConfig \<Rightarrow> bool" where
  "by_device st \<longleftrightarrow> SourceDevices (Targets st) \<noteq> []"

definition pick :: "bytes \<Rightarrow> uint16 \<Rightarrow> byte \<Rightarrow> SetConfig list \<Rightarrow> SetConfig option" where
  "pick mac t i cs = (case filter (\<lambda>st. by_device st \<and> fits mac t i st) cs of st # _ \<Rightarrow> Some st
     | [] \<Rightarrow> (case filter (\<lambda>st. fits mac t i st) cs of st # _ \<Rightarrow> Some st | [] \<Rightarrow> None))"

lemma find_filter: "find P xs = (case filter P xs of [] \<Rightarrow> None | x # _ \<Rightarrow> Some x)"
  by (induction xs) auto

lemma no_device_source: "\<not> by_device st \<Longrightarrow> setMatchesSource st mac"
  by (simp add: by_device_def setMatchesSource_def)

lemma select_one_pass:
  assumes "cs \<noteq> []"
  shows "selectSetBySourceAndTLS cs mac t i =
    (case pick mac t i cs of Some st \<Rightarrow> Some st
     | None \<Rightarrow> if t \<noteq> 0 \<or> i \<noteq> 0 then selectSetBySourceAndTLS cs mac 0 0 else None)"
proof -
  have 1: "(\<lambda>st. length (SourceDevices (Targets st)) > 0 \<and> setMatchesSource st mac \<and> MatchesTLSVersion st t \<and> MatchesIPVersion st i) =
      (\<lambda>st. by_device st \<and> fits mac t i st)" by (auto simp: by_device_def fits_def fun_eq_iff)
  have 2: "filter (\<lambda>st. length (SourceDevices (Targets st)) = 0 \<and> MatchesTLSVersion st t \<and> MatchesIPVersion st i) cs =
      filter (fits mac t i) cs" if "filter (\<lambda>st. by_device st \<and> fits mac t i st) cs = []"
    using that no_device_source [of _ mac] by (intro filter_cong) (auto simp: filter_empty_conv by_device_def fits_def)
  show ?thesis
    using assms 2 by (subst selectSetBySourceAndTLS.simps, unfold 1 find_filter) (auto simp: pick_def split: list.splits)
qed

lemma pick_None: "pick mac t i cs = None \<longleftrightarrow> (\<forall>st \<in> set cs. \<not> fits mac t i st)"
  by (auto simp: pick_def filter_empty_conv split: list.splits dest: filter_eq_ConsD)

text \<open>C33: of several sets with the same domain the matcher takes the first one that fits the source device
  and the versions, sets made for the device before sets for everyone; if none fits the versions it
  chooses again by the device alone, among the sets whose version filters are valid (a filter with an unknown version fits nothing), and
  it finds nothing exactly if no candidate with valid filters fits the device.\<close>
theorem selectSetBySourceAndTLS_correct:
  "selectSetBySourceAndTLS cs mac t i =
     (case pick mac t i cs of Some st \<Rightarrow> Some st | None \<Rightarrow> pick mac 0 0 cs) \<and>
   (selectSetBySourceAndTLS cs mac t i = None \<longleftrightarrow> \<not> (\<exists>st \<in> set cs. fits mac 0 0 st)) \<and>
   (\<forall>st. selectSetBySourceAndTLS cs mac t i = Some st \<longrightarrow> st \<in> set cs \<and> setMatchesSource st mac)"
proof -
  let ?s = "selectSetBySourceAndTLS cs mac t i"
  have e: "?s = (case pick mac t i cs of Some st \<Rightarrow> Some st | None \<Rightarrow> pick mac 0 0 cs)"
  proof (cases "cs = []")
    case True
    then show ?thesis by (subst selectSetBySourceAndTLS.simps) (simp add: pick_def)
  next
    case False
    show ?thesis
      using select_one_pass [OF False, of mac t i] select_one_pass [OF False, of mac 0 0]
      by (auto split: option.split)
  qed
  have z: "\<forall>st \<in> set cs. \<not> fits mac t i st" if "\<forall>st \<in> set cs. \<not> fits mac 0 0 st"
    using that versions_zero unfolding fits_def by blast
  have p: "st \<in> set cs \<and> fits mac a b st" if "pick mac a b cs = Some st" for a b st
    using that by (auto simp: pick_def split: list.splits dest: filter_eq_ConsD)
  have "?s = None \<longleftrightarrow> \<not> (\<exists>st \<in> set cs. fits mac 0 0 st)"
    using z pick_None [of mac t i cs] pick_None [of mac 0 0 cs] unfolding e by (cases "pick mac t i cs") auto
  moreover have "st \<in> set cs \<and> setMatchesSource st mac" if "?s = Some st" for st
    using that p unfolding e fits_def by (cases "pick mac t i cs") auto
  ultimately show ?thesis using e by blast
qed

section \<open>Matching an address\<close>

text \<open>What \<^verbatim>\<open>cidranger\<close> documents of \<open>ContainingNetworks\<close>: entries that were inserted and whose network contains the
  address, and every inserted network that contains it (for each network the ranger keeps one entry).\<close>
definition ranger_ok :: "(ipRange list \<Rightarrow> bytes \<Rightarrow> ipRange list option) \<Rightarrow> bool" where
  "ranger_ok cn \<longleftrightarrow> cn_by_address cn \<and> (\<forall>rg ip. length ip = 4 \<or> length ip = 16 \<longrightarrow> (\<exists>es. cn rg ip = Some es \<and>
     (\<forall>e \<in> set es. e \<in> set rg \<and> net_contains (ipNet e) ip) \<and>
     (\<forall>e \<in> set rg. net_contains (ipNet e) ip \<longrightarrow> (\<exists>e' \<in> set es. ipNet e' = ipNet e))))"

lemma sort_key_hd:
  assumes "es \<noteq> []"
  shows "hd (sort_key f es) \<in> set es \<and> (\<forall>e \<in> set es. f (hd (sort_key f es)) \<le> f e)"
proof -
  obtain x xs where s: "sort_key f es = x # xs" using assms by (metis length_greater_0_conv length_sort list.exhaust)
  have "sorted (map f (x # xs))" using sorted_sort_key [of f es] by (simp add: s)
  moreover have "set es = set (x # xs)" by (metis s set_sort)
  ultimately show ?thesis by (auto simp: s)
qed

definition ones :: "ipRange \<Rightarrow> nat" where
  "ones e = mask_ones (net_Mask (ipNet e))"

text \<open>C32: in every reachable state \<^const>\<open>MatchIP\<close> finds a set exactly if some configured network contains the
  address, and the set it finds owns a network that contains the address and is at least as specific as
  every other such network.\<close>
theorem MatchIP_most_specific:
  assumes "sx_reachable rx cn sets s" "ranger_ok cn" "length ip = 4 \<or> length ip = 16"
  defines "hits \<equiv> {e \<in> set (ipRanger (NewSuffixSet rx sets)). net_contains (ipNet e) ip}"
  shows "(hits = {} \<longrightarrow> snd (MatchIP cn ip s) = (False, None)) \<and>
    (hits \<noteq> {} \<longrightarrow> (\<exists>e \<in> hits. snd (MatchIP cn ip s) = (True, Some (ir_set e)) \<and> (\<forall>e' \<in> hits. ones e' \<le> ones e)))"
proof -
  have a: "cn_by_address cn" using assms(2) by (simp add: ranger_ok_def)
  note i = sx_reachable_inv [OF assms(1) a]
  have rg: "ipRanger s = ipRanger (NewSuffixSet rx sets)" using i by (simp add: same_tables_def)
  obtain es where es: "cn (ipRanger s) ip = Some es" "\<And>e. e \<in> set es \<Longrightarrow> e \<in> hits"
      "\<And>e. e \<in> hits \<Longrightarrow> \<exists>e' \<in> set es. ipNet e' = ipNet e"
    using assms(2,3) unfolding ranger_ok_def hits_def rg by blast
  have m: "snd (MatchIP cn ip s) = ip_result cn s ip" using MatchIP_inv(1) [OF _ a assms(3)] i by blast
  show ?thesis
  proof (cases "es = []")
    case True
    then have "hits = {}" using es(3) by force
    then show ?thesis using True es(1) m by (simp add: ip_result_def)
  next
    case False
    let ?f = "\<lambda>e. - int (mask_ones (net_Mask (ipNet e)))"
    let ?e = "hd (if length es > 1 then sortEntriesBySpecificity es else es)"
    have e: "?e \<in> set es \<and> (\<forall>e \<in> set es. ones e \<le> ones ?e)"
    proof (cases "length es > 1")
      case True
      then show ?thesis using sort_key_hd [OF False, of ?f] by (auto simp: sortEntriesBySpecificity_def ones_def)
    next
      case s: False
      then obtain x where "es = [x]" using False by (cases es) auto
      then show ?thesis by simp
    qed
    have "ones e' \<le> ones ?e" if "e' \<in> hits" for e'
      using es(3) [OF that] e by (auto simp: ones_def)
    moreover have "snd (MatchIP cn ip s) = (True, Some (ir_set ?e))" using False es(1) m by (simp add: ip_result_def Let_def)
    ultimately show ?thesis using e es(2) by blast
  qed
qed

definition sample_ip_set :: SetConfig where
  "sample_ip_set = (plain_set [49])\<lparr>Targets := plain_targets\<lparr>IpsToMatch := [[49, 46, 50, 46, 51, 46, 52]]\<rparr>\<rparr>"

lemma sample_ranger_ok: "ranger_ok sample_ranger"
  using sample_ranger_by_address by (auto simp: ranger_ok_def sample_ranger_def)

theorem MatchIP_witness:
  "snd (MatchIP sample_ranger [1, 2, 3, 4] (NewSuffixSet (\<lambda>p. None) [sample_ip_set])) = (True, Some sample_ip_set)"
proof -
  let ?n = "\<lparr>net_IP = [1, 2, 3, 4], net_Mask = [255, 255, 255, 255]\<rparr>"
  have t: "trim [49, 46, 50, 46, 51, 46, 52] = [49, 46, 50, 46, 51, 46, 52]" by (simp add: trim_def ascii_space_def)
  have p: "parse_target_net [49, 46, 50, 46, 51, 46, 52] = Some ?n"
    by (simp add: parse_target_net_def ParseIP_def ParseAddr_def parseIPv4Fields_def v4_loop.simps is_digit_def To16_def To4_def
        v4InV6Prefix_def ParseCIDR_def dtoi_def dec_val_def CIDRMask_def upt_rec Let_def)
  have r: "ipRanger (NewSuffixSet (\<lambda>p. None) [sample_ip_set]) = [\<lparr>ipNet = ?n, ir_set = sample_ip_set\<rparr>]"
    by (simp add: NewSuffixSet_def add_set_def sample_ip_set_def plain_defs add_ip_def t p empty_SuffixSet_def add_ports_def Let_def)
  have c: "net_contains ?n [1, 2, 3, 4]" by (simp add: net_contains_def To4_def)
  show ?thesis
    using MatchIP_most_specific [OF sx_reachable.new [of "\<lambda>p. None" sample_ranger "[sample_ip_set]"] sample_ranger_ok, of "[1, 2, 3, 4]"]
    by (simp add: r c)
qed

section \<open>Learned addresses\<close>

text \<open>C34: an address learned for a domain is found, with its set and domain, by every later question for the
  same address within ten minutes, in 4 or 16 bytes; after that it is forgotten. Learning costs at most
  the least recently used other address, and only when 5000 are known.\<close>
theorem LearnIPToDomain_found:
  fixes now :: gotime
  assumes "sx_reachable rx cn sets s" "cn_by_address cn" "domain \<noteq> []" "\<not> DomainOnly (Targets st)"
    and "length a = 4 \<or> length a = 16" "length b = 4 \<or> length b = 16" "To16 b = To16 a"
  defines "s' \<equiv> LearnIPToDomain now (Some a) domain (Some st) s"
  shows "snd (MatchLearnedIP t t' b s') = (if t - now \<le> 600 * Second then Some (st, domain) else None) \<and>
    (t - now > 600 * Second \<longrightarrow>
      gget (entries (learnedIPCache (fst (MatchLearnedIP t t' b s')))) (IP_String a) = None) \<and>
    (\<forall>k. k \<noteq> IP_String a \<longrightarrow> gget (entries (learnedIPCache s')) k = gget (entries (learnedIPCache s)) k \<or>
      length (entries (learnedIPCache s)) = 5000 \<and> k = last (order (learnedIPCache s)))"
proof -
  have k: "IP_String b = IP_String a" using IP_String_inj assms(5,6,7) by simp
  have ok: "lru_ok 5000 (learnedIPCache s)"
    using sx_reachable_inv [OF assms(1,2)] by (simp add: sx_inv_def learnedIPCacheLimit_def)
  let ?e = "\<lparr>le_domain = domain, le_set = st, learnedAt = now\<rparr>"
  have g: "gget (entries (learnedIPCache s')) j = (if j = IP_String a then Some ?e
      else if gget (entries (learnedIPCache s)) (IP_String a) = None \<and> length (entries (learnedIPCache s)) = 5000 \<and>
        j = last (order (learnedIPCache s)) then None else gget (entries (learnedIPCache s)) j)" for j
    using lru_add_look [OF ok, of "IP_String a" ?e j] assms(3,4)
    by (cases "gget (entries (learnedIPCache s)) (IP_String a) = None")
      (auto simp: s'_def LearnIPToDomain_def Let_def learnedIPCacheLimit_def gget_gput)
  show ?thesis
  proof (intro conjI allI impI)
    show "snd (MatchLearnedIP t t' b s') = (if t - now \<le> 600 * Second then Some (st, domain) else None)"
      using g [of "IP_String a"] assms(4) by (simp add: MatchLearnedIP_def k Let_def learnedIPTTL_def)
    show "gget (entries (learnedIPCache (fst (MatchLearnedIP t t' b s')))) (IP_String a) = None" if "t - now > 600 * Second"
      using g [of "IP_String a"] assms(4) that
      by (simp add: MatchLearnedIP_def k Let_def lru_remove_def gget_gdel learnedIPTTL_def)
    show "gget (entries (learnedIPCache s')) k = gget (entries (learnedIPCache s)) k \<or>
        length (entries (learnedIPCache s)) = 5000 \<and> k = last (order (learnedIPCache s))" if "k \<noteq> IP_String a" for k
      using g [of k] that by auto
  qed
qed

theorem LearnIPToDomain_witness:
  "snd (MatchLearnedIP 5 6 (v4InV6Prefix @ [1, 2, 3, 4])
     (LearnIPToDomain 0 (Some [1, 2, 3, 4]) [97] (Some (plain_set [49])) (NewSuffixSet (\<lambda>p. None) []))) = Some (plain_set [49], [97])"
proof -
  have "\<not> DomainOnly (Targets (plain_set [49]))" by (simp add: plain_defs)
  moreover have "To16 (v4InV6Prefix @ [1, 2, 3, 4]) = To16 [1, 2, 3, 4]" by (simp add: To16_def v4InV6Prefix_def)
  moreover have "length (v4InV6Prefix @ [1, 2, 3, 4]) = 16" by (simp add: v4InV6Prefix_def)
  ultimately show ?thesis
    using LearnIPToDomain_found [OF sx_reachable.new sample_ranger_by_address, of "[97]" "plain_set [49]" "[1, 2, 3, 4]"
        "v4InV6Prefix @ [1, 2, 3, 4]" 5 6 0] by (simp add: Second_def)
qed


text \<open>Two sets, one for the device \<open>b\<close>: that device gets its set, another device the general one.\<close>
definition sample_device_set :: SetConfig where
  "sample_device_set = (plain_set [50])\<lparr>Targets := plain_targets\<lparr>SourceDevices := [[98]]\<rparr>\<rparr>"

theorem selectSet_witness:
  "selectSetBySourceAndTLS [plain_set [49], sample_device_set] [66] 0x0304 4 = Some sample_device_set \<and>
   selectSetBySourceAndTLS [plain_set [49], sample_device_set] [99] 0x0304 4 = Some (plain_set [49])"
  using selectSetBySourceAndTLS_correct [of "[plain_set [49], sample_device_set]" "[66]" "0x0304" 4]
    selectSetBySourceAndTLS_correct [of "[plain_set [49], sample_device_set]" "[99]" "0x0304" 4]
  by (simp add: pick_def by_device_def fits_def sample_device_set_def plain_defs setMatchesSource_def MatchesTLSVersion_def
      MatchesIPVersion_def lower_def)

end
