(* ===== verification/Worker.thy ===== *)
theory Worker
  imports Matcher ConnState Dns
begin

text \<open>
  The worker of the packet queue as the handlers see it, and the packets it makes itself:
  \<^verbatim>\<open>src/src/nfq/inc.go\<close> (what is done with packets from servers) and \<^verbatim>\<open>rst_client.go\<close>.

  \<^item> \<open>worker\<close> is the state that packets share: the matcher, the trackers of \<^verbatim>\<open>connstate.go\<close> and the pending DNS
    routes.
  \<^item> What a handler does to the outside is a list of effects, in order: verdicts, packets on the raw
    socket (\<open>SendV4\<close>, \<open>SendV6\<close>) and on the client socket, packets handed to the injectors, which run in
    goroutines of their own, \<open>time.Sleep\<close> (\<open>Pause\<close>), and routes given to the routing code. Errors of the send calls are ignored
    by the code. Logging and metrics are left out.
  \<^item> \<open>env\<close> holds what the code reads from outside: the clock (\<open>now i\<close> is the \<open>i\<close>-th reading of a handler),
    random numbers, the table of hardware addresses, the hooks into the routing code, and the
    parameters of the matcher.
\<close>

datatype effect =
    Accept
  | Drop
  | SendV4 bytes bytes
  | SendV6 bytes bytes
  | ClientV4 bytes bytes
  | ClientV6 bytes bytes
  | InjectTCP byte SetConfig bytes bytes
  | InjectQUIC byte SetConfig bytes bytes
  | Pause int
  | RouteDNS SetConfig "bytes list"
  | RouteLearn SetConfig bytes
  | ResolveRedirect byte SetConfig bytes bytes uint16 bytes "bytes option" int

text \<open>The configuration of the process as far as the handlers read it\<close>
record Config =
  Sets :: "SetConfig list"
  tcpPortMap :: "uint16 set option"
  IsDiscovery :: bool
  IPv6Enabled :: bool

record env =
  rx :: "bytes \<Rightarrow> (bytes \<Rightarrow> bool) option"
  cn :: "ipRange list \<Rightarrow> bytes \<Rightarrow> ipRange list option"
  now :: "nat \<Rightarrow> gotime"
  rnd :: "nat \<Rightarrow> nat"
  ids :: "nat \<Rightarrow> uint16"
  getMacByIp :: "bytes \<Rightarrow> bytes"
  srcResolver :: "(byte \<Rightarrow> bytes \<Rightarrow> uint16 \<Rightarrow> bytes \<Rightarrow> uint16 \<Rightarrow> bytes option) option"
  hasRoutingDNS :: bool
  hasRoutingLearn :: bool
  verdictOk :: bool
  quicSNI :: "bytes \<Rightarrow> bytes option"

record pendingDNSRoute =
  pd_setID :: bytes
  pd_expires :: gotime

record worker =
  wk_matcher :: SuffixSet
  wk_rt :: "SetConfig runtimeState"
  wk_dns :: "(bytes, pendingDNSRoute) gomap"

abbreviation wk_conns :: "worker \<Rightarrow> SetConfig connStateTracker" where
  "wk_conns w \<equiv> connState (wk_rt w)"

abbreviation wk_dest :: "worker \<Rightarrow> destStateTracker" where
  "wk_dest w \<equiv> destState (wk_rt w)"

definition set_conns :: "SetConfig connStateTracker \<Rightarrow> worker \<Rightarrow> worker" where
  "set_conns c w = w\<lparr>wk_rt := (wk_rt w)\<lparr>connState := c\<rparr>\<rparr>"

definition set_dest :: "destStateTracker \<Rightarrow> worker \<Rightarrow> worker" where
  "set_dest d w = w\<lparr>wk_rt := (wk_rt w)\<lparr>destState := d\<rparr>\<rparr>"

definition set_tls :: "tlsInfoCache \<Rightarrow> worker \<Rightarrow> worker" where
  "set_tls c w = w\<lparr>wk_rt := (wk_rt w)\<lparr>tlsCache := c\<rparr>\<rparr>"

text \<open>\<open>time.Duration(x) * unit\<close>, 64-bit arithmetic\<close>
definition duration :: "int \<Rightarrow> int \<Rightarrow> int" where
  "duration x unit = wrap64 (x * unit)"

section \<open>Routes\<close>

definition registerEscalatedRoute :: "env \<Rightarrow> Config \<Rightarrow> SetConfig \<Rightarrow> bytes \<Rightarrow> effect list" where
  "registerEscalatedRoute e cfg escSet dst =
     (if \<not> routing_Enabled (Routing escSet) \<or> \<not> hasRoutingDNS e then []
      else if IsDiscovery cfg then [] else [RouteDNS escSet [dst]])"

definition registerLearnedRoute :: "env \<Rightarrow> Config \<Rightarrow> SetConfig \<Rightarrow> bytes \<Rightarrow> effect list" where
  "registerLearnedRoute e cfg st dst =
     (if \<not> routing_Enabled (Routing st) \<or> \<not> hasRoutingLearn e then []
      else if DomainOnly (Targets st) then []
      else if IsDiscovery cfg then [] else [RouteLearn st dst])"

section \<open>Bare TCP packets\<close>

text \<open>The lines that build a 40-byte IPv4/TCP packet without payload, which \<^verbatim>\<open>rst_client.go\<close> and the injectors of
  \<^verbatim>\<open>inc.go\<close> repeat\<close>
definition bare_tcp4 :: "uint16 \<Rightarrow> byte \<Rightarrow> bytes \<Rightarrow> bytes \<Rightarrow> uint16 \<Rightarrow> uint16 \<Rightarrow> uint32 \<Rightarrow> byte \<Rightarrow> bytes option" where
  "bare_tcp4 ident ttl src dst sp dp seq flags = do {
     p \<leftarrow> upd (mk 40) 0 0x45;
     p \<leftarrow> put16 p 2 40;
     p \<leftarrow> put16 p 4 ident;
     p \<leftarrow> upd p 8 ttl;
     p \<leftarrow> upd p 9 6;
     p \<leftarrow> copy_into p 12 16 src;
     p \<leftarrow> copy_into p 16 20 dst;
     p \<leftarrow> put16 p 20 sp;
     p \<leftarrow> put16 p 22 dp;
     p \<leftarrow> put32 p 24 seq;
     p \<leftarrow> upd p 32 0x50;
     upd p 33 flags }"

definition bare_tcp6 :: "byte \<Rightarrow> bytes \<Rightarrow> bytes \<Rightarrow> uint16 \<Rightarrow> uint16 \<Rightarrow> uint32 \<Rightarrow> byte \<Rightarrow> bytes option" where
  "bare_tcp6 ttl src dst sp dp seq flags = do {
     p \<leftarrow> upd (mk 60) 0 0x60;
     p \<leftarrow> put16 p 4 20;
     p \<leftarrow> upd p 6 6;
     p \<leftarrow> upd p 7 ttl;
     p \<leftarrow> copy_into p 8 24 src;
     p \<leftarrow> copy_into p 24 40 dst;
     p \<leftarrow> put16 p 40 sp;
     p \<leftarrow> put16 p 42 dp;
     p \<leftarrow> put32 p 44 seq;
     p \<leftarrow> upd p 52 0x50;
     upd p 53 flags }"

definition fixed4 :: "bytes \<Rightarrow> bytes option" where
  "fixed4 p = on_prefix FixIPv4Checksum p 20 \<bind> FixTCPChecksum"

definition sendRSTToClientV4 :: "env \<Rightarrow> bytes \<Rightarrow> nat \<Rightarrow> bytes \<Rightarrow> bytes \<Rightarrow> effect list option" where
  "sendRSTToClientV4 e raw ihl srcIP dstIP = do {
     tcp \<leftarrow> slice_from raw ihl;
     if length tcp < 20 then Some []
     else do {
       clientPort \<leftarrow> be16 tcp 0;
       serverPort \<leftarrow> be16 tcp 2;
       clientAck \<leftarrow> be32 tcp 8;
       rst \<leftarrow> bare_tcp4 (ids e 0) 64 (case To4 dstIP of Some a \<Rightarrow> a | None \<Rightarrow> []) (case To4 srcIP of Some a \<Rightarrow> a | None \<Rightarrow> [])
                serverPort clientPort clientAck 0x04;
       rst \<leftarrow> fixed4 rst;
       Some [ClientV4 rst srcIP] } }"

definition sendRSTToClientV6 :: "bytes \<Rightarrow> bytes \<Rightarrow> bytes \<Rightarrow> effect list option" where
  "sendRSTToClientV6 raw srcIP dstIP = do {
     tcp \<leftarrow> slice_from raw 40;
     if length tcp < 20 then Some []
     else do {
       clientPort \<leftarrow> be16 tcp 0;
       serverPort \<leftarrow> be16 tcp 2;
       clientAck \<leftarrow> be32 tcp 8;
       rst \<leftarrow> bare_tcp6 64 (case To16 dstIP of Some a \<Rightarrow> a | None \<Rightarrow> []) (case To16 srcIP of Some a \<Rightarrow> a | None \<Rightarrow> [])
                serverPort clientPort clientAck 0x04;
       rst \<leftarrow> FixTCPChecksumV6 rst;
       Some [ClientV6 rst srcIP] } }"

section \<open>Packets from servers\<close>

definition corruptionStrategies :: "string list" where
  "corruptionStrategies = [''badsum'', ''badseq'', ''badack'', ''all'']"

text \<open>\<open>fake[i] ^= byte(rand.Intn(255) + 1)\<close>\<close>
definition flip_byte :: "nat \<Rightarrow> nat \<Rightarrow> bytes \<Rightarrow> bytes option" where
  "flip_byte i r p = do { b \<leftarrow> idx p i; upd p i (b XOR of_nat (r + 1)) }"

text \<open>A field moved by \<open>rand.Intn(100000) + 10000\<close>\<close>
definition shift_field :: "nat \<Rightarrow> nat \<Rightarrow> bytes \<Rightarrow> bytes option" where
  "shift_field i r p = do { v \<leftarrow> be32 p i; put32 p i (v + of_nat (r + 10000)) }"

text \<open>\<open>r 0\<close>, \<open>r 1\<close>, \<dots> are the results of \<open>rand.Intn\<close> in the order of the calls of a branch.\<close>
definition applyCorruption :: "(nat \<Rightarrow> nat) \<Rightarrow> bytes \<Rightarrow> nat \<Rightarrow> string \<Rightarrow> bytes option" where
  "applyCorruption r fake ihl strategy =
     (if length fake < ihl + 18 then Some fake
      else do {
        strategy \<leftarrow> (if strategy = ''rand'' then idx corruptionStrategies (r 0) else Some strategy);
        if strategy = ''badseq'' then do {
          fake \<leftarrow> shift_field (ihl + 4) (r 1) fake;
          fake \<leftarrow> on_prefix FixIPv4Checksum fake ihl;
          FixTCPChecksum fake }
        else if strategy = ''badack'' then do {
          fake \<leftarrow> shift_field (ihl + 8) (r 1) fake;
          fake \<leftarrow> on_prefix FixIPv4Checksum fake ihl;
          FixTCPChecksum fake }
        else if strategy = ''all'' then do {
          fake \<leftarrow> shift_field (ihl + 4) (r 1) fake;
          fake \<leftarrow> shift_field (ihl + 8) (r 2) fake;
          fake \<leftarrow> on_prefix FixIPv4Checksum fake ihl;
          fake \<leftarrow> flip_byte (ihl + 16) (r 3) fake;
          flip_byte (ihl + 17) (r 4) fake }
        else do {
          fake \<leftarrow> on_prefix FixIPv4Checksum fake ihl;
          fake \<leftarrow> flip_byte (ihl + 16) (r 1) fake;
          flip_byte (ihl + 17) (r 2) fake } })"

definition applyCorruptionV6 :: "(nat \<Rightarrow> nat) \<Rightarrow> bytes \<Rightarrow> string \<Rightarrow> bytes option" where
  "applyCorruptionV6 r fake strategy =
     (if length fake < 40 + 18 then Some fake
      else do {
        strategy \<leftarrow> (if strategy = ''rand'' then idx corruptionStrategies (r 0) else Some strategy);
        if strategy = ''badseq'' then do {
          fake \<leftarrow> shift_field (40 + 4) (r 1) fake;
          FixTCPChecksumV6 fake }
        else if strategy = ''badack'' then do {
          fake \<leftarrow> shift_field (40 + 8) (r 1) fake;
          FixTCPChecksumV6 fake }
        else if strategy = ''all'' then do {
          fake \<leftarrow> shift_field (40 + 4) (r 1) fake;
          fake \<leftarrow> shift_field (40 + 8) (r 2) fake;
          fake \<leftarrow> flip_byte (40 + 16) (r 3) fake;
          flip_byte (40 + 17) (r 4) fake }
        else do {
          fake \<leftarrow> flip_byte (40 + 16) (r 1) fake;
          flip_byte (40 + 17) (r 2) fake } })"

text \<open>\<open>for i := 0; i < n; i++\<close> over a body that sends packets\<close>
fun repeat_send :: "nat \<Rightarrow> nat \<Rightarrow> (nat \<Rightarrow> effect list option) \<Rightarrow> effect list option" where
  "repeat_send i 0 body = Some []"
| "repeat_send i (Suc n) body = do { es \<leftarrow> body i; fs \<leftarrow> repeat_send (Suc i) n body; Some (es @ fs) }"

text \<open>The random numbers of the \<open>i\<close>-th round\<close>
definition round_rnd :: "env \<Rightarrow> nat \<Rightarrow> nat \<Rightarrow> nat" where
  "round_rnd e i k = rnd e (8 * i + k)"

definition InjectFakeIncoming :: "env \<Rightarrow> SetConfig \<Rightarrow> bytes \<Rightarrow> nat \<Rightarrow> bytes \<Rightarrow> effect list option" where
  "InjectFakeIncoming e cfg raw ihl serverIP =
     (if length raw < ihl + 20 then Some []
      else do {
        let inc = Incoming (TCP cfg);
        tcp \<leftarrow> slice_from raw ihl;
        sport \<leftarrow> be16 tcp 0;
        dport \<leftarrow> be16 tcp 2;
        serverSeq \<leftarrow> be32 tcp 4;
        serverAck \<leftarrow> be32 tcp 8;
        o12 \<leftarrow> idx tcp 12;
        let tcpHdrLen = unat (drop_bit 4 o12 * 4);
        let payloadLen = int (length tcp) - int tcpHdrLen;
        repeat_send 0 (nat (FakeCount inc)) (\<lambda>i. do {
          src \<leftarrow> gslice raw 16 20;
          dst \<leftarrow> gslice raw 12 16;
          fake \<leftarrow> bare_tcp4 (ids e i + of_nat i) (FakeTTL inc) src dst dport sport
                    (serverAck + of_nat (round_rnd e i 5)) 0x10;
          fake \<leftarrow> put32 fake 28 (serverSeq + of_int payloadLen);
          fake \<leftarrow> put16 fake 34 65535;
          fake \<leftarrow> applyCorruption (round_rnd e i) fake 20 (inc_Strategy inc);
          Some [SendV4 fake serverIP] }) })"

definition InjectFakeIncomingV6 :: "env \<Rightarrow> SetConfig \<Rightarrow> bytes \<Rightarrow> bytes \<Rightarrow> effect list option" where
  "InjectFakeIncomingV6 e cfg raw serverIP =
     (if length raw < 40 + 20 then Some []
      else do {
        let inc = Incoming (TCP cfg);
        tcp \<leftarrow> slice_from raw 40;
        sport \<leftarrow> be16 tcp 0;
        dport \<leftarrow> be16 tcp 2;
        serverSeq \<leftarrow> be32 tcp 4;
        serverAck \<leftarrow> be32 tcp 8;
        o12 \<leftarrow> idx tcp 12;
        let tcpHdrLen = unat (drop_bit 4 o12 * 4);
        let payloadLen = int (length tcp) - int tcpHdrLen;
        repeat_send 0 (nat (FakeCount inc)) (\<lambda>i. do {
          src \<leftarrow> gslice raw 24 40;
          dst \<leftarrow> gslice raw 8 24;
          fake \<leftarrow> bare_tcp6 (FakeTTL inc) src dst dport sport (serverAck + of_nat (round_rnd e i 5)) 0x10;
          fake \<leftarrow> put32 fake 48 (serverSeq + of_int payloadLen);
          fake \<leftarrow> put16 fake 54 65535;
          fake \<leftarrow> applyCorruptionV6 (round_rnd e i) fake (inc_Strategy inc);
          Some [SendV6 fake serverIP] }) })"

text \<open>\<open>InjectResetIncoming\<close>, \<open>InjectFinIncoming\<close> and \<open>InjectDesyncIncoming\<close> send, in every round, one packet for
  each of their flags.\<close>
definition control4 :: "env \<Rightarrow> SetConfig \<Rightarrow> byte list \<Rightarrow> bytes \<Rightarrow> nat \<Rightarrow> bytes \<Rightarrow> effect list option" where
  "control4 e cfg flags raw ihl serverIP = do {
     let inc = Incoming (TCP cfg);
     tcp \<leftarrow> slice_from raw ihl;
     sport \<leftarrow> be16 tcp 0;
     dport \<leftarrow> be16 tcp 2;
     ack \<leftarrow> be32 tcp 8;
     repeat_send 0 (nat (FakeCount inc)) (\<lambda>i.
       repeat_send 0 (length flags) (\<lambda>k. do {
         src \<leftarrow> gslice raw 16 20;
         dst \<leftarrow> gslice raw 12 16;
         p \<leftarrow> bare_tcp4 (ids e (3 * i + k) + of_nat i) (FakeTTL inc) src dst dport sport ack (flags ! k);
         p \<leftarrow> fixed4 p;
         Some [SendV4 p serverIP] })) }"

definition control6 :: "SetConfig \<Rightarrow> byte list \<Rightarrow> bytes \<Rightarrow> bytes \<Rightarrow> effect list option" where
  "control6 cfg flags raw serverIP = do {
     let inc = Incoming (TCP cfg);
     tcp \<leftarrow> slice_from raw 40;
     sport \<leftarrow> be16 tcp 0;
     dport \<leftarrow> be16 tcp 2;
     ack \<leftarrow> be32 tcp 8;
     repeat_send 0 (nat (FakeCount inc)) (\<lambda>i.
       repeat_send 0 (length flags) (\<lambda>k. do {
         src \<leftarrow> gslice raw 24 40;
         dst \<leftarrow> gslice raw 8 24;
         p \<leftarrow> bare_tcp6 (FakeTTL inc) src dst dport sport ack (flags ! k);
         p \<leftarrow> FixTCPChecksumV6 p;
         Some [SendV6 p serverIP] })) }"

definition InjectResetIncoming :: "env \<Rightarrow> SetConfig \<Rightarrow> bytes \<Rightarrow> nat \<Rightarrow> bytes \<Rightarrow> effect list option" where
  "InjectResetIncoming e cfg raw ihl serverIP = control4 e cfg [0x04] raw ihl serverIP"

definition InjectResetIncomingV6 :: "SetConfig \<Rightarrow> bytes \<Rightarrow> bytes \<Rightarrow> effect list option" where
  "InjectResetIncomingV6 cfg raw serverIP = control6 cfg [0x04] raw serverIP"

definition InjectFinIncoming :: "env \<Rightarrow> SetConfig \<Rightarrow> bytes \<Rightarrow> nat \<Rightarrow> bytes \<Rightarrow> effect list option" where
  "InjectFinIncoming e cfg raw ihl serverIP = control4 e cfg [0x01] raw ihl serverIP"

definition InjectFinIncomingV6 :: "SetConfig \<Rightarrow> bytes \<Rightarrow> bytes \<Rightarrow> effect list option" where
  "InjectFinIncomingV6 cfg raw serverIP = control6 cfg [0x01] raw serverIP"

definition InjectDesyncIncoming :: "env \<Rightarrow> SetConfig \<Rightarrow> bytes \<Rightarrow> nat \<Rightarrow> bytes \<Rightarrow> effect list option" where
  "InjectDesyncIncoming e cfg raw ihl serverIP = control4 e cfg [0x04, 0x01, 0x10] raw ihl serverIP"

definition InjectDesyncIncomingV6 :: "SetConfig \<Rightarrow> bytes \<Rightarrow> bytes \<Rightarrow> effect list option" where
  "InjectDesyncIncomingV6 cfg raw serverIP = control6 cfg [0x04, 0x01, 0x10] raw serverIP"

section \<open>\<^verbatim>\<open>HandleIncoming\<close>\<close>

text \<open>The escalation after a RST that looks forged\<close>
definition incoming_escalate ::
  "env \<Rightarrow> Config \<Rightarrow> SetConfig \<Rightarrow> bytes \<Rightarrow> bytes \<Rightarrow> uint16 \<Rightarrow> bytes \<Rightarrow> uint16 \<Rightarrow> worker \<Rightarrow> worker \<times> effect list" where
  "incoming_escalate e cfg incomingSet src dstStr dport srcStr sport w =
     (let outKey = connKeyFormat dstStr dport srcStr sport;
          host = (case tls_Lookup outKey (tlsCache (wk_rt w)) of Some (h, v) \<Rightarrow> h | None \<Rightarrow> []);
          window = duration (RstWindowSec (Escalate incomingSet)) Second;
          ttl = duration (TtlSec (Escalate incomingSet)) Second
      in if host = [] then (w, [])
         else let (d, killed) = RecordRSTKill (now e 1) (now e 2) host (RstThreshold (Escalate incomingSet)) window (wk_dest w);
                  w = set_dest d w
              in if \<not> killed then (w, [])
                 else case GetSetById (To (Escalate incomingSet)) (Sets cfg) of None \<Rightarrow> (w, [])
                   | Some nxt \<Rightarrow>
                       if \<not> Enabled nxt then (w, [])
                       else let (d, ok) = SetEscalation (now e 3) (now e 4) (now e 5) host (Id nxt) ttl (wk_dest w);
                                w = set_dest d w
                            in (w, if ok then registerEscalatedRoute e cfg nxt src else []))"

text \<open>The first half: the result says whether the packet has been dropped.\<close>
definition incoming_rst ::
  "env \<Rightarrow> Config \<Rightarrow> SetConfig \<Rightarrow> byte \<Rightarrow> bytes \<Rightarrow> nat \<Rightarrow> bytes \<Rightarrow> bytes \<Rightarrow> uint16 \<Rightarrow> bytes \<Rightarrow> uint16 \<Rightarrow> worker \<Rightarrow>
   (worker \<times> effect list \<times> bool) option" where
  "incoming_rst e cfg incomingSet v raw ihl src dstStr dport srcStr sport w =
     (if \<not> length raw > ihl + 13 then Some (w, [], False)
      else do {
        tcp \<leftarrow> slice_from raw ihl;
        tcpFlags \<leftarrow> idx tcp 13;
        o12 \<leftarrow> idx tcp 12;
        let isRst = ((tcpFlags AND 0x04) \<noteq> 0);
        let hasACK = ((tcpFlags AND 0x10) \<noteq> 0);
        let hasOpts = (unat (drop_bit 4 o12 * 4) > 20);
        pktTTL \<leftarrow> (if v = 4 \<and> length raw > 8 then idx raw 8 else if v = 6 \<and> length raw > 7 then idx raw 7 else Some 0);
        let w = (if \<not> isRst \<and> pktTTL > 0
                 then set_conns (RecordServerResponse dstStr dport srcStr sport pktTTL hasOpts (wk_conns w)) w else w);
        let rstProtOn = rstp_Enabled (RSTProtection (TCP incomingSet));
        let canEscalate = (To (Escalate incomingSet) \<noteq> []);
        if isRst \<and> (rstProtOn \<or> canEscalate) then do {
          let tol = TTLTolerance (RSTProtection (TCP incomingSet));
          let tol = (if tol \<le> 0 then 3 else tol);
          let (c, dropIt, reason) = CheckRST dstStr dport srcStr sport pktTTL hasOpts hasACK tol (wk_conns w);
          let w = set_conns c w;
          if dropIt then do {
            let (w, es) = (if canEscalate then incoming_escalate e cfg incomingSet src dstStr dport srcStr sport w else (w, []));
            if rstProtOn then Some (w, es @ [Drop], True) else Some (w, es, False) }
          else Some (w, [], False) }
        else Some (w, [], False) })"

text \<open>The second half: what is injected for a packet with payload\<close>
definition incoming_inject ::
  "env \<Rightarrow> SetConfig \<Rightarrow> byte \<Rightarrow> bytes \<Rightarrow> nat \<Rightarrow> bytes \<Rightarrow> bytes \<Rightarrow> uint16 \<Rightarrow> bytes \<Rightarrow> uint16 \<Rightarrow> bytes \<Rightarrow> worker \<Rightarrow>
   (worker \<times> effect list) option" where
  "incoming_inject e incomingSet v raw ihl src dstStr dport srcStr sport payload w =
     (let inc = Incoming (TCP incomingSet); mode = inc_Mode inc in
      if mode = ConfigOff \<or> length payload = 0 then Some (w, [])
      else if mode = ''fake'' then do {
        es \<leftarrow> (if v = 4 then InjectFakeIncoming e incomingSet raw ihl src else InjectFakeIncomingV6 e incomingSet raw src);
        Some (w, es) }
      else if mode = ''reset'' \<or> mode = ''fin'' \<or> mode = ''desync'' then do {
        let (c, fired) = TrackIncomingBytes (int (rnd e 7)) (now e 6) dstStr dport srcStr sport (of_nat (length payload)) inc (wk_conns w);
        let w = set_conns c w;
        if \<not> fired then Some (w, [])
        else do {
          es \<leftarrow> (if mode = ''reset'' then
                    if v = 4 then InjectResetIncoming e incomingSet raw ihl src else InjectResetIncomingV6 incomingSet raw src
                  else if mode = ''fin'' then
                    if v = 4 then InjectFinIncoming e incomingSet raw ihl src else InjectFinIncomingV6 incomingSet raw src
                  else
                    if v = 4 then InjectDesyncIncoming e incomingSet raw ihl src else InjectDesyncIncomingV6 incomingSet raw src);
          Some (w, es) } }
      else Some (w, []))"

definition HandleIncoming ::
  "env \<Rightarrow> Config \<Rightarrow> byte \<Rightarrow> bytes \<Rightarrow> nat \<Rightarrow> bytes \<Rightarrow> bytes \<Rightarrow> uint16 \<Rightarrow> bytes \<Rightarrow> uint16 \<Rightarrow> bytes \<Rightarrow> worker \<Rightarrow>
   (worker \<times> effect list) option" where
  "HandleIncoming e cfg v raw ihl src dstStr dport srcStr sport payload w = do {
     let (c, incomingSet) = GetSetForIncoming (now e 0) dstStr dport srcStr sport (wk_conns w);
     let w = set_conns c w;
     case incomingSet of None \<Rightarrow> Some (w, [Accept])
     | Some st \<Rightarrow> do {
         (w, es, stop) \<leftarrow> incoming_rst e cfg st v raw ihl src dstStr dport srcStr sport w;
         if stop then Some (w, es)
         else do {
           (w, fs) \<leftarrow> incoming_inject e st v raw ihl src dstStr dport srcStr sport payload w;
           Some (w, es @ fs @ [Accept]) } } }"

section \<open>Bare packets are well formed\<close>

lemma list16: "length l = 16 \<Longrightarrow> \<exists>a b c d e f g h i j k m n q r s. l = [a, b, c, d, e, f, g, h, i, j, k, m, n, q, r, s]"
  by (auto simp: length_Suc_conv numeral_eq_Suc)

lemma small_u16: "hi8 40 = 0" "lo8 40 = 40" "hi8 20 = 0" "lo8 20 = 20"
  by (simp_all add: hi8_def lo8_def)

lemma bare_tcp4_eq:
  "bare_tcp4 ident ttl [a, b, c, d] [a', b', c', d'] sp dp seq flags = Some
    [0x45, 0, 0, 40, hi8 ident, lo8 ident, 0, 0, ttl, 6, 0, 0, a, b, c, d, a', b', c', d',
     hi8 sp, lo8 sp, hi8 dp, lo8 dp, hi8 (hi16 seq), lo8 (hi16 seq), hi8 (lo16 seq), lo8 (lo16 seq),
     0, 0, 0, 0, 0x50, flags, 0, 0, 0, 0, 0, 0]"
  by (simp add: bare_tcp4_def upd_def put16_def put32_def copy_into_def mk_def eval_nat_numeral small_u16)

lemma bare_tcp6_eq:
  "bare_tcp6 ttl [a0, a1, a2, a3, a4, a5, a6, a7, a8, a9, aa, ab, ac, ad, ae, af]
     [b0, b1, b2, b3, b4, b5, b6, b7, b8, b9, ba, bb, bc, bd, be, bf] sp dp seq flags = Some
    [0x60, 0, 0, 0, 0, 20, 6, ttl, a0, a1, a2, a3, a4, a5, a6, a7, a8, a9, aa, ab, ac, ad, ae, af,
     b0, b1, b2, b3, b4, b5, b6, b7, b8, b9, ba, bb, bc, bd, be, bf,
     hi8 sp, lo8 sp, hi8 dp, lo8 dp, hi8 (hi16 seq), lo8 (hi16 seq), hi8 (lo16 seq), lo8 (lo16 seq),
     0, 0, 0, 0, 0x50, flags, 0, 0, 0, 0, 0, 0]"
  by (simp add: bare_tcp6_def upd_def put16_def put32_def copy_into_def mk_def eval_nat_numeral small_u16)

text \<open>A TCP packet over IPv4 without options and payload, with correct checksums\<close>
definition tcp_packet4 :: "byte \<Rightarrow> bytes \<Rightarrow> bytes \<Rightarrow> uint16 \<Rightarrow> uint16 \<Rightarrow> uint32 \<Rightarrow> byte \<Rightarrow> bytes \<Rightarrow> bool" where
  "tcp_packet4 ttl src dst sp dp seq flags q \<longleftrightarrow>
     length q = 40 \<and> valid4 q \<and> q ! 0 = 0x45 \<and> q ! 8 = ttl \<and> q ! 9 = 6 \<and>
     take 4 (drop 12 q) = src \<and> take 4 (drop 16 q) = dst \<and> u16 (q ! 20) (q ! 21) = sp \<and> u16 (q ! 22) (q ! 23) = dp \<and>
     u32 (u16 (q ! 24) (q ! 25)) (u16 (q ! 26) (q ! 27)) = seq \<and> q ! 32 = 0x50 \<and> q ! 33 = flags"

definition tcp_packet6 :: "byte \<Rightarrow> bytes \<Rightarrow> bytes \<Rightarrow> uint16 \<Rightarrow> uint16 \<Rightarrow> uint32 \<Rightarrow> byte \<Rightarrow> bytes \<Rightarrow> bool" where
  "tcp_packet6 ttl src dst sp dp seq flags q \<longleftrightarrow>
     length q = 60 \<and> valid6 q \<and> q ! 0 = 0x60 \<and> q ! 7 = ttl \<and> q ! 6 = 6 \<and>
     take 16 (drop 8 q) = src \<and> take 16 (drop 24 q) = dst \<and> u16 (q ! 40) (q ! 41) = sp \<and> u16 (q ! 42) (q ! 43) = dp \<and>
     u32 (u16 (q ! 44) (q ! 45)) (u16 (q ! 46) (q ! 47)) = seq \<and> q ! 52 = 0x50 \<and> q ! 53 = flags"

lemma take_set_field_before: "n \<le> i \<Longrightarrow> take n (drop m (set_field p (m + i) c)) = take n (drop m p)"
  by (simp add: set_field_def drop_update_swap)

lemma bare4_fixed:
  assumes "length src = 4" "length dst = 4"
  shows "\<exists>q. (bare_tcp4 ident ttl src dst sp dp seq flags \<bind> fixed4) = Some q \<and> tcp_packet4 ttl src dst sp dp seq flags q"
proof -
  obtain a b c d where s: "src = [a, b, c, d]" using list4 [OF assms(1)] by blast
  obtain a' b' c' d' where t: "dst = [a', b', c', d']" using list4 [OF assms(2)] by blast
  obtain p where p: "bare_tcp4 ident ttl src dst sp dp seq flags = Some p"
    and e: "p = [0x45, 0, 0, 40, hi8 ident, lo8 ident, 0, 0, ttl, 6, 0, 0, a, b, c, d, a', b', c', d',
     hi8 sp, lo8 sp, hi8 dp, lo8 dp, hi8 (hi16 seq), lo8 (hi16 seq), hi8 (lo16 seq), lo8 (lo16 seq),
     0, 0, 0, 0, 0x50, flags, 0, 0, 0, 0, 0, 0]"
    using bare_tcp4_eq s t by simp
  have i: "ihl4 p = 20" by (simp add: ihl4_def hdr4_def e)
  have l: "length p = 40" by (simp add: e)
  have n: "tot4 p = 40" by (simp add: tot4_def e u16_def)
  obtain x y q where q: "on_prefix FixIPv4Checksum p 20 = Some (set_field p 10 x)" "FixTCPChecksum (set_field p 10 x) = Some q"
      "q = set_field (set_field p 10 x) 36 y" "valid4 q"
    using fix_both4 [of p] i l n by auto
  have k: "q ! j = p ! j" if "j < 10 \<or> 12 \<le> j \<and> j < 36" for j
    using that by (auto simp: q(3) set_field_nth)
  have "take 4 (drop 12 q) = src \<and> take 4 (drop 16 q) = dst"
    by (auto simp: q(3) e s t set_field_def eval_nat_numeral)
  then have "tcp_packet4 ttl src dst sp dp seq flags q"
    using q(4) l by (simp add: tcp_packet4_def k) (simp add: q(3) l e u16_split u32_split)
  then show ?thesis using q by (auto simp: p fixed4_def)
qed


lemma bare6_fixed:
  assumes "length src = 16" "length dst = 16"
  shows "\<exists>q. (bare_tcp6 ttl src dst sp dp seq flags \<bind> FixTCPChecksumV6) = Some q \<and> tcp_packet6 ttl src dst sp dp seq flags q"
proof -
  obtain a0 a1 a2 a3 a4 a5 a6 a7 a8 a9 aa ab ac ad ae af where s: "src = [a0, a1, a2, a3, a4, a5, a6, a7, a8, a9, aa, ab, ac, ad, ae, af]"
    using list16 [OF assms(1)] by blast
  obtain b0 b1 b2 b3 b4 b5 b6 b7 b8 b9 ba bb bc bd be bf where t: "dst = [b0, b1, b2, b3, b4, b5, b6, b7, b8, b9, ba, bb, bc, bd, be, bf]"
    using list16 [OF assms(2)] by blast
  obtain p where p: "bare_tcp6 ttl src dst sp dp seq flags = Some p"
    and e: "p = [0x60, 0, 0, 0, 0, 20, 6, ttl, a0, a1, a2, a3, a4, a5, a6, a7, a8, a9, aa, ab, ac, ad, ae, af,
     b0, b1, b2, b3, b4, b5, b6, b7, b8, b9, ba, bb, bc, bd, be, bf,
     hi8 sp, lo8 sp, hi8 dp, lo8 dp, hi8 (hi16 seq), lo8 (hi16 seq), hi8 (lo16 seq), lo8 (lo16 seq),
     0, 0, 0, 0, 0x50, flags, 0, 0, 0, 0, 0, 0]"
    using bare_tcp6_eq s t by simp
  have l: "length p = 60" by (simp add: e)
  have n: "plen6 p = 20" by (simp add: plen6_def e u16_def)
  obtain d where q: "FixTCPChecksumV6 p = Some (set_field p 56 d)" "valid6 (set_field p 56 d)"
    using fix_tcp6 [of p] l n by auto
  let ?q = "set_field p 56 d"
  have k: "?q ! j = p ! j" if "j < 56" for j using that by simp
  have "take 16 (drop 8 ?q) = src \<and> take 16 (drop 24 ?q) = dst"
    by (auto simp: e s t set_field_def eval_nat_numeral)
  then have "tcp_packet6 ttl src dst sp dp seq flags ?q"
    using q(2) l by (simp add: tcp_packet6_def) (simp add: e)
  then show ?thesis using q by (auto simp: p)
qed

lemma repeat_send_all2:
  assumes "\<And>j. \<exists>es. body j = Some es \<and> list_all2 R (fs j) es"
  shows "\<exists>es. repeat_send i n body = Some es \<and> list_all2 R (concat (map fs [i..<i + n])) es"
proof (induction n arbitrary: i)
  case (Suc n)
  obtain es where es: "body i = Some es" "list_all2 R (fs i) es" using assms by blast
  obtain gs where gs: "repeat_send (Suc i) n body = Some gs" "list_all2 R (concat (map fs [Suc i..<Suc i + n])) gs"
    using Suc.IH by blast
  have "[i..<i + Suc n] = i # [Suc i..<Suc i + n]" by (simp add: upt_conv_Cons)
  then show ?case using es gs by (simp add: list_all2_appendI)
qed simp

text \<open>What a client sees in a packet of a server: ports and acknowledgement\<close>
definition port_at :: "bytes \<Rightarrow> nat \<Rightarrow> uint16" where
  "port_at p i = u16 (p ! i) (p ! Suc i)"

definition word_at32 :: "bytes \<Rightarrow> nat \<Rightarrow> uint32" where
  "word_at32 p i = u32 (u16 (p ! i) (p ! (i + 1))) (u16 (p ! (i + 2)) (p ! (i + 3)))"

lemma be16_drop: "n + i + 2 \<le> length p \<Longrightarrow> be16 (drop n p) i = Some (port_at p (n + i))"
  by (simp add: be16_ok port_at_def)

lemma be32_drop: "n + i + 4 \<le> length p \<Longrightarrow> be32 (drop n p) i = Some (word_at32 p (n + i))"
  by (simp add: be32_ok word_at32_def add.assoc numeral_eq_Suc)

text \<open>The packets of the injectors: for each round and each flag one packet from the client to the server with the
  sequence number the server expects\<close>
lemma control4_ok:
  assumes "ihl + 20 \<le> length raw" "20 \<le> length raw"
  shows "\<exists>es. control4 e cfg flags raw ihl serverIP = Some es \<and>
    list_all2 (\<lambda>f x. \<exists>q. x = SendV4 q serverIP \<and> tcp_packet4 (FakeTTL (Incoming (TCP cfg))) (take 4 (drop 16 raw)) (take 4 (drop 12 raw))
        (port_at raw (ihl + 2)) (port_at raw ihl) (word_at32 raw (ihl + 8)) f q)
      (concat (replicate (nat (FakeCount (Incoming (TCP cfg)))) flags)) es"
proof -
  define ttl cl sv sp dp ack where d: "ttl = FakeTTL (Incoming (TCP cfg))" "cl = take 4 (drop 16 raw)" "sv = take 4 (drop 12 raw)"
    "sp = port_at raw (ihl + 2)" "dp = port_at raw ihl" "ack = word_at32 raw (ihl + 8)"
  define R where "R = (\<lambda>f x. \<exists>q. x = SendV4 q serverIP \<and> tcp_packet4 ttl cl sv sp dp ack f q)"
  define b where "b = (\<lambda>i k. do {
         src \<leftarrow> gslice raw 16 20;
         dst \<leftarrow> gslice raw 12 16;
         p \<leftarrow> bare_tcp4 (ids e (3 * i + k) + of_nat i) ttl src dst sp dp ack (flags ! k);
         p \<leftarrow> fixed4 p;
         Some [SendV4 p serverIP] })"
  have len: "length cl = 4" "length sv = 4" using assms(2) by (simp_all add: d)
  have "\<exists>es. b i k = Some es \<and> list_all2 R [flags ! k] es" for i k
  proof -
    obtain p q where "bare_tcp4 (ids e (3 * i + k) + of_nat i) ttl cl sv sp dp ack (flags ! k) = Some p" "fixed4 p = Some q"
        "tcp_packet4 ttl cl sv sp dp ack (flags ! k) q"
      using bare4_fixed [OF len] by (fastforce elim!: bind_SomeE)
    then show ?thesis using assms(2) by (simp add: b_def gslice_ok d R_def)
  qed
  from repeat_send_all2 [of "b _" R "\<lambda>k. [flags ! k]", OF this]
  have "\<exists>es. repeat_send 0 (length flags) (b i) = Some es \<and> list_all2 R flags es" for i
    by (metis (no_types) add_0 concat_map_singleton map_nth)
  from repeat_send_all2 [of "\<lambda>i. repeat_send 0 (length flags) (b i)" R "\<lambda>i. flags", OF this]
  obtain es where "repeat_send 0 (nat (FakeCount (Incoming (TCP cfg)))) (\<lambda>i. repeat_send 0 (length flags) (b i)) = Some es"
      "list_all2 R (concat (replicate (nat (FakeCount (Incoming (TCP cfg)))) flags)) es"
    by (metis add_0 length_upt map_replicate_const minus_nat.diff_0)
  then show ?thesis
    using assms by (simp add: control4_def slice_from_ok be16_drop [of ihl 0] be16_drop [of ihl 2] be32_drop [of ihl 8] R_def b_def d)
qed

lemma control6_ok:
  assumes "60 \<le> length raw"
  shows "\<exists>es. control6 cfg flags raw serverIP = Some es \<and>
    list_all2 (\<lambda>f x. \<exists>q. x = SendV6 q serverIP \<and> tcp_packet6 (FakeTTL (Incoming (TCP cfg))) (take 16 (drop 24 raw)) (take 16 (drop 8 raw))
        (port_at raw 42) (port_at raw 40) (word_at32 raw 48) f q)
      (concat (replicate (nat (FakeCount (Incoming (TCP cfg)))) flags)) es"
proof -
  define ttl cl sv sp dp ack where d: "ttl = FakeTTL (Incoming (TCP cfg))" "cl = take 16 (drop 24 raw)" "sv = take 16 (drop 8 raw)"
    "sp = port_at raw 42" "dp = port_at raw 40" "ack = word_at32 raw 48"
  define R where "R = (\<lambda>f x. \<exists>q. x = SendV6 q serverIP \<and> tcp_packet6 ttl cl sv sp dp ack f q)"
  define b where "b = (\<lambda>k. do {
         src \<leftarrow> gslice raw 24 40;
         dst \<leftarrow> gslice raw 8 24;
         p \<leftarrow> bare_tcp6 ttl src dst sp dp ack (flags ! k);
         p \<leftarrow> FixTCPChecksumV6 p;
         Some [SendV6 p serverIP] })"
  have len: "length cl = 16" "length sv = 16" using assms by (simp_all add: d)
  have "\<exists>es. b k = Some es \<and> list_all2 R [flags ! k] es" for k
  proof -
    obtain p q where "bare_tcp6 ttl cl sv sp dp ack (flags ! k) = Some p" "FixTCPChecksumV6 p = Some q"
        "tcp_packet6 ttl cl sv sp dp ack (flags ! k) q"
      using bare6_fixed [OF len] by (fastforce elim!: bind_SomeE)
    then show ?thesis using assms by (simp add: b_def gslice_ok d R_def)
  qed
  from repeat_send_all2 [of b R "\<lambda>k. [flags ! k]", OF this]
  have "\<exists>es. repeat_send 0 (length flags) b = Some es \<and> list_all2 R flags es"
    by (metis (no_types) add_0 concat_map_singleton map_nth)
  from repeat_send_all2 [of "\<lambda>i. repeat_send 0 (length flags) b" R "\<lambda>i. flags", OF this]
  obtain es where "repeat_send 0 (nat (FakeCount (Incoming (TCP cfg)))) (\<lambda>i. repeat_send 0 (length flags) b) = Some es"
      "list_all2 R (concat (replicate (nat (FakeCount (Incoming (TCP cfg)))) flags)) es"
    by (metis add_0 length_upt map_replicate_const minus_nat.diff_0)
  then show ?thesis
    using assms by (simp add: control6_def slice_from_ok be16_drop [of 40 0] be16_drop [of 40 2] be32_drop [of 40 8] R_def b_def d)
qed


section \<open>Fake acknowledgements\<close>

text \<open>The frame of an IPv4 packet under construction: nothing behind the IP header changes it.\<close>
definition frame4 :: "bytes \<Rightarrow> bool" where
  "frame4 p \<longleftrightarrow> length p = 40 \<and> ihl4 p = 20 \<and> tot4 p = 40"

definition frame6 :: "bytes \<Rightarrow> bool" where
  "frame6 p \<longleftrightarrow> length p = 60 \<and> plen6 p = 20"

lemma frame4_upd: "frame4 p \<Longrightarrow> 20 \<le> i \<Longrightarrow> frame4 (p[i := v])"
  by (simp add: frame4_def ihl4_def tot4_def)

lemma frame6_upd: "frame6 p \<Longrightarrow> 40 \<le> i \<Longrightarrow> frame6 (p[i := v])"
  by (simp add: frame6_def plen6_def)

lemma frame4_ops:
  assumes "frame4 p" "20 \<le> i"
  shows "i + 4 \<le> 40 \<Longrightarrow> \<exists>q. put32 p i v = Some q \<and> frame4 q" "i + 2 \<le> 40 \<Longrightarrow> \<exists>q. put16 p i w = Some q \<and> frame4 q"
    "i + 4 \<le> 40 \<Longrightarrow> \<exists>q. shift_field i r p = Some q \<and> frame4 q" "i < 40 \<Longrightarrow> \<exists>q. flip_byte i r p = Some q \<and> frame4 q"
  using assms
  by (auto simp: put32_def put16_def shift_field_def flip_byte_def be32_ok idx_ok upd_ok frame4_upd frame4_def [of p])

lemma frame6_ops:
  assumes "frame6 p" "40 \<le> i"
  shows "i + 4 \<le> 60 \<Longrightarrow> \<exists>q. put32 p i v = Some q \<and> frame6 q" "i + 2 \<le> 60 \<Longrightarrow> \<exists>q. put16 p i w = Some q \<and> frame6 q"
    "i + 4 \<le> 60 \<Longrightarrow> \<exists>q. shift_field i r p = Some q \<and> frame6 q" "i < 60 \<Longrightarrow> \<exists>q. flip_byte i r p = Some q \<and> frame6 q"
  using assms
  by (auto simp: put32_def put16_def shift_field_def flip_byte_def be32_ok idx_ok upd_ok frame6_upd frame6_def [of p])

lemma frame4_fix:
  assumes "frame4 p"
  shows "\<exists>q. on_prefix FixIPv4Checksum p 20 = Some q \<and> frame4 q \<and> (\<exists>r. FixTCPChecksum q = Some r)"
proof -
  obtain c d q where "on_prefix FixIPv4Checksum p 20 = Some (set_field p 10 c)" "FixTCPChecksum (set_field p 10 c) = Some q"
    using fix_both4 [of p] assms by (auto simp: frame4_def)
  then show ?thesis using assms by (auto simp: frame4_def)
qed

lemma frame6_fix: "frame6 p \<Longrightarrow> \<exists>q. FixTCPChecksumV6 p = Some q"
  using fix_tcp6 [of p] by (auto simp: frame6_def)

lemma strategies: "k < 4 \<Longrightarrow> \<exists>s. idx corruptionStrategies k = Some s"
  by (simp add: corruptionStrategies_def idx_def)

lemma applyCorruption_total:
  assumes "frame4 p" "r 0 < 4"
  shows "\<exists>q. applyCorruption r p 20 strategy = Some q"
proof -
  obtain s where s: "(if strategy = ''rand'' then idx corruptionStrategies (r 0) else Some strategy) = Some s"
    using strategies [OF assms(2)] by (cases "strategy = ''rand''") auto
  have l: "length p = 40" using assms(1) by (simp add: frame4_def)
  have 1: "\<exists>q. (do { p \<leftarrow> shift_field i k p; p \<leftarrow> on_prefix FixIPv4Checksum p 20; FixTCPChecksum p }) = Some q"
    if "i = 24 \<or> i = 28" for i k
    using frame4_ops(3) [OF assms(1), of i k] frame4_fix that by fastforce
  have 2: "\<exists>q. (do { p \<leftarrow> on_prefix FixIPv4Checksum p 20; p \<leftarrow> flip_byte 36 j p; flip_byte 37 k p }) = Some q"
    if "frame4 p" for p j k
    using frame4_fix [OF that] frame4_ops(4) [of _ 36 j] frame4_ops(4) [of _ 37 k] by fastforce
  have 3: "\<exists>q. (do { p \<leftarrow> shift_field 24 i p; p \<leftarrow> shift_field 28 m p; p \<leftarrow> on_prefix FixIPv4Checksum p 20;
      p \<leftarrow> flip_byte 36 j p; flip_byte 37 k p }) = Some q" for i m j k
    using frame4_ops(3) [OF assms(1), of 24 i] frame4_ops(3) [of _ 28 m] 2 by fastforce
  show ?thesis
    unfolding applyCorruption_def s using l 1 [of 24 "r 1"] 1 [of 28 "r 1"] 2 [OF assms(1), of "r 1" "r 2"] 3 [of "r 1" "r 2" "r 3" "r 4"]
    by simp
qed

lemma applyCorruptionV6_total:
  assumes "frame6 p" "r 0 < 4"
  shows "\<exists>q. applyCorruptionV6 r p strategy = Some q"
proof -
  obtain s where s: "(if strategy = ''rand'' then idx corruptionStrategies (r 0) else Some strategy) = Some s"
    using strategies [OF assms(2)] by (cases "strategy = ''rand''") auto
  have l: "length p = 60" using assms(1) by (simp add: frame6_def)
  have 1: "\<exists>q. (do { p \<leftarrow> shift_field i k p; FixTCPChecksumV6 p }) = Some q" if "i = 44 \<or> i = 48" for i k
    using frame6_ops(3) [OF assms(1), of i k] frame6_fix that by fastforce
  have 2: "\<exists>q. (do { p \<leftarrow> flip_byte 56 j p; flip_byte 57 k p }) = Some q" if "frame6 p" for p j k
    using frame6_ops(4) [OF that, of 56 j] frame6_ops(4) [of _ 57 k] by fastforce
  have 3: "\<exists>q. (do { p \<leftarrow> shift_field 44 i p; p \<leftarrow> shift_field 48 m p; p \<leftarrow> flip_byte 56 j p; flip_byte 57 k p }) = Some q" for i m j k
    using frame6_ops(3) [OF assms(1), of 44 i] frame6_ops(3) [of _ 48 m] 2 by fastforce
  show ?thesis
    unfolding applyCorruptionV6_def s using l 1 [of 44 "r 1"] 1 [of 48 "r 1"] 2 [OF assms(1), of "r 1" "r 2"] 3 [of "r 1" "r 2" "r 3" "r 4"]
    by simp
qed

lemma bare_frames:
  "length src = 4 \<Longrightarrow> length dst = 4 \<Longrightarrow> \<exists>p. bare_tcp4 ident ttl src dst sp dp seq flags = Some p \<and> frame4 p"
  "length src' = 16 \<Longrightarrow> length dst' = 16 \<Longrightarrow> \<exists>p. bare_tcp6 ttl src' dst' sp dp seq flags = Some p \<and> frame6 p"
proof -
  assume "length src = 4" "length dst = 4"
  then obtain a b c d a' b' c' d' where "src = [a, b, c, d]" "dst = [a', b', c', d']" using list4 by metis
  then show "\<exists>p. bare_tcp4 ident ttl src dst sp dp seq flags = Some p \<and> frame4 p"
    by (simp add: bare_tcp4_eq frame4_def ihl4_def hdr4_def tot4_def u16_def)
next
  assume s: "length src' = 16" "length dst' = 16"
  show "\<exists>p. bare_tcp6 ttl src' dst' sp dp seq flags = Some p \<and> frame6 p"
    using list16 [OF s(1)] list16 [OF s(2)] by (elim exE) (simp add: bare_tcp6_eq frame6_def plen6_def u16_def)
qed

text \<open>A list of packets on the raw socket\<close>
definition only_sends :: "effect list \<Rightarrow> bool" where
  "only_sends es \<longleftrightarrow> list_all (\<lambda>x. case x of SendV4 q d \<Rightarrow> True | SendV6 q d \<Rightarrow> True | _ \<Rightarrow> False) es"

lemma repeat_send_total:
  assumes "\<And>j. \<exists>es. body j = Some es \<and> only_sends es"
  shows "\<exists>es. repeat_send i n body = Some es \<and> only_sends es"
proof (induction n arbitrary: i)
  case (Suc n)
  then show ?case using assms [of i] Suc.IH [of "Suc i"] by (fastforce simp: only_sends_def)
qed (simp add: only_sends_def)

lemma InjectFakeIncoming_total:
  assumes "\<And>i. round_rnd e i 0 < 4" "20 \<le> length raw"
  shows "\<exists>es. InjectFakeIncoming e cfg raw ihl ip = Some es \<and> only_sends es"
proof (cases "length raw < ihl + 20")
  case True
  then show ?thesis by (simp add: InjectFakeIncoming_def only_sends_def)
next
  case False
  have l: "length (take 4 (drop 16 raw)) = 4" "length (take 4 (drop 12 raw)) = 4" using assms(2) by auto
  have "\<exists>es. (do {
          fake \<leftarrow> bare_tcp4 a ttl (take 4 (drop 16 raw)) (take 4 (drop 12 raw)) sp dp s f;
          fake \<leftarrow> put32 fake 28 x;
          fake \<leftarrow> put16 fake 34 y;
          fake \<leftarrow> applyCorruption (round_rnd e i) fake 20 st;
          Some [SendV4 fake ip] }) = Some es \<and> only_sends es" for a ttl sp dp s f x y i st
  proof -
    obtain p where p: "bare_tcp4 a ttl (take 4 (drop 16 raw)) (take 4 (drop 12 raw)) sp dp s f = Some p" "frame4 p"
      using bare_frames(1) [OF l] by blast
    obtain q where q: "put32 p 28 x = Some q" "frame4 q" using frame4_ops(1) [OF p(2), of 28 x] by auto
    obtain r where r: "put16 q 34 y = Some r" "frame4 r" using frame4_ops(2) [OF q(2), of 34 y] by auto
    obtain t where "applyCorruption (round_rnd e i) r 20 st = Some t" using applyCorruption_total [OF r(2), of "round_rnd e i"] assms(1) by blast
    then show ?thesis using p q r by (simp add: only_sends_def)
  qed
  then show ?thesis
    using False assms(2) unfolding InjectFakeIncoming_def
    by (simp add: slice_from_ok be16_drop be32_drop idx_ok gslice_ok Let_def) (rule repeat_send_total, blast)
qed

lemma InjectFakeIncomingV6_total:
  assumes "\<And>i. round_rnd e i 0 < 4"
  shows "\<exists>es. InjectFakeIncomingV6 e cfg raw ip = Some es \<and> only_sends es"
proof (cases "length raw < 60")
  case True
  then show ?thesis by (simp add: InjectFakeIncomingV6_def only_sends_def)
next
  case False
  have l: "length (take 16 (drop 24 raw)) = 16" "length (take 16 (drop 8 raw)) = 16" using False by auto
  have "\<exists>es. (do {
          fake \<leftarrow> bare_tcp6 ttl (take 16 (drop 24 raw)) (take 16 (drop 8 raw)) sp dp s f;
          fake \<leftarrow> put32 fake 48 x;
          fake \<leftarrow> put16 fake 54 y;
          fake \<leftarrow> applyCorruptionV6 (round_rnd e i) fake st;
          Some [SendV6 fake ip] }) = Some es \<and> only_sends es" for ttl sp dp s f x y i st
  proof -
    obtain p where p: "bare_tcp6 ttl (take 16 (drop 24 raw)) (take 16 (drop 8 raw)) sp dp s f = Some p" "frame6 p"
      using bare_frames(2) [OF l] by blast
    obtain q where q: "put32 p 48 x = Some q" "frame6 q" using frame6_ops(1) [OF p(2), of 48 x] by auto
    obtain r where r: "put16 q 54 y = Some r" "frame6 r" using frame6_ops(2) [OF q(2), of 54 y] by auto
    obtain t where "applyCorruptionV6 (round_rnd e i) r st = Some t" using applyCorruptionV6_total [OF r(2), of "round_rnd e i"] assms by blast
    then show ?thesis using p q r by (simp add: only_sends_def)
  qed
  then show ?thesis
    using False unfolding InjectFakeIncomingV6_def
    by (simp add: slice_from_ok be16_drop be32_drop idx_ok gslice_ok Let_def) (rule repeat_send_total, blast)
qed


section \<open>What the worker does with packets from servers\<close>

definition injected4 :: "SetConfig \<Rightarrow> byte list \<Rightarrow> bytes \<Rightarrow> nat \<Rightarrow> bytes \<Rightarrow> effect list option \<Rightarrow> bool" where
  "injected4 cfg flags raw ihl serverIP r \<longleftrightarrow> (\<exists>es. r = Some es \<and>
    list_all2 (\<lambda>f x. \<exists>q. x = SendV4 q serverIP \<and> tcp_packet4 (FakeTTL (Incoming (TCP cfg))) (take 4 (drop 16 raw)) (take 4 (drop 12 raw))
        (port_at raw (ihl + 2)) (port_at raw ihl) (word_at32 raw (ihl + 8)) f q)
      (concat (replicate (nat (FakeCount (Incoming (TCP cfg)))) flags)) es)"

definition injected6 :: "SetConfig \<Rightarrow> byte list \<Rightarrow> bytes \<Rightarrow> bytes \<Rightarrow> effect list option \<Rightarrow> bool" where
  "injected6 cfg flags raw serverIP r \<longleftrightarrow> (\<exists>es. r = Some es \<and>
    list_all2 (\<lambda>f x. \<exists>q. x = SendV6 q serverIP \<and> tcp_packet6 (FakeTTL (Incoming (TCP cfg))) (take 16 (drop 24 raw)) (take 16 (drop 8 raw))
        (port_at raw 42) (port_at raw 40) (word_at32 raw 48) f q)
      (concat (replicate (nat (FakeCount (Incoming (TCP cfg)))) flags)) es)"

lemma control4_injected:
  "ihl + 20 \<le> length raw \<Longrightarrow> 20 \<le> length raw \<Longrightarrow> injected4 cfg flags raw ihl ip (control4 e cfg flags raw ihl ip)"
  unfolding injected4_def by (rule control4_ok)

lemma control6_injected: "60 \<le> length raw \<Longrightarrow> injected6 cfg flags raw ip (control6 cfg flags raw ip)"
  unfolding injected6_def by (rule control6_ok)


definition sample_env :: env where
  "sample_env = \<lparr>rx = \<lambda>p. None, cn = sample_ranger, now = \<lambda>i. int i, rnd = \<lambda>i. 0, ids = of_nat, getMacByIp = \<lambda>a. [],
     srcResolver = None, hasRoutingDNS = True, hasRoutingLearn = True, verdictOk = True, quicSNI = \<lambda>p. None\<rparr>"

definition inject_set :: SetConfig where
  "inject_set = (plain_set [49])\<lparr>TCP := plain_tcp\<lparr>Incoming := plain_incoming\<lparr>inc_Mode := ''fake'', FakeCount := 1\<rparr>\<rparr>\<rparr>"


text \<open>The RST to the client, for addresses of the family\<close>
lemma rst_client4:
  assumes "ihl + 20 \<le> length raw" "To4 srcIP = Some c4" "To4 dstIP = Some s4"
  shows "\<exists>q. sendRSTToClientV4 e raw ihl srcIP dstIP = Some [ClientV4 q srcIP] \<and>
      tcp_packet4 64 s4 c4 (port_at raw (ihl + 2)) (port_at raw ihl) (word_at32 raw (ihl + 8)) 0x04 q"
proof -
  obtain p q where "bare_tcp4 (ids e 0) 64 s4 c4 (port_at raw (ihl + 2)) (port_at raw ihl) (word_at32 raw (ihl + 8)) 0x04 = Some p"
      "fixed4 p = Some q" "tcp_packet4 64 s4 c4 (port_at raw (ihl + 2)) (port_at raw ihl) (word_at32 raw (ihl + 8)) 0x04 q"
    using bare4_fixed [OF To4_length [OF assms(3)] To4_length [OF assms(2)]] by (fastforce elim!: bind_SomeE)
  then show ?thesis
    using assms by (simp add: sendRSTToClientV4_def slice_from_ok be16_drop [of ihl 0] be16_drop [of ihl 2] be32_drop [of ihl 8])
qed

lemma rst_client6:
  assumes "60 \<le> length raw" "length c6 = 16" "length s6 = 16"
  shows "\<exists>q. sendRSTToClientV6 raw c6 s6 = Some [ClientV6 q c6] \<and>
      tcp_packet6 64 s6 c6 (port_at raw 42) (port_at raw 40) (word_at32 raw 48) 0x04 q"
proof -
  have t: "To16 c6 = Some c6" "To16 s6 = Some s6" using assms(2,3) by (simp_all add: To16_def)
  obtain p q where "bare_tcp6 64 s6 c6 (port_at raw 42) (port_at raw 40) (word_at32 raw 48) 0x04 = Some p"
      "FixTCPChecksumV6 p = Some q" "tcp_packet6 64 s6 c6 (port_at raw 42) (port_at raw 40) (word_at32 raw 48) 0x04 q"
    using bare6_fixed [OF assms(3,2)] by (fastforce elim!: bind_SomeE)
  then show ?thesis
    using assms(1) t by (simp add: sendRSTToClientV6_def slice_from_ok be16_drop [of 40 0] be16_drop [of 40 2] be32_drop [of 40 8])
qed

text \<open>C36: the RST that ends a client's connection comes, for the client, from the server: addresses and ports
  swapped, the sequence number the client expects next, correct checksums. Over IPv6 that holds for packets
  without extension headers.\<close>
theorem sendRSTToClient_correct:
  assumes "ihl + 20 \<le> length raw" "To4 srcIP = Some c4" "To4 dstIP = Some s4" "60 \<le> length raw6" "length c6 = 16" "length s6 = 16"
  shows "(\<exists>q. sendRSTToClientV4 e raw ihl srcIP dstIP = Some [ClientV4 q srcIP] \<and>
      tcp_packet4 64 s4 c4 (port_at raw (ihl + 2)) (port_at raw ihl) (word_at32 raw (ihl + 8)) 0x04 q) \<and>
    (\<exists>q. sendRSTToClientV6 raw6 c6 s6 = Some [ClientV6 q c6] \<and>
      tcp_packet6 64 s6 c6 (port_at raw6 42) (port_at raw6 40) (word_at32 raw6 48) 0x04 q)"
  using rst_client4 [OF assms(1-3)] rst_client6 [OF assms(4-6)] by blast

theorem sendRSTToClient_witness:
  "\<exists>q. sendRSTToClientV4 sample_env sample_tcp4 20 [10, 0, 0, 1] [10, 0, 0, 2] = Some [ClientV4 q [10, 0, 0, 1]] \<and>
     valid4 q \<and> take 4 (drop 16 q) = [10, 0, 0, 1]"
proof -
  have "20 + 20 \<le> length sample_tcp4" "To4 [10, 0, 0, 1] = Some [10, 0, 0, 1]" "To4 [10, 0, 0, 2] = Some [10, 0, 0, 2]"
    by (simp_all add: sample_tcp4_def To4_def)
  then show ?thesis
    using sendRSTToClient_correct [of 20 sample_tcp4 "[10, 0, 0, 1]" "[10, 0, 0, 1]" "[10, 0, 0, 2]" "[10, 0, 0, 2]" "mk 60" "mk 16" "mk 16" sample_env]
    by (auto simp: tcp_packet4_def)
qed

text \<open>Verdicts among the effects\<close>
definition verdicts :: "effect list \<Rightarrow> effect list" where
  "verdicts es = filter (\<lambda>x. x = Accept \<or> x = Drop) es"

lemma verdicts_append [simp]: "verdicts (a @ b) = verdicts a @ verdicts b"
  by (simp add: verdicts_def)

lemma verdicts_sends: "only_sends es \<Longrightarrow> verdicts es = []"
  by (auto simp: verdicts_def only_sends_def list_all_iff filter_empty_conv)

lemma verdicts_routes [simp]:
  "verdicts (registerEscalatedRoute e cfg st d) = []" "verdicts (registerLearnedRoute e cfg st d) = []"
  by (simp_all add: verdicts_def registerEscalatedRoute_def registerLearnedRoute_def)

lemma verdicts_simps [simp]:
  "verdicts [] = []" "verdicts [Accept] = [Accept]" "verdicts [Drop] = [Drop]"
  by (simp_all add: verdicts_def)

lemma all2_sends:
  "list_all2 (\<lambda>f x. \<exists>q. x = SendV4 q d \<and> P f q) fs es \<Longrightarrow> only_sends es"
  "list_all2 (\<lambda>f x. \<exists>q. x = SendV6 q d \<and> P f q) fs es \<Longrightarrow> only_sends es"
  unfolding only_sends_def list_all_length list_all2_conv_all_nth by fastforce+

lemma control4_total:
  assumes "ihl + 20 \<le> length raw" "20 \<le> length raw"
  shows "\<exists>es. control4 e cfg flags raw ihl ip = Some es \<and> only_sends es"
proof -
  from control4_ok [OF assms, of e cfg flags ip] obtain es
    where "control4 e cfg flags raw ihl ip = Some es" and l: "list_all2 (\<lambda>f x. \<exists>q. x = SendV4 q ip \<and>
      tcp_packet4 (FakeTTL (Incoming (TCP cfg))) (take 4 (drop 16 raw)) (take 4 (drop 12 raw)) (port_at raw (ihl + 2)) (port_at raw ihl)
        (word_at32 raw (ihl + 8)) f q) (concat (replicate (nat (FakeCount (Incoming (TCP cfg)))) flags)) es"
    by blast
  then show ?thesis using all2_sends(1) [OF l] by blast
qed

lemma control6_total:
  assumes "60 \<le> length raw"
  shows "\<exists>es. control6 cfg flags raw ip = Some es \<and> only_sends es"
proof -
  from control6_ok [OF assms, of cfg flags ip] obtain es
    where "control6 cfg flags raw ip = Some es" and l: "list_all2 (\<lambda>f x. \<exists>q. x = SendV6 q ip \<and>
      tcp_packet6 (FakeTTL (Incoming (TCP cfg))) (take 16 (drop 24 raw)) (take 16 (drop 8 raw)) (port_at raw 42) (port_at raw 40)
        (word_at32 raw 48) f q) (concat (replicate (nat (FakeCount (Incoming (TCP cfg)))) flags)) es"
    by blast
  then show ?thesis using all2_sends(2) [OF l] by blast
qed

lemma incoming_escalate_verdicts: "verdicts (snd (incoming_escalate e cfg st src a p b q w)) = []"
  by (auto simp: incoming_escalate_def Let_def split: option.split prod.split)

text \<open>A packet as the handler passes it on\<close>
definition tcp_input :: "byte \<Rightarrow> nat \<Rightarrow> bytes \<Rightarrow> bool" where
  "tcp_input v ihl raw \<longleftrightarrow> ihl + 20 \<le> length raw \<and> 20 \<le> length raw \<and> (v \<noteq> 4 \<longrightarrow> 60 \<le> length raw)"

lemma incoming_rst_total:
  assumes "tcp_input v ihl raw"
  shows "\<exists>w' es stop. incoming_rst e cfg st v raw ihl src a p b q w = Some (w', es, stop) \<and>
    verdicts es = (if stop then [Drop] else [])"
proof -
  obtain ttl where ttl: "(if v = 4 \<and> length raw > 8 then idx raw 8 else if v = 6 \<and> length raw > 7 then idx raw 7 else Some 0) = Some ttl"
    using assms by (cases "v = 4"; cases "v = 6") (auto simp: tcp_input_def idx_def)
  have l: "ihl \<le> length raw" "ihl + 13 < length raw" "12 < length (drop ihl raw)" "13 < length (drop ihl raw)"
    using assms by (auto simp: tcp_input_def)
  define fl op where o: "fl = raw ! (ihl + 13)" "op = raw ! (ihl + 12)"
  define isRst where "isRst = (fl AND 4 \<noteq> 0)"
  define ack opts where "ack = (fl AND 16 \<noteq> 0)" "opts = (20 < unat (drop_bit 4 op * 4))"
  define w1 where "w1 = (if \<not> isRst \<and> ttl > 0 then set_conns (RecordServerResponse a p b q ttl opts (wk_conns w)) w else w)"
  define tol where "tol = (if TTLTolerance (RSTProtection (TCP st)) \<le> 0 then 3 else TTLTolerance (RSTProtection (TCP st)))"
  obtain c dr why where ck: "CheckRST a p b q ttl opts ack tol (wk_conns w1) = (c, dr, why)" using prod_cases3 by blast
  obtain w2 es where esc: "(if To (Escalate st) \<noteq> [] then incoming_escalate e cfg st src a p b q (set_conns c w1) else (set_conns c w1, [])) = (w2, es)"
    by force
  then have v: "verdicts es = []"
    using incoming_escalate_verdicts [of e cfg st src a p b q "set_conns c w1"] by (auto split: if_splits)
  have "incoming_rst e cfg st v raw ihl src a p b q w =
      (if isRst \<and> (rstp_Enabled (RSTProtection (TCP st)) \<or> To (Escalate st) \<noteq> []) then
         if dr then if rstp_Enabled (RSTProtection (TCP st)) then Some (w2, es @ [Drop], True) else Some (w2, es, False)
         else Some (set_conns c w1, [], False)
       else Some (w1, [], False))"
    using l ck esc unfolding incoming_rst_def ttl
    by (cases isRst; cases "rstp_Enabled (RSTProtection (TCP st))"; cases "To (Escalate st) = []"; cases dr)
      (simp_all add: slice_from_ok idx_ok Let_def o [symmetric] isRst_def [symmetric] ack_opts_def [symmetric] tol_def [symmetric] w1_def, simp_all add: isRst_def)
  then show ?thesis using v by auto
qed

lemma incoming_inject_total:
  assumes "tcp_input v ihl raw" "\<And>i. round_rnd e i 0 < 4"
  shows "\<exists>w' es. incoming_inject e st v raw ihl src a p b q payload w = Some (w', es) \<and> verdicts es = []"
proof -
  have l: "ihl + 20 \<le> length raw" "20 \<le> length raw" "v \<noteq> 4 \<Longrightarrow> 60 \<le> length raw" using assms(1) by (auto simp: tcp_input_def)
  have f: "\<exists>es. (if v = 4 then InjectFakeIncoming e st raw ihl src else InjectFakeIncomingV6 e st raw src) = Some es \<and> verdicts es = []"
    using InjectFakeIncoming_total [OF assms(2) l(2), of st ihl src] InjectFakeIncomingV6_total [OF assms(2), of st raw src] verdicts_sends by auto
  have c: "\<exists>es. (if v = 4 then control4 e st fl raw ihl src else control6 st fl raw src) = Some es \<and> verdicts es = []" for fl
    using control4_total [OF l(1,2), of e st fl src] control6_total [of raw st fl src] l(3) verdicts_sends by auto
  obtain cs fired where tr: "TrackIncomingBytes (int (rnd e 7)) (now e 6) a p b q (of_nat (length payload)) (Incoming (TCP st)) (wk_conns w) = (cs, fired)"
    by force
  let ?m = "inc_Mode (Incoming (TCP st))"
  consider (off) "?m = ConfigOff \<or> length payload = 0" | (fake) "?m = ''fake''" "length payload \<noteq> 0"
    | (reset) "?m = ''reset''" "length payload \<noteq> 0" | (fin) "?m = ''fin''" "length payload \<noteq> 0"
    | (desync) "?m = ''desync''" "length payload \<noteq> 0"
    | (other) "?m \<notin> {ConfigOff, ''fake'', ''reset'', ''fin'', ''desync''}" "length payload \<noteq> 0"
    by auto
  then show ?thesis
  proof cases
    case fake
    then show ?thesis using f by (auto simp: incoming_inject_def Let_def)
  next
    case reset
    then show ?thesis
      using c [of "[0x04]"] tr by (cases fired) (auto simp: incoming_inject_def Let_def InjectResetIncoming_def InjectResetIncomingV6_def)
  next
    case fin
    then show ?thesis
      using c [of "[0x01]"] tr by (cases fired) (auto simp: incoming_inject_def Let_def InjectFinIncoming_def InjectFinIncomingV6_def)
  next
    case desync
    then show ?thesis
      using c [of "[0x04, 0x01, 0x10]"] tr
      by (cases fired) (auto simp: incoming_inject_def Let_def InjectDesyncIncoming_def InjectDesyncIncomingV6_def)
  qed (auto simp: incoming_inject_def Let_def)
qed

lemma HandleIncoming_total:
  assumes "tcp_input v ihl raw" "\<And>i. round_rnd e i 0 < 4"
  shows "\<exists>w' es. HandleIncoming e cfg v raw ihl src a p b q payload w = Some (w', es) \<and> length (verdicts es) = 1"
proof -
  obtain c st where g: "GetSetForIncoming (now e 0) a p b q (wk_conns w) = (c, st)" by force
  show ?thesis
  proof (cases st)
    case (Some st')
    obtain w1 es stop where 1: "incoming_rst e cfg st' v raw ihl src a p b q (set_conns c w) = Some (w1, es, stop)"
        "verdicts es = (if stop then [Drop] else [])"
      using incoming_rst_total [OF assms(1)] by blast
    obtain w2 fs where 2: "incoming_inject e st' v raw ihl src a p b q payload w1 = Some (w2, fs)" "verdicts fs = []"
      using incoming_inject_total [OF assms] by blast
    show ?thesis using 1 2 by (simp add: HandleIncoming_def g Some)
  qed (simp add: HandleIncoming_def g)
qed

end
