(* ===== verification/Classify.thy ===== *)
theory Classify
  imports Fragment
begin

text \<open>
  The small classifiers the UDP handler asks: STUN requests (\<^verbatim>\<open>src/src/stun/stun.go\<close>), voice packets
  (\<^verbatim>\<open>discord/discord.go\<close>), the shape of QUIC long headers (\<^verbatim>\<open>quic/initial.go\<close>), and private addresses
  (\<^verbatim>\<open>utils/filter.go\<close> with the predicates of \<^verbatim>\<open>net.IP\<close>).
\<close>

section \<open>STUN\<close>

definition IsSTUNMessage :: "bytes \<Rightarrow> bool option" where
  "IsSTUNMessage data =
     (if length data < 20 then Some False
      else do {
        messageType \<leftarrow> be16 data 0;
        messageLength \<leftarrow> be16 data 2;
        if length data \<noteq> unat messageLength + 20 then Some False
        else if messageType AND 0xC000 \<noteq> 0 then Some False
        else if messageType AND 0x0110 \<noteq> 0 then Some False
        else do {
          magicCookie \<leftarrow> be32 data 4;
          Some (magicCookie = 0x2112A442) } })"

definition GetSTUNMessageType :: "bytes \<Rightarrow> uint16 option" where
  "GetSTUNMessageType data = do {
     b \<leftarrow> IsSTUNMessage data;
     if \<not> b then Some 0 else do { t \<leftarrow> be16 data 0; Some (t AND 0x3FFF) } }"

section \<open>Voice\<close>

definition IsIPDiscovery :: "bytes \<Rightarrow> bool option" where
  "IsIPDiscovery data =
     (if length data \<noteq> 74 then Some False
      else do {
        msgType \<leftarrow> be16 data 0;
        if msgType \<noteq> 0x0001 \<and> msgType \<noteq> 0x0002 then Some False
        else do { l \<leftarrow> be16 data 2; Some (l = 70) } })"

definition IsRTPMedia :: "bytes \<Rightarrow> bool option" where
  "IsRTPMedia data =
     (if length data < 12 then Some False
      else do {
        b0 \<leftarrow> idx data 0;
        if b0 AND 0xC0 \<noteq> 0x80 then Some False
        else do { b1 \<leftarrow> idx data 1; Some (b1 AND 0x7F = 0x78) } })"

definition IsVoicePacket :: "bytes \<Rightarrow> bool option" where
  "IsVoicePacket data = do { d \<leftarrow> IsIPDiscovery data; if d then Some True else IsRTPMedia data }"

section \<open>QUIC\<close>

definition IsInitial :: "bytes \<Rightarrow> bool option" where
  "IsInitial b =
     (if length b < 7 then Some False
      else do {
        b0 \<leftarrow> idx b 0;
        if b0 AND 0x80 = 0 then Some False
        else do {
          let ptype = drop_bit 4 (b0 AND 0x30);
          ver \<leftarrow> be32 b 1;
          if ver = 0x00000001 then Some (ptype = 0)
          else if ver = 0x6b3343cf then Some (ptype = 1)
          else Some False } })"

definition LooksLikeQUIC :: "bytes \<Rightarrow> bool option" where
  "LooksLikeQUIC b =
     (if length b < 7 then Some False
      else do {
        b0 \<leftarrow> idx b 0;
        if b0 AND 0xC0 \<noteq> 0xC0 then Some False
        else if length b < 5 + 1 then Some False
        else do {
          d \<leftarrow> idx b 5;
          let dlen = unat d;
          if dlen > 20 \<or> length b < 6 + dlen + 1 then Some False
          else do {
            s \<leftarrow> idx b (6 + dlen);
            let slen = unat s;
            Some (\<not> (slen > 20 \<or> length b < 6 + dlen + 1 + slen)) } } })"

section \<open>Addresses\<close>

definition IPv6loopback :: bytes where
  "IPv6loopback = mk 15 @ [1]"

definition IsLoopback :: "bytes \<Rightarrow> bool" where
  "IsLoopback ip = (case To4 ip of Some ip4 \<Rightarrow> ip4 ! 0 = 127 | None \<Rightarrow> ip = IPv6loopback)"

definition IsLinkLocalUnicast :: "bytes \<Rightarrow> bool" where
  "IsLinkLocalUnicast ip =
     (case To4 ip of Some ip4 \<Rightarrow> ip4 ! 0 = 169 \<and> ip4 ! 1 = 254
      | None \<Rightarrow> length ip = 16 \<and> ip ! 0 = 0xfe \<and> ip ! 1 AND 0xc0 = 0x80)"

definition IsPrivate :: "bytes \<Rightarrow> bool" where
  "IsPrivate ip =
     (case To4 ip of
        Some ip4 \<Rightarrow> ip4 ! 0 = 10 \<or> ip4 ! 0 = 172 \<and> ip4 ! 1 AND 0xf0 = 16 \<or> ip4 ! 0 = 192 \<and> ip4 ! 1 = 168
      | None \<Rightarrow> length ip = 16 \<and> ip ! 0 AND 0xfe = 0xfc)"

definition IsPrivateIP :: "bytes \<Rightarrow> bool" where
  "IsPrivateIP ip =
     (case To4 ip of
        Some ip4 \<Rightarrow> ip4 ! 0 = 10 \<or> (ip4 ! 0 = 172 \<and> ip4 ! 1 \<ge> 16 \<and> ip4 ! 1 \<le> 31) \<or>
          (ip4 ! 0 = 192 \<and> ip4 ! 1 = 168) \<or> ip4 ! 0 = 127
      | None \<Rightarrow> IsLoopback ip \<or> IsLinkLocalUnicast ip \<or> IsPrivate ip)"

section \<open>The classifiers never fail\<close>

lemma classifiers_total:
  "\<exists>r. IsSTUNMessage p = Some r" "\<exists>r. IsVoicePacket p = Some r" "\<exists>r. LooksLikeQUIC p = Some r" "\<exists>r. IsInitial p = Some r"
proof -
  show "\<exists>r. IsSTUNMessage p = Some r" by (auto simp: IsSTUNMessage_def be16_ok be32_ok)
  have "\<exists>r. IsIPDiscovery p = Some r" by (auto simp: IsIPDiscovery_def be16_ok)
  moreover have "\<exists>r. IsRTPMedia p = Some r" by (auto simp: IsRTPMedia_def idx_def)
  ultimately show "\<exists>r. IsVoicePacket p = Some r" by (auto simp: IsVoicePacket_def)
  show "\<exists>r. LooksLikeQUIC p = Some r" by (auto simp: LooksLikeQUIC_def idx_def Let_def)
  show "\<exists>r. IsInitial p = Some r" by (auto simp: IsInitial_def idx_def be32_ok Let_def)
qed

text \<open>Voice packets are never taken for QUIC: the classifiers look at different first bytes.\<close>
lemma voice_not_quic:
  assumes "LooksLikeQUIC p = Some True"
  shows "IsSTUNMessage p = Some False \<and> IsVoicePacket p = Some False"
proof -
  have l: "7 \<le> length p" "p ! 0 AND 0xC0 = 0xC0"
    using assms by (auto simp: LooksLikeQUIC_def idx_def Let_def split: if_splits)
  have b: "bit (p ! 0) 7" "bit (p ! 0) 6"
  proof -
    have "bit (p ! 0 AND 0xC0) 7" "bit (p ! 0 AND 0xC0) 6" unfolding l(2) by (simp_all add: bit_simps)
    then show "bit (p ! 0) 7" "bit (p ! 0) 6" by (simp_all add: bit_and_iff)
  qed
  have t: "u16 (p ! 0) (p ! Suc 0) AND 0xC000 \<noteq> 0"
  proof
    assume "u16 (p ! 0) (p ! Suc 0) AND 0xC000 = 0"
    then have "\<not> bit (u16 (p ! 0) (p ! Suc 0) AND 0xC000) 15" by simp
    moreover have "bit (u16 (p ! 0) (p ! Suc 0)) 15" using b(1) by (simp add: u16_def bit_simps)
    ultimately show False by (simp add: bit_and_iff bit_simps)
  qed
  then have "IsSTUNMessage p = Some False" by (auto simp: IsSTUNMessage_def be16_ok)
  moreover have "u16 (p ! 0) (p ! Suc 0) \<noteq> 1" "u16 (p ! 0) (p ! Suc 0) \<noteq> 2" using t by auto
  then have "IsIPDiscovery p = Some False" by (auto simp: IsIPDiscovery_def be16_ok)
  moreover have "IsRTPMedia p = Some False" using l by (auto simp: IsRTPMedia_def idx_def)
  ultimately show ?thesis by (simp add: IsVoicePacket_def)
qed

end
