(* ===== verification/DnsPath.thy ===== *)
theory DnsPath
  imports Worker
begin

text \<open>
  What the worker does with DNS packets: \<^verbatim>\<open>src/src/nfq/dns.go\<close> and the table of pending routes of
  \<^verbatim>\<open>dns_routing.go\<close>. A query for a matched name is blocked, redirected or remembered; the answer gives the
  routing code the addresses of the name. The goroutine that answers a redirected query is the
  effect \<open>ResolveRedirect\<close>; what it does is \<open>resolveDNSRedirect\<close>, whose DoH client is an argument. Names are
  compared in lower case, which is modelled for ASCII.
\<close>

section \<open>Names with compression pointers\<close>

text \<open>The first argument counts the steps that are left of \<open>maxSteps\<close>.\<close>
fun name_loop :: "nat \<Rightarrow> bytes \<Rightarrow> nat \<Rightarrow> bytes list \<Rightarrow> bytes list option option" where
  "name_loop 0 msg i labels = Some None"
| "name_loop (Suc n) msg i labels =
     (if i \<ge> length msg then Some None
      else do {
        b \<leftarrow> idx msg i;
        let l = unat b;
        if l = 0 then Some (Some labels)
        else if b AND 0xC0 = 0xC0 then
          if i + 1 \<ge> length msg then Some None
          else do {
            c \<leftarrow> idx msg (i + 1);
            let ptr = unat (b AND 0x3F) * 256 + unat c;
            if ptr \<ge> length msg then Some None else name_loop n msg ptr labels }
        else if i + 1 + l > length msg then Some None
        else do {
          s \<leftarrow> gslice msg (i + 1) (i + 1 + l);
          name_loop n msg (i + 1 + l) (labels @ [s]) } })"

declare name_loop.simps(2) [simp del]

definition parseDNSName :: "bytes \<Rightarrow> nat \<Rightarrow> bytes option option" where
  "parseDNSName msg offset =
     (if offset \<ge> length msg then Some None
      else do {
        r \<leftarrow> name_loop 256 msg offset [];
        Some (case r of None \<Rightarrow> None | Some labels \<Rightarrow> if length labels = 0 then None else Some (join_on 46 labels)) })"

section \<open>Pending routes\<close>

text \<open>\<open>fmt.Sprintf("%d|%s|%d|%s|%d|%d|%s", \<dots>)\<close>\<close>
definition dnsRouteKeyRequest ::
  "byte \<Rightarrow> bytes \<Rightarrow> uint16 \<Rightarrow> bytes \<Rightarrow> uint16 \<Rightarrow> uint16 \<Rightarrow> bytes \<Rightarrow> bytes" where
  "dnsRouteKeyRequest ipVersion clientIP clientPort dnsServerIP dnsServerPort txid domain =
     dec (unat ipVersion) @ 124 # IP_String clientIP @ 124 # dec (unat clientPort) @ 124 #
     IP_String dnsServerIP @ 124 # dec (unat dnsServerPort) @ 124 # dec (unat txid) @ 124 # domain"

definition dnsRouteKeyResponse ::
  "byte \<Rightarrow> bytes \<Rightarrow> uint16 \<Rightarrow> bytes \<Rightarrow> uint16 \<Rightarrow> uint16 \<Rightarrow> bytes \<Rightarrow> bytes" where
  "dnsRouteKeyResponse ipVersion clientIP clientPort dnsServerIP dnsServerPort txid domain =
     dnsRouteKeyRequest ipVersion clientIP clientPort dnsServerIP dnsServerPort txid domain"

definition storeDNSPendingRoute ::
  "gotime \<Rightarrow> bytes \<Rightarrow> bytes \<Rightarrow> (bytes, pendingDNSRoute) gomap \<Rightarrow> (bytes, pendingDNSRoute) gomap" where
  "storeDNSPendingRoute nw key setID m = gput key \<lparr>pd_setID = setID, pd_expires = nw + 120 * Second\<rparr> m"

definition consumeDNSPendingRoute ::
  "gotime \<Rightarrow> bytes \<Rightarrow> (bytes, pendingDNSRoute) gomap \<Rightarrow> (bytes, pendingDNSRoute) gomap \<times> bytes option" where
  "consumeDNSPendingRoute nw key m =
     (case gget m key of None \<Rightarrow> (m, None)
      | Some r \<Rightarrow> (gdel key m, if nw > pd_expires r then None else Some (pd_setID r)))"

definition cleanupDNSPendingRoutes ::
  "gotime \<Rightarrow> (bytes, pendingDNSRoute) gomap \<Rightarrow> (bytes, pendingDNSRoute) gomap \<times> nat" where
  "cleanupDNSPendingRoutes nw m =
     (gsweep (\<lambda>r. nw > pd_expires r) m, length (filter (\<lambda>(k, r). nw > pd_expires r) m))"

section \<open>Queries\<close>

text \<open>The two addresses of a packet, as slices of it\<close>
definition src_of :: "byte \<Rightarrow> bytes \<Rightarrow> bytes option" where
  "src_of v raw = (if v = 4 then gslice raw 12 16 else gslice raw 8 24)"

definition dst_of :: "byte \<Rightarrow> bytes \<Rightarrow> bytes option" where
  "dst_of v raw = (if v = 4 then gslice raw 16 20 else gslice raw 24 40)"

definition sendDNSResponseToClient ::
  "env \<Rightarrow> byte \<Rightarrow> bytes \<Rightarrow> bytes \<Rightarrow> uint16 \<Rightarrow> bytes \<Rightarrow> effect list option" where
  "sendDNSResponseToClient e ipVersion originalDst clientIP clientPort resp =
     (if length resp = 0 then Some []
      else if ipVersion = 4 then do {
        pkt \<leftarrow> BuildUDPPacketV4 (ids e 0) originalDst clientIP 53 clientPort resp;
        Some (case pkt of None \<Rightarrow> [] | Some p \<Rightarrow> [ClientV4 p clientIP]) }
      else do {
        pkt \<leftarrow> BuildUDPPacketV6 originalDst clientIP 53 clientPort resp;
        Some (case pkt of None \<Rightarrow> [] | Some p \<Rightarrow> [ClientV6 p clientIP]) })"

text \<open>A query that a blocking set matches: \<^term>\<open>None\<close> inside is a query that goes on.\<close>
definition dns_block ::
  "env \<Rightarrow> Config \<Rightarrow> byte \<Rightarrow> SetConfig \<Rightarrow> uint16 \<Rightarrow> bytes \<Rightarrow> bytes \<Rightarrow> effect list option option" where
  "dns_block e cfg ipVersion st sport payload raw =
     (if \<not> (routing_Enabled (Routing st) \<and> RoutingIsBlock (routing_Mode (Routing st)) \<and> \<not> IsDiscovery cfg) then Some None
      else if NormalizeBlockAction (BlockAction (Routing st)) = BlockActionDrop then Some (Some [Drop])
      else if ipVersion = 6 \<and> \<not> IPv6Enabled cfg then Some None
      else do {
        r \<leftarrow> BuildBlockResponse payload;
        case r of None \<Rightarrow> Some None
        | Some resp \<Rightarrow> do {
            clientIP \<leftarrow> src_of ipVersion raw;
            originalDst \<leftarrow> dst_of ipVersion raw;
            es \<leftarrow> (if ipVersion = 4 then do {
                      pkt \<leftarrow> BuildUDPPacketV4 (ids e 0) originalDst clientIP 53 sport resp;
                      Some (case pkt of None \<Rightarrow> [] | Some p \<Rightarrow> [ClientV4 p clientIP]) }
                    else do {
                      pkt \<leftarrow> BuildUDPPacketV6 originalDst clientIP 53 sport resp;
                      Some (case pkt of None \<Rightarrow> [] | Some p \<Rightarrow> [ClientV6 p clientIP]) });
            Some (Some (es @ [Drop])) } })"

definition dns_remember ::
  "env \<Rightarrow> Config \<Rightarrow> byte \<Rightarrow> SetConfig \<Rightarrow> uint16 \<Rightarrow> uint16 \<Rightarrow> uint16 option \<Rightarrow> bytes \<Rightarrow> bytes \<Rightarrow> worker \<Rightarrow> worker option" where
  "dns_remember e cfg ipVersion st sport dport txid domain raw w =
     (case txid of
        Some t \<Rightarrow>
          if routing_Enabled (Routing st) \<and> \<not> DomainOnly (Targets st) \<and> \<not> IsDiscovery cfg \<and> (ipVersion = 4 \<or> ipVersion = 6)
          then do {
            clientIP \<leftarrow> src_of ipVersion raw;
            dnsServerIP \<leftarrow> dst_of ipVersion raw;
            Some (w\<lparr>wk_dns := storeDNSPendingRoute (now e 0)
              (dnsRouteKeyRequest ipVersion clientIP sport dnsServerIP dport t domain) (Id st) (wk_dns w)\<rparr>) }
          else Some w
      | None \<Rightarrow> Some w)"

definition dns_redirect ::
  "env \<Rightarrow> Config \<Rightarrow> byte \<Rightarrow> SetConfig \<Rightarrow> uint16 \<Rightarrow> bytes \<Rightarrow> bytes \<Rightarrow> effect list option" where
  "dns_redirect e cfg ipVersion st sport payload raw =
     (let useDoH = (DoHURL (DNS st) \<noteq> []) in
      if \<not> (dns_Enabled (DNS st) \<and> (TargetDNS (DNS st) \<noteq> [] \<or> useDoH)) then Some [Accept]
      else let targetIP = (if \<not> useDoH then ParseIP (TargetDNS (DNS st)) else None) in
        if \<not> useDoH \<and> targetIP = None then Some [Accept]
        else if ipVersion = 6 \<and> \<not> IPv6Enabled cfg then Some [Accept]
        else do {
          clientIP \<leftarrow> src_of ipVersion raw;
          originalDst \<leftarrow> dst_of ipVersion raw;
          let delay = ResolveRange (int (rnd e 0)) (udp_Seg2Delay (UDP st)) (udp_Seg2DelayMax (UDP st));
          Some [Drop, ResolveRedirect ipVersion st payload clientIP sport originalDst targetIP delay] })"

definition dns_query ::
  "env \<Rightarrow> Config \<Rightarrow> byte \<Rightarrow> SetConfig \<Rightarrow> uint16 \<Rightarrow> uint16 \<Rightarrow> uint16 option \<Rightarrow> bytes \<Rightarrow> bytes \<Rightarrow> bytes \<Rightarrow> worker \<Rightarrow>
   (worker \<times> effect list) option" where
  "dns_query e cfg ipVersion st sport dport txid domain payload raw w = do {
     b \<leftarrow> dns_block e cfg ipVersion st sport payload raw;
     case b of Some es \<Rightarrow> Some (w, es)
     | None \<Rightarrow> do {
         w \<leftarrow> dns_remember e cfg ipVersion st sport dport txid domain raw w;
         es \<leftarrow> dns_redirect e cfg ipVersion st sport payload raw;
         Some (w, es) } }"

section \<open>Answers\<close>

definition routes_dns :: "env \<Rightarrow> Config \<Rightarrow> bool" where
  "routes_dns e cfg \<longleftrightarrow> hasRoutingDNS e \<and> \<not> IsDiscovery cfg"

text \<open>The addresses of an answer go to the set that matches its name now.\<close>
definition answer_matched ::
  "env \<Rightarrow> Config \<Rightarrow> bytes \<Rightarrow> bytes \<Rightarrow> bytes \<Rightarrow> worker \<Rightarrow> (effect list \<times> bool) option" where
  "answer_matched e cfg domain clientIP payload w =
     (if domain = [] then Some ([], False)
      else case MatchSNIWithSource (rx e) (wk_matcher w) domain (getMacByIp e (IP_String clientIP)) of
        Some st \<Rightarrow>
          if Enabled st then do {
            ips \<leftarrow> ParseResponseIPs payload;
            Some (if routing_Enabled (Routing st) \<and> \<not> DomainOnly (Targets st) \<and> length ips > 0 \<and> routes_dns e cfg
                  then ([RouteDNS st ips], True) else ([], False)) }
          else Some ([], False)
      | None \<Rightarrow> Some ([], False))"

text \<open>Otherwise they go to the set of the query.\<close>
definition answer_pending ::
  "env \<Rightarrow> Config \<Rightarrow> bytes option \<Rightarrow> bool \<Rightarrow> bytes \<Rightarrow> effect list option" where
  "answer_pending e cfg setID routed payload =
     (case setID of
        Some sid \<Rightarrow>
          if routed then Some []
          else do {
            ips \<leftarrow> ParseResponseIPs payload;
            Some (if length ips > 0 then
                    (case GetSetById sid (Sets cfg) of
                       Some st \<Rightarrow> if \<not> DomainOnly (Targets st) \<and> routes_dns e cfg then [RouteDNS st ips] else []
                     | None \<Rightarrow> [])
                  else []) }
      | None \<Rightarrow> Some [])"

text \<open>The name an answer is about\<close>
definition answer_domain :: "bytes \<Rightarrow> bytes option" where
  "answer_domain payload = do {
     d \<leftarrow> ParseQueryDomain payload;
     case d of Some domain \<Rightarrow> Some (lower domain)
     | None \<Rightarrow> do {
         d \<leftarrow> parseDNSName payload 12;
         Some (lower (case d of Some domain \<Rightarrow> domain | None \<Rightarrow> [])) } }"

definition dns_answer ::
  "env \<Rightarrow> Config \<Rightarrow> byte \<Rightarrow> uint16 \<Rightarrow> uint16 \<Rightarrow> bytes \<Rightarrow> bytes \<Rightarrow> worker \<Rightarrow> (worker \<times> effect list) option" where
  "dns_answer e cfg ipVersion sport dport payload raw w = do {
     txid \<leftarrow> ParseTransactionID payload;
     case txid of None \<Rightarrow> Some (w, [])
     | Some t \<Rightarrow> do {
         domain \<leftarrow> answer_domain payload;
         clientIP \<leftarrow> dst_of ipVersion raw;
         dnsServerIP \<leftarrow> src_of ipVersion raw;
         (es, routed) \<leftarrow> answer_matched e cfg domain clientIP payload w;
         let (m, setID) = consumeDNSPendingRoute (now e 1)
               (dnsRouteKeyResponse ipVersion clientIP dport dnsServerIP sport t domain) (wk_dns w);
         fs \<leftarrow> answer_pending e cfg setID routed payload;
         Some (w\<lparr>wk_dns := m\<rparr>, es @ fs) } }"

section \<open>\<^verbatim>\<open>processDnsPacket\<close>\<close>

text \<open>The set that matches the name of a query\<close>
definition query_match :: "env \<Rightarrow> uint16 \<Rightarrow> bytes \<Rightarrow> bytes \<Rightarrow> worker \<Rightarrow> (bytes \<times> SetConfig) option option" where
  "query_match e dport payload srcMac w =
     (if dport \<noteq> 53 then Some None
      else do {
        d \<leftarrow> ParseQueryDomain payload;
        Some (case d of None \<Rightarrow> None
          | Some domain \<Rightarrow>
              map_option (Pair (lower domain)) (MatchSNIWithSource (rx e) (wk_matcher w) (lower domain) srcMac)) })"

definition processDnsPacket ::
  "env \<Rightarrow> Config \<Rightarrow> byte \<Rightarrow> uint16 \<Rightarrow> uint16 \<Rightarrow> bytes \<Rightarrow> bytes \<Rightarrow> bytes \<Rightarrow> worker \<Rightarrow> (worker \<times> effect list) option" where
  "processDnsPacket e cfg ipVersion sport dport payload raw srcMac w = do {
     txid \<leftarrow> (if dport = 53 then ParseTransactionID payload else Some None);
     m \<leftarrow> query_match e dport payload srcMac w;
     case m of Some (domain, st) \<Rightarrow> dns_query e cfg ipVersion st sport dport txid domain payload raw w
     | None \<Rightarrow> do {
         (w, es) \<leftarrow> (if sport = 53 then dns_answer e cfg ipVersion sport dport payload raw w else Some (w, []));
         Some (w, es @ [Accept]) } }"

section \<open>The answer to a redirected query\<close>

text \<open>\<open>doh url query\<close> is the answer of the DoH server, \<open>upstream opts\<close> that of \<open>ResolveUpstream\<close>, together with the
  packets it sends.\<close>
definition resolveDNSRedirect ::
  "env \<Rightarrow> Config \<Rightarrow> (bytes \<Rightarrow> bytes \<Rightarrow> bytes option) \<Rightarrow> (bytes \<Rightarrow> bytes option \<Rightarrow> bool \<Rightarrow> int \<Rightarrow> bool \<Rightarrow> bytes option) \<Rightarrow>
   byte \<Rightarrow> SetConfig \<Rightarrow> bytes \<Rightarrow> bytes \<Rightarrow> uint16 \<Rightarrow> bytes \<Rightarrow> bytes option \<Rightarrow> int \<Rightarrow> effect list option" where
  "resolveDNSRedirect e cfg doh upstream ipVersion st query clientIP clientPort originalDst targetIP delay = do {
     let resp = (if DoHURL (DNS st) \<noteq> [] then doh (DoHURL (DNS st)) query
                 else upstream query targetIP (dns_FragmentQuery (DNS st)) delay (frag_ReverseOrder (Fragmentation st)));
     case resp of
       None \<Rightarrow> do {
         r \<leftarrow> BuildServfailResponse query;
         sendDNSResponseToClient e ipVersion originalDst clientIP clientPort (case r of Some x \<Rightarrow> x | None \<Rightarrow> []) }
     | Some resp \<Rightarrow> do {
         es \<leftarrow> sendDNSResponseToClient e ipVersion originalDst clientIP clientPort resp;
         if routing_Enabled (Routing st) \<and> \<not> DomainOnly (Targets st) \<and> routes_dns e cfg then do {
           ips \<leftarrow> ParseResponseIPs resp;
           Some (es @ (if length ips > 0 then [RouteDNS st ips] else [])) }
         else Some es } }"

section \<open>Every DNS packet gets one verdict\<close>

lemma name_loop_total: "\<exists>r. name_loop n msg i ls = Some r"
proof (induction n arbitrary: i ls)
  case (Suc n)
  show ?case using Suc.IH by (auto simp: name_loop.simps(2) idx_ok gslice_ok Let_def)
qed simp

lemma parseDNSName_total: "\<exists>r. parseDNSName msg i = Some r"
  using name_loop_total [of 256 msg i "[]"] by (auto simp: parseDNSName_def)

lemma dns_parsers_total:
  "\<exists>r. ParseQueryDomain p = Some r" "\<exists>r. ParseTransactionID p = Some r" "\<exists>r. ParseResponseIPs p = Some r"
  "\<exists>r. answer_domain p = Some r"
proof -
  show q: "\<exists>r. ParseQueryDomain p = Some r" for p
    using query_loop_total [of p 12 "[]"] by (auto simp: ParseQueryDomain_def)
  show "\<exists>r. ParseTransactionID p = Some r" by (auto simp: ParseTransactionID_def be16_ok)
  show "\<exists>r. ParseResponseIPs p = Some r"
  proof (cases "length p < 12")
    case False
    obtain r where "questions_loop p (unat (u16 (p ! 4) (p ! 5))) 12 = Some r" using questions_loop_total by blast
    then show ?thesis
      using False answers_loop_ok [of p "[]" "unat (u16 (p ! 6) (p ! 7))" "the r"]
      by (cases r) (auto simp: ParseResponseIPs_def be16_ok eval_nat_numeral)
  qed (simp add: ParseResponseIPs_def)
  show "\<exists>r. answer_domain p = Some r"
    using q [of p] parseDNSName_total [of p 12] by (auto simp: answer_domain_def split: option.split)
qed

lemma BuildBlockResponse_total: "\<exists>r. BuildBlockResponse q = Some r"
proof -
  obtain s where "skipDNSName q 12 = Some s" "\<And>e. s = Some e \<Longrightarrow> 12 < e \<and> e \<le> length q"
    using skipDNSName_bound by blast
  then show ?thesis
    by (cases s) (auto simp: BuildBlockResponse_def gslice_ok copy_from_mk0 idx_ok upd_ok put16_ok)
qed

lemma udp_builders_total:
  "\<exists>r. BuildUDPPacketV4 rid a b sp dp p = Some r" "\<exists>r. BuildUDPPacketV6 a b sp dp p = Some r"
proof -
  show "\<exists>r. BuildUDPPacketV4 rid a b sp dp p = Some r"
    using BuildUDPPacketV4_ok [of a _ b _ p rid sp dp]
    by (cases "To4 a"; cases "To4 b"; cases "length p \<le> 65507") (auto simp: BuildUDPPacketV4_def)
  show "\<exists>r. BuildUDPPacketV6 a b sp dp p = Some r"
    using BuildUDPPacketV6_ok [of a _ b _ p sp dp]
    by (cases "To16 a"; cases "To16 b"; cases "To4 a = None \<and> To4 b = None \<and> length p \<le> 65527") (auto simp: BuildUDPPacketV6_def)
qed

text \<open>A packet that holds the IP header its version needs\<close>
definition ip_input :: "byte \<Rightarrow> bytes \<Rightarrow> bool" where
  "ip_input v raw \<longleftrightarrow> (if v = 4 then 20 \<le> length raw else 40 \<le> length raw)"

lemma addr_slices:
  "ip_input v raw \<Longrightarrow> \<exists>a b. src_of v raw = Some a \<and> dst_of v raw = Some b"
  by (auto simp: ip_input_def src_of_def dst_of_def gslice_ok)

text \<open>A handler that has finished with exactly one verdict\<close>
definition one_verdict :: "(worker \<times> effect list) option \<Rightarrow> bool" where
  "one_verdict r \<longleftrightarrow> (\<exists>w es. r = Some (w, es) \<and> length (verdicts es) = 1)"

lemma one_verdictI: "length (verdicts es) = 1 \<Longrightarrow> one_verdict (Some (w, es))"
  by (simp add: one_verdict_def)

lemma verdicts_Cons:
  "verdicts (Accept # es) = Accept # verdicts es" "verdicts (Drop # es) = Drop # verdicts es"
  "verdicts (ClientV4 p d # es) = verdicts es" "verdicts (ClientV6 p d # es) = verdicts es"
  "verdicts (SendV4 p d # es) = verdicts es" "verdicts (SendV6 p d # es) = verdicts es"
  "verdicts (RouteDNS st ips # es) = verdicts es" "verdicts (RouteLearn st a # es) = verdicts es"
  "verdicts (InjectTCP v st p d # es) = verdicts es" "verdicts (InjectQUIC v st p d # es) = verdicts es"
  "verdicts (Pause tm # es) = verdicts es"
  "verdicts (ResolveRedirect v st q c cp od t dl # es) = verdicts es"
  by (simp_all add: verdicts_def)

lemma dns_block_total:
  assumes "ip_input v raw"
  shows "\<exists>r. dns_block e cfg v st sport payload raw = Some r \<and> (\<forall>es. r = Some es \<longrightarrow> verdicts es = [Drop])"
proof -
  obtain a b where ab: "src_of v raw = Some a" "dst_of v raw = Some b" using addr_slices [OF assms] by blast
  obtain r where r: "BuildBlockResponse payload = Some r" using BuildBlockResponse_total by blast
  have 1: "\<exists>x. BuildUDPPacketV4 (ids e 0) b a 53 sport resp = Some x" "\<exists>x. BuildUDPPacketV6 b a 53 sport resp = Some x" for resp
    by (rule udp_builders_total)+
  show ?thesis
    using 1 [of "the r"] by (cases r) (auto simp: dns_block_def r ab verdicts_Cons split: option.split)
qed

lemma dns_query_one:
  assumes "ip_input v raw"
  shows "one_verdict (dns_query e cfg v st sport dport txid domain payload raw w)"
proof -
  obtain a b where ab: "src_of v raw = Some a" "dst_of v raw = Some b" using addr_slices [OF assms] by blast
  obtain r where r: "dns_block e cfg v st sport payload raw = Some r" "\<And>es. r = Some es \<Longrightarrow> verdicts es = [Drop]"
    using dns_block_total [OF assms] by blast
  have "\<exists>w'. dns_remember e cfg v st sport dport txid domain raw w = Some w'"
    by (cases txid) (auto simp: dns_remember_def ab)
  then obtain w' where w': "dns_remember e cfg v st sport dport txid domain raw w = Some w'" by blast
  have "\<exists>es. dns_redirect e cfg v st sport payload raw = Some es \<and> length (verdicts es) = 1"
    by (auto simp: dns_redirect_def ab Let_def verdicts_Cons)
  then obtain es where es: "dns_redirect e cfg v st sport payload raw = Some es" "length (verdicts es) = 1" by blast
  show ?thesis using r w' es by (cases r) (auto simp: dns_query_def one_verdict_def)
qed

lemma dns_answer_total:
  assumes "ip_input v raw"
  shows "\<exists>w' es. dns_answer e cfg v sport dport payload raw w = Some (w', es) \<and> verdicts es = []"
proof -
  obtain a b where ab: "src_of v raw = Some a" "dst_of v raw = Some b" using addr_slices [OF assms] by blast
  obtain t where t: "ParseTransactionID payload = Some t" using dns_parsers_total by blast
  obtain d where d: "answer_domain payload = Some d" using dns_parsers_total by blast
  obtain ips where ips: "ParseResponseIPs payload = Some ips" using dns_parsers_total by blast
  have "\<exists>es routed. answer_matched e cfg d b payload w = Some (es, routed) \<and> verdicts es = []"
    by (auto simp: answer_matched_def ips verdicts_Cons split: option.split)
  then obtain es routed where m: "answer_matched e cfg d b payload w = Some (es, routed)" "verdicts es = []" by blast
  have p: "\<exists>fs. answer_pending e cfg x routed payload = Some fs \<and> verdicts fs = []" for x
    by (cases x) (auto simp: answer_pending_def ips verdicts_Cons split: option.split)
  show ?thesis
  proof (cases t)
    case (Some txid)
    obtain mp x where c: "consumeDNSPendingRoute (now e 1) (dnsRouteKeyResponse v b dport a sport txid d) (wk_dns w) = (mp, x)"
      by force
    show ?thesis using m p [of x] by (auto simp: dns_answer_def t Some d ab c simp del: One_nat_def)
  qed (simp add: dns_answer_def t)
qed

lemma processDnsPacket_one:
  assumes "ip_input v raw"
  shows "one_verdict (processDnsPacket e cfg v sport dport payload raw srcMac w)"
proof -
  obtain t where t: "(if dport = 53 then ParseTransactionID payload else Some None) = Some t"
    using dns_parsers_total(2) [of payload] by (cases "dport = 53") auto
  obtain m where m: "query_match e dport payload srcMac w = Some m"
    using dns_parsers_total(1) [of payload] by (cases "dport = 53") (auto simp: query_match_def)
  show ?thesis
  proof (cases m)
    case None
    obtain w' es where "dns_answer e cfg v sport dport payload raw w = Some (w', es)" "verdicts es = []"
      using dns_answer_total [OF assms] by blast
    then show ?thesis by (cases "sport = 53") (auto simp: processDnsPacket_def t m None one_verdict_def)
  next
    case (Some p)
    then show ?thesis
      using dns_query_one [OF assms] by (cases p) (simp add: processDnsPacket_def t m)
  qed
qed

section \<open>The answer finds the query\<close>

text \<open>Two questions share an entry of the table only if they agree in everything that identifies them.\<close>
lemma dnsRouteKey_inj:
  assumes "dnsRouteKeyRequest v a p b q t d = dnsRouteKeyRequest v' a' p' b' q' t' d'"
    and "\<forall>x \<in> {a, a', b, b'}. length x = 4 \<or> length x = 16"
  shows "v = v' \<and> To16 a = To16 a' \<and> p = p' \<and> To16 b = To16 b' \<and> q = q' \<and> t = t' \<and> d = d'"
proof -
  have n: "124 \<notin> set (dec n)" for n by (simp add: dec_not)
  have i: "124 \<notin> set (IP_String x)" if "x \<in> {a, a', b, b'}" for x using assms(2) that by (intro IP_String_chars) auto
  note k = assms(1) [unfolded dnsRouteKeyRequest_def]
  note k1 = sep_eq [OF k n n]
  note k2 = sep_eq [OF conjunct2 [OF k1] i i, simplified]
  note k3 = sep_eq [OF conjunct2 [OF k2] n n]
  note k4 = sep_eq [OF conjunct2 [OF k3] i i, simplified]
  note k5 = sep_eq [OF conjunct2 [OF k4] n n]
  note k6 = sep_eq [OF conjunct2 [OF k5] n n]
  have "To16 a = To16 a'" "To16 b = To16 b'"
    using k2 k4 assms(2) by (auto simp: IP_String_inj)
  then show ?thesis using k1 k3 k5 k6 by (auto dest!: dec_inj simp: word_unat_eq_iff)
qed

lemma query_stores:
  assumes "query_match e 53 q mac w = Some (Some (d, st))" "ParseTransactionID q = Some (Some t)"
    and "src_of v raw = Some c" "dst_of v raw = Some s" "v = 4 \<or> v = 6"
    and "routing_Enabled (Routing st)" "\<not> RoutingIsBlock (routing_Mode (Routing st))" "\<not> DomainOnly (Targets st)" "\<not> IsDiscovery cfg"
    and "processDnsPacket e cfg v cp 53 q raw mac w = Some (w1, es1)"
  shows "gget (wk_dns w1) (dnsRouteKeyRequest v c cp s 53 t d) = Some \<lparr>pd_setID = Id st, pd_expires = now e 0 + 120 * Second\<rparr>"
proof -
  have "dns_query e cfg v st cp 53 (Some t) d q raw w = Some (w1, es1)"
    using assms(1,2,10) by (simp add: processDnsPacket_def)
  then obtain w' where "dns_remember e cfg v st cp 53 (Some t) d raw w = Some w'" "w1 = w'"
    using assms(7) by (auto simp: dns_query_def dns_block_def elim!: bind_SomeE)
  then show ?thesis using assms(3-9) by (auto simp: dns_remember_def storeDNSPendingRoute_def gget_gput)
qed

lemma answer_routes:
  assumes "ParseTransactionID a = Some (Some t)" "answer_domain a = Some d" "ParseResponseIPs a = Some ips" "ips \<noteq> []"
    and "dst_of v raw = Some c" "src_of v raw = Some s" "cp \<noteq> 53" "routes_dns e cfg"
    and "gget (wk_dns w) (dnsRouteKeyRequest v c cp s 53 t d) = Some r" "now e 1 \<le> pd_expires r"
    and "GetSetById (pd_setID r) (Sets cfg) = Some st" "\<not> DomainOnly (Targets st)"
  shows "\<exists>w' st'. processDnsPacket e cfg v 53 cp a raw mac w = Some (w', [RouteDNS st' ips, Accept]) \<and>
     (st' = st \<or> MatchSNIWithSource (rx e) (wk_matcher w) d (getMacByIp e (IP_String c)) = Some st') \<and>
     gget (wk_dns w') (dnsRouteKeyRequest v c cp s 53 t d) = None"
proof -
  let ?k = "dnsRouteKeyRequest v c cp s 53 t d"
  let ?m = "MatchSNIWithSource (rx e) (wk_matcher w) d (getMacByIp e (IP_String c))"
  have "\<exists>st'. (answer_matched e cfg d c a w = Some ([RouteDNS st' ips], True) \<and> ?m = Some st') \<or>
      answer_matched e cfg d c a w = Some ([], False)"
    using assms(3) by (auto simp: answer_matched_def split: option.split)
  then obtain st' where m: "(answer_matched e cfg d c a w = Some ([RouteDNS st' ips], True) \<and> ?m = Some st') \<or>
      answer_matched e cfg d c a w = Some ([], False)" by blast
  have p: "answer_pending e cfg (Some (pd_setID r)) routed a = Some (if routed then [] else [RouteDNS st ips])" for routed
    using assms(3,4,8,11,12) by (simp add: answer_pending_def)
  have cs: "consumeDNSPendingRoute (now e 1) (dnsRouteKeyResponse v c cp s 53 t d) (wk_dns w) = (gdel ?k (wk_dns w), Some (pd_setID r))"
    using assms(9,10) by (simp add: consumeDNSPendingRoute_def dnsRouteKeyResponse_def)
  have "query_match e cp a mac w = Some None" using assms(7) by (simp add: query_match_def)
  then have "processDnsPacket e cfg v 53 cp a raw mac w =
      do { (es, routed) \<leftarrow> answer_matched e cfg d c a w;
           fs \<leftarrow> answer_pending e cfg (Some (pd_setID r)) routed a;
           Some (w\<lparr>wk_dns := gdel ?k (wk_dns w)\<rparr>, es @ fs @ [Accept]) }"
    using assms(1,2,5,6,7) cs
    by (cases "answer_matched e cfg d c a w") (auto simp: processDnsPacket_def dns_answer_def bind_eq_None_conv simp del: One_nat_def split: bind_splits)
  then show ?thesis using m by (auto simp: p gget_gdel)
qed

text \<open>C38: DNS routing follows the answer back to its query. When a client's query has matched a routing set and
  nobody has taken the entry in between, the answer from the server to the same client port, with the same
  transaction and name and within two minutes, hands its addresses to the routing code exactly once, for the
  set that matches the name at that moment or else for the set of the query, is let through, and uses the entry up.\<close>
theorem dns_answer_routed:
  assumes "query_match e 53 q mac w = Some (Some (d, st))" "ParseTransactionID q = Some (Some t)"
    and "src_of v raw = Some c" "dst_of v raw = Some s" "v = 4 \<or> v = 6"
    and "routing_Enabled (Routing st)" "\<not> RoutingIsBlock (routing_Mode (Routing st))" "\<not> DomainOnly (Targets st)" "\<not> IsDiscovery cfg"
    and "processDnsPacket e cfg v cp 53 q raw mac w = Some (w1, es1)" "cp \<noteq> 53"
    and "gget (wk_dns w2) (dnsRouteKeyRequest v c cp s 53 t d) = gget (wk_dns w1) (dnsRouteKeyRequest v c cp s 53 t d)"
    and "ParseTransactionID a = Some (Some t)" "answer_domain a = Some d" "ParseResponseIPs a = Some ips" "ips \<noteq> []"
    and "dst_of v raw' = Some c" "src_of v raw' = Some s" "hasRoutingDNS e2" "now e2 1 \<le> now e 0 + 120 * Second"
    and "GetSetById (Id st) (Sets cfg) = Some st2" "\<not> DomainOnly (Targets st2)"
  shows "\<exists>w3 st'. processDnsPacket e2 cfg v 53 cp a raw' mac' w2 = Some (w3, [RouteDNS st' ips, Accept]) \<and>
     (st' = st2 \<or> MatchSNIWithSource (rx e2) (wk_matcher w2) d (getMacByIp e2 (IP_String c)) = Some st') \<and>
     gget (wk_dns w3) (dnsRouteKeyRequest v c cp s 53 t d) = None"
proof -
  have "routes_dns e2 cfg" using assms(9,19) by (simp add: routes_dns_def)
  moreover have "gget (wk_dns w2) (dnsRouteKeyRequest v c cp s 53 t d) = Some \<lparr>pd_setID = Id st, pd_expires = now e 0 + 120 * Second\<rparr>"
    using query_stores [OF assms(1-10)] assms(12) by simp
  ultimately show ?thesis
    using answer_routes [OF assms(13-18) assms(11), of e2 cfg w2 "\<lparr>pd_setID = Id st, pd_expires = now e 0 + 120 * Second\<rparr>" st2 mac'] assms(20-22)
    by simp
qed

definition route_set :: SetConfig where
  "route_set = sample_domain_set\<lparr>Routing := plain_routing\<lparr>routing_Enabled := True\<rparr>\<rparr>"

definition route_worker :: worker where
  "route_worker = \<lparr>wk_matcher = NewSuffixSet (\<lambda>p. None) [route_set], wk_rt = newRuntimeState, wk_dns = []\<rparr>"

definition route_cfg :: Config where
  "route_cfg = \<lparr>Sets = [route_set], tcpPortMap = None, IsDiscovery = False, IPv6Enabled = True\<rparr>"

definition route_query :: bytes where
  "route_query = [0, 1, 1, 0, 0, 1, 0, 0, 0, 0, 0, 0, 1, 97, 1, 98, 0, 0, 1, 0, 1]"

definition route_answer :: bytes where
  "route_answer = [0, 1, 0x81, 0x80, 0, 1, 0, 1, 0, 0, 0, 0, 1, 97, 1, 98, 0, 0, 1, 0, 1,
     1, 97, 1, 98, 0, 0, 1, 0, 1, 0, 0, 0, 60, 0, 4, 9, 9, 9, 9]"

lemma route_match:
  "query_match sample_env 53 route_query [] route_worker = Some (Some ([97, 46, 98], route_set))"
  by code_simp

lemma route_parse:
  "ParseTransactionID route_query = Some (Some 1)" "ParseTransactionID route_answer = Some (Some 1)"
  "answer_domain route_answer = Some [97, 46, 98]" "ParseResponseIPs route_answer = Some [[9, 9, 9, 9]]"
  by code_simp+

theorem dns_answer_routed_witness:
  "\<exists>w1 es1 w3 st'. processDnsPacket sample_env route_cfg 4 4000 53 route_query (mk 12 @ [10, 0, 0, 1, 8, 8, 8, 8]) [] route_worker = Some (w1, es1) \<and>
     processDnsPacket sample_env route_cfg 4 53 4000 route_answer (mk 12 @ [8, 8, 8, 8, 10, 0, 0, 1]) [] w1
       = Some (w3, [RouteDNS st' [[9, 9, 9, 9]], Accept])"
proof -
  let ?raw = "mk 12 @ [10, 0, 0, 1, 8, 8, 8, 8]" and ?raw' = "mk 12 @ [8, 8, 8, 8, 10, 0, 0, 1]"
  have s: "src_of 4 ?raw = Some [10, 0, 0, 1]" "dst_of 4 ?raw = Some [8, 8, 8, 8]"
      "dst_of 4 ?raw' = Some [10, 0, 0, 1]" "src_of 4 ?raw' = Some [8, 8, 8, 8]"
    by (simp_all add: src_of_def dst_of_def gslice_def)
  have r: "routing_Enabled (Routing route_set)" "\<not> RoutingIsBlock (routing_Mode (Routing route_set))" "\<not> DomainOnly (Targets route_set)"
      "\<not> IsDiscovery route_cfg" "GetSetById (Id route_set) (Sets route_cfg) = Some route_set"
    by (simp_all add: route_set_def sample_domain_set_def plain_defs RoutingIsBlock_def RoutingModeBlock_def route_cfg_def GetSetById_def)
  have "one_verdict (processDnsPacket sample_env route_cfg 4 4000 53 route_query ?raw [] route_worker)"
    by (rule processDnsPacket_one) (simp add: ip_input_def)
  then obtain w1 es1 where w1: "processDnsPacket sample_env route_cfg 4 4000 53 route_query ?raw [] route_worker = Some (w1, es1)"
    by (auto simp: one_verdict_def)
  have "(4 :: byte) = 4 \<or> (4 :: byte) = 6" "(4000 :: uint16) \<noteq> 53" "hasRoutingDNS sample_env"
      "now sample_env 1 \<le> now sample_env 0 + 120 * Second" "[[9, 9, 9, 9 :: byte]] \<noteq> []"
    by (simp_all add: sample_env_def Second_def)
  note h = this
  show ?thesis
    using w1 dns_answer_routed [OF route_match route_parse(1) s(1,2) h(1) r(1-4) w1 h(2) refl route_parse(2-4) h(5) s(3,4) h(3,4) r(5,3), of "[]"]
    by blast
qed

end
