(* ===== verification/Segments.thy ===== *)
theory Segments
  imports Worker FakePacket
begin

text \<open>
  Cutting a TCP packet into segments: \<^verbatim>\<open>src/src/nfq/common.go\<close>, \<^verbatim>\<open>common_ipv6.go\<close>, the split points of
  \<^verbatim>\<open>extsplit.go\<close>, and \<open>dynamicTTL\<close> and \<open>corruptTCPChecksum\<close> of \<^verbatim>\<open>desync.go\<close>. Positions inside a payload are \<open>nat\<close>;
  positions from the configuration are \<open>int\<close>. A parser that returns \<open>ok = false\<close> gives the inner \<^term>\<open>None\<close>.
\<close>

record Segment =
  sg_Data :: bytes
  sg_Seq :: uint32

record PacketInfo =
  IPHdrLen :: nat
  TCPHdrLen :: nat
  PayloadStart :: nat
  PayloadLen :: nat
  Payload :: bytes
  Seq0 :: uint32
  ID0 :: uint16
  IsIPv6 :: bool

definition Millisecond :: int where "Millisecond = 1000000"
definition Microsecond :: int where "Microsecond = 1000"

text \<open>\<open>if delay > 0 { time.Sleep(time.Duration(delay) * time.Millisecond) }\<close>\<close>
definition pause_ms :: "int \<Rightarrow> effect list" where
  "pause_ms delay = (if delay > 0 then [Pause (duration delay Millisecond)] else [])"

section \<open>\<^verbatim>\<open>desync.go\<close>: TTL and checksum of fakes\<close>

definition dynamicTTL :: "bytes \<Rightarrow> bool \<Rightarrow> byte \<Rightarrow> byte option" where
  "dynamicTTL packet isIPv6 configTTL = do {
     realTTL \<leftarrow> (if isIPv6 then idx packet 7 else idx packet 8);
     Some (fake_ttl configTTL realTTL) }"

definition corruptTCPChecksum :: "bytes \<Rightarrow> nat \<Rightarrow> bytes option" where
  "corruptTCPChecksum pkt ipHdrLen = do {
     a \<leftarrow> idx pkt (ipHdrLen + 16);
     pkt \<leftarrow> upd pkt (ipHdrLen + 16) (a XOR 0xFF);
     b \<leftarrow> idx pkt (ipHdrLen + 17);
     upd pkt (ipHdrLen + 17) (b XOR 0xFF) }"

section \<open>Packets and segments\<close>

definition ExtractPacketInfoV4 :: "bytes \<Rightarrow> PacketInfo option option" where
  "ExtractPacketInfoV4 packet =
     (if length packet < 40 then Some None
      else do {
        b0 \<leftarrow> idx packet 0;
        let ipHdrLen = hdr4 b0;
        if length packet < ipHdrLen + 20 then Some None
        else do {
          d \<leftarrow> idx packet (ipHdrLen + 12);
          let tcpHdrLen = doff d;
          let payloadStart = ipHdrLen + tcpHdrLen;
          if payloadStart > length packet then Some None
          else do {
            payload \<leftarrow> slice_from packet payloadStart;
            seq0 \<leftarrow> be32 packet (ipHdrLen + 4);
            id0 \<leftarrow> be16 packet 4;
            Some (Some \<lparr>IPHdrLen = ipHdrLen, TCPHdrLen = tcpHdrLen, PayloadStart = payloadStart,
              PayloadLen = length packet - payloadStart, Payload = payload, Seq0 = seq0, ID0 = id0, IsIPv6 = False\<rparr>) } } })"

text \<open>The loop over extension headers, which also skips a fragment header\<close>
function tcp6_offset :: "bytes \<Rightarrow> byte \<Rightarrow> nat \<Rightarrow> nat option option" where
  "tcp6_offset packet nextHeader offset =
     (if nextHeader = 0 \<or> nextHeader = 43 \<or> nextHeader = 60 then
        if length packet < offset + 2 then Some None
        else do {
          nh \<leftarrow> idx packet offset;
          l \<leftarrow> idx packet (offset + 1);
          tcp6_offset packet nh (offset + (unat l * 8 + 8)) }
      else if nextHeader = 44 then
        if length packet < offset + 8 then Some None
        else do { nh \<leftarrow> idx packet offset; tcp6_offset packet nh (offset + 8) }
      else if nextHeader = 6 then Some (Some offset)
      else Some None)"
  by pat_completeness auto
termination
  by (relation "measure (\<lambda>(p, n, i). length p - i)") auto

declare tcp6_offset.simps [simp del]

definition ExtractPacketInfoV6 :: "bytes \<Rightarrow> PacketInfo option option" where
  "ExtractPacketInfoV6 packet =
     (if length packet < 60 then Some None
      else do {
        nextHeader \<leftarrow> idx packet 6;
        r \<leftarrow> tcp6_offset packet nextHeader 40;
        case r of None \<Rightarrow> Some None
        | Some offset \<Rightarrow>
            if length packet < offset + 20 then Some None
            else do {
              d \<leftarrow> idx packet (offset + 12);
              let tcpHdrLen = doff d;
              let payloadStart = offset + tcpHdrLen;
              if payloadStart > length packet then Some None
              else do {
                payload \<leftarrow> slice_from packet payloadStart;
                seq0 \<leftarrow> be32 packet (offset + 4);
                Some (Some \<lparr>IPHdrLen = offset, TCPHdrLen = tcpHdrLen, PayloadStart = payloadStart,
                  PayloadLen = length packet - payloadStart, Payload = payload, Seq0 = seq0, ID0 = 0, IsIPv6 = True\<rparr>) } } })"

definition BuildSegmentV4 :: "bytes \<Rightarrow> PacketInfo \<Rightarrow> bytes \<Rightarrow> uint32 \<Rightarrow> uint16 \<Rightarrow> bytes option" where
  "BuildSegmentV4 packet pi payloadSlice seqOffset idOffset = do {
     seg \<leftarrow> fake_frame packet (PayloadStart pi) payloadSlice;
     seg \<leftarrow> put32 seg (IPHdrLen pi + 4) (Seq0 pi + seqOffset);
     seg \<leftarrow> put16 seg 4 (ID0 pi + idOffset);
     seg \<leftarrow> put16 seg 2 (of_nat (PayloadStart pi + length payloadSlice));
     seg \<leftarrow> on_prefix FixIPv4Checksum seg (IPHdrLen pi);
     FixTCPChecksum seg }"

definition BuildSegmentV6 :: "bytes \<Rightarrow> PacketInfo \<Rightarrow> bytes \<Rightarrow> uint32 \<Rightarrow> bytes option" where
  "BuildSegmentV6 packet pi payloadSlice seqOffset = do {
     seg \<leftarrow> fake_frame packet (PayloadStart pi) payloadSlice;
     seg \<leftarrow> put32 seg (IPHdrLen pi + 4) (Seq0 pi + seqOffset);
     seg \<leftarrow> put16 seg 4 (of_int (int (PayloadStart pi + length payloadSlice) - 40));
     FixTCPChecksumV6 seg }"

definition SetPSH :: "bytes \<Rightarrow> nat \<Rightarrow> bytes option" where
  "SetPSH seg ipHdrLen = do { b \<leftarrow> idx seg (ipHdrLen + 13); upd seg (ipHdrLen + 13) (b OR 0x08) }"

definition ClearPSH :: "bytes \<Rightarrow> nat \<Rightarrow> bytes option" where
  "ClearPSH seg ipHdrLen = do { b \<leftarrow> idx seg (ipHdrLen + 13); upd seg (ipHdrLen + 13) (b AND NOT 0x08) }"

section \<open>The order of segments\<close>

definition gswap :: "'a list \<Rightarrow> nat \<Rightarrow> nat \<Rightarrow> 'a list option" where
  "gswap xs i j = do { a \<leftarrow> idx xs i; b \<leftarrow> idx xs j; xs \<leftarrow> upd xs i b; upd xs j a }"

text \<open>\<open>for i := n; i > 0; i--\<close> with \<open>r i\<close> the result of \<open>r.Intn(i + 1)\<close>\<close>
fun shuffle_down :: "(nat \<Rightarrow> nat) \<Rightarrow> nat \<Rightarrow> 'a list \<Rightarrow> 'a list option" where
  "shuffle_down r 0 xs = Some xs"
| "shuffle_down r (Suc i) xs = do { xs \<leftarrow> gswap xs (Suc i) (r (Suc i)); shuffle_down r i xs }"

text \<open>\<open>for i, j := 0, len(xs)-1; i < j; i, j = i+1, j-1\<close>\<close>
function swap_ends :: "nat \<Rightarrow> nat \<Rightarrow> 'a list \<Rightarrow> 'a list option" where
  "swap_ends i j xs = (if i < j then do { xs \<leftarrow> gswap xs i j; swap_ends (i + 1) (j - 1) xs } else Some xs)"
  by pat_completeness auto
termination
  by (relation "measure (\<lambda>(i, j, xs). j - i)") auto

declare swap_ends.simps [simp del]

definition ShuffleSegments :: "(nat \<Rightarrow> nat) \<Rightarrow> 'a list \<Rightarrow> string \<Rightarrow> 'a list option" where
  "ShuffleSegments r segments mode =
     (if mode = ''full'' then shuffle_down r (length segments - 1) segments
      else if mode = ''reverse'' then swap_ends 0 (length segments - 1) segments
      else if mode = ''middle'' then
        if length segments > 3 then do {
          middle \<leftarrow> gslice segments 1 (length segments - 1);
          middle \<leftarrow> shuffle_down r (length middle - 1) middle;
          copy_into segments 1 (length segments - 1) middle }
        else if length segments > 1 then swap_ends 0 (length segments - 1) segments
        else Some segments
      else Some segments)"

text \<open>The index of the first segment with the greatest sequence number, compared as \<open>uint32\<close>\<close>
definition max_seq_idx :: "Segment list \<Rightarrow> nat" where
  "max_seq_idx segs = foldl (\<lambda>m i. if sg_Seq (segs ! i) > sg_Seq (segs ! m) then i else m) 0 [0..<length segs]"

definition SetMaxSeqPSH :: "Segment list \<Rightarrow> nat \<Rightarrow> (bytes \<Rightarrow> bytes option) \<Rightarrow> Segment list option" where
  "SetMaxSeqPSH segments ipHdrLen fixChecksum = do {
     segments \<leftarrow> those (map (\<lambda>s. do {
       d \<leftarrow> ClearPSH (sg_Data s) ipHdrLen;
       d \<leftarrow> fixChecksum d;
       Some (s\<lparr>sg_Data := d\<rparr>) }) segments);
     s \<leftarrow> idx segments (max_seq_idx segments);
     d \<leftarrow> SetPSH (sg_Data s) ipHdrLen;
     d \<leftarrow> fixChecksum d;
     upd segments (max_seq_idx segments) (s\<lparr>sg_Data := d\<rparr>) }"

definition SendTwoSegmentsV4 :: "bytes \<Rightarrow> bytes \<Rightarrow> bytes \<Rightarrow> int \<Rightarrow> bool \<Rightarrow> effect list" where
  "SendTwoSegmentsV4 seg1 seg2 dst delay reverse =
     (if reverse then SendV4 seg2 dst # pause_ms delay @ [SendV4 seg1 dst]
      else SendV4 seg1 dst # pause_ms delay @ [SendV4 seg2 dst])"

definition SendTwoSegmentsV6 :: "bytes \<Rightarrow> bytes \<Rightarrow> bytes \<Rightarrow> int \<Rightarrow> bool \<Rightarrow> effect list" where
  "SendTwoSegmentsV6 seg1 seg2 dst delay reverse =
     (if reverse then SendV6 seg2 dst # pause_ms delay @ [SendV6 seg1 dst]
      else SendV6 seg1 dst # pause_ms delay @ [SendV6 seg2 dst])"

text \<open>Packets with pauses between them\<close>
fun paced :: "effect list \<Rightarrow> effect list \<Rightarrow> effect list" where
  "paced gap [] = []"
| "paced gap [x] = [x]"
| "paced gap (x # y # xs) = x # gap @ paced gap (y # xs)"

definition SendSegmentsV4 :: "env \<Rightarrow> bytes list \<Rightarrow> bytes \<Rightarrow> SetConfig \<Rightarrow> effect list" where
  "SendSegmentsV4 e segs dst cfg =
     (let delay = ResolveRange (int (rnd e 0)) (tcp_Seg2Delay (TCP cfg)) (tcp_Seg2DelayMax (TCP cfg))
      in paced (pause_ms delay)
           (map (\<lambda>s. SendV4 s dst) (if frag_ReverseOrder (Fragmentation cfg) then rev segs else segs)))"

definition SendSegmentsV6 :: "env \<Rightarrow> bytes list \<Rightarrow> bytes \<Rightarrow> SetConfig \<Rightarrow> effect list" where
  "SendSegmentsV6 e segs dst cfg =
     (let delay = ResolveRange (int (rnd e 0)) (tcp_Seg2Delay (TCP cfg)) (tcp_Seg2DelayMax (TCP cfg))
      in paced (pause_ms delay)
           (map (\<lambda>s. SendV6 s dst) (if frag_ReverseOrder (Fragmentation cfg) then rev segs else segs)))"

section \<open>Where to split\<close>

text \<open>The server name inside an extension of type 0 whose data starts at \<open>e\<close>\<close>
definition sni_name_at :: "bytes \<Rightarrow> nat \<Rightarrow> nat \<Rightarrow> (nat \<times> nat) option option" where
  "sni_name_at payload e extDataLen =
     (let q = e in
      if q + 2 > e + extDataLen then Some None
      else do {
        listLen \<leftarrow> be16 payload q;
        let q = q + 2;
        if q + unat listLen > e + extDataLen then Some None
        else if q + 3 > e + extDataLen then Some None
        else do {
          nameType \<leftarrow> idx payload q;
          let q = q + 1;
          if nameType \<noteq> 0 then Some None
          else do {
            nameLen \<leftarrow> be16 payload q;
            let q = q + 2;
            if unat nameLen = 0 \<or> q + unat nameLen > e + extDataLen then Some None
            else Some (Some (q, q + unat nameLen)) } } })"

function sni_ext_loop :: "bytes \<Rightarrow> nat \<Rightarrow> nat \<Rightarrow> (nat \<times> nat) option option" where
  "sni_ext_loop payload e ee =
     (if e + 4 \<le> ee then do {
        extType \<leftarrow> be16 payload e;
        extDataLen \<leftarrow> be16 payload (e + 2);
        if e + 4 + unat extDataLen > ee then Some None
        else if extType = 0 \<and> unat extDataLen \<ge> 5 then sni_name_at payload (e + 4) (unat extDataLen)
        else sni_ext_loop payload (e + 4 + unat extDataLen) ee }
      else Some None)"
  by pat_completeness auto
termination
  by (relation "measure (\<lambda>(p, e, ee). ee - e)") auto

declare sni_ext_loop.simps [simp del]

text \<open>A field of the hello with a one-byte or two-byte length in front: the position behind it\<close>
definition skip8 :: "bytes \<Rightarrow> nat \<Rightarrow> nat option option" where
  "skip8 payload p =
     (if p \<ge> length payload then Some None
      else do {
        l \<leftarrow> idx payload p;
        Some (if p + 1 + unat l > length payload then None else Some (p + 1 + unat l)) })"

definition skip16 :: "bytes \<Rightarrow> nat \<Rightarrow> nat option option" where
  "skip16 payload p =
     (if p + 2 > length payload then Some None
      else do {
        l \<leftarrow> be16 payload p;
        Some (if p + 2 + unat l > length payload then None else Some (p + 2 + unat l)) })"

definition locateSNI :: "bytes \<Rightarrow> (nat \<times> nat) option option" where
  "locateSNI payload =
     (if length payload < 5 then Some None
      else do {
        b0 \<leftarrow> idx payload 0;
        if b0 \<noteq> 0x16 then Some None
        else if 5 + 4 > length payload then Some None
        else do {
          b5 \<leftarrow> idx payload 5;
          if b5 \<noteq> 0x01 then Some None
          else if 9 + 2 + 32 > length payload then Some None
          else do {
            r \<leftarrow> skip8 payload 43;
            case r of None \<Rightarrow> Some None
            | Some p \<Rightarrow> do {
                r \<leftarrow> skip16 payload p;
                case r of None \<Rightarrow> Some None
                | Some p \<Rightarrow> do {
                    r \<leftarrow> skip8 payload p;
                    case r of None \<Rightarrow> Some None
                    | Some p \<Rightarrow>
                        if p + 2 > length payload then Some None
                        else do {
                          l \<leftarrow> be16 payload p;
                          let p = p + 2;
                          let extLen = (if p + unat l > length payload then length payload - p else unat l);
                          sni_ext_loop payload p (p + extLen) } } } } } })"

function pre_sni_loop :: "bytes \<Rightarrow> nat \<Rightarrow> nat \<Rightarrow> nat \<Rightarrow> int option" where
  "pre_sni_loop payload pos extEnd lastSafePos =
     (if pos + 4 \<le> extEnd then do {
        extType \<leftarrow> be16 payload pos;
        extDataLen \<leftarrow> be16 payload (pos + 2);
        if extType = 0 then Some (int lastSafePos)
        else pre_sni_loop payload (pos + (4 + unat extDataLen)) extEnd pos }
      else Some (- 1))"
  by pat_completeness auto
termination
  by (relation "measure (\<lambda>(p, pos, e, l). e - pos)") auto

declare pre_sni_loop.simps [simp del]

definition findPreSNIExtensionPoint :: "bytes \<Rightarrow> int option" where
  "findPreSNIExtensionPoint payload =
     (if length payload < 5 then Some (- 1)
      else do {
        b0 \<leftarrow> idx payload 0;
        if b0 \<noteq> 0x16 then Some (- 1)
        else if 5 + 4 > length payload then Some (- 1)
        else do {
          b5 \<leftarrow> idx payload 5;
          if b5 \<noteq> 0x01 then Some (- 1)
          else if 9 + 34 > length payload then Some (- 1)
          else if 43 \<ge> length payload then Some (- 1)
          else do {
            sidLen \<leftarrow> idx payload 43;
            let pos = 44 + unat sidLen;
            if pos + 2 > length payload then Some (- 1)
            else do {
              csLen \<leftarrow> be16 payload pos;
              let pos = pos + (2 + unat csLen);
              if pos \<ge> length payload then Some (- 1)
              else do {
                compLen \<leftarrow> idx payload pos;
                let pos = pos + 1 + unat compLen;
                if pos + 2 > length payload then Some (- 1)
                else do {
                  extLen \<leftarrow> be16 payload pos;
                  let extStart = pos + 2;
                  let extEnd = (if extStart + unat extLen > length payload then length payload else extStart + unat extLen);
                  pre_sni_loop payload extStart extEnd extStart } } } } } })"

definition GetSNISplitPoints :: "bytes \<Rightarrow> nat \<Rightarrow> bool \<Rightarrow> int \<Rightarrow> nat list option" where
  "GetSNISplitPoints payload payloadLen middleSNI sniPosition = do {
     splits \<leftarrow> (if middleSNI then do {
         r \<leftarrow> locateSNI payload;
         Some (case r of None \<Rightarrow> []
           | Some (sniStart, sniEnd) \<Rightarrow>
               if sniEnd > sniStart then
                 sniStart # (if sniEnd - sniStart > 6 then [sniStart + (sniEnd - sniStart) div 2] else []) @ [sniEnd]
               else []) }
       else Some []);
     Some (if length splits = 0 \<and> sniPosition > 0 \<and> sniPosition < int payloadLen then [nat sniPosition] else splits) }"

text \<open>Positions inside the payload, without repetitions, in ascending order\<close>
definition uniqueSorted :: "nat list \<Rightarrow> nat \<Rightarrow> nat list" where
  "uniqueSorted splits maxVal =
     sort (foldl (\<lambda>result s. if s > 0 \<and> s < maxVal \<and> s \<notin> set result then result @ [s] else result) [] splits)"

definition GetComboSplitPoints :: "bytes \<Rightarrow> nat \<Rightarrow> ComboFragConfig \<Rightarrow> bool \<Rightarrow> nat list option" where
  "GetComboSplitPoints payload payloadLen combo middleSNI = do {
     let splits = (if FirstByteSplit combo then [1] else []);
     splits \<leftarrow> (if ExtensionSplit combo then do {
         extSplit \<leftarrow> findPreSNIExtensionPoint payload;
         Some (splits @ (if extSplit > 1 \<and> extSplit < int payloadLen - 5 then [nat extSplit] else [])) }
       else Some splits);
     if middleSNI then do {
       r \<leftarrow> locateSNI payload;
       Some (case r of None \<Rightarrow> splits
         | Some (sniStart, sniEnd) \<Rightarrow>
             if sniEnd > sniStart then
               let sniLen = sniEnd - sniStart
               in splits @ (if sniStart > 2 then [sniStart - 1] else []) @ [sniStart + sniLen div 2] @
                  (if sniLen > 15 then [sniStart + sniLen * 3 div 4] else [])
             else splits) }
     else Some splits }"

definition GetDisorderJitter :: "DisorderFragConfig \<Rightarrow> int \<times> int" where
  "GetDisorderJitter disorder =
     (let minJitter = (if MinJitterUs disorder \<le> 0 then 1000 else MinJitterUs disorder);
          maxJitter = (if MaxJitterUs disorder \<le> minJitter then minJitter + 2000 else MaxJitterUs disorder)
      in (minJitter, maxJitter))"

definition BuildValidSplits :: "nat list \<Rightarrow> nat \<Rightarrow> nat list" where
  "BuildValidSplits splits payloadLen = 0 # filter (\<lambda>s. s > 0 \<and> s < payloadLen) splits @ [payloadLen]"

section \<open>Overlapping segments\<close>

definition pattern_bytes :: "bytes \<Rightarrow> nat \<Rightarrow> bytes" where
  "pattern_bytes pattern n = map (\<lambda>i. pattern ! (i mod length pattern)) [0..<n]"

definition BuildSeqOverlapSegmentV4 ::
  "bytes \<Rightarrow> PacketInfo \<Rightarrow> bytes \<Rightarrow> nat \<Rightarrow> int \<Rightarrow> bytes \<Rightarrow> uint16 \<Rightarrow> bytes option" where
  "BuildSeqOverlapSegmentV4 packet pi origPayload origStartOffset seqovlLen pattern idOffset =
     (if seqovlLen \<le> 0 \<or> length pattern = 0 then BuildSegmentV4 packet pi origPayload (of_nat origStartOffset) idOffset
      else BuildSegmentV4 packet pi (pattern_bytes pattern (nat seqovlLen) @ origPayload)
             (of_nat origStartOffset - of_int seqovlLen) idOffset)"

definition BuildSeqOverlapSegmentV6 ::
  "bytes \<Rightarrow> PacketInfo \<Rightarrow> bytes \<Rightarrow> nat \<Rightarrow> int \<Rightarrow> bytes \<Rightarrow> bytes option" where
  "BuildSeqOverlapSegmentV6 packet pi origPayload origStartOffset seqovlLen pattern =
     (if seqovlLen \<le> 0 \<or> length pattern = 0 then BuildSegmentV6 packet pi origPayload (of_nat origStartOffset)
      else BuildSegmentV6 packet pi (pattern_bytes pattern (nat seqovlLen) @ origPayload)
             (of_nat origStartOffset - of_int seqovlLen))"

text \<open>The payload of a fake: the pattern repeated, or multiples of seven\<close>
definition overlap_payload :: "bytes \<Rightarrow> nat \<Rightarrow> bytes" where
  "overlap_payload fakePattern n =
     (if length fakePattern = 0 then map (\<lambda>i. of_nat (i * 7)) [0..<n] else pattern_bytes fakePattern n)"

definition BuildFakeOverlapSegmentV4 ::
  "bytes \<Rightarrow> PacketInfo \<Rightarrow> nat \<Rightarrow> uint32 \<Rightarrow> uint16 \<Rightarrow> bytes \<Rightarrow> byte \<Rightarrow> bytes option option" where
  "BuildFakeOverlapSegmentV4 packet pi payloadLen seqOffset idOffset fakePattern fakeTTL =
     (if payloadLen = 0 then Some None
      else do {
        seg \<leftarrow> fake_frame packet (PayloadStart pi) (overlap_payload fakePattern payloadLen);
        seg \<leftarrow> put32 seg (IPHdrLen pi + 4) (Seq0 pi + seqOffset);
        seg \<leftarrow> put16 seg 4 (ID0 pi + idOffset);
        seg \<leftarrow> put16 seg 2 (of_nat (PayloadStart pi + payloadLen));
        ttl \<leftarrow> dynamicTTL packet False fakeTTL;
        seg \<leftarrow> upd seg 8 ttl;
        seg \<leftarrow> ClearPSH seg (IPHdrLen pi);
        seg \<leftarrow> on_prefix FixIPv4Checksum seg (IPHdrLen pi);
        seg \<leftarrow> FixTCPChecksum seg;
        seg \<leftarrow> corruptTCPChecksum seg (IPHdrLen pi);
        Some (Some seg) })"

definition BuildFakeOverlapSegmentV6 ::
  "bytes \<Rightarrow> PacketInfo \<Rightarrow> nat \<Rightarrow> uint32 \<Rightarrow> bytes \<Rightarrow> byte \<Rightarrow> bytes option option" where
  "BuildFakeOverlapSegmentV6 packet pi payloadLen seqOffset fakePattern fakeHopLimit =
     (if payloadLen = 0 then Some None
      else do {
        seg \<leftarrow> fake_frame packet (PayloadStart pi) (overlap_payload fakePattern payloadLen);
        seg \<leftarrow> put32 seg (IPHdrLen pi + 4) (Seq0 pi + seqOffset);
        seg \<leftarrow> put16 seg 4 (of_int (int (PayloadStart pi + payloadLen) - 40));
        ttl \<leftarrow> dynamicTTL packet True fakeHopLimit;
        seg \<leftarrow> upd seg 7 ttl;
        seg \<leftarrow> ClearPSH seg (IPHdrLen pi);
        seg \<leftarrow> FixTCPChecksumV6 seg;
        seg \<leftarrow> corruptTCPChecksum seg (IPHdrLen pi);
        Some (Some seg) })"

section \<open>The order is a permutation\<close>

lemma gswap_ok: "i < length xs \<Longrightarrow> j < length xs \<Longrightarrow> gswap xs i j = Some (xs[i := xs ! j, j := xs ! i])"
  by (simp add: gswap_def idx_ok upd_ok)

lemma mset_gswap: "i < length xs \<Longrightarrow> j < length xs \<Longrightarrow> mset (xs[i := xs ! j, j := xs ! i]) = mset xs"
  by (rule mset_swap)

lemma shuffle_down_perm:
  "n < length xs \<or> n = 0 \<Longrightarrow> \<forall>i. r i \<le> i \<Longrightarrow> \<exists>ys. shuffle_down r n xs = Some ys \<and> mset ys = mset xs"
proof (induction n arbitrary: xs)
  case (Suc n)
  let ?ys = "xs[Suc n := xs ! r (Suc n), r (Suc n) := xs ! Suc n]"
  have l: "Suc n < length xs" using Suc.prems(1) by simp
  moreover have "r (Suc n) \<le> Suc n" using Suc.prems(2) by blast
  ultimately have l: "Suc n < length xs" "r (Suc n) < length xs" by simp_all
  then have "n < length ?ys \<or> n = 0" by simp
  then obtain ys where "shuffle_down r n ?ys = Some ys" "mset ys = mset ?ys" using Suc.IH Suc.prems(2) by blast
  then show ?case using l by (auto simp: gswap_ok mset_gswap)
qed simp

lemma swap_ends_perm:
  "j < length xs \<or> j = 0 \<Longrightarrow> \<exists>ys. swap_ends i j xs = Some ys \<and> mset ys = mset xs"
proof (induction i j xs rule: swap_ends.induct)
  case (1 i j xs)
  show ?case
  proof (cases "i < j")
    case True
    then have l: "i < length xs" "j < length xs" using "1.prems" by auto
    let ?ys = "xs[i := xs ! j, j := xs ! i]"
    have "\<exists>ys. swap_ends (i + 1) (j - 1) ?ys = Some ys \<and> mset ys = mset ?ys"
      by (rule "1.IH" [OF True gswap_ok [OF l]]) (use l in auto)
    then show ?thesis using True l by (subst swap_ends.simps) (auto simp: gswap_ok mset_gswap)
  qed (simp add: swap_ends.simps [of i j])
qed

lemma middle_perm:
  assumes "3 < length xs" "\<forall>i. r i \<le> i"
  shows "\<exists>ys. (do { m \<leftarrow> gslice xs 1 (length xs - 1); m \<leftarrow> shuffle_down r (length m - 1) m; copy_into xs 1 (length xs - 1) m }) = Some ys \<and>
     mset ys = mset xs"
proof -
  define m where "m = take (length xs - 2) (drop 1 xs)"
  have lm: "length m = length xs - 2" using assms(1) by (simp add: m_def)
  obtain m' where m': "shuffle_down r (length m - 1) m = Some m'" "mset m' = mset m"
    using shuffle_down_perm [of "length m - 1" m r] assms lm by force
  have l': "length m' = length xs - 2" using m'(2) lm by (metis size_mset)
  have x: "xs = take 1 xs @ m @ drop (length xs - 1) xs"
  proof -
    have "drop 1 xs = m @ drop (length xs - 2) (drop 1 xs)" unfolding m_def by (rule append_take_drop_id [symmetric])
    moreover have "length xs - 2 + 1 = length xs - 1" using assms(1) by simp
    then have "drop (length xs - 2) (drop 1 xs) = drop (length xs - 1) xs" by (simp only: drop_drop)
    ultimately show ?thesis by (metis append_take_drop_id)
  qed
  have "copy_into xs 1 (length xs - 1) m' = Some (take 1 xs @ m' @ drop (1 + length m') xs)"
    using assms(1) l' by (intro copy_into_ok) auto
  moreover have "1 + length m' = length xs - 1" using l' assms(1) by simp
  moreover have "gslice xs 1 (length xs - 1) = Some m" using assms(1) by (simp add: gslice_def m_def numeral_2_eq_2)
  moreover have "mset xs = mset (take 1 xs) + mset m + mset (drop (length xs - 1) xs)"
    by (subst x) simp
  ultimately show ?thesis using m' by simp
qed

lemma ShuffleSegments_perm:
  assumes "\<forall>i. r i \<le> i"
  shows "\<exists>ys. ShuffleSegments r xs mode = Some ys \<and> mset ys = mset xs"
proof -
  have s: "\<exists>ys. shuffle_down r (length xs - 1) xs = Some ys \<and> mset ys = mset xs"
    by (rule shuffle_down_perm [OF _ assms]) (cases xs, auto)
  have w: "\<exists>ys. swap_ends 0 (length xs - 1) xs = Some ys \<and> mset ys = mset xs"
    by (rule swap_ends_perm) (cases xs, auto)
  show ?thesis
    using s w middle_perm [OF _ assms, of xs] unfolding ShuffleSegments_def by (simp del: One_nat_def)
qed

section \<open>The split points\<close>

lemma skip8_bound: "\<exists>r. skip8 x p = Some r \<and> (\<forall>n. r = Some n \<longrightarrow> p < n \<and> n \<le> length x)"
  by (auto simp: skip8_def idx_ok)

lemma skip16_bound: "\<exists>r. skip16 x p = Some r \<and> (\<forall>n. r = Some n \<longrightarrow> p < n \<and> n \<le> length x)"
  by (auto simp: skip16_def be16_ok)

lemma sni_name_at_bound:
  assumes "5 \<le> n" "e + n \<le> length x"
  shows "\<exists>r. sni_name_at x e n = Some r \<and> (\<forall>a b. r = Some (a, b) \<longrightarrow> e < a \<and> a < b \<and> b \<le> length x)"
  using assms by (auto simp: sni_name_at_def be16_ok idx_ok Let_def)

lemma sni_ext_loop_bound:
  "ee \<le> length x \<Longrightarrow> \<exists>r. sni_ext_loop x e ee = Some r \<and> (\<forall>a b. r = Some (a, b) \<longrightarrow> e < a \<and> a < b \<and> b \<le> length x)"
proof (induction x e ee rule: sni_ext_loop.induct)
  case (1 x e ee)
  show ?case
  proof (cases "e + 4 \<le> ee")
    case True
    define t m where "t = u16 (x ! e) (x ! Suc e)" and "m = u16 (x ! (e + 2)) (x ! Suc (e + 2))"
    have b: "be16 x e = Some t" "be16 x (e + 2) = Some m"
      using True "1.prems" by (simp_all add: be16_ok t_def m_def)
    have eq: "sni_ext_loop x e ee = (if e + 4 + unat m > ee then Some None
        else if t = 0 \<and> unat m \<ge> 5 then sni_name_at x (e + 4) (unat m) else sni_ext_loop x (e + 4 + unat m) ee)"
      using True by (subst sni_ext_loop.simps) (simp add: b del: add_2_eq_Suc')
    consider "e + 4 + unat m > ee" | "e + 4 + unat m \<le> ee" "t = 0 \<and> unat m \<ge> 5" | "e + 4 + unat m \<le> ee" "\<not> (t = 0 \<and> unat m \<ge> 5)"
      by linarith
    then show ?thesis
    proof cases
      case 2
      then obtain r where r: "sni_name_at x (e + 4) (unat m) = Some r" "\<And>a b. r = Some (a, b) \<Longrightarrow> e + 4 < a \<and> a < b \<and> b \<le> length x"
        using sni_name_at_bound [of "unat m" "e + 4" x] "1.prems" by auto
      have "sni_ext_loop x e ee = Some r" using 2 r(1) eq by simp
      then show ?thesis using r(2) by auto
    next
      case 3
      have n: "\<not> ee < e + 4 + unat m" using 3(1) by simp
      obtain r where r: "sni_ext_loop x (e + 4 + unat m) ee = Some r" "\<And>a b. r = Some (a, b) \<Longrightarrow> e + 4 + unat m < a \<and> a < b \<and> b \<le> length x"
        using "1.IH" [OF True b n 3(2) "1.prems"] by blast
      have "sni_ext_loop x e ee = Some r" using n 3(2) r(1) eq by presburger
      then show ?thesis using r(2) by fastforce
    qed (simp add: eq)
  qed (simp add: sni_ext_loop.simps [of x e])
qed

lemma hello_heads: "\<not> length x < 5 \<Longrightarrow> idx x 0 = Some (x ! 0)" "\<not> length x < 9 \<Longrightarrow> idx x 5 = Some (x ! 5)"
  by (auto simp: idx_def)

lemma locateSNI_bound:
  "\<exists>r. locateSNI x = Some r \<and> (\<forall>a b. r = Some (a, b) \<longrightarrow> 43 < a \<and> a < b \<and> b \<le> length x)"
proof (cases "length x < 43 \<or> x ! 0 \<noteq> 0x16 \<or> x ! 5 \<noteq> 1")
  case True
  then show ?thesis by (auto simp: locateSNI_def hello_heads)
next
  case False
  obtain r1 where r1: "skip8 x 43 = Some r1" "\<And>n. r1 = Some n \<Longrightarrow> 43 < n \<and> n \<le> length x" using skip8_bound by blast
  obtain r2 where r2: "skip16 x (the r1) = Some r2" "\<And>n. r2 = Some n \<Longrightarrow> the r1 < n \<and> n \<le> length x" using skip16_bound by blast
  obtain r3 where r3: "skip8 x (the r2) = Some r3" "\<And>n. r3 = Some n \<Longrightarrow> the r2 < n \<and> n \<le> length x" using skip8_bound by blast
  define p where "p = the r3 + 2"
  define l where "l = unat (u16 (x ! the r3) (x ! Suc (the r3)))"
  define ee where "ee = p + (if p + l > length x then length x - p else l)"
  have L: "locateSNI x = (if r1 = None \<or> r2 = None \<or> r3 = None \<or> p > length x then Some None else sni_ext_loop x p ee)"
    using False r1(1) r2(1) r3(1)
    by (cases r1; cases r2; cases r3) (auto simp: locateSNI_def hello_heads be16_ok p_def l_def ee_def Let_def)
  have "43 < p" if "r1 \<noteq> None" "r2 \<noteq> None" "r3 \<noteq> None" using r1(2) r2(2) r3(2) that by (fastforce simp: p_def)
  moreover have "ee \<le> length x" if "p \<le> length x" using that by (simp add: ee_def)
  ultimately show ?thesis unfolding L using sni_ext_loop_bound [of ee x p] by fastforce
qed

lemma pre_sni_loop_bound:
  "ee \<le> length x \<Longrightarrow> s \<le> ee \<Longrightarrow> 5 < s \<Longrightarrow> 5 < pos \<Longrightarrow> \<exists>r. pre_sni_loop x pos ee s = Some r \<and> (r = - 1 \<or> 5 < r \<and> r \<le> int (length x))"
proof (induction x pos ee s rule: pre_sni_loop.induct)
  case (1 x pos ee s)
  show ?case
  proof (cases "pos + 4 \<le> ee")
    case True
    have b: "be16 x pos = Some (u16 (x ! pos) (x ! Suc pos))" "be16 x (pos + 2) = Some (u16 (x ! (pos + 2)) (x ! Suc (pos + 2)))"
      using True "1.prems" by (simp_all add: be16_ok)
    have IH: "\<exists>r. pre_sni_loop x (pos + (4 + unat (u16 (x ! (pos + 2)) (x ! Suc (pos + 2))))) ee pos = Some r \<and> (r = - 1 \<or> 5 < r \<and> r \<le> int (length x))"
      if "u16 (x ! pos) (x ! Suc pos) \<noteq> 0"
      using "1.IH" [OF True b(1) b(2) that] "1.prems" True by simp
    show ?thesis
      using True IH "1.prems" by (subst pre_sni_loop.simps) (auto simp: b simp del: add_2_eq_Suc')
  qed (simp add: pre_sni_loop.simps [of x pos])
qed

lemma findPreSNI_bound:
  "\<exists>r. findPreSNIExtensionPoint x = Some r \<and> (r = - 1 \<or> 5 < r \<and> r \<le> int (length x))"
proof -
  have loop: "returns (pre_sni_loop x (pos + 2) (if pos + 2 + l > length x then length x else pos + 2 + l) (pos + 2))
      (\<lambda>r. r = - 1 \<or> 5 < r \<and> r \<le> int (length x))" if "44 \<le> pos" "pos + 2 \<le> length x" for pos l
    unfolding returns_def using that by (intro pre_sni_loop_bound) auto
  have "returns (findPreSNIExtensionPoint x) (\<lambda>r. r = - 1 \<or> 5 < r \<and> r \<le> int (length x))"
    unfolding findPreSNIExtensionPoint_def by (intro go_wp loop) auto
  then show ?thesis by (rule returnsD)
qed

section \<open>Crafted packets\<close>

lemma put32_set_field:
  "i + 4 \<le> length p \<Longrightarrow> put32 p i v = Some (set_field (set_field p i (hi16 v)) (i + 2) (lo16 v))"
  by (simp add: put32_def set_field_def numeral_3_eq_3)

definition set32 :: "bytes \<Rightarrow> nat \<Rightarrow> uint32 \<Rightarrow> bytes" where
  "set32 p i v = set_field (set_field p i (hi16 v)) (i + 2) (lo16 v)"

lemma put32_set32: "i + 4 \<le> length p \<Longrightarrow> put32 p i v = Some (set32 p i v)"
  by (simp add: set32_def put32_set_field)

lemma set32_length [simp]: "length (set32 p i v) = length p"
  by (simp add: set32_def)

lemma set32_nth [simp]: "j < i \<or> i + 4 \<le> j \<Longrightarrow> set32 p i v ! j = p ! j"
  by (auto simp: set32_def)

lemma word_at32_set32: "i + 4 \<le> length p \<Longrightarrow> word_at32 (set32 p i v) i = v"
  by (simp add: word_at32_def set32_def set_field_def numeral_3_eq_3)

lemma drop_set32: "i + 4 \<le> n \<Longrightarrow> drop n (set32 p i v) = drop n p"
  by (simp add: set32_def drop_set_field_ge)

text \<open>A TCP packet over IPv4 whose stated header lengths fit\<close>
definition tcp4_ok :: "bytes \<Rightarrow> bool" where
  "tcp4_ok p \<longleftrightarrow> 20 \<le> ihl4 p \<and> 20 \<le> thl_at (ihl4 p) p \<and> ihl4 p + thl_at (ihl4 p) p \<le> length p"

abbreviation hdrs4 :: "bytes \<Rightarrow> nat" where
  "hdrs4 p \<equiv> ihl4 p + thl_at (ihl4 p) p"

definition info4 :: "bytes \<Rightarrow> PacketInfo" where
  "info4 p = \<lparr>IPHdrLen = ihl4 p, TCPHdrLen = thl_at (ihl4 p) p, PayloadStart = hdrs4 p,
     PayloadLen = length p - hdrs4 p, Payload = drop (hdrs4 p) p, Seq0 = word_at32 p (ihl4 p + 4),
     ID0 = u16 (p ! 4) (p ! 5), IsIPv6 = False\<rparr>"

lemma ExtractPacketInfoV4_ok:
  assumes "tcp4_ok p"
  shows "ExtractPacketInfoV4 p = Some (Some (info4 p))"
proof -
  have l: "40 \<le> length p" "ihl4 p + 20 \<le> length p" "hdrs4 p \<le> length p" "p \<noteq> []" using assms by (auto simp: tcp4_ok_def)
  then show ?thesis
    by (simp add: ExtractPacketInfoV4_def info4_def idx_ok idx_0 slice_from_ok be32_ok be16_ok word_at32_def Let_def ihl4_def thl_at_def eval_nat_numeral)
qed

text \<open>\<open>q\<close> is a valid packet of the flow of \<open>p\<close>: the headers agree in everything but lengths, identification,
  sequence number, PSH and checksums.\<close>
definition var4 :: "nat \<Rightarrow> nat set" where
  "var4 h = {2, 3, 4, 5, 10, 11} \<union> {h + 4 ..< h + 8} \<union> {h + 13, h + 16, h + 17}"

definition flow4 :: "bytes \<Rightarrow> bytes \<Rightarrow> bool" where
  "flow4 p q \<longleftrightarrow> valid4 q \<and> ihl4 q = ihl4 p \<and> thl_at (ihl4 p) q = thl_at (ihl4 p) p \<and> hdrs4 p \<le> length q \<and>
     (\<forall>i < hdrs4 p. i \<notin> var4 (ihl4 p) \<longrightarrow> q ! i = p ! i) \<and>
     q ! (ihl4 p + 13) AND NOT 8 = p ! (ihl4 p + 13) AND NOT 8"

lemma flow4_facts:
  assumes "flow4 p q"
  shows "valid4 q" "ihl4 q = ihl4 p" "thl_at (ihl4 p) q = thl_at (ihl4 p) p" "hdrs4 p \<le> length q"
    "i < hdrs4 p \<Longrightarrow> i \<notin> var4 (ihl4 p) \<Longrightarrow> q ! i = p ! i" "q ! (ihl4 p + 13) AND NOT 8 = p ! (ihl4 p + 13) AND NOT 8"
  using assms by (simp_all add: flow4_def)

text \<open>What a receiver takes from a packet of the flow: where the bytes belong, and the bytes\<close>
definition piece4 :: "bytes \<Rightarrow> bytes \<Rightarrow> uint32 \<times> bytes" where
  "piece4 p q = (word_at32 q (ihl4 p + 4), drop (hdrs4 p) q)"

lemma tot4_tail: "4 \<le> length p \<Longrightarrow> n < 65536 \<Longrightarrow> tot4 (set_field p 2 (of_nat n)) = n"
  by (rule tot4_set)

lemma BuildSegmentV4_piece:
  assumes "tcp4_ok p" "hdrs4 p + length s < 65536"
  shows "\<exists>q. BuildSegmentV4 p (info4 p) s off ido = Some q \<and> flow4 p q \<and>
     piece4 p q = (word_at32 p (ihl4 p + 4) + off, s) \<and> length q = hdrs4 p + length s"
proof -
  define h where "h = ihl4 p"
  define n where "n = h + thl_at h p"
  have l: "20 \<le> h" "h + 20 \<le> n" "n \<le> length p" using assms(1) by (auto simp: tcp4_ok_def h_def n_def)
  define a where "a = take n p @ s"
  define v where "v = word_at32 p (h + 4) + off"
  define b where "b = set_field (set_field (set32 a (h + 4) v) 4 (u16 (p ! 4) (p ! 5) + ido)) 2 (of_nat (n + length s))"
  have la: "length a = n + length s" using l by (simp add: a_def)
  have bn: "b ! i = p ! i" if "i < n" "i \<notin> {2, 3, 4, 5}" "i \<notin> {h + 4 ..< h + 8}" for i
    using that l by (auto simp: b_def a_def nth_append)
  have hb: "ihl4 b = h" "thl_at h b = thl_at h p"
    using bn [of 0] bn [of "h + 12"] l by (auto simp: ihl4_def thl_at_def h_def)
  have tb: "tot4 b = length b"
    using assms(2) la l unfolding b_def by (subst tot4_set) (auto simp: n_def h_def)
  obtain c d q where q: "on_prefix FixIPv4Checksum b h = Some (set_field b 10 c)" "FixTCPChecksum (set_field b 10 c) = Some q"
      "q = set_field (set_field b 10 c) (h + 16) d" "valid4 q"
    using fix_both4 [of b] hb tb l la by (auto simp: b_def)
  have "BuildSegmentV4 p (info4 p) s off ido = Some q"
    using l la q(1,2) unfolding BuildSegmentV4_def info4_def
    by (simp add: fake_frame_ok put32_set32 put16_set_field b_def v_def a_def h_def [symmetric] n_def [symmetric] del: of_nat_add)
  note build = this
  have qn: "q ! i = b ! i" if "i \<notin> {10, 11, h + 16, h + 17}" for i using that by (simp add: q(3))
  have "ihl4 q = h" "thl_at h q = thl_at h p" "length q = n + length s"
    using hb l la by (simp_all add: q(3) b_def [symmetric] thl_at_def) (simp_all add: b_def)
  moreover have "q ! i = p ! i"
    if "i < n" "i \<notin> var4 h" for i
    using that qn [of i] bn [of i] by (simp add: var4_def)
  moreover have "q ! (h + 13) = p ! (h + 13)" using qn [of "h + 13"] bn [of "h + 13"] l by simp
  moreover note len = calculation(3)
  ultimately have "flow4 p q"
    using q(4) unfolding flow4_def h_def [symmetric] n_def [symmetric] by simp
  moreover have "piece4 p q = (v, s)"
  proof -
    have "word_at32 q (h + 4) = v"
      using l la by (simp add: q(3) b_def word_at32_def) (simp add: word_at32_set32 [unfolded word_at32_def] set32_def set_field_def)
    moreover have "drop n q = s"
      using l la by (simp add: q(3) b_def drop_set_field_ge drop_set32) (simp add: a_def)
    ultimately show ?thesis by (simp add: piece4_def h_def n_def)
  qed
  ultimately show ?thesis using build len by (auto simp: v_def h_def n_def)
qed

lemma refix4:
  assumes "valid4 q" "h = ihl4 q" "h + 20 \<le> length q" "h \<le> i" "i < h + 16"
  shows "\<exists>d. FixTCPChecksum (q[i := v]) = Some (set_field (q[i := v]) (h + 16) d) \<and> valid4 (set_field (q[i := v]) (h + 16) d)"
proof -
  let ?q = "q[i := v]"
  have w: "20 \<le> h" "tot4 q = length q" using assms by (auto simp: valid4_def ip4_wf_def)
  have e: "ihl4 ?q = h" "tot4 ?q = length q" using w assms(2,4) by (simp_all add: ihl4_def tot4_def)
  have wf: "tcp4_wf ?q" using e w assms(3) by (simp add: tcp4_wf_def)
  obtain r where r: "FixTCPChecksum ?q = Some r" using tcp4.fixup_returns [OF wf] by blast
  obtain d where d: "r = set_field ?q (h + 16) d" "cs_ok (tcp4_total r)"
    using tcp4.fixup_shape [OF wf r] e by (auto simp: tcp4_pos_def)
  have "take h ?q = take h q" using assms(4) by simp
  then have "ip4_total r = ip4_total q" using e w assms(2) by (simp add: d(1) ip4_total_def take_set_field_ge)
  then have "valid4 r" using d(2) e w wf assms(1) by (simp add: d(1) valid4_def ip4_wf_def tcp4_wf_def)
  then show ?thesis using r d(1) by blast
qed

lemma flag_piece4:
  assumes "tcp4_ok p" "flow4 p q" "v AND NOT 8 = q ! (ihl4 p + 13) AND NOT 8"
  shows "\<exists>r. FixTCPChecksum (q[ihl4 p + 13 := v]) = Some r \<and> flow4 p r \<and> piece4 p r = piece4 p q \<and> length r = length q"
proof -
  define h where "h = ihl4 p"
  define n where "n = h + thl_at h p"
  have l: "20 \<le> h" "h + 20 \<le> n" using assms(1) by (auto simp: tcp4_ok_def h_def n_def)
  note f = flow4_facts [OF assms(2), folded h_def, folded n_def]
  let ?q = "q[h + 13 := v]"
  have "h + 20 \<le> length q" using f(4) l(2) by linarith
  then obtain d where d: "FixTCPChecksum ?q = Some (set_field ?q (h + 16) d)" "valid4 (set_field ?q (h + 16) d)"
    using refix4 [OF f(1) f(2) [symmetric], of "h + 13" v] by auto
  let ?r = "set_field ?q (h + 16) d"
  have "ihl4 ?r = ihl4 q" "thl_at h ?r = thl_at h q" by (simp_all add: ihl4_def thl_at_def)
  moreover have "?r ! (h + 13) = v" using f(4) l by simp
  moreover have "?r ! i = p ! i" if "i < n" "i \<notin> var4 h" for i
  proof -
    have "?r ! i = q ! i" using that(2) by (simp add: var4_def)
    then show ?thesis using f(5) [OF that] by simp
  qed
  moreover have "v AND NOT 8 = p ! (h + 13) AND NOT 8" using f(6) assms(3) unfolding h_def by argo
  ultimately have "flow4 p ?r"
    using d(2) f(2,3,4) unfolding flow4_def h_def [symmetric] n_def [symmetric] by (intro conjI allI impI) simp_all
  moreover have "piece4 p ?r = piece4 p q"
    using l by (simp add: piece4_def word_at32_def drop_set_field_ge flip: h_def n_def)
  ultimately show ?thesis using d(1) unfolding h_def by auto
qed

lemma psh_mask: "(b AND NOT 8) AND NOT 8 = b AND NOT (8 :: byte)" "(b OR 8) AND NOT 8 = b AND NOT (8 :: byte)"
  "(b OR 8) AND - 9 = b AND - (9 :: byte)"
  by (rule bit_word_eqI; auto simp: bit_simps simp flip: not_numeral_eq)+

lemma psh_piece4:
  assumes "tcp4_ok p" "flow4 p q"
  shows "\<exists>r. (ClearPSH q (ihl4 p) \<bind> FixTCPChecksum) = Some r \<and> flow4 p r \<and> piece4 p r = piece4 p q \<and> length r = length q"
    "\<exists>r. (SetPSH q (ihl4 p) \<bind> FixTCPChecksum) = Some r \<and> flow4 p r \<and> piece4 p r = piece4 p q \<and> length r = length q"
proof -
  have "ihl4 p + 13 < length q" using assms by (auto simp: flow4_def tcp4_ok_def)
  then show "\<exists>r. (ClearPSH q (ihl4 p) \<bind> FixTCPChecksum) = Some r \<and> flow4 p r \<and> piece4 p r = piece4 p q \<and> length r = length q"
      "\<exists>r. (SetPSH q (ihl4 p) \<bind> FixTCPChecksum) = Some r \<and> flow4 p r \<and> piece4 p r = piece4 p q \<and> length r = length q"
    using flag_piece4 [OF assms, of "q ! (ihl4 p + 13) AND NOT 8"] flag_piece4 [OF assms, of "q ! (ihl4 p + 13) OR 8"]
    by (simp_all add: ClearPSH_def SetPSH_def idx_ok upd_ok psh_mask)
qed

section \<open>Reassembly\<close>

text \<open>The pieces, in some order, start at \<open>s\<close>, follow each other without gap or overlap, and are the payload.\<close>
fun chain :: "uint32 \<Rightarrow> (uint32 \<times> bytes) list \<Rightarrow> bytes \<Rightarrow> bool" where
  "chain s [] payload \<longleftrightarrow> payload = []"
| "chain s ((a, d) # ps) payload \<longleftrightarrow> a = s \<and> take (length d) payload = d \<and> chain (s + of_nat (length d)) ps (drop (length d) payload)"

definition assembles :: "uint32 \<Rightarrow> (uint32 \<times> bytes) list \<Rightarrow> bytes \<Rightarrow> bool" where
  "assembles s ps payload \<longleftrightarrow> (\<exists>qs. mset qs = mset ps \<and> chain s qs payload)"

lemma assembles_perm: "assembles s ps payload \<Longrightarrow> mset qs = mset ps \<Longrightarrow> assembles s qs payload"
  by (auto simp: assembles_def)

text \<open>The pieces between consecutive split points\<close>
fun cuts :: "uint32 \<Rightarrow> bytes \<Rightarrow> nat list \<Rightarrow> (uint32 \<times> bytes) list" where
  "cuts s x (a # b # xs) = (s + of_nat a, take (b - a) (drop a x)) # cuts s x (b # xs)"
| "cuts s x xs = []"

lemma cuts_chain:
  "sorted xs \<Longrightarrow> xs \<noteq> [] \<Longrightarrow> last xs = length x \<Longrightarrow> chain (s + of_nat (hd xs)) (cuts s x xs) (drop (hd xs) x)"
proof (induction s x xs rule: cuts.induct)
  case (1 s x a b xs)
  then have "a \<le> b" "sorted (b # xs)" "last (b # xs) = length x" by simp_all
  moreover then have "b \<le> last (b # xs)" using last_in_set [of "b # xs"] by auto
  ultimately have "a \<le> b" "b \<le> length x" by simp_all
  then have "s + of_nat a + of_nat (length (take (b - a) (drop a x))) = s + of_nat b" "drop (b - a) (drop a x) = drop b x"
    "length (take (b - a) (drop a x)) = b - a"
    by (simp_all add: add.assoc flip: of_nat_add)
  then show ?case using 1 by simp
qed auto

lemma cuts_assemble: "sorted (0 # xs) \<Longrightarrow> last (0 # xs) = length x \<Longrightarrow> assembles s (cuts s x (0 # xs)) x"
  using cuts_chain [of "0 # xs" x s] by (auto simp: assembles_def)

section \<open>The same over IPv6\<close>

text \<open>A TCP packet over IPv6 without extension headers whose stated header length fits\<close>
definition tcp6_ok :: "bytes \<Rightarrow> bool" where
  "tcp6_ok p \<longleftrightarrow> p ! 6 = 6 \<and> 20 \<le> thl_at 40 p \<and> 40 + thl_at 40 p \<le> length p"

abbreviation hdrs6 :: "bytes \<Rightarrow> nat" where
  "hdrs6 p \<equiv> 40 + thl_at 40 p"

definition info6 :: "bytes \<Rightarrow> PacketInfo" where
  "info6 p = \<lparr>IPHdrLen = 40, TCPHdrLen = thl_at 40 p, PayloadStart = hdrs6 p, PayloadLen = length p - hdrs6 p,
     Payload = drop (hdrs6 p) p, Seq0 = word_at32 p 44, ID0 = 0, IsIPv6 = True\<rparr>"

lemma ExtractPacketInfoV6_ok:
  assumes "tcp6_ok p"
  shows "ExtractPacketInfoV6 p = Some (Some (info6 p))"
proof -
  have l: "60 \<le> length p" "hdrs6 p \<le> length p" "p \<noteq> []" "p ! 6 = 6" using assms by (auto simp: tcp6_ok_def)
  have "tcp6_offset p 6 40 = Some (Some 40)" by (simp add: tcp6_offset.simps)
  then show ?thesis
    using l by (simp add: ExtractPacketInfoV6_def info6_def idx_ok slice_from_ok be32_ok word_at32_def Let_def thl_at_def)
qed

definition var6 :: "nat set" where
  "var6 = {4, 5} \<union> {44 ..< 48} \<union> {53, 56, 57}"

definition flow6 :: "bytes \<Rightarrow> bytes \<Rightarrow> bool" where
  "flow6 p q \<longleftrightarrow> valid6 q \<and> thl_at 40 q = thl_at 40 p \<and> hdrs6 p \<le> length q \<and>
     (\<forall>i < hdrs6 p. i \<notin> var6 \<longrightarrow> q ! i = p ! i) \<and> q ! 53 AND NOT 8 = p ! 53 AND NOT 8"

lemma flow6_facts:
  assumes "flow6 p q"
  shows "valid6 q" "thl_at 40 q = thl_at 40 p" "hdrs6 p \<le> length q"
    "i < hdrs6 p \<Longrightarrow> i \<notin> var6 \<Longrightarrow> q ! i = p ! i" "q ! 53 AND NOT 8 = p ! 53 AND NOT 8"
  using assms by (simp_all add: flow6_def)

definition piece6 :: "bytes \<Rightarrow> bytes \<Rightarrow> uint32 \<times> bytes" where
  "piece6 p q = (word_at32 q 44, drop (hdrs6 p) q)"

lemma BuildSegmentV6_piece:
  assumes "tcp6_ok p" "hdrs6 p + length s < 65576"
  shows "\<exists>q. BuildSegmentV6 p (info6 p) s off = Some q \<and> flow6 p q \<and>
     piece6 p q = (word_at32 p 44 + off, s) \<and> length q = hdrs6 p + length s"
proof -
  define n where "n = 40 + thl_at 40 p"
  have l: "60 \<le> n" "n \<le> length p" using assms(1) by (auto simp: tcp6_ok_def n_def)
  define a where "a = take n p @ s"
  define v where "v = word_at32 p 44 + off"
  define b where "b = set_field (set32 a 44 v) 4 (of_nat (n + length s - 40))"
  have la: "length a = n + length s" using l by (simp add: a_def)
  have lb: "length b = n + length s" by (simp add: b_def la)
  have bn: "b ! i = p ! i" if "i < n" "i \<notin> {4, 5}" "i \<notin> {44 ..< 48}" for i
    using that l by (auto simp: b_def a_def nth_append)
  have hb: "thl_at 40 b = thl_at 40 p" using bn [of 52] l by (simp add: thl_at_def)
  have tb: "40 + plen6 b = length b"
    using assms(2) la lb l unfolding b_def by (subst plen6_set) (auto simp: n_def)
  obtain d where q: "FixTCPChecksumV6 b = Some (set_field b 56 d)" "valid6 (set_field b 56 d)"
    using fix_tcp6 [of b] tb lb l by auto
  let ?q = "set_field b 56 d"
  have "int (n + length s) - 40 = int (n + length s - 40)" using l by simp
  then have sz: "of_int (int (n + length s) - 40) = (of_nat (n + length s - 40) :: uint16)" by (simp only: of_int_of_nat_eq)
  have build: "BuildSegmentV6 p (info6 p) s off = Some ?q"
    using l la q(1) unfolding BuildSegmentV6_def info6_def
    by (simp add: fake_frame_ok put32_set32 put16_set_field sz b_def v_def a_def n_def [symmetric] del: of_nat_add of_nat_diff of_int_diff)
  have "thl_at 40 ?q = thl_at 40 b" by (simp add: thl_at_def)
  then have "thl_at 40 ?q = thl_at 40 p" using hb by simp
  moreover have "?q ! i = p ! i" if "i < n" "i \<notin> var6" for i
  proof -
    have "?q ! i = b ! i" using that(2) by (simp add: var6_def)
    then show ?thesis using bn [of i] that by (simp add: var6_def)
  qed
  moreover have "?q ! 53 = p ! 53" using bn [of 53] l by simp
  ultimately have "flow6 p ?q" using q(2) lb unfolding flow6_def n_def [symmetric] by simp
  moreover have "piece6 p ?q = (v, s)"
  proof -
    have "word_at32 ?q 44 = v"
      using l la by (simp add: b_def word_at32_def) (simp add: word_at32_set32 [unfolded word_at32_def] set32_def set_field_def)
    moreover have "drop n ?q = s"
      using l la by (simp add: b_def drop_set_field_ge drop_set32) (simp add: a_def)
    ultimately show ?thesis by (simp add: piece6_def n_def)
  qed
  ultimately show ?thesis using build lb by (auto simp: v_def n_def)
qed

lemma refix6:
  assumes "valid6 q" "6 \<le> i" "i < 56"
  shows "\<exists>d. FixTCPChecksumV6 (q[i := v]) = Some (set_field (q[i := v]) 56 d) \<and> valid6 (set_field (q[i := v]) 56 d)"
proof -
  have "60 \<le> length (q[i := v])" "40 + plen6 (q[i := v]) = length (q[i := v])"
    using assms by (auto simp: valid6_def tcp6_wf_def plen6_def)
  then show ?thesis by (rule fix_tcp6)
qed

lemma flag_piece6:
  assumes "tcp6_ok p" "flow6 p q" "v AND NOT 8 = q ! 53 AND NOT 8"
  shows "\<exists>r. FixTCPChecksumV6 (q[53 := v]) = Some r \<and> flow6 p r \<and> piece6 p r = piece6 p q \<and> length r = length q"
proof -
  define n where "n = 40 + thl_at 40 p"
  have l: "60 \<le> n" using assms(1) by (auto simp: tcp6_ok_def n_def)
  note f = flow6_facts [OF assms(2), folded n_def]
  let ?q = "q[53 := v]"
  obtain d where d: "FixTCPChecksumV6 ?q = Some (set_field ?q 56 d)" "valid6 (set_field ?q 56 d)"
    using refix6 [OF f(1), of 53 v] by auto
  let ?r = "set_field ?q 56 d"
  have "thl_at 40 ?r = thl_at 40 q" by (simp add: thl_at_def)
  moreover have "?r ! 53 = v" using f(3) l by simp
  moreover have "?r ! i = p ! i" if "i < n" "i \<notin> var6" for i
  proof -
    have "?r ! i = q ! i" using that(2) by (simp add: var6_def)
    then show ?thesis using f(4) [OF that] by simp
  qed
  moreover have "v AND NOT 8 = p ! 53 AND NOT 8" using f(5) assms(3) by argo
  ultimately have "flow6 p ?r"
    using d(2) f(2,3) unfolding flow6_def n_def [symmetric] by (intro conjI allI impI) simp_all
  moreover have "piece6 p ?r = piece6 p q"
    using l by (simp add: piece6_def word_at32_def drop_set_field_ge flip: n_def)
  ultimately show ?thesis using d(1) by auto
qed

lemma psh_piece6:
  assumes "tcp6_ok p" "flow6 p q"
  shows "\<exists>r. (ClearPSH q 40 \<bind> FixTCPChecksumV6) = Some r \<and> flow6 p r \<and> piece6 p r = piece6 p q \<and> length r = length q"
    "\<exists>r. (SetPSH q 40 \<bind> FixTCPChecksumV6) = Some r \<and> flow6 p r \<and> piece6 p r = piece6 p q \<and> length r = length q"
proof -
  have "53 < length q" using flow6_facts(3) [OF assms(2)] assms(1) by (auto simp: tcp6_ok_def)
  then show "\<exists>r. (ClearPSH q 40 \<bind> FixTCPChecksumV6) = Some r \<and> flow6 p r \<and> piece6 p r = piece6 p q \<and> length r = length q"
      "\<exists>r. (SetPSH q 40 \<bind> FixTCPChecksumV6) = Some r \<and> flow6 p r \<and> piece6 p r = piece6 p q \<and> length r = length q"
    using flag_piece6 [OF assms, of "q ! 53 AND NOT 8"] flag_piece6 [OF assms, of "q ! 53 OR 8"]
    by (simp_all add: ClearPSH_def SetPSH_def idx_ok upd_ok psh_mask)
qed

end
