(* ===== verification/Strategies.thy ===== *)
theory Strategies
  imports Segments
begin

text \<open>
  How the worker sends a TCP packet in pieces: \<^verbatim>\<open>src/src/nfq/disorder.go\<close>, \<^verbatim>\<open>combo.go\<close>, \<^verbatim>\<open>extsplit.go\<close>, \<^verbatim>\<open>firstbyte.go\<close>,
  \<^verbatim>\<open>hybrid.go\<close>, \<^verbatim>\<open>tls.go\<close>, \<^verbatim>\<open>oob.go\<close> and the segment, fragment and fake senders of \<^verbatim>\<open>nfq.go\<close>, with their IPv6 copies.

  The code has each strategy twice, once per address family, and the copies differ only in the
  functions they call. Those functions are the fields of \<open>family\<close>; a strategy is written once over a family
  and instantiated for \<open>ip4\<close> and \<open>ip6\<close>. Random numbers are read from \<open>rnd\<close>: 0 to 9 are the ranges of the
  configuration, \<open>100 + i\<close> is the \<open>i\<close>-th exchange of a shuffle, \<open>200 + i\<close> the jitter behind segment \<open>i\<close>.
\<close>

record family =
  f_extract :: "bytes \<Rightarrow> PacketInfo option option"
  f_segment :: "bytes \<Rightarrow> PacketInfo \<Rightarrow> bytes \<Rightarrow> uint32 \<Rightarrow> uint16 \<Rightarrow> bytes option"
  f_overlap :: "bytes \<Rightarrow> PacketInfo \<Rightarrow> bytes \<Rightarrow> nat \<Rightarrow> int \<Rightarrow> bytes \<Rightarrow> uint16 \<Rightarrow> bytes option"
  f_fake :: "bytes \<Rightarrow> PacketInfo \<Rightarrow> nat \<Rightarrow> uint32 \<Rightarrow> bytes \<Rightarrow> byte \<Rightarrow> bytes option option"
  f_first :: "bytes \<Rightarrow> nat \<Rightarrow> nat \<Rightarrow> bytes option"
  f_next :: "bytes \<Rightarrow> nat \<Rightarrow> nat \<Rightarrow> bytes \<Rightarrow> uint32 \<Rightarrow> uint16 \<Rightarrow> bytes option"
  f_fix :: "bytes \<Rightarrow> bytes option"
  f_hdr :: "bytes \<Rightarrow> nat option"
  f_send :: "bytes \<Rightarrow> bytes \<Rightarrow> effect"
  f_two :: "bytes \<Rightarrow> bytes \<Rightarrow> bytes \<Rightarrow> int \<Rightarrow> bool \<Rightarrow> effect list"

text \<open>\<open>seg1\<close> of the splitters in \<^verbatim>\<open>nfq.go\<close>, \<^verbatim>\<open>tls.go\<close> and \<^verbatim>\<open>oob.go\<close>: the first bytes of the packet with a new length\<close>
definition first_segment4 :: "bytes \<Rightarrow> nat \<Rightarrow> nat \<Rightarrow> bytes option" where
  "first_segment4 packet ipHdrLen segLen = do {
     seg \<leftarrow> gslice packet 0 segLen;
     seg \<leftarrow> put16 seg 2 (of_nat segLen);
     seg \<leftarrow> on_prefix FixIPv4Checksum seg ipHdrLen;
     FixTCPChecksum seg }"

definition first_segment6 :: "bytes \<Rightarrow> nat \<Rightarrow> nat \<Rightarrow> bytes option" where
  "first_segment6 packet ipHdrLen segLen = do {
     seg \<leftarrow> gslice packet 0 segLen;
     seg \<leftarrow> put16 seg 4 (of_int (int segLen - 40));
     FixTCPChecksumV6 seg }"

text \<open>The later segments: headers of the packet, new data, sequence number, identification and length\<close>
definition next_segment4 :: "bytes \<Rightarrow> nat \<Rightarrow> nat \<Rightarrow> bytes \<Rightarrow> uint32 \<Rightarrow> uint16 \<Rightarrow> bytes option" where
  "next_segment4 packet ipHdrLen payloadStart data off ido = do {
     seg \<leftarrow> fake_frame packet payloadStart data;
     seq \<leftarrow> be32 packet (ipHdrLen + 4);
     id0 \<leftarrow> be16 packet 4;
     seg \<leftarrow> put32 seg (ipHdrLen + 4) (seq + off);
     seg \<leftarrow> put16 seg 4 (id0 + ido);
     seg \<leftarrow> put16 seg 2 (of_nat (payloadStart + length data));
     seg \<leftarrow> on_prefix FixIPv4Checksum seg ipHdrLen;
     FixTCPChecksum seg }"

definition next_segment6 :: "bytes \<Rightarrow> nat \<Rightarrow> nat \<Rightarrow> bytes \<Rightarrow> uint32 \<Rightarrow> uint16 \<Rightarrow> bytes option" where
  "next_segment6 packet ipHdrLen payloadStart data off ido = do {
     seg \<leftarrow> fake_frame packet payloadStart data;
     seq \<leftarrow> be32 packet (ipHdrLen + 4);
     seg \<leftarrow> put32 seg (ipHdrLen + 4) (seq + off);
     seg \<leftarrow> put16 seg 4 (of_int (int (payloadStart + length data) - 40));
     FixTCPChecksumV6 seg }"

definition ip4 :: family where
  "ip4 = \<lparr>f_extract = ExtractPacketInfoV4, f_segment = BuildSegmentV4, f_overlap = BuildSeqOverlapSegmentV4,
     f_fake = (\<lambda>p i n off pat ttl. BuildFakeOverlapSegmentV4 p i n off 0 pat ttl),
     f_first = first_segment4, f_next = next_segment4, f_fix = FixTCPChecksum,
     f_hdr = (\<lambda>p. map_option hdr4 (idx p 0)), f_send = SendV4, f_two = SendTwoSegmentsV4\<rparr>"

definition ip6 :: family where
  "ip6 = \<lparr>f_extract = ExtractPacketInfoV6, f_segment = (\<lambda>p i s off ido. BuildSegmentV6 p i s off),
     f_overlap = (\<lambda>p i s so n pat ido. BuildSeqOverlapSegmentV6 p i s so n pat), f_fake = BuildFakeOverlapSegmentV6,
     f_first = first_segment6, f_next = next_segment6, f_fix = FixTCPChecksumV6,
     f_hdr = (\<lambda>p. Some 40), f_send = SendV6, f_two = SendTwoSegmentsV6\<rparr>"

definition seg2_delay :: "env \<Rightarrow> SetConfig \<Rightarrow> int" where
  "seg2_delay e cfg = ResolveRange (int (rnd e 0)) (tcp_Seg2Delay (TCP cfg)) (tcp_Seg2DelayMax (TCP cfg))"

section \<open>First byte and extension split\<close>

text \<open>The first of two segments is sent without PSH.\<close>
definition quiet_segment :: "family \<Rightarrow> bytes \<Rightarrow> PacketInfo \<Rightarrow> bytes \<Rightarrow> bytes option" where
  "quiet_segment F packet pi s = do {
     seg \<leftarrow> f_segment F packet pi s 0 0;
     seg \<leftarrow> ClearPSH seg (IPHdrLen pi);
     f_fix F seg }"

definition firstbyte :: "family \<Rightarrow> (PacketInfo \<Rightarrow> int \<Rightarrow> int) \<Rightarrow> env \<Rightarrow> SetConfig \<Rightarrow> bytes \<Rightarrow> bytes \<Rightarrow> effect list option" where
  "firstbyte F jit e cfg packet dst = do {
     r \<leftarrow> f_extract F packet;
     case r of None \<Rightarrow> Some [f_send F packet dst]
     | Some pi \<Rightarrow>
         if PayloadLen pi < 2 then Some [f_send F packet dst]
         else do {
           s \<leftarrow> gslice (Payload pi) 0 1;
           seg1 \<leftarrow> quiet_segment F packet pi s;
           s \<leftarrow> slice_from (Payload pi) 1;
           seg2 \<leftarrow> f_segment F packet pi s 1 1;
           let delay = (if seg2_delay e cfg < 10 then 30 else seg2_delay e cfg);
           Some [f_send F seg1 dst, Pause (duration (delay + jit pi delay) Millisecond), f_send F seg2 dst] } }"

definition sendFirstByteDesync :: "env \<Rightarrow> SetConfig \<Rightarrow> bytes \<Rightarrow> bytes \<Rightarrow> effect list option" where
  "sendFirstByteDesync = firstbyte ip4 (\<lambda>pi delay. int (unat (ID0 pi)) mod (delay div 3 + 1))"

definition sendFirstByteDesyncV6 :: "env \<Rightarrow> SetConfig \<Rightarrow> bytes \<Rightarrow> bytes \<Rightarrow> effect list option" where
  "sendFirstByteDesyncV6 = firstbyte ip6 (\<lambda>pi delay. int (unat (Seq0 pi)) mod (delay div 3 + 1))"

section \<open>Segments at one or two positions\<close>

text \<open>The position in the server name\<close>
definition sni_position :: "bytes \<Rightarrow> int option option" where
  "sni_position payload = do {
     r \<leftarrow> locateSNI payload;
     Some (case r of None \<Rightarrow> None
       | Some (s, e) \<Rightarrow>
           if int e - int s \<ge> 4 then
             let sniLen = int e - int s
             in Some (if sniLen > 30 then int e - 12 else int s + sniLen div 2)
           else None) }"

text \<open>The two positions, with \<open>validP1\<close> and \<open>validP2\<close>\<close>
definition split_positions :: "int \<Rightarrow> int \<Rightarrow> int \<Rightarrow> (int \<times> bool) \<times> (int \<times> bool)" where
  "split_positions p1 p2 payloadLen =
     (let validP1 = (p1 > 0 \<and> p1 < payloadLen);
          p2 = (if p2 \<ge> payloadLen then payloadLen - 1 else p2);
          validP2 = (p2 > 0 \<and> p2 < payloadLen \<and> (\<not> validP1 \<or> p2 \<noteq> p1));
          (p1, validP1) = (if \<not> validP1 \<and> \<not> validP2 then (1, 1 < payloadLen) else (p1, validP1));
          (p1, p2) = (if validP1 \<and> validP2 \<and> p2 < p1 then (p2, p1) else (p1, p2))
      in ((p1, validP1), (p2, validP2)))"

text \<open>A slice expression whose bounds may be negative\<close>
definition islice :: "bytes \<Rightarrow> int \<Rightarrow> int \<Rightarrow> bytes option" where
  "islice b i j = (if i < 0 \<or> j < 0 then None else gslice b (nat i) (nat j))"

text \<open>Three segments when both positions hold, otherwise two\<close>
definition cut_at ::
  "family \<Rightarrow> bytes \<Rightarrow> bytes \<Rightarrow> nat \<Rightarrow> nat \<Rightarrow> bytes \<Rightarrow> int \<Rightarrow> bool \<Rightarrow> (int \<times> bool) \<times> (int \<times> bool) \<Rightarrow> effect list option" where
  "cut_at F packet dst ipHdrLen payloadStart payload seg2d reverse pos = (case pos of ((p1, validP1), (p2, validP2)) \<Rightarrow>
     if validP1 \<and> validP2 then do {
       seg1 \<leftarrow> f_first F packet ipHdrLen (payloadStart + nat p1);
       s \<leftarrow> islice payload p1 p2;
       seg2 \<leftarrow> f_next F packet ipHdrLen payloadStart s (of_int p1) 1;
       s \<leftarrow> islice payload p2 (int (length payload));
       seg3 \<leftarrow> f_next F packet ipHdrLen payloadStart s (of_int p2) 2;
       Some (if reverse
             then f_send F seg2 dst # pause_ms seg2d @ f_send F seg1 dst # pause_ms seg2d @ [f_send F seg3 dst]
             else f_send F seg1 dst # pause_ms seg2d @ f_send F seg2 dst # pause_ms seg2d @ [f_send F seg3 dst]) }
     else do {
       let splitPos = (if validP1 then p1 else p2);
       let seg1Len = int payloadStart + splitPos;
       seg1 \<leftarrow> (if seg1Len < 0 then None else f_first F packet ipHdrLen (nat seg1Len));
       s \<leftarrow> islice packet (int payloadStart + splitPos) (int (length packet));
       seg2 \<leftarrow> f_next F packet ipHdrLen payloadStart s (of_int splitPos) 1;
       Some (f_two F seg1 seg2 dst seg2d reverse) })"

definition tcp_fragments :: "family \<Rightarrow> env \<Rightarrow> SetConfig \<Rightarrow> bytes \<Rightarrow> bytes \<Rightarrow> effect list option" where
  "tcp_fragments F e cfg packet dst = do {
     let seg2d = seg2_delay e cfg;
     ipHdrLen \<leftarrow> f_hdr F packet;
     d \<leftarrow> idx packet (ipHdrLen + 12);
     let payloadStart = ipHdrLen + doff d;
     let payloadLen = int (length packet) - int payloadStart;
     if payloadLen \<le> 0 then Some [f_send F packet dst]
     else do {
       payload \<leftarrow> slice_from packet payloadStart;
       p2 \<leftarrow> (if MiddleSNI (Fragmentation cfg) then do { r \<leftarrow> sni_position payload; Some (case r of Some p \<Rightarrow> p | None \<Rightarrow> - 1) }
              else Some (- 1));
       cut_at F packet dst ipHdrLen payloadStart payload seg2d (frag_ReverseOrder (Fragmentation cfg))
         (split_positions (ResolveRange (int (rnd e 1)) (SNIPosition (Fragmentation cfg)) (SNIPositionMax (Fragmentation cfg)))
            p2 payloadLen) } }"

definition sendTCPFragments :: "env \<Rightarrow> SetConfig \<Rightarrow> bytes \<Rightarrow> bytes \<Rightarrow> effect list option" where
  "sendTCPFragments = tcp_fragments ip4"

definition sendTCPSegmentsv6 :: "env \<Rightarrow> SetConfig \<Rightarrow> bytes \<Rightarrow> bytes \<Rightarrow> effect list option" where
  "sendTCPSegmentsv6 = tcp_fragments ip6"

definition extsplit :: "family \<Rightarrow> env \<Rightarrow> SetConfig \<Rightarrow> bytes \<Rightarrow> bytes \<Rightarrow> effect list option" where
  "extsplit F e cfg packet dst = do {
     r \<leftarrow> f_extract F packet;
     case r of None \<Rightarrow> Some [f_send F packet dst]
     | Some pi \<Rightarrow>
         if PayloadLen pi < 50 then Some [f_send F packet dst]
         else do {
           splitPos \<leftarrow> findPreSNIExtensionPoint (Payload pi);
           if splitPos \<le> 5 \<or> splitPos \<ge> int (PayloadLen pi) - 10 then tcp_fragments F e cfg packet dst
           else do {
             s \<leftarrow> gslice (Payload pi) 0 (nat splitPos);
             seg1 \<leftarrow> quiet_segment F packet pi s;
             s \<leftarrow> slice_from (Payload pi) (nat splitPos);
             seg2 \<leftarrow> f_segment F packet pi s (of_int splitPos) 1;
             Some (f_two F seg1 seg2 dst (seg2_delay e cfg) (frag_ReverseOrder (Fragmentation cfg))) } } }"

definition sendExtSplitFragments :: "env \<Rightarrow> SetConfig \<Rightarrow> bytes \<Rightarrow> bytes \<Rightarrow> effect list option" where
  "sendExtSplitFragments = extsplit ip4"

definition sendExtSplitFragmentsV6 :: "env \<Rightarrow> SetConfig \<Rightarrow> bytes \<Rightarrow> bytes \<Rightarrow> effect list option" where
  "sendExtSplitFragmentsV6 = extsplit ip6"

definition tls_fragments :: "family \<Rightarrow> env \<Rightarrow> SetConfig \<Rightarrow> bytes \<Rightarrow> bytes \<Rightarrow> effect list option" where
  "tls_fragments F e cfg packet dst = do {
     ipHdrLen \<leftarrow> f_hdr F packet;
     d \<leftarrow> idx packet (ipHdrLen + 12);
     let payloadStart = ipHdrLen + doff d;
     payload \<leftarrow> slice_from packet payloadStart;
     let payloadLen = length payload;
     tls \<leftarrow> (if payloadLen < 5 then Some False else do { b \<leftarrow> idx payload 0; Some (b = 0x16) });
     if \<not> tls then Some [f_send F packet dst]
     else do {
       let splitPos = ResolveRange (int (rnd e 2)) (TLSRecordPosition (Fragmentation cfg)) (TLSRecordPositionMax (Fragmentation cfg));
       let splitPos = (if splitPos \<le> 0 then 1 else splitPos);
       let absoluteSplit = 5 + splitPos;
       let absoluteSplit = (if absoluteSplit \<ge> int payloadLen then int (payloadLen div 2) else absoluteSplit);
       let absoluteSplit = nat (if absoluteSplit < 6 then 6 else absoluteSplit);
       seg1 \<leftarrow> f_first F packet ipHdrLen (payloadStart + absoluteSplit);
       s \<leftarrow> slice_from packet (payloadStart + absoluteSplit);
       seg2 \<leftarrow> f_next F packet ipHdrLen payloadStart s (of_nat absoluteSplit) 1;
       Some (f_two F seg1 seg2 dst (seg2_delay e cfg) (frag_ReverseOrder (Fragmentation cfg))) } }"

definition sendTLSFragments :: "env \<Rightarrow> SetConfig \<Rightarrow> bytes \<Rightarrow> bytes \<Rightarrow> effect list option" where
  "sendTLSFragments = tls_fragments ip4"

definition sendTLSFragmentsV6 :: "env \<Rightarrow> SetConfig \<Rightarrow> bytes \<Rightarrow> bytes \<Rightarrow> effect list option" where
  "sendTLSFragmentsV6 = tls_fragments ip6"

section \<open>Many segments\<close>

text \<open>\<open>ResolveRange\<close> clamped to 1..11\<close>
definition fake_count :: "int \<Rightarrow> int \<Rightarrow> int \<Rightarrow> nat" where
  "fake_count r lo hi = (let n = ResolveRange r lo hi in nat (if n \<le> 0 then 1 else if n > 11 then 11 else n))"

definition seg_fakes ::
  "family \<Rightarrow> SetConfig \<Rightarrow> bytes \<Rightarrow> PacketInfo \<Rightarrow> bytes \<Rightarrow> bool \<Rightarrow> nat \<Rightarrow> nat \<Rightarrow> Segment \<Rightarrow> effect list option" where
  "seg_fakes F cfg packet pi dst fakePerSeg fakePerSegCount i seg =
     (let seqovlPattern = SeqOverlapBytes (Fragmentation cfg);
          payloadLen = length (sg_Data seg) - PayloadStart pi
      in if (fakePerSeg \<or> i = 0) \<and> length seqovlPattern > 0 \<and> length seqovlPattern \<le> payloadLen
         then repeat_send 0 fakePerSegCount (\<lambda>f. do {
           fakeSeg \<leftarrow> f_fake F packet pi payloadLen (sg_Seq seg - Seq0 pi) seqovlPattern (TTL (Faking cfg));
           Some (case fakeSeg of Some q \<Rightarrow> [f_send F q dst, Pause (50 * Microsecond)] | None \<Rightarrow> []) })
         else Some [])"

text \<open>The loop that sends the segments; \<open>gap i lst\<close> is the pause behind segment \<open>i\<close>, the last one if \<open>lst\<close>.\<close>
fun send_loop ::
  "family \<Rightarrow> SetConfig \<Rightarrow> bytes \<Rightarrow> PacketInfo \<Rightarrow> bytes \<Rightarrow> bool \<Rightarrow> nat \<Rightarrow> (nat \<Rightarrow> bool \<Rightarrow> effect list) \<Rightarrow> nat \<Rightarrow>
   Segment list \<Rightarrow> effect list option" where
  "send_loop F cfg packet pi dst perSeg cnt gap i [] = Some []"
| "send_loop F cfg packet pi dst perSeg cnt gap i (seg # segs) = do {
     fakes \<leftarrow> seg_fakes F cfg packet pi dst perSeg cnt i seg;
     rest \<leftarrow> send_loop F cfg packet pi dst perSeg cnt gap (Suc i) segs;
     Some (fakes @ f_send F (sg_Data seg) dst # gap i (segs = []) @ rest) }"

fun disorder_loop :: "family \<Rightarrow> bytes \<Rightarrow> PacketInfo \<Rightarrow> nat \<Rightarrow> nat list \<Rightarrow> Segment list option" where
  "disorder_loop F packet pi i (start # stop # xs) = do {
     realPayload \<leftarrow> gslice (Payload pi) start stop;
     seg \<leftarrow> f_segment F packet pi realPayload (of_nat start) (of_nat i);
     seg \<leftarrow> (if xs \<noteq> [] then do { seg \<leftarrow> ClearPSH seg (IPHdrLen pi); f_fix F seg } else Some seg);
     rest \<leftarrow> disorder_loop F packet pi (Suc i) (stop # xs);
     Some (\<lparr>sg_Data = seg, sg_Seq = Seq0 pi + of_nat start\<rparr> # rest) }"
| "disorder_loop F packet pi i xs = Some []"

definition disorder_overlap :: "family \<Rightarrow> SetConfig \<Rightarrow> bytes \<Rightarrow> PacketInfo \<Rightarrow> Segment list \<Rightarrow> Segment list option" where
  "disorder_overlap F cfg packet pi segments =
     (let seqovlPattern = SeqOverlapBytes (Fragmentation cfg); seqovlLength = SeqOverlapLength (Fragmentation cfg) in
      if \<not> (seqovlLength > 0 \<and> length seqovlPattern > 0 \<and> length segments \<ge> 2) then Some segments
      else do {
        second \<leftarrow> idx segments 1;
        let startOff = unat (sg_Seq second - Seq0 pi);
        let payloadLen = length (sg_Data second) - PayloadStart pi;
        if \<not> (seqovlLength < int startOff \<and> startOff + payloadLen \<le> PayloadLen pi) then Some segments
        else do {
          origPayload \<leftarrow> gslice (Payload pi) startOff (startOff + payloadLen);
          newData \<leftarrow> f_overlap F packet pi origPayload startOff seqovlLength seqovlPattern 1;
          newData \<leftarrow> (if length segments > 2 then do { d \<leftarrow> ClearPSH newData (IPHdrLen pi); f_fix F d } else Some newData);
          upd segments 1 \<lparr>sg_Data = newData, sg_Seq = Seq0 pi + of_nat startOff - of_int seqovlLength\<rparr> } })"

definition disorder_gap :: "env \<Rightarrow> SetConfig \<Rightarrow> nat \<Rightarrow> bool \<Rightarrow> effect list" where
  "disorder_gap e cfg i lst =
     (let (minJitter, maxJitter) = GetDisorderJitter (Disorder (Fragmentation cfg)); seg2d = seg2_delay e cfg in
      if lst then []
      else if seg2d > 0 then [Pause (duration (seg2d + int (rnd e (200 + i))) Millisecond)]
      else [Pause (duration (minJitter + int (rnd e (200 + i))) Microsecond)])"

definition disorder :: "family \<Rightarrow> env \<Rightarrow> SetConfig \<Rightarrow> bytes \<Rightarrow> bytes \<Rightarrow> effect list option" where
  "disorder F e cfg packet dst = do {
     r \<leftarrow> f_extract F packet;
     case r of None \<Rightarrow> Some [f_send F packet dst]
     | Some pi \<Rightarrow>
         if PayloadLen pi < 10 then Some [f_send F packet dst]
         else do {
           splits \<leftarrow> GetSNISplitPoints (Payload pi) (PayloadLen pi) (MiddleSNI (Fragmentation cfg)) 0;
           let splits = (if length splits = 0 then [1, PayloadLen pi div 2, PayloadLen pi * 3 div 4] else splits);
           segments \<leftarrow> disorder_loop F packet pi 0 (BuildValidSplits splits (PayloadLen pi));
           segments \<leftarrow> disorder_overlap F cfg packet pi segments;
           segments \<leftarrow> ShuffleSegments (\<lambda>i. rnd e (100 + i)) segments (dis_ShuffleMode (Disorder (Fragmentation cfg)));
           segments \<leftarrow> SetMaxSeqPSH segments (IPHdrLen pi) (f_fix F);
           let dis = Disorder (Fragmentation cfg);
           send_loop F cfg packet pi dst (dis_FakePerSegment dis)
             (fake_count (int (rnd e 3)) (dis_FakePerSegCount dis) (dis_FakePerSegCountMax dis)) (disorder_gap e cfg) 0 segments } }"

definition sendDisorderFragments :: "env \<Rightarrow> SetConfig \<Rightarrow> bytes \<Rightarrow> bytes \<Rightarrow> effect list option" where
  "sendDisorderFragments = disorder ip4"

definition sendDisorderFragmentsV6 :: "env \<Rightarrow> SetConfig \<Rightarrow> bytes \<Rightarrow> bytes \<Rightarrow> effect list option" where
  "sendDisorderFragmentsV6 = disorder ip6"

section \<open>Combo\<close>

text \<open>The segments up to the last split point, and where they end\<close>
fun combo_loop :: "family \<Rightarrow> bytes \<Rightarrow> PacketInfo \<Rightarrow> nat \<Rightarrow> nat \<Rightarrow> nat list \<Rightarrow> (Segment list \<times> nat) option" where
  "combo_loop F packet pi i prevEnd [] = Some ([], prevEnd)"
| "combo_loop F packet pi i prevEnd (splitPos # xs) =
     (if splitPos \<le> prevEnd then combo_loop F packet pi (Suc i) prevEnd xs
      else do {
        s \<leftarrow> gslice (Payload pi) prevEnd splitPos;
        seg \<leftarrow> f_segment F packet pi s (of_nat prevEnd) (of_nat i);
        (rest, stop) \<leftarrow> combo_loop F packet pi (Suc i) splitPos xs;
        Some (\<lparr>sg_Data = seg, sg_Seq = Seq0 pi + of_nat prevEnd\<rparr> # rest, stop) })"

definition combo_segments :: "family \<Rightarrow> bytes \<Rightarrow> PacketInfo \<Rightarrow> nat list \<Rightarrow> Segment list option" where
  "combo_segments F packet pi splits = do {
     (segments, prevEnd) \<leftarrow> combo_loop F packet pi 0 0 splits;
     if prevEnd < PayloadLen pi then do {
       s \<leftarrow> slice_from (Payload pi) prevEnd;
       seg \<leftarrow> f_segment F packet pi s (of_nat prevEnd) (of_nat (length segments));
       Some (segments @ [\<lparr>sg_Data = seg, sg_Seq = Seq0 pi + of_nat prevEnd\<rparr>]) }
     else Some segments }"

definition combo_overlap :: "family \<Rightarrow> SetConfig \<Rightarrow> bytes \<Rightarrow> PacketInfo \<Rightarrow> Segment list \<Rightarrow> Segment list option" where
  "combo_overlap F cfg packet pi segments =
     (let seqovlPattern = SeqOverlapBytes (Fragmentation cfg); seqovlLength = SeqOverlapLength (Fragmentation cfg) in
      if \<not> (seqovlLength > 0 \<and> length seqovlPattern > 0) then Some segments
      else do {
        first \<leftarrow> idx segments 0;
        let startOff = unat (sg_Seq first - Seq0 pi);
        let payloadLen = length (sg_Data first) - PayloadStart pi;
        if startOff + payloadLen \<le> PayloadLen pi then do {
          origPayload \<leftarrow> gslice (Payload pi) startOff (startOff + payloadLen);
          d \<leftarrow> f_overlap F packet pi origPayload startOff seqovlLength seqovlPattern 0;
          upd segments 0 \<lparr>sg_Data = d, sg_Seq = Seq0 pi + of_nat startOff - of_int seqovlLength\<rparr> }
        else Some segments })"

definition combo_gap :: "env \<Rightarrow> SetConfig \<Rightarrow> nat \<Rightarrow> bool \<Rightarrow> effect list" where
  "combo_gap e cfg i lst =
     (let combo = Combo (Fragmentation cfg);
          firstDelayMs = ResolveRange (int (rnd e 4)) (FirstDelayMs combo) (FirstDelayMsMax combo);
          firstDelayMs = (if firstDelayMs \<le> 0 then 100 else firstDelayMs)
      in if i = 0 then [Pause (duration (firstDelayMs + int (rnd e 200)) Millisecond)]
         else if \<not> lst then [Pause (duration (int (rnd e (200 + i))) Microsecond)]
         else [])"

text \<open>The decoy: the headers with a built-in payload and a low TTL, in two segments\<close>
definition decoy_frame4 :: "SetConfig \<Rightarrow> bytes \<Rightarrow> PacketInfo \<Rightarrow> bytes \<Rightarrow> bytes option" where
  "decoy_frame4 cfg packet pi fakeBlob = do {
     p \<leftarrow> fake_frame packet (PayloadStart pi) fakeBlob;
     p \<leftarrow> put16 p 2 (of_nat (PayloadStart pi + length fakeBlob));
     ttl \<leftarrow> dynamicTTL packet False (TTL (Faking cfg));
     p \<leftarrow> upd p 8 ttl;
     p \<leftarrow> on_prefix FixIPv4Checksum p (IPHdrLen pi);
     FixTCPChecksum p }"

definition decoy_frame6 :: "SetConfig \<Rightarrow> bytes \<Rightarrow> PacketInfo \<Rightarrow> bytes \<Rightarrow> bytes option" where
  "decoy_frame6 cfg packet pi fakeBlob = do {
     p \<leftarrow> fake_frame packet (PayloadStart pi) fakeBlob;
     p \<leftarrow> put16 p 4 (of_int (int (PayloadStart pi + length fakeBlob) - 40));
     ttl \<leftarrow> dynamicTTL packet True (TTL (Faking cfg));
     p \<leftarrow> upd p 7 ttl;
     FixTCPChecksumV6 p }"

text \<open>\<open>blob\<close> is the result of \<open>sock.GetPayload\<close>.\<close>
definition decoy ::
  "family \<Rightarrow> (SetConfig \<Rightarrow> bytes \<Rightarrow> PacketInfo \<Rightarrow> bytes \<Rightarrow> bytes option) \<Rightarrow> bytes \<Rightarrow> env \<Rightarrow> SetConfig \<Rightarrow> bytes \<Rightarrow> PacketInfo \<Rightarrow>
   bytes \<Rightarrow> effect list option" where
  "decoy F frame blob e cfg packet pi dst =
     (if length blob < 3 then Some []
      else do {
        let fakeBlob = take 680 blob;
        fakePacket \<leftarrow> frame cfg packet pi fakeBlob;
        s \<leftarrow> gslice fakeBlob 0 2;
        seg1 \<leftarrow> quiet_segment F fakePacket pi s;
        s \<leftarrow> slice_from fakeBlob 2;
        seg2 \<leftarrow> f_segment F fakePacket pi s 2 1;
        Some ([f_send F seg1 dst, Pause (50 * Microsecond), f_send F seg2 dst] @ pause_ms (seg2_delay e cfg)) })"

definition combo_with ::
  "family \<Rightarrow> (SetConfig \<Rightarrow> bytes \<Rightarrow> PacketInfo \<Rightarrow> bytes \<Rightarrow> bytes option) \<Rightarrow> bytes \<Rightarrow> env \<Rightarrow> SetConfig \<Rightarrow> bytes \<Rightarrow> bytes \<Rightarrow>
   effect list option" where
  "combo_with F frame blob e cfg packet dst = do {
     r \<leftarrow> f_extract F packet;
     case r of None \<Rightarrow> Some [f_send F packet dst]
     | Some pi \<Rightarrow>
         if PayloadLen pi < 20 then Some [f_send F packet dst]
         else do {
           let combo = Combo (Fragmentation cfg);
           ds \<leftarrow> (if DecoyEnabled combo then decoy F frame blob e cfg packet pi dst else Some []);
           splits \<leftarrow> GetComboSplitPoints (Payload pi) (PayloadLen pi) combo (MiddleSNI (Fragmentation cfg));
           let splits = uniqueSorted splits (PayloadLen pi);
           let splits = (if length splits < 1 then [PayloadLen pi div 2] else splits);
           segments \<leftarrow> combo_segments F packet pi splits;
           if length segments = 0 then Some (ds @ [f_send F packet dst])
           else do {
             segments \<leftarrow> combo_overlap F cfg packet pi segments;
             segments \<leftarrow> ShuffleSegments (\<lambda>i. rnd e (100 + i)) segments (combo_ShuffleMode combo);
             segments \<leftarrow> SetMaxSeqPSH segments (IPHdrLen pi) (f_fix F);
             es \<leftarrow> send_loop F cfg packet pi dst (combo_FakePerSegment combo)
               (fake_count (int (rnd e 3)) (combo_FakePerSegCount combo) (combo_FakePerSegCountMax combo)) (combo_gap e cfg) 0 segments;
             Some (ds @ es) } } }"

definition sendDecoyPacket :: "bytes \<Rightarrow> env \<Rightarrow> SetConfig \<Rightarrow> bytes \<Rightarrow> PacketInfo \<Rightarrow> bytes \<Rightarrow> effect list option" where
  "sendDecoyPacket = decoy ip4 decoy_frame4"

definition sendDecoyPacketV6 :: "bytes \<Rightarrow> env \<Rightarrow> SetConfig \<Rightarrow> bytes \<Rightarrow> PacketInfo \<Rightarrow> bytes \<Rightarrow> effect list option" where
  "sendDecoyPacketV6 = decoy ip6 decoy_frame6"

definition sendComboFragments :: "bytes \<Rightarrow> env \<Rightarrow> SetConfig \<Rightarrow> bytes \<Rightarrow> bytes \<Rightarrow> effect list option" where
  "sendComboFragments = combo_with ip4 decoy_frame4"

definition sendComboFragmentsV6 :: "bytes \<Rightarrow> env \<Rightarrow> SetConfig \<Rightarrow> bytes \<Rightarrow> bytes \<Rightarrow> effect list option" where
  "sendComboFragmentsV6 = combo_with ip6 decoy_frame6"

section \<open>Hybrid\<close>

definition hybrid_choice ::
  "(effect list option) \<Rightarrow> (effect list option) \<Rightarrow> (effect list option) \<Rightarrow> (effect list option) \<Rightarrow> bytes \<Rightarrow> effect list option" where
  "hybrid_choice combo dis ext fb payload = do {
     extSplit \<leftarrow> findPreSNIExtensionPoint payload;
     r \<leftarrow> locateSNI payload;
     let long = (case r of Some (s, e) \<Rightarrow> int e - int s > 6 | None \<Rightarrow> False);
     if extSplit > 5 \<and> long then combo
     else if long then dis
     else if extSplit > 5 then ext
     else fb }"

definition sendHybridFragments :: "bytes \<Rightarrow> env \<Rightarrow> SetConfig \<Rightarrow> bytes \<Rightarrow> bytes \<Rightarrow> effect list option" where
  "sendHybridFragments blob e cfg packet dst = do {
     b0 \<leftarrow> idx packet 0;
     let ipHdrLen = hdr4 b0;
     d \<leftarrow> idx packet (ipHdrLen + 12);
     let payloadStart = ipHdrLen + doff d;
     if int (length packet) - int payloadStart < 10 then Some [SendV4 packet dst]
     else do {
       payload \<leftarrow> slice_from packet payloadStart;
       hybrid_choice (sendComboFragments blob e cfg packet dst) (sendDisorderFragments e cfg packet dst)
         (sendExtSplitFragments e cfg packet dst) (sendFirstByteDesync e cfg packet dst) payload } }"

definition sendHybridFragmentsV6 :: "bytes \<Rightarrow> env \<Rightarrow> SetConfig \<Rightarrow> bytes \<Rightarrow> bytes \<Rightarrow> effect list option" where
  "sendHybridFragmentsV6 blob e cfg packet dst =
     (if length packet < 40 + 20 then Some [SendV6 packet dst]
      else do {
        d \<leftarrow> idx packet (40 + 12);
        let payloadStart = 40 + doff d;
        if int (length packet) - int payloadStart < 10 then Some [SendV6 packet dst]
        else do {
          payload \<leftarrow> slice_from packet payloadStart;
          hybrid_choice (sendComboFragmentsV6 blob e cfg packet dst) (sendDisorderFragmentsV6 e cfg packet dst)
            (sendExtSplitFragmentsV6 e cfg packet dst) (sendFirstByteDesyncV6 e cfg packet dst) payload } })"

section \<open>The family interface\<close>

text \<open>The packets that leave towards the server\<close>
definition sent :: "effect list \<Rightarrow> bytes list" where
  "sent es = concat (map (\<lambda>f. case f of SendV4 q d \<Rightarrow> [q] | SendV6 q d \<Rightarrow> [q] | _ \<Rightarrow> []) es)"

lemma sent_simps [simp]:
  "sent [] = []" "sent (SendV4 q d # es) = q # sent es" "sent (SendV6 q d # es) = q # sent es"
  "sent (Pause n # es) = sent es" "sent (a @ b) = sent a @ sent b"
  by (simp_all add: sent_def)

lemma sent_pause [simp]: "sent (pause_ms d) = []"
  by (simp add: pause_ms_def)

text \<open>The strategy returns; it sends the packet itself, or packets of its flow that carry its payload.\<close>
definition kept :: "(bytes \<Rightarrow> bool) \<Rightarrow> (bytes \<Rightarrow> uint32 \<times> bytes) \<Rightarrow> bytes \<Rightarrow> PacketInfo \<Rightarrow> effect list option \<Rightarrow> bool" where
  "kept flow piece p pi r \<longleftrightarrow> (\<exists>es. r = Some es \<and> (sent es = [p] \<or>
     (\<forall>q \<in> set (sent es). flow q) \<and> assembles (Seq0 pi) (map piece (sent es)) (Payload pi)))"

lemma keptI:
  assumes "\<forall>q \<in> set (sent es). flow q" "assembles (Seq0 pi) (map piece (sent es)) (Payload pi)"
  shows "kept flow piece p pi (Some es)"
  using assms by (auto simp: kept_def)

text \<open>
  What the strategies need of an address family: the packet is understood, a segment built for a slice of the payload is a
  valid packet of the flow with that slice at that place, and changing PSH keeps it so.
\<close>
locale tcp_family =
  fixes F :: family
    and wf :: "bytes \<Rightarrow> bool"
    and info :: "bytes \<Rightarrow> PacketInfo"
    and flow :: "bytes \<Rightarrow> bytes \<Rightarrow> bool"
    and piece :: "bytes \<Rightarrow> bytes \<Rightarrow> uint32 \<times> bytes"
    and cap :: nat
  assumes parsed: "wf p \<Longrightarrow> f_extract F p = Some (Some (info p))"
    and payload: "wf p \<Longrightarrow> Payload (info p) = drop (PayloadStart (info p)) p"
    and payload_len: "wf p \<Longrightarrow> PayloadLen (info p) = length p - PayloadStart (info p)"
    and start: "wf p \<Longrightarrow> PayloadStart (info p) \<le> length p"
    and hdr: "wf p \<Longrightarrow> f_hdr F p = Some (IPHdrLen (info p))"
    and offset: "wf p \<Longrightarrow> \<exists>d. idx p (IPHdrLen (info p) + 12) = Some d \<and> IPHdrLen (info p) + doff d = PayloadStart (info p)"
    and segment: "wf p \<Longrightarrow> PayloadStart (info p) + length s < cap \<Longrightarrow>
      \<exists>q. f_segment F p (info p) s off ido = Some q \<and> flow p q \<and> piece p q = (Seq0 (info p) + off, s)"
    and clear: "wf p \<Longrightarrow> flow p q \<Longrightarrow>
      \<exists>r. (ClearPSH q (IPHdrLen (info p)) \<bind> f_fix F) = Some r \<and> flow p r \<and> piece p r = piece p q"
    and push: "wf p \<Longrightarrow> flow p q \<Longrightarrow>
      \<exists>r. (SetPSH q (IPHdrLen (info p)) \<bind> f_fix F) = Some r \<and> flow p r \<and> piece p r = piece p q"
    and first_seg: "wf p \<Longrightarrow> PayloadStart (info p) \<le> n \<Longrightarrow> n \<le> length p \<Longrightarrow>
      f_first F p (IPHdrLen (info p)) n = f_segment F p (info p) (take (n - PayloadStart (info p)) (Payload (info p))) 0 0"
    and next_seg: "wf p \<Longrightarrow> f_next F p (IPHdrLen (info p)) (PayloadStart (info p)) s off ido = f_segment F p (info p) s off ido"
    and send: "sent [f_send F q dst] = [q]"
    and two: "mset (sent (f_two F a b dst d r)) = {#a, b#}"
begin

abbreviation keeps :: "bytes \<Rightarrow> effect list option \<Rightarrow> bool" where
  "keeps p \<equiv> kept (flow p) (piece p) p (info p)"

lemma sent_send [simp]: "sent (f_send F q dst # es) = q # sent es"
  using send [of q dst] sent_simps(5) [of "[f_send F q dst]" es] by simp

lemma keeps_same [simp]: "keeps p (Some [f_send F p dst])"
  by (simp add: kept_def)

lemma keeps_perm:
  assumes "mset (sent es) = mset qs" "\<forall>q \<in> set qs. flow p q" "assembles (Seq0 (info p)) (map (piece p) qs) (Payload (info p))"
  shows "keeps p (Some es)"
proof (rule keptI)
  show "\<forall>q \<in> set (sent es). flow p q" using assms(2) mset_eq_setD [OF assms(1)] by simp
  show "assembles (Seq0 (info p)) (map (piece p) (sent es)) (Payload (info p))"
    by (rule assembles_perm [OF assms(3)]) (simp add: assms(1))
qed

lemma quiet:
  assumes "wf p" "PayloadStart (info p) + length s < cap"
  shows "\<exists>q. quiet_segment F p (info p) s = Some q \<and> flow p q \<and> piece p q = (Seq0 (info p), s)"
proof -
  obtain q where q: "f_segment F p (info p) s 0 0 = Some q" "flow p q" "piece p q = (Seq0 (info p), s)"
    using segment [OF assms, of 0 0] by auto
  then show ?thesis using clear [OF assms(1) q(2)] by (auto simp: quiet_segment_def)
qed

lemma fits: "wf p \<Longrightarrow> length p < cap \<Longrightarrow> length s \<le> PayloadLen (info p) \<Longrightarrow> PayloadStart (info p) + length s < cap"
  using start [of p] payload_len [of p] by simp

lemma lengths: "wf p \<Longrightarrow> length (Payload (info p)) = PayloadLen (info p)"
  by (simp add: payload payload_len)

text \<open>Two segments that meet at position \<open>n\<close>\<close>
lemma meet:
  assumes "n \<le> length x"
  shows "assembles s [(s, take n x), (s + of_nat n, drop n x)] x"
  using cuts_assemble [of "[n, length x]" x s] assms by simp

lemma firstbyte_keeps:
  assumes "wf p" "length p < cap"
  shows "keeps p (firstbyte F jit e cfg p dst)"
proof (cases "PayloadLen (info p) < 2")
  case True
  then show ?thesis by (simp add: firstbyte_def parsed assms(1))
next
  case False
  let ?x = "Payload (info p)"
  have l: "length ?x = PayloadLen (info p)" using lengths assms(1) by simp
  obtain q1 where q1: "quiet_segment F p (info p) (take 1 ?x) = Some q1" "flow p q1" "piece p q1 = (Seq0 (info p), take 1 ?x)"
    using quiet [OF assms(1) fits [OF assms], of "take 1 ?x"] l by auto
  obtain q2 where q2: "f_segment F p (info p) (drop 1 ?x) 1 1 = Some q2" "flow p q2" "piece p q2 = (Seq0 (info p) + 1, drop 1 ?x)"
    using segment [OF assms(1) fits [OF assms], of "drop 1 ?x" 1 1] l by auto
  have "assembles (Seq0 (info p)) (map (piece p) [q1, q2]) ?x" using meet [of 1 ?x "Seq0 (info p)"] False l q1(3) q2(3) by simp
  then show ?thesis
    using False l q1 q2 by (auto simp: firstbyte_def parsed assms(1) gslice_ok slice_from_ok Let_def intro!: keptI)
qed

end

context tcp_family
begin

text \<open>The two halves at \<open>n\<close> as the splitters build them\<close>
lemma halves:
  assumes "wf p" "length p < cap" "n \<le> PayloadLen (info p)"
  shows "\<exists>q1 q2. f_first F p (IPHdrLen (info p)) (PayloadStart (info p) + n) = Some q1 \<and>
     f_segment F p (info p) (drop n (Payload (info p))) (of_nat n) 1 = Some q2 \<and> flow p q1 \<and> flow p q2 \<and>
     piece p q1 = (Seq0 (info p), take n (Payload (info p))) \<and> piece p q2 = (Seq0 (info p) + of_nat n, drop n (Payload (info p)))"
proof -
  have l: "length (Payload (info p)) = PayloadLen (info p)" "PayloadStart (info p) + n \<le> length p"
    using lengths assms payload_len [OF assms(1)] start [OF assms(1)] by auto
  obtain q1 where "f_segment F p (info p) (take n (Payload (info p))) 0 0 = Some q1" "flow p q1"
      "piece p q1 = (Seq0 (info p), take n (Payload (info p)))"
    using segment [OF assms(1) fits [OF assms(1,2)], of "take n (Payload (info p))" 0 0] assms(3) l by auto
  moreover obtain q2 where "f_segment F p (info p) (drop n (Payload (info p))) (of_nat n) 1 = Some q2" "flow p q2"
      "piece p q2 = (Seq0 (info p) + of_nat n, drop n (Payload (info p)))"
    using segment [OF assms(1) fits [OF assms(1,2)], of "drop n (Payload (info p))" "of_nat n" 1] l by auto
  ultimately show ?thesis using first_seg [OF assms(1) _ l(2)] by simp
qed

lemma two_keeps:
  assumes "wf p" "n \<le> PayloadLen (info p)" "flow p q1" "flow p q2"
    "piece p q1 = (Seq0 (info p), take n (Payload (info p)))" "piece p q2 = (Seq0 (info p) + of_nat n, drop n (Payload (info p)))"
  shows "keeps p (Some (f_two F q1 q2 dst d r))"
proof (rule keeps_perm)
  show "mset (sent (f_two F q1 q2 dst d r)) = mset [q1, q2]" by (simp add: two)
  show "assembles (Seq0 (info p)) (map (piece p) [q1, q2]) (Payload (info p))"
    using meet [of n "Payload (info p)" "Seq0 (info p)"] assms lengths by simp
qed (use assms in simp)

lemma tls_keeps:
  assumes "wf p" "length p < cap" "PayloadLen (info p) \<noteq> 5"
  shows "keeps p (tls_fragments F e cfg p dst)"
proof -
  let ?x = "Payload (info p)"
  obtain d where d: "idx p (IPHdrLen (info p) + 12) = Some d" "IPHdrLen (info p) + doff d = PayloadStart (info p)"
    using offset [OF assms(1)] by auto
  have x: "slice_from p (PayloadStart (info p)) = Some ?x" "length ?x = PayloadLen (info p)"
    using start [OF assms(1)] lengths assms(1) by (simp_all add: slice_from_ok payload)
  show ?thesis
  proof (cases "length ?x < 5 \<or> ?x ! 0 \<noteq> 0x16")
    case True
    then show ?thesis using d x hdr [OF assms(1)] by (auto simp: tls_fragments_def Let_def idx_ok)
  next
    case False
    define s where "s = (let s = ResolveRange (int (rnd e 2)) (TLSRecordPosition (Fragmentation cfg)) (TLSRecordPositionMax (Fragmentation cfg));
       s = (if s \<le> 0 then 1 else s); s = 5 + s; s = (if s \<ge> int (length ?x) then int (length ?x div 2) else s)
       in nat (if s < 6 then 6 else s))"
    have n: "s \<le> PayloadLen (info p)" using False x(2) assms(3) by (auto simp: s_def Let_def)
    obtain q1 q2 where q: "f_first F p (IPHdrLen (info p)) (PayloadStart (info p) + s) = Some q1"
       "f_segment F p (info p) (drop s ?x) (of_nat s) 1 = Some q2" "flow p q1" "flow p q2"
       "piece p q1 = (Seq0 (info p), take s ?x)" "piece p q2 = (Seq0 (info p) + of_nat s, drop s ?x)"
      using halves [OF assms(1,2) n] by auto
    have "slice_from p (PayloadStart (info p) + s) = Some (drop s ?x)"
      using n payload_len [OF assms(1)] start [OF assms(1)] by (simp add: slice_from_ok payload assms(1) add.commute)
    then have "tls_fragments F e cfg p dst = Some (f_two F q1 q2 dst (seg2_delay e cfg) (frag_ReverseOrder (Fragmentation cfg)))"
      using False d x hdr [OF assms(1)] q(1,2) next_seg [OF assms(1)]
      by (simp add: tls_fragments_def idx_ok Let_def s_def split del: if_split)
    then show ?thesis using two_keeps [OF assms(1) n q(3-6)] by simp
  qed
qed

lemma extsplit_keeps:
  assumes "wf p" "length p < cap" "keeps p (tcp_fragments F e cfg p dst)"
  shows "keeps p (extsplit F e cfg p dst)"
proof -
  let ?x = "Payload (info p)"
  have l: "length ?x = PayloadLen (info p)" using lengths assms(1) by simp
  obtain n where n: "findPreSNIExtensionPoint ?x = Some n" "n = - 1 \<or> 5 < n \<and> n \<le> int (length ?x)"
    using findPreSNI_bound [of ?x] by auto
  show ?thesis
  proof (cases "PayloadLen (info p) < 50 \<or> n \<le> 5 \<or> n \<ge> int (PayloadLen (info p)) - 10")
    case True
    then show ?thesis using assms(3) n(1) by (auto simp: extsplit_def parsed assms(1))
  next
    case False
    define m where "m = nat n"
    have m: "m \<le> PayloadLen (info p)" "of_int n = (of_nat m :: uint32)" "\<not> n \<le> 5" using False by (auto simp: m_def)
    obtain q1 where q1: "quiet_segment F p (info p) (take m ?x) = Some q1" "flow p q1" "piece p q1 = (Seq0 (info p), take m ?x)"
      using quiet [OF assms(1) fits [OF assms(1,2)], of "take m ?x"] l by auto
    obtain q2 where q2: "f_segment F p (info p) (drop m ?x) (of_nat m) 1 = Some q2" "flow p q2"
        "piece p q2 = (Seq0 (info p) + of_nat m, drop m ?x)"
      using segment [OF assms(1) fits [OF assms(1,2)], of "drop m ?x" "of_nat m" 1] l by auto
    show ?thesis
      using False n(1) m l q1(1) q2(1) two_keeps [OF assms(1) m(1) q1(2) q2(2) q1(3) q2(3)]
      by (auto simp: extsplit_def parsed assms(1) gslice_ok slice_from_ok m_def)
  qed
qed

end

lemma split_positions_range:
  assumes "2 \<le> n" "split_positions a b n = ((p1, v1), (p2, v2))"
  shows "v1 \<and> v2 \<Longrightarrow> 0 < p1 \<and> p1 < p2 \<and> p2 < n" "\<not> (v1 \<and> v2) \<Longrightarrow> 0 < (if v1 then p1 else p2) \<and> (if v1 then p1 else p2) < n"
  using assms by (auto simp: split_positions_def Let_def split: if_splits)

lemma sni_position_returns: "\<exists>r. sni_position x = Some r"
proof -
  obtain r where "locateSNI x = Some r" using locateSNI_bound [of x] by auto
  then show ?thesis by (simp add: sni_position_def)
qed

lemma islice_ok: "0 \<le> i \<Longrightarrow> i \<le> j \<Longrightarrow> j \<le> int (length b) \<Longrightarrow> islice b i j = Some (take (nat j - nat i) (drop (nat i) b))"
  by (simp add: islice_def gslice_ok nat_mono nat_le_iff)

context tcp_family
begin

lemma thirds:
  assumes "wf p" "length p < cap" "0 < a" "a < b" "b < PayloadLen (info p)"
  shows "\<exists>q1 q2 q3. f_first F p (IPHdrLen (info p)) (PayloadStart (info p) + a) = Some q1 \<and>
     f_segment F p (info p) (take (b - a) (drop a (Payload (info p)))) (of_nat a) 1 = Some q2 \<and>
     f_segment F p (info p) (drop b (Payload (info p))) (of_nat b) 2 = Some q3 \<and>
     (\<forall>q \<in> {q1, q2, q3}. flow p q) \<and> assembles (Seq0 (info p)) (map (piece p) [q1, q2, q3]) (Payload (info p))"
proof -
  let ?x = "Payload (info p)"
  have l: "length ?x = PayloadLen (info p)" using lengths assms(1) by simp
  have n: "PayloadStart (info p) + a \<le> length p" using assms(4,5) payload_len [OF assms(1)] by linarith
  obtain q1 where q1: "f_segment F p (info p) (take a ?x) 0 0 = Some q1" "flow p q1" "piece p q1 = (Seq0 (info p), take a ?x)"
    using segment [OF assms(1) fits [OF assms(1,2)], of "take a ?x" 0 0] l by auto
  have mid: "length (take (b - a) (drop a ?x)) \<le> PayloadLen (info p)" using l by simp
  obtain q2 where q2: "f_segment F p (info p) (take (b - a) (drop a ?x)) (of_nat a) 1 = Some q2" "flow p q2"
      "piece p q2 = (Seq0 (info p) + of_nat a, take (b - a) (drop a ?x))"
    using segment [OF assms(1) fits [OF assms(1,2) mid], of "of_nat a" 1] by auto
  obtain q3 where q3: "f_segment F p (info p) (drop b ?x) (of_nat b) 2 = Some q3" "flow p q3"
      "piece p q3 = (Seq0 (info p) + of_nat b, drop b ?x)"
    using segment [OF assms(1) fits [OF assms(1,2)], of "drop b ?x" "of_nat b" 2] l by auto
  have "assembles (Seq0 (info p)) (map (piece p) [q1, q2, q3]) ?x"
    using cuts_assemble [of "[a, b, length ?x]" ?x "Seq0 (info p)"] assms l q1(3) q2(3) q3(3) by simp
  then show ?thesis using q1 q2 q3 first_seg [OF assms(1) _ n] by simp
qed

lemma cut_keeps:
  assumes "wf p" "length p < cap" "2 \<le> PayloadLen (info p)" "split_positions i j (int (PayloadLen (info p))) = ((a, v), (b, u))"
  shows "keeps p (cut_at F p dst (IPHdrLen (info p)) (PayloadStart (info p)) (Payload (info p)) del rv ((a, v), (b, u)))"
proof -
  let ?x = "Payload (info p)" and ?n = "int (PayloadLen (info p))" and ?h = "PayloadStart (info p)"
  have x: "length ?x = PayloadLen (info p)" using lengths assms(1) by simp
  have n2: "2 \<le> ?n" using assms(3) by linarith
  note r = split_positions_range [OF n2 assms(4)]
  show ?thesis
  proof (cases "v \<and> u")
    case True
    have r': "0 < a" "a < b" "b < ?n" using r(1) [OF True] by auto
    have ab: "0 < nat a" "nat a < nat b" "nat b < PayloadLen (info p)" using r' by auto
    obtain q1 q2 q3 where q: "f_first F p (IPHdrLen (info p)) (?h + nat a) = Some q1"
       "f_segment F p (info p) (take (nat b - nat a) (drop (nat a) ?x)) (of_nat (nat a)) 1 = Some q2"
       "f_segment F p (info p) (drop (nat b) ?x) (of_nat (nat b)) 2 = Some q3"
       "\<forall>q \<in> {q1, q2, q3}. flow p q" "assembles (Seq0 (info p)) (map (piece p) [q1, q2, q3]) ?x"
      using thirds [OF assms(1,2) ab] by auto
    have i: "islice ?x a b = Some (take (nat b - nat a) (drop (nat a) ?x))" "islice ?x b (int (length ?x)) = Some (drop (nat b) ?x)"
      using r' x by (simp_all add: islice_ok)
    have o: "of_int a = (of_nat (nat a) :: uint32)" "of_int b = (of_nat (nat b) :: uint32)" using r' by auto
    have "\<exists>es. cut_at F p dst (IPHdrLen (info p)) ?h ?x del rv ((a, v), (b, u)) = Some es \<and> mset (sent es) = mset [q1, q2, q3]"
      using True i q(1-3) by (simp add: cut_at_def o next_seg assms(1) add_mset_commute)
    then show ?thesis using keeps_perm [of _ "[q1, q2, q3]"] q(4,5) by auto
  next
    case False
    then have no: "(v \<and> u) = False" by simp
    define m where "m = nat (if v then a else b)"
    have m: "(if v then a else b) = int m" "m \<le> PayloadLen (info p)" using r(2) [OF False] by (auto simp: m_def)
    obtain q1 q2 where q: "f_first F p (IPHdrLen (info p)) (?h + m) = Some q1"
       "f_segment F p (info p) (drop m ?x) (of_nat m) 1 = Some q2" "flow p q1" "flow p q2"
       "piece p q1 = (Seq0 (info p), take m ?x)" "piece p q2 = (Seq0 (info p) + of_nat m, drop m ?x)"
      using halves [OF assms(1,2) m(2)] by auto
    have i: "islice p (int ?h + int m) (int (length p)) = Some (drop m ?x)"
      using m(2) payload_len [OF assms(1)] start [OF assms(1)]
      by (subst islice_ok) (simp_all add: payload assms(1) nat_add_distrib add.commute)
    have "cut_at F p dst (IPHdrLen (info p)) ?h ?x del rv ((a, v), (b, u)) = Some (f_two F q1 q2 dst del rv)"
      using i q(1,2) unfolding cut_at_def prod.case no if_False Let_def m(1)
      by (simp add: nat_add_distrib next_seg assms(1))
    then show ?thesis using two_keeps [OF assms(1) m(2) q(3-6)] by simp
  qed
qed

lemma tcp_keeps:
  assumes "wf p" "length p < cap" "PayloadLen (info p) \<noteq> 1"
  shows "keeps p (tcp_fragments F e cfg p dst)"
proof -
  let ?x = "Payload (info p)" and ?n = "int (PayloadLen (info p))" and ?h = "PayloadStart (info p)"
  obtain d where d: "idx p (IPHdrLen (info p) + 12) = Some d" "IPHdrLen (info p) + doff d = ?h"
    using offset [OF assms(1)] by auto
  have x: "slice_from p ?h = Some ?x" "int (length p) - int ?h = ?n"
    using start [OF assms(1)] by (simp_all add: slice_from_ok payload payload_len assms(1))
  obtain p2 where p2: "(if MiddleSNI (Fragmentation cfg) then do { r \<leftarrow> sni_position ?x; Some (case r of Some p \<Rightarrow> p | None \<Rightarrow> - 1) }
            else Some (- 1)) = Some p2"
    using sni_position_returns [of ?x] by (cases "MiddleSNI (Fragmentation cfg)") auto
  let ?s = "split_positions (ResolveRange (int (rnd e 1)) (SNIPosition (Fragmentation cfg)) (SNIPositionMax (Fragmentation cfg))) p2 ?n"
  have "tcp_fragments F e cfg p dst = (if ?n \<le> 0 then Some [f_send F p dst]
     else cut_at F p dst (IPHdrLen (info p)) ?h ?x (seg2_delay e cfg) (frag_ReverseOrder (Fragmentation cfg)) ?s)"
    using hdr [OF assms(1)] unfolding tcp_fragments_def Let_def by (simp only: d x p2 bind.bind_lunit)
  moreover have "keeps p (cut_at F p dst (IPHdrLen (info p)) ?h ?x (seg2_delay e cfg) (frag_ReverseOrder (Fragmentation cfg)) ?s)"
    if "2 \<le> PayloadLen (info p)"
    using cut_keeps [OF assms(1,2) that, of _ _ "fst (fst ?s)" "snd (fst ?s)" "fst (snd ?s)" "snd (snd ?s)"] by simp
  ultimately show ?thesis using assms(3) by simp
qed

end

lemma those_map_all2:
  assumes "\<forall>x \<in> set xs. \<exists>y. f x = Some y \<and> P x y"
  shows "\<exists>ys. those (map f xs) = Some ys \<and> list_all2 P xs ys"
  using assms by (induction xs) fastforce+

context tcp_family
begin

text \<open>Segments that are packets of the flow\<close>
abbreviation segs_ok :: "bytes \<Rightarrow> Segment list \<Rightarrow> bool" where
  "segs_ok p segs \<equiv> \<forall>s \<in> set segs. flow p (sg_Data s)"

abbreviation pieces :: "bytes \<Rightarrow> Segment list \<Rightarrow> (uint32 \<times> bytes) list" where
  "pieces p segs \<equiv> map (\<lambda>s. piece p (sg_Data s)) segs"

lemma pieces_update:
  assumes "i < length segs" "piece p (sg_Data s) = piece p (sg_Data (segs ! i))"
  shows "pieces p (segs[i := s]) = pieces p segs"
  using assms by (auto intro!: nth_equalityI simp: nth_list_update)

lemma max_seq_idx_less:
  assumes "segs \<noteq> []"
  shows "max_seq_idx segs < length segs"
proof -
  have "foldl (\<lambda>m i. if sg_Seq (segs ! i) > sg_Seq (segs ! m) then i else m) a is < length segs"
    if "a < length segs" "\<forall>i \<in> set is. i < length segs" for a "is"
    using that by (induction "is" arbitrary: a) auto
  then show ?thesis using assms by (simp add: max_seq_idx_def)
qed

lemma SetMaxSeqPSH_pieces:
  assumes "wf p" "segs_ok p segs" "segs \<noteq> []"
  shows "\<exists>ts. SetMaxSeqPSH segs (IPHdrLen (info p)) (f_fix F) = Some ts \<and> segs_ok p ts \<and> pieces p ts = pieces p segs"
proof -
  let ?h = "IPHdrLen (info p)"
  let ?R = "\<lambda>s t. flow p (sg_Data t) \<and> piece p (sg_Data t) = piece p (sg_Data s)"
  let ?f = "\<lambda>s. do { d \<leftarrow> ClearPSH (sg_Data s) ?h; d \<leftarrow> f_fix F d; Some (s\<lparr>sg_Data := d\<rparr>) }"
  have one: "\<exists>t. ?f s = Some t \<and> ?R s t" if "s \<in> set segs" for s
  proof -
    have fl: "flow p (sg_Data s)" using assms(2) that by blast
    obtain r where "(ClearPSH (sg_Data s) ?h \<bind> f_fix F) = Some r" "flow p r" "piece p r = piece p (sg_Data s)"
      using clear [OF assms(1) fl] by auto
    then show ?thesis by (auto simp: bind_eq_Some_conv)
  qed
  obtain ts where ts: "those (map ?f segs) = Some ts" "list_all2 ?R segs ts"
    using those_map_all2 [of segs ?f ?R] one by blast
  then have ok: "segs_ok p ts" "pieces p ts = pieces p segs" and len: "length ts = length segs"
    by (auto simp: list_all2_conv_all_nth in_set_conv_nth intro!: nth_equalityI)
  let ?m = "max_seq_idx ts"
  have m: "?m < length ts" using max_seq_idx_less [of ts] assms(3) len by (cases ts) auto
  then obtain r where r: "(SetPSH (sg_Data (ts ! ?m)) ?h \<bind> f_fix F) = Some r" "flow p r" "piece p r = piece p (sg_Data (ts ! ?m))"
    using push [OF assms(1), of "sg_Data (ts ! ?m)"] ok(1) nth_mem by blast
  let ?t = "ts[?m := (ts ! ?m)\<lparr>sg_Data := r\<rparr>]"
  have "SetMaxSeqPSH segs ?h (f_fix F) = Some ?t"
    using ts(1) m r(1) by (auto simp: SetMaxSeqPSH_def idx_ok upd_ok bind_eq_Some_conv)
  moreover have "segs_ok p ?t" using ok(1) r(2) set_update_subset_insert [of ts ?m] by fastforce
  moreover have "pieces p ?t = pieces p segs" using pieces_update [OF m] ok(2) r(3) by simp
  ultimately show ?thesis by blast
qed

lemma send_loop_plain:
  assumes "SeqOverlapBytes (Fragmentation cfg) = []" "\<forall>i l. sent (gap i l) = []"
  shows "\<exists>es. send_loop F cfg p pi dst fps n gap i segs = Some es \<and> sent es = map sg_Data segs"
proof (induction segs arbitrary: i)
  case (Cons s segs)
  obtain es where "send_loop F cfg p pi dst fps n gap (Suc i) segs = Some es" "sent es = map sg_Data segs"
    using Cons.IH by blast
  then show ?case by (simp add: seg_fakes_def assms)
qed simp

text \<open>What both strategies do with their segments\<close>
lemma order_and_send:
  assumes "wf p" "segs_ok p segs" "segs \<noteq> []" "assembles (Seq0 (info p)) (pieces p segs) (Payload (info p))"
    "SeqOverlapBytes (Fragmentation cfg) = []" "\<forall>i l. sent (gap i l) = []" "\<forall>i. r i \<le> i"
  shows "keeps p (do { segs \<leftarrow> ShuffleSegments r segs mode; segs \<leftarrow> SetMaxSeqPSH segs (IPHdrLen (info p)) (f_fix F);
     send_loop F cfg p (info p) dst fps n gap 0 segs })"
proof -
  obtain s1 where s1: "ShuffleSegments r segs mode = Some s1" "mset s1 = mset segs"
    using ShuffleSegments_perm [OF assms(7)] by blast
  have ok1: "segs_ok p s1" "s1 \<noteq> []" using assms(2,3) s1(2) mset_eq_setD [OF s1(2)] by auto
  have a1: "assembles (Seq0 (info p)) (pieces p s1) (Payload (info p))"
    by (rule assembles_perm [OF assms(4)]) (simp add: s1(2))
  obtain s2 where s2: "SetMaxSeqPSH s1 (IPHdrLen (info p)) (f_fix F) = Some s2" "segs_ok p s2" "pieces p s2 = pieces p s1"
    using SetMaxSeqPSH_pieces [OF assms(1) ok1] by auto
  obtain es where es: "send_loop F cfg p (info p) dst fps n gap 0 s2 = Some es" "sent es = map sg_Data s2"
    using send_loop_plain [OF assms(5,6)] by blast
  have "keeps p (Some es)" using s2 a1 es(2) by (intro keptI) (auto simp: comp_def)
  then show ?thesis using s1(1) s2(1) es(1) by simp
qed

end

context tcp_family
begin

lemma disorder_loop_cuts:
  assumes "wf p" "length p < cap" "sorted xs" "\<forall>x \<in> set xs. x \<le> PayloadLen (info p)"
  shows "\<exists>segs. disorder_loop F p (info p) i xs = Some segs \<and> segs_ok p segs \<and>
     pieces p segs = cuts (Seq0 (info p)) (Payload (info p)) xs"
  using assms(3,4)
proof (induction xs arbitrary: i rule: induct_list012)
  case (3 a b xs)
  let ?x = "Payload (info p)" and ?h = "IPHdrLen (info p)"
  have ab: "a \<le> b" "b \<le> length ?x" using 3 lengths assms(1) by auto
  have l: "length (take (b - a) (drop a ?x)) \<le> PayloadLen (info p)" using lengths assms(1) by simp
  obtain q where q: "f_segment F p (info p) (take (b - a) (drop a ?x)) (of_nat a) (of_nat i) = Some q" "flow p q"
      "piece p q = (Seq0 (info p) + of_nat a, take (b - a) (drop a ?x))"
    using segment [OF assms(1) fits [OF assms(1,2) l]] by blast
  obtain r where r: "(if xs \<noteq> [] then do { seg \<leftarrow> ClearPSH q ?h; f_fix F seg } else Some q) = Some r" "flow p r" "piece p r = piece p q"
    using clear [OF assms(1) q(2)] q(2) by (cases xs) auto
  obtain segs where segs: "disorder_loop F p (info p) (Suc i) (b # xs) = Some segs" "segs_ok p segs"
      "pieces p segs = cuts (Seq0 (info p)) ?x (b # xs)"
    using 3(2) [of "Suc i"] 3(3,4) by auto
  have "disorder_loop F p (info p) i (a # b # xs) = Some (\<lparr>sg_Data = r, sg_Seq = Seq0 (info p) + of_nat a\<rparr> # segs)"
    using ab q(1) r(1) segs(1) by (simp add: gslice_ok)
  then show ?case using segs(2,3) r(2,3) q(3) by simp
qed auto

lemma sent_disorder_gap: "sent (disorder_gap e cfg i l) = []"
  by (simp add: disorder_gap_def Let_def split: prod.splits)

lemma sni_splits:
  "\<exists>xs. GetSNISplitPoints x n m 0 = Some xs \<and> sorted xs"
proof -
  obtain r where r: "locateSNI x = Some r" "\<forall>a b. r = Some (a, b) \<longrightarrow> a < b" using locateSNI_bound [of x] by auto
  then show ?thesis by (cases r) (auto simp: GetSNISplitPoints_def split: prod.splits)
qed

lemma disorder_keeps:
  assumes "wf p" "length p < cap" "SeqOverlapBytes (Fragmentation cfg) = []" "\<forall>i. rnd e (100 + i) \<le> i"
  shows "keeps p (disorder F e cfg p dst)"
proof (cases "PayloadLen (info p) < 10")
  case True
  then show ?thesis by (simp add: disorder_def parsed assms(1))
next
  case False
  let ?n = "PayloadLen (info p)" and ?x = "Payload (info p)"
  obtain ys where ys: "GetSNISplitPoints ?x ?n (MiddleSNI (Fragmentation cfg)) 0 = Some ys" "sorted ys"
    using sni_splits by blast
  let ?s = "if length ys = 0 then [1, ?n div 2, ?n * 3 div 4] else ys"
  have s: "sorted ?s" using ys(2) False by auto
  have v: "sorted (BuildValidSplits ?s ?n)" "\<forall>x \<in> set (BuildValidSplits ?s ?n). x \<le> ?n"
    using s by (auto simp: BuildValidSplits_def sorted_append sorted_wrt_filter)
  obtain segs where segs: "disorder_loop F p (info p) 0 (BuildValidSplits ?s ?n) = Some segs" "segs_ok p segs"
     "pieces p segs = cuts (Seq0 (info p)) ?x (BuildValidSplits ?s ?n)"
    using disorder_loop_cuts [OF assms(1,2) v] by blast
  have a: "assembles (Seq0 (info p)) (pieces p segs) ?x"
    unfolding segs(3) BuildValidSplits_def
    by (rule cuts_assemble) (use v(1) lengths [OF assms(1)] in \<open>simp_all add: BuildValidSplits_def\<close>)
  then have ne: "segs \<noteq> []" using False lengths [OF assms(1)] by (auto simp: assembles_def)
  have ov: "disorder_overlap F cfg p (info p) segs = Some segs" by (simp add: disorder_overlap_def assms(3))
  show ?thesis
    using order_and_send [OF assms(1) segs(2) ne a assms(3), of "disorder_gap e cfg" "\<lambda>i. rnd e (100 + i)"] sent_disorder_gap assms(4)
    by (simp add: disorder_def parsed assms(1) False ys(1) segs(1) ov Let_def del: length_0_conv)
qed

end

lemma foldl_keeps: "(\<And>r s. P r \<Longrightarrow> P (f r s)) \<Longrightarrow> P r \<Longrightarrow> P (foldl f r xs)"
  by (induction xs arbitrary: r) simp_all

lemma unique_fold:
  "distinct (foldl (\<lambda>r s. if s > 0 \<and> s < n \<and> s \<notin> set r then r @ [s] else r) [] xs) \<and>
   set (foldl (\<lambda>r s. if s > 0 \<and> s < n \<and> s \<notin> set r then r @ [s] else r) [] xs) \<subseteq> {0<..<n :: nat}"
  by (rule foldl_keeps [where P = "\<lambda>r. distinct r \<and> set r \<subseteq> {0<..<n}"]) simp_all

lemma uniqueSorted_props:
  "sorted (uniqueSorted xs n)" "distinct (uniqueSorted xs n)" "x \<in> set (uniqueSorted xs n) \<Longrightarrow> 0 < x \<and> x < n"
  using unique_fold [of n xs] unfolding uniqueSorted_def by auto

lemma combo_points: "\<exists>xs. GetComboSplitPoints x n c m = Some xs"
proof -
  obtain k where "findPreSNIExtensionPoint x = Some k" using findPreSNI_bound by blast
  moreover obtain r where "locateSNI x = Some r" using locateSNI_bound by blast
  ultimately show ?thesis
    unfolding GetComboSplitPoints_def Let_def by (cases "ExtensionSplit c"; cases m) (simp_all split del: if_split)
qed

lemma cuts_snoc:
  "ys \<noteq> [] \<Longrightarrow> cuts s x (ys @ [b]) = cuts s x ys @ [(s + of_nat (last ys), take (b - last ys) (drop (last ys) x))]"
  by (induction ys rule: induct_list012) auto

context tcp_family
begin

lemma combo_loop_cuts:
  assumes "wf p" "length p < cap" "sorted (a # xs)" "distinct (a # xs)" "\<forall>x \<in> set xs. x \<le> PayloadLen (info p)"
  shows "\<exists>segs. combo_loop F p (info p) i a xs = Some (segs, last (a # xs)) \<and> segs_ok p segs \<and>
     pieces p segs = cuts (Seq0 (info p)) (Payload (info p)) (a # xs)"
  using assms(3-5)
proof (induction xs arbitrary: i a)
  case (Cons b xs)
  let ?x = "Payload (info p)"
  have ab: "a < b" "b \<le> length ?x" using Cons.prems lengths assms(1) by auto
  have l: "length (take (b - a) (drop a ?x)) \<le> PayloadLen (info p)" using lengths assms(1) by simp
  obtain q where q: "f_segment F p (info p) (take (b - a) (drop a ?x)) (of_nat a) (of_nat i) = Some q" "flow p q"
      "piece p q = (Seq0 (info p) + of_nat a, take (b - a) (drop a ?x))"
    using segment [OF assms(1) fits [OF assms(1,2) l]] by blast
  obtain segs where segs: "combo_loop F p (info p) (Suc i) b xs = Some (segs, last (b # xs))" "segs_ok p segs"
      "pieces p segs = cuts (Seq0 (info p)) ?x (b # xs)"
    using Cons.IH [of b "Suc i"] Cons.prems by auto
  have "combo_loop F p (info p) i a (b # xs) = Some (\<lparr>sg_Data = q, sg_Seq = Seq0 (info p) + of_nat a\<rparr> # segs, last (b # xs))"
    using ab q(1) segs(1) by (simp add: gslice_ok)
  then show ?case using segs(2,3) q(2,3) by simp
qed simp

lemma combo_segments_cuts:
  assumes "wf p" "length p < cap" "sorted xs" "distinct xs" "\<forall>x \<in> set xs. 0 < x \<and> x < PayloadLen (info p)" "0 < PayloadLen (info p)"
  shows "\<exists>segs. combo_segments F p (info p) xs = Some segs \<and> segs_ok p segs \<and>
     pieces p segs = cuts (Seq0 (info p)) (Payload (info p)) ((0 # xs) @ [PayloadLen (info p)])"
proof -
  let ?x = "Payload (info p)" and ?n = "PayloadLen (info p)" and ?l = "last (0 # xs)"
  have x: "length ?x = ?n" using lengths assms(1) by simp
  have s: "sorted (0 # xs)" "distinct (0 # xs)" "\<forall>x \<in> set xs. x \<le> ?n" using assms(3-5) by auto
  obtain segs where segs: "combo_loop F p (info p) 0 0 xs = Some (segs, ?l)" "segs_ok p segs"
      "pieces p segs = cuts (Seq0 (info p)) ?x (0 # xs)"
    using combo_loop_cuts [OF assms(1,2) s] by blast
  have l: "?l < ?n" using assms(5,6) last_in_set [of xs] by auto
  have d: "drop ?l ?x = take (?n - ?l) (drop ?l ?x)" using x by simp
  obtain q where q: "f_segment F p (info p) (drop ?l ?x) (of_nat ?l) (of_nat (length segs)) = Some q" "flow p q"
      "piece p q = (Seq0 (info p) + of_nat ?l, drop ?l ?x)"
    using segment [OF assms(1) fits [OF assms(1,2)], of "drop ?l ?x"] x by auto
  have "combo_segments F p (info p) xs = Some (segs @ [\<lparr>sg_Data = q, sg_Seq = Seq0 (info p) + of_nat ?l\<rparr>])"
    using segs(1) l q(1) x unfolding combo_segments_def by (simp add: slice_from_ok)
  moreover have "cuts (Seq0 (info p)) ?x ((0 # xs) @ [?n]) = cuts (Seq0 (info p)) ?x (0 # xs) @ [(Seq0 (info p) + of_nat ?l, drop ?l ?x)]"
    unfolding cuts_snoc [OF list.distinct(2)] d [symmetric] ..
  ultimately show ?thesis using segs(2,3) q(2,3) by simp
qed

lemma sent_combo_gap: "sent (combo_gap e cfg i l) = []"
  by (simp add: combo_gap_def Let_def)

lemma combo_keeps:
  assumes "wf p" "length p < cap" "SeqOverlapBytes (Fragmentation cfg) = []" "\<forall>i. rnd e (100 + i) \<le> i"
    "\<not> DecoyEnabled (Combo (Fragmentation cfg))"
  shows "keeps p (combo_with F frame blob e cfg p dst)"
proof (cases "PayloadLen (info p) < 20")
  case True
  then show ?thesis by (simp add: combo_with_def parsed assms(1))
next
  case False
  let ?n = "PayloadLen (info p)" and ?x = "Payload (info p)" and ?c = "Combo (Fragmentation cfg)"
  obtain ys where ys: "GetComboSplitPoints ?x ?n ?c (MiddleSNI (Fragmentation cfg)) = Some ys"
    using combo_points by blast
  define s where "s = (if length (uniqueSorted ys ?n) < 1 then [?n div 2] else uniqueSorted ys ?n)"
  have s: "sorted s" "distinct s" "\<forall>x \<in> set s. 0 < x \<and> x < ?n" "0 < ?n" using uniqueSorted_props [where xs = ys and n = ?n] False by (auto simp: s_def)
  obtain segs where segs: "combo_segments F p (info p) s = Some segs" "segs_ok p segs"
     "pieces p segs = cuts (Seq0 (info p)) ?x ((0 # s) @ [?n])"
    using combo_segments_cuts [OF assms(1,2) s] by blast
  have a: "assembles (Seq0 (info p)) (pieces p segs) ?x"
    unfolding segs(3) append_Cons
    by (rule cuts_assemble) (use s(1,3) lengths [OF assms(1)] in \<open>auto simp: sorted_append intro: less_imp_le\<close>)
  then have ne: "segs \<noteq> []" using False lengths [OF assms(1)] by (auto simp: assembles_def)
  have ov: "combo_overlap F cfg p (info p) segs = Some segs" by (simp add: combo_overlap_def assms(3))
  show ?thesis
    using order_and_send [OF assms(1) segs(2) ne a assms(3), of "combo_gap e cfg" "\<lambda>i. rnd e (100 + i)"] sent_combo_gap assms(4) ne
    unfolding combo_with_def parsed [OF assms(1)] Let_def
    by (simp add: assms(5) False ys s_def [symmetric] segs(1) ov del: One_nat_def length_0_conv less_one)
qed

end

section \<open>Both families\<close>

lemma set_field_same: "i + 2 \<le> length p \<Longrightarrow> set_field p i (u16 (p ! i) (p ! (i + 1))) = p"
  by (simp add: set_field_def list_update_same_conv)

lemma u32_halves: "hi16 (u32 a b) = a" "lo16 (u32 a b) = b"
  by (rule bit_word_eqI; auto simp: u32_def hi16_def lo16_def bit_simps dest: bit_imp_le_length)+

lemma set32_same: "i + 4 \<le> length p \<Longrightarrow> set32 p i (word_at32 p i) = p"
  by (simp add: set32_def word_at32_def set_field_def numeral_3_eq_3 u32_halves list_update_same_conv)

lemma tcp4_bounds:
  assumes "tcp4_ok p"
  shows "20 \<le> ihl4 p" "ihl4 p + 20 \<le> hdrs4 p" "hdrs4 p \<le> length p"
  using assms by (auto simp: tcp4_ok_def)

lemma info4_sel:
  "IPHdrLen (info4 p) = ihl4 p" "PayloadStart (info4 p) = hdrs4 p" "PayloadLen (info4 p) = length p - hdrs4 p"
  "Payload (info4 p) = drop (hdrs4 p) p" "Seq0 (info4 p) = word_at32 p (ihl4 p + 4)" "ID0 (info4 p) = u16 (p ! 4) (p ! 5)"
  by (simp_all add: info4_def)

lemma info6_sel:
  "IPHdrLen (info6 p) = 40" "PayloadStart (info6 p) = hdrs6 p" "PayloadLen (info6 p) = length p - hdrs6 p"
  "Payload (info6 p) = drop (hdrs6 p) p" "Seq0 (info6 p) = word_at32 p 44"
  by (simp_all add: info6_def)

lemma next_segment4_eq: "tcp4_ok p \<Longrightarrow> next_segment4 p (ihl4 p) (hdrs4 p) s off ido = BuildSegmentV4 p (info4 p) s off ido"
  using tcp4_bounds [of p] unfolding next_segment4_def BuildSegmentV4_def info4_sel
  by (simp add: fake_frame_ok be32_ok be16_ok word_at32_def eval_nat_numeral)

lemma first_segment4_eq:
  assumes "tcp4_ok p" "hdrs4 p \<le> n" "n \<le> length p"
  shows "first_segment4 p (ihl4 p) n = BuildSegmentV4 p (info4 p) (take (n - hdrs4 p) (drop (hdrs4 p) p)) 0 0"
proof -
  let ?h = "ihl4 p"
  note l = tcp4_bounds [OF assms(1)]
  have f: "fake_frame p (hdrs4 p) (take (n - hdrs4 p) (drop (hdrs4 p) p)) = Some (take n p)"
    using assms l by (simp add: fake_frame_ok flip: take_add)
  have n: "?h + 8 \<le> n" "length (take n p) = n" using assms l by simp_all
  have "word_at32 (take n p) (?h + 4) = word_at32 p (?h + 4)" "u16 (take n p ! 4) (take n p ! (4 + 1)) = u16 (p ! 4) (p ! 5)"
    using n l by (simp_all add: word_at32_def)
  then have "set32 (take n p) (?h + 4) (word_at32 p (?h + 4)) = take n p" "set_field (take n p) 4 (u16 (p ! 4) (p ! 5)) = take n p"
    using set32_same [of "?h + 4" "take n p"] set_field_same [of 4 "take n p"] n l by simp_all
  moreover have "hdrs4 p + length (take (n - hdrs4 p) (drop (hdrs4 p) p)) = n" using assms by simp
  ultimately show ?thesis
    unfolding first_segment4_def BuildSegmentV4_def info4_sel f
    using n l assms(3) by (simp add: put32_set32 put16_set_field gslice_ok)
qed

lemma next_segment6_eq: "tcp6_ok p \<Longrightarrow> next_segment6 p 40 (hdrs6 p) s off ido = BuildSegmentV6 p (info6 p) s off"
  unfolding next_segment6_def BuildSegmentV6_def info6_sel
  by (simp add: tcp6_ok_def fake_frame_ok be32_ok word_at32_def eval_nat_numeral)

lemma first_segment6_eq:
  assumes "tcp6_ok p" "hdrs6 p \<le> n" "n \<le> length p"
  shows "first_segment6 p 40 n = BuildSegmentV6 p (info6 p) (take (n - hdrs6 p) (drop (hdrs6 p) p)) 0"
proof -
  have l: "60 \<le> hdrs6 p" using assms(1) by (simp add: tcp6_ok_def)
  have f: "fake_frame p (hdrs6 p) (take (n - hdrs6 p) (drop (hdrs6 p) p)) = Some (take n p)"
    using assms l by (simp add: fake_frame_ok flip: take_add)
  have n: "60 \<le> n" "length (take n p) = n" using assms l by simp_all
  have "word_at32 (take n p) 44 = word_at32 p 44" using n by (simp add: word_at32_def)
  then have "set32 (take n p) 44 (word_at32 p 44) = take n p" using set32_same [of 44 "take n p"] n by simp
  moreover have "hdrs6 p + length (take (n - hdrs6 p) (drop (hdrs6 p) p)) = n" using assms by simp
  ultimately show ?thesis
    unfolding first_segment6_def BuildSegmentV6_def info6_sel f
    using n l assms(3) by (simp add: put32_set32 put16_set_field gslice_ok)
qed

interpretation v4: tcp_family ip4 tcp4_ok info4 flow4 piece4 65536
proof (unfold_locales, goal_cases)
  case (6 p)
  then show ?case using tcp4_bounds [of p] by (simp add: info4_sel idx_ok thl_at_def)
next
  case (7 p s off ido)
  then show ?case using BuildSegmentV4_piece [of p s off ido] by (auto simp: info4_sel ip4_def)
next
  case (8 p q)
  then show ?case using psh_piece4(1) [of p q] by (auto simp: info4_sel ip4_def)
next
  case (9 p q)
  then show ?case using psh_piece4(2) [of p q] by (auto simp: info4_sel ip4_def)
next
  case (5 p)
  then have "idx p 0 = Some (p ! 0)" using tcp4_bounds [of p] by (intro idx_ok) linarith
  then show ?case by (simp add: info4_sel ip4_def ihl4_def)
qed (auto simp: info4_sel ip4_def ExtractPacketInfoV4_ok first_segment4_eq next_segment4_eq SendTwoSegmentsV4_def tcp4_ok_def
       add_mset_commute)

interpretation v6: tcp_family ip6 tcp6_ok info6 flow6 piece6 65576
proof (unfold_locales, goal_cases)
  case (6 p)
  then show ?case by (simp add: info6_sel idx_ok thl_at_def tcp6_ok_def)
next
  case (7 p s off ido)
  then show ?case using BuildSegmentV6_piece [of p s off] by (auto simp: info6_sel ip6_def)
next
  case (8 p q)
  then show ?case using psh_piece6(1) [of p q] by (auto simp: info6_sel ip6_def)
next
  case (9 p q)
  then show ?case using psh_piece6(2) [of p q] by (auto simp: info6_sel ip6_def)
qed (auto simp: info6_sel ip6_def ExtractPacketInfoV6_ok first_segment6_eq next_segment6_eq SendTwoSegmentsV6_def tcp6_ok_def
       add_mset_commute)

section \<open>The stream survives\<close>

lemma hybrid_keeps:
  assumes "kept f g p pi a" "kept f g p pi b" "kept f g p pi c" "kept f g p pi d"
  shows "kept f g p pi (hybrid_choice a b c d x)"
proof -
  obtain k where "findPreSNIExtensionPoint x = Some k" using findPreSNI_bound by blast
  moreover obtain r where "locateSNI x = Some r" using locateSNI_bound by blast
  ultimately show ?thesis using assms by (simp add: hybrid_choice_def Let_def)
qed

text \<open>Nothing is put over or beside the stream on purpose, and the shuffles draw numbers in their range.\<close>
definition plain :: "env \<Rightarrow> SetConfig \<Rightarrow> bool" where
  "plain e cfg \<longleftrightarrow> SeqOverlapBytes (Fragmentation cfg) = [] \<and> \<not> DecoyEnabled (Combo (Fragmentation cfg)) \<and>
     (\<forall>i. rnd e (100 + i) \<le> i)"

lemma keeps4:
  assumes "tcp4_ok p" "length p < 65536" "length p \<noteq> hdrs4 p + 1" "plain e cfg"
  shows "v4.keeps p (sendFirstByteDesync e cfg p dst)" "v4.keeps p (sendTCPFragments e cfg p dst)"
    "v4.keeps p (sendExtSplitFragments e cfg p dst)" "v4.keeps p (sendDisorderFragments e cfg p dst)"
    "v4.keeps p (sendComboFragments blob e cfg p dst)"
proof -
  have n: "PayloadLen (info4 p) \<noteq> 1" using assms(3) by (auto simp: info4_sel)
  show "v4.keeps p (sendFirstByteDesync e cfg p dst)"
    unfolding sendFirstByteDesync_def by (rule v4.firstbyte_keeps [OF assms(1,2)])
  show t: "v4.keeps p (sendTCPFragments e cfg p dst)"
    unfolding sendTCPFragments_def by (rule v4.tcp_keeps [OF assms(1,2) n])
  show "v4.keeps p (sendExtSplitFragments e cfg p dst)"
    using t unfolding sendExtSplitFragments_def sendTCPFragments_def by (rule v4.extsplit_keeps [OF assms(1,2)])
  show "v4.keeps p (sendDisorderFragments e cfg p dst)"
    using assms(4) unfolding sendDisorderFragments_def by (intro v4.disorder_keeps assms(1,2)) (auto simp: plain_def)
  show "v4.keeps p (sendComboFragments blob e cfg p dst)"
    using assms(4) unfolding sendComboFragments_def by (intro v4.combo_keeps assms(1,2)) (auto simp: plain_def)
qed

lemma keeps6:
  assumes "tcp6_ok p" "length p < 65576" "length p \<noteq> hdrs6 p + 1" "plain e cfg"
  shows "v6.keeps p (sendFirstByteDesyncV6 e cfg p dst)" "v6.keeps p (sendTCPSegmentsv6 e cfg p dst)"
    "v6.keeps p (sendExtSplitFragmentsV6 e cfg p dst)" "v6.keeps p (sendDisorderFragmentsV6 e cfg p dst)"
    "v6.keeps p (sendComboFragmentsV6 blob e cfg p dst)"
proof -
  have n: "PayloadLen (info6 p) \<noteq> 1" using assms(3) by (auto simp: info6_sel)
  show "v6.keeps p (sendFirstByteDesyncV6 e cfg p dst)"
    unfolding sendFirstByteDesyncV6_def by (rule v6.firstbyte_keeps [OF assms(1,2)])
  show t: "v6.keeps p (sendTCPSegmentsv6 e cfg p dst)"
    unfolding sendTCPSegmentsv6_def by (rule v6.tcp_keeps [OF assms(1,2) n])
  show "v6.keeps p (sendExtSplitFragmentsV6 e cfg p dst)"
    using t unfolding sendExtSplitFragmentsV6_def sendTCPSegmentsv6_def by (rule v6.extsplit_keeps [OF assms(1,2)])
  show "v6.keeps p (sendDisorderFragmentsV6 e cfg p dst)"
    using assms(4) unfolding sendDisorderFragmentsV6_def by (intro v6.disorder_keeps assms(1,2)) (auto simp: plain_def)
  show "v6.keeps p (sendComboFragmentsV6 blob e cfg p dst)"
    using assms(4) unfolding sendComboFragmentsV6_def by (intro v6.combo_keeps assms(1,2)) (auto simp: plain_def)
qed

lemma hybrid4:
  assumes "tcp4_ok p" "length p < 65536" "length p \<noteq> hdrs4 p + 1" "plain e cfg"
  shows "v4.keeps p (sendHybridFragments blob e cfg p dst)"
proof -
  note l = tcp4_bounds [OF assms(1)]
  have "idx p 0 = Some (p ! 0)" using l by (intro idx_ok) linarith
  then show ?thesis
    using l hybrid_keeps [OF keeps4(5,4,3,1) [OF assms]] v4.keeps_same [of p dst]
    by (simp add: sendHybridFragments_def idx_ok slice_from_ok Let_def ihl4_def [symmetric] thl_at_def [symmetric] ip4_def)
qed

lemma hybrid6:
  assumes "tcp6_ok p" "length p < 65576" "length p \<noteq> hdrs6 p + 1" "plain e cfg"
  shows "v6.keeps p (sendHybridFragmentsV6 blob e cfg p dst)"
proof -
  have l: "60 \<le> hdrs6 p" "hdrs6 p \<le> length p" using assms(1) by (auto simp: tcp6_ok_def)
  then show ?thesis
    using hybrid_keeps [OF keeps6(5,4,3,1) [OF assms]] v6.keeps_same [of p dst]
    by (simp add: sendHybridFragmentsV6_def idx_ok slice_from_ok Let_def thl_at_def [symmetric] ip6_def)
qed



text \<open>C37: A payload of five bytes that begins like a TLS handshake record crashes the TLS splitter: the split position is
  raised to six after it was limited to the payload, and the slice behind it is out of range.\<close>
theorem sendTLSFragments_crash:
  assumes "tcp4_ok p" "length p = hdrs4 p + 5" "p ! hdrs4 p = 0x16"
  shows "sendTLSFragments e cfg p dst = None"
proof -
  note l = tcp4_bounds [OF assms(1)]
  have "0 < length p" using l by linarith
  then have "idx p 0 = Some (p ! 0)" "hdr4 (p ! 0) + doff (p ! (hdr4 (p ! 0) + 12)) = hdrs4 p"
    by (simp_all add: idx_ok ihl4_def thl_at_def)
  moreover have "drop (hdrs4 p) p ! 0 = 0x16" "idx (drop (hdrs4 p) p) 0 = Some 0x16" using assms(2,3) by (simp_all add: idx_ok)
  moreover have "\<not> int (length p) - int (hdrs4 p) > 5" using assms(2) by simp
  ultimately show ?thesis
    using l assms(2)
    by (simp add: sendTLSFragments_def tls_fragments_def ip4_def idx_ok slice_from_ok Let_def ihl4_def first_segment4_def gslice_def)
qed

text \<open>A packet with a payload of twelve bytes over IPv4 and over IPv6, and one with five\<close>
definition long4 :: bytes where
  "long4 = [0x45, 0, 0, 52, 0, 1, 0, 0, 64, 6, 0, 0, 10, 0, 0, 2, 10, 0, 0, 1] @
     [0, 80, 1, 187, 0, 0, 0, 7, 0, 0, 0, 0, 0x50, 24, 0, 0, 0, 0, 0, 0] @ [0x16, 3, 1, 0, 7, 1, 2, 3, 4, 5, 6, 7]"

definition long6 :: bytes where
  "long6 = [0x60, 0, 0, 0, 0, 32, 6, 64] @ replicate 32 9 @
     [0, 80, 1, 187, 0, 0, 0, 7, 0, 0, 0, 0, 0x50, 24, 0, 0, 0, 0, 0, 0] @ [0x16, 3, 1, 0, 7, 1, 2, 3, 4, 5, 6, 7]"

definition short4 :: bytes where
  "short4 = take 45 long4"

lemma sample_segments:
  "tcp4_ok long4" "hdrs4 long4 = 40" "length long4 = 52" "tcp6_ok long6" "hdrs6 long6 = 60" "length long6 = 72"
  "tcp4_ok short4" "hdrs4 short4 = 40" "length short4 = 45" "short4 ! 40 = 0x16"
  by code_simp+

lemma sample_plain: "plain sample_env inject_set"
  by (simp add: plain_def sample_env_def inject_set_def plain_defs)



theorem sendTLSFragments_crash_witness:
  "sendTLSFragments sample_env inject_set short4 [10, 0, 0, 1] = None"
  using sendTLSFragments_crash [of short4 sample_env inject_set "[10, 0, 0, 1]"] sample_segments sample_plain by simp

end
