(* ===== verification/DesyncFakes.thy ===== *)
theory DesyncFakes
  imports Strategies
begin

text \<open>
  Fakes around a connection: \<^verbatim>\<open>src/src/nfq/desync.go\<close>, \<^verbatim>\<open>win.go\<close>, \<^verbatim>\<open>post_desync.go\<close>, \<^verbatim>\<open>syn.go\<close> and \<^verbatim>\<open>oob.go\<close>. As for the
  splitting strategies, the IPv4 and IPv6 copies are one definition over the functions in which they differ, here
  the record \<open>craft\<close>. Random numbers: \<open>300 + i\<close> the random sequence numbers of fake ACKs, 400 the number of random
  windows, \<open>410 + i\<close> and \<open>420 + i\<close> the window and the pause of the \<open>i\<close>-th of them.
\<close>

record craft =
  c_v6 :: bool
  c_hdr :: "bytes \<Rightarrow> nat option"
  c_size :: "bytes \<Rightarrow> nat \<Rightarrow> bytes option"
  c_done :: "bytes \<Rightarrow> nat \<Rightarrow> bytes option"
  c_emit :: "bytes \<Rightarrow> bytes \<Rightarrow> effect"

definition craft4 :: craft where
  "craft4 = \<lparr>c_v6 = False, c_hdr = (\<lambda>p. map_option hdr4 (idx p 0)), c_size = (\<lambda>p n. put16 p 2 (of_nat n)),
     c_done = (\<lambda>p h. do { p \<leftarrow> on_prefix FixIPv4Checksum p h; FixTCPChecksum p }), c_emit = SendV4\<rparr>"

definition craft6 :: craft where
  "craft6 = \<lparr>c_v6 = True, c_hdr = (\<lambda>p. Some 40), c_size = (\<lambda>p n. put16 p 4 (of_int (int n - 40))),
     c_done = (\<lambda>p h. FixTCPChecksumV6 p), c_emit = SendV6\<rparr>"

text \<open>Where the TTL or the hop limit is\<close>
definition ttl_at :: "craft \<Rightarrow> nat" where
  "ttl_at C = (if c_v6 C then 7 else 8)"

section \<open>\<^verbatim>\<open>desync.go\<close>\<close>

record DesyncAttacker =
  da_mode :: string
  da_ttl :: byte
  da_count :: int

definition NewDesyncAttacker :: "TCPConfig \<Rightarrow> DesyncAttacker" where
  "NewDesyncAttacker cfg = \<lparr>da_mode = desync_Mode (Desync cfg), da_ttl = desync_TTL (Desync cfg), da_count = desync_Count (Desync cfg)\<rparr>"

text \<open>The checks and the fields that every sender reads first; a packet that fails them sends nothing.\<close>
definition with_tcp :: "craft \<Rightarrow> bytes \<Rightarrow> (nat \<Rightarrow> nat \<Rightarrow> uint32 \<Rightarrow> uint32 \<Rightarrow> effect list option) \<Rightarrow> effect list option" where
  "with_tcp C packet k = do {
     ipHdrLen \<leftarrow> c_hdr C packet;
     if length packet < ipHdrLen + 20 then Some []
     else do {
       origSeq \<leftarrow> be32 packet (ipHdrLen + 4);
       origAck \<leftarrow> be32 packet (ipHdrLen + 8);
       d \<leftarrow> idx packet (ipHdrLen + 12);
       let tcpHdrLen = doff d;
       if tcpHdrLen < 20 \<or> ipHdrLen + tcpHdrLen > length packet then Some []
       else k ipHdrLen tcpHdrLen origSeq origAck } }"

text \<open>The headers of the packet with other flags, an edit, a TTL, their own length and a broken checksum\<close>
definition header_fake :: "craft \<Rightarrow> bytes \<Rightarrow> nat \<Rightarrow> nat \<Rightarrow> byte \<Rightarrow> (bytes \<Rightarrow> bytes option) \<Rightarrow> byte \<Rightarrow> bytes option" where
  "header_fake C packet ipHdrLen tcpHdrLen flags edit ttl = do {
     fake \<leftarrow> gslice packet 0 (ipHdrLen + tcpHdrLen);
     fake \<leftarrow> upd fake (ipHdrLen + 13) flags;
     fake \<leftarrow> edit fake;
     fake \<leftarrow> upd fake (ttl_at C) ttl;
     fake \<leftarrow> c_size C fake (ipHdrLen + tcpHdrLen);
     fake \<leftarrow> c_done C fake ipHdrLen;
     corruptTCPChecksum fake ipHdrLen }"

definition rst_offset :: "nat \<Rightarrow> int" where
  "rst_offset i = (if i = 0 then - 10000 else if i = 1 then 0 else if i = 2 then 10000 else int i * 5000)"

definition desync_rst :: "craft \<Rightarrow> bytes \<Rightarrow> bytes \<Rightarrow> DesyncAttacker \<Rightarrow> effect list option" where
  "desync_rst C packet dst da = with_tcp C packet (\<lambda>ipHdrLen tcpHdrLen origSeq origAck.
     repeat_send 0 (nat (da_count da)) (\<lambda>i. do {
       let flags = (if i mod 2 = 0 then 0x04 else 0x14);
       ttl \<leftarrow> dynamicTTL packet (c_v6 C) (da_ttl da);
       fake \<leftarrow> header_fake C packet ipHdrLen tcpHdrLen flags (\<lambda>fake. do {
           fake \<leftarrow> put32 fake (ipHdrLen + 4) (origSeq + of_int (rst_offset i));
           if flags = 0x04 then put32 fake (ipHdrLen + 8) 0 else Some fake }) ttl;
       Some [c_emit C fake dst, Pause (100 * Microsecond)] }))"

definition desync_fin :: "craft \<Rightarrow> bytes \<Rightarrow> bytes \<Rightarrow> DesyncAttacker \<Rightarrow> effect list option" where
  "desync_fin C packet dst da = with_tcp C packet (\<lambda>ipHdrLen tcpHdrLen origSeq origAck.
     repeat_send 0 (nat (da_count da)) (\<lambda>i. do {
       let seqOffset = (of_nat (50000 + i * 10000) :: uint32);
       ttl \<leftarrow> dynamicTTL packet (c_v6 C) (da_ttl da);
       fake \<leftarrow> header_fake C packet ipHdrLen tcpHdrLen 0x11 (\<lambda>fake. do {
           fake \<leftarrow> put32 fake (ipHdrLen + 4) (if origSeq > seqOffset then origSeq - seqOffset else 1);
           put32 fake (ipHdrLen + 8) origAck }) ttl;
       Some [c_emit C fake dst, Pause (200 * Microsecond)] }))"

text \<open>\<open>if uint8(i) >= ttl { ttl = 1 } else { ttl = ttl - uint8(i) }; if ttl < 1 { ttl = 1 }\<close>\<close>
definition ack_ttl :: "byte \<Rightarrow> nat \<Rightarrow> byte" where
  "ack_ttl base i = (let ttl = (if of_nat i \<ge> base then 1 else base - of_nat i) in if ttl < 1 then 1 else ttl)"

definition desync_ack :: "craft \<Rightarrow> env \<Rightarrow> bytes \<Rightarrow> bytes \<Rightarrow> DesyncAttacker \<Rightarrow> effect list option" where
  "desync_ack C e packet dst da = with_tcp C packet (\<lambda>ipHdrLen tcpHdrLen origSeq origAck. do {
     baseTTL \<leftarrow> dynamicTTL packet (c_v6 C) (da_ttl da);
     repeat_send 0 (nat (da_count da)) (\<lambda>i. do {
       fake \<leftarrow> header_fake C packet ipHdrLen tcpHdrLen 0x10 (\<lambda>fake. do {
           fake \<leftarrow> put32 fake (ipHdrLen + 4) (origSeq + of_nat (rnd e (300 + i)));
           put32 fake (ipHdrLen + 8) (origAck + of_nat (100000 * (i + 1))) }) (ack_ttl baseTTL i);
       Some [c_emit C fake dst, Pause (50 * Microsecond)] }) })"

definition desync_combo :: "craft \<Rightarrow> env \<Rightarrow> bytes \<Rightarrow> bytes \<Rightarrow> DesyncAttacker \<Rightarrow> effect list option" where
  "desync_combo C e packet dst da = do {
     a \<leftarrow> desync_rst C packet dst \<lparr>da_mode = '''', da_ttl = da_ttl da, da_count = 1\<rparr>;
     b \<leftarrow> desync_fin C packet dst \<lparr>da_mode = '''', da_ttl = da_ttl da, da_count = 1\<rparr>;
     c \<leftarrow> desync_ack C e packet dst \<lparr>da_mode = '''', da_ttl = da_ttl da, da_count = 2\<rparr>;
     Some (a @ Pause (500 * Microsecond) # b @ Pause (500 * Microsecond) # c) }"

text \<open>SYN and RSTs; over IPv4 also PSH and URG\<close>
definition desync_full :: "craft \<Rightarrow> bytes \<Rightarrow> bytes \<Rightarrow> DesyncAttacker \<Rightarrow> effect list option" where
  "desync_full C packet dst da = with_tcp C packet (\<lambda>ipHdrLen tcpHdrLen origSeq origAck. do {
     ttl \<leftarrow> dynamicTTL packet (c_v6 C) (da_ttl da);
     synFake \<leftarrow> header_fake C packet ipHdrLen tcpHdrLen 0x02 (\<lambda>p. put32 p (ipHdrLen + 4) (origSeq - 100000)) ttl;
     rsts \<leftarrow> repeat_send 0 3 (\<lambda>i. do {
       rstFake \<leftarrow> header_fake C packet ipHdrLen tcpHdrLen 0x04 (\<lambda>p. put32 p (ipHdrLen + 4) (origSeq + of_nat (i * 100))) ttl;
       Some [c_emit C rstFake dst, Pause (50 * Microsecond)] });
     tl \<leftarrow> (if c_v6 C then Some [] else do {
       pushFake \<leftarrow> header_fake C packet ipHdrLen tcpHdrLen 0x18 Some ttl;
       urgFake \<leftarrow> header_fake C packet ipHdrLen tcpHdrLen 0x39 (\<lambda>p. put16 p (ipHdrLen + 18) 0xFFFF) ttl;
       Some [c_emit C pushFake dst, Pause (100 * Microsecond), c_emit C urgFake dst] });
     Some ([c_emit C synFake dst, Pause (100 * Microsecond)] @ rsts @ tl) })"

definition desync :: "craft \<Rightarrow> env \<Rightarrow> SetConfig \<Rightarrow> bytes \<Rightarrow> bytes \<Rightarrow> effect list option" where
  "desync C e cfg packet dst =
     (let da = NewDesyncAttacker (TCP cfg); mode = da_mode da in
      if desync_Mode (Desync (TCP cfg)) = ConfigOff then Some []
      else if mode = ''rst'' then desync_rst C packet dst da
      else if mode = ''fin'' then desync_fin C packet dst da
      else if mode = ''ack'' then desync_ack C e packet dst da
      else if mode = ''full'' then desync_full C packet dst da
      else desync_combo C e packet dst da)"

definition ExecuteDesyncIPv4 :: "env \<Rightarrow> SetConfig \<Rightarrow> bytes \<Rightarrow> bytes \<Rightarrow> effect list option" where
  "ExecuteDesyncIPv4 = desync craft4"

definition ExecuteDesyncIPv6 :: "env \<Rightarrow> SetConfig \<Rightarrow> bytes \<Rightarrow> bytes \<Rightarrow> effect list option" where
  "ExecuteDesyncIPv6 = desync craft6"

section \<open>\<^verbatim>\<open>win.go\<close>\<close>

record WindowManipulator =
  wm_mode :: string
  wm_values :: "int list"

definition NewWindowManipulator :: "TCPConfig \<Rightarrow> WindowManipulator" where
  "NewWindowManipulator cfg =
     \<lparr>wm_mode = win_Mode (Win cfg), wm_values = (if length (Values (Win cfg)) = 0 then [0, 1460, 8192, 65535] else Values (Win cfg))\<rparr>"

text \<open>The first 20 bytes of the TCP header with another window, and \<open>uint8(high - i)\<close> as TTL; \<open>ack\<close> sets the flags to ACK\<close>
definition window_fake :: "craft \<Rightarrow> bytes \<Rightarrow> nat \<Rightarrow> uint16 \<Rightarrow> int \<Rightarrow> nat \<Rightarrow> bool \<Rightarrow> bytes option" where
  "window_fake C packet ipHdrLen winSize high i ack = do {
     fake \<leftarrow> gslice packet 0 (ipHdrLen + 20);
     fake \<leftarrow> put16 fake (ipHdrLen + 14) winSize;
     let ttl = (of_int (high - int i) :: byte);
     fake \<leftarrow> upd fake (ttl_at C) (if ttl < 1 then 1 else ttl);
     fake \<leftarrow> c_size C fake (ipHdrLen + 20);
     fake \<leftarrow> (if ack then upd fake (ipHdrLen + 13) 0x10 else Some fake);
     c_done C fake ipHdrLen }"

definition oscillating :: "craft \<Rightarrow> bytes \<Rightarrow> bytes \<Rightarrow> nat \<Rightarrow> WindowManipulator \<Rightarrow> effect list option" where
  "oscillating C packet dst ipHdrLen wm =
     repeat_send 0 (length (wm_values wm)) (\<lambda>i. do {
       winSize \<leftarrow> idx (wm_values wm) i;
       fake \<leftarrow> window_fake C packet ipHdrLen (of_int winSize) 10 i True;
       Some [c_emit C fake dst, Pause (100 * Microsecond)] })"

definition whole_fake :: "craft \<Rightarrow> bytes \<Rightarrow> nat \<Rightarrow> uint16 \<Rightarrow> byte \<Rightarrow> bytes option" where
  "whole_fake C packet ipHdrLen winSize ttl = do {
     fake \<leftarrow> put16 packet (ipHdrLen + 14) winSize;
     fake \<leftarrow> upd fake (ttl_at C) ttl;
     c_done C fake ipHdrLen }"

definition zero_window :: "craft \<Rightarrow> bytes \<Rightarrow> bytes \<Rightarrow> nat \<Rightarrow> effect list option" where
  "zero_window C packet dst ipHdrLen = do {
     fake \<leftarrow> whole_fake C packet ipHdrLen 0 3;
     fake2 \<leftarrow> whole_fake C packet ipHdrLen 65535 2;
     Some [c_emit C fake dst, Pause (500 * Microsecond), c_emit C fake2 dst] }"

definition random_windows :: "craft \<Rightarrow> env \<Rightarrow> bytes \<Rightarrow> bytes \<Rightarrow> nat \<Rightarrow> WindowManipulator \<Rightarrow> effect list option" where
  "random_windows C e packet dst ipHdrLen wm =
     repeat_send 0 (3 + rnd e 400) (\<lambda>i. do {
       winSize \<leftarrow> (if length (wm_values wm) > 0 then do { v \<leftarrow> idx (wm_values wm) (rnd e (410 + i)); Some (of_int v) }
                   else Some (of_nat (rnd e (410 + i))));
       fake \<leftarrow> window_fake C packet ipHdrLen winSize 8 i False;
       Some [c_emit C fake dst, Pause (duration (int (rnd e (420 + i))) Microsecond)] })"

definition escalating :: "craft \<Rightarrow> bytes \<Rightarrow> bytes \<Rightarrow> nat \<Rightarrow> effect list option" where
  "escalating C packet dst ipHdrLen =
     (let windows = [0, 100, 500, 1460, 8192, 32768, 65535]
      in repeat_send 0 (length windows) (\<lambda>i. do {
        win \<leftarrow> idx windows i;
        fake \<leftarrow> window_fake C packet ipHdrLen win 10 i False;
        Some [c_emit C fake dst, Pause (2 ^ i * 10 * Microsecond)] }))"

definition windows_by_mode :: "craft \<Rightarrow> env \<Rightarrow> SetConfig \<Rightarrow> bytes \<Rightarrow> bytes \<Rightarrow> nat \<Rightarrow> effect list option" where
  "windows_by_mode C e cfg packet dst ipHdrLen =
     (let wm = NewWindowManipulator (TCP cfg) in
      if wm_mode wm = ''zero'' then zero_window C packet dst ipHdrLen
      else if wm_mode wm = ''random'' then random_windows C e packet dst ipHdrLen wm
      else if wm_mode wm = ''escalate'' then escalating C packet dst ipHdrLen
      else oscillating C packet dst ipHdrLen wm)"

definition ManipulateWindowIPv4 :: "env \<Rightarrow> SetConfig \<Rightarrow> bytes \<Rightarrow> bytes \<Rightarrow> effect list option" where
  "ManipulateWindowIPv4 e cfg packet dst =
     (if win_Mode (Win (TCP cfg)) = ConfigOff then Some []
      else do {
        b0 \<leftarrow> idx packet 0;
        let ipHdrLen = hdr4 b0;
        if length packet < ipHdrLen + 20 then Some []
        else do {
          d \<leftarrow> idx packet (ipHdrLen + 12);
          if length packet < ipHdrLen + doff d then Some []
          else windows_by_mode craft4 e cfg packet dst ipHdrLen } })"

definition ManipulateWindowIPv6 :: "env \<Rightarrow> SetConfig \<Rightarrow> bytes \<Rightarrow> bytes \<Rightarrow> effect list option" where
  "ManipulateWindowIPv6 e cfg packet dst =
     (if win_Mode (Win (TCP cfg)) = ConfigOff then Some []
      else if length packet < 40 + 20 then Some []
      else windows_by_mode craft6 e cfg packet dst 40)"

section \<open>\<^verbatim>\<open>post_desync.go\<close>\<close>

definition post_types :: "int \<Rightarrow> (byte \<times> int) list" where
  "post_types payloadLen = [(0x04, 0), (0x14, payloadLen), (0x11, payloadLen + 1), (0x04, - 10000), (0x14, 100000)]"

definition sendPostDesyncRST :: "SetConfig \<Rightarrow> bytes \<Rightarrow> nat \<Rightarrow> bytes \<Rightarrow> effect list option" where
  "sendPostDesyncRST cfg raw ipHdrLen dst =
     (if length raw < ipHdrLen + 20 then Some []
      else do {
        d \<leftarrow> idx raw (ipHdrLen + 12);
        let tcpHdrLen = doff d;
        if tcpHdrLen < 20 \<or> ipHdrLen + tcpHdrLen > length raw then Some []
        else do {
          let fakeTypes = post_types (int (length raw) - int ipHdrLen - int tcpHdrLen);
          seq \<leftarrow> be32 raw (ipHdrLen + 4);
          ttl \<leftarrow> dynamicTTL raw False (TTL (Faking cfg));
          repeat_send 0 (length fakeTypes) (\<lambda>i. do {
            (flags, seqOff) \<leftarrow> idx fakeTypes i;
            let newSeq = int (unat seq) + seqOff;
            rst \<leftarrow> header_fake craft4 raw ipHdrLen tcpHdrLen flags
              (\<lambda>p. put32 p (ipHdrLen + 4) (of_int (if newSeq < 0 then 0 else newSeq))) ttl;
            Some [SendV4 rst dst, Pause (100 * Microsecond)] }) } })"

definition sendPostDesyncRSTv6 :: "SetConfig \<Rightarrow> bytes \<Rightarrow> bytes \<Rightarrow> effect list option" where
  "sendPostDesyncRSTv6 cfg raw dst =
     (if length raw < 40 + 20 then Some []
      else do {
        d \<leftarrow> idx raw (40 + 12);
        let tcpHdrLen = doff d;
        if tcpHdrLen < 20 \<or> 40 + tcpHdrLen > length raw then Some []
        else do {
          seq \<leftarrow> be32 raw (40 + 4);
          ttl \<leftarrow> dynamicTTL raw True (TTL (Faking cfg));
          rst \<leftarrow> header_fake craft6 raw 40 tcpHdrLen 0x14
            (\<lambda>p. put32 p (40 + 4) (seq + of_nat (length raw - 40 - tcpHdrLen))) ttl;
          Some [SendV6 rst dst] } })"

section \<open>\<^verbatim>\<open>syn.go\<close>\<close>

text \<open>\<open>fakePayload\<close> is the result of \<open>sock.GetPayload\<close>.\<close>
definition syn_payload :: "SetConfig \<Rightarrow> bytes \<Rightarrow> bytes" where
  "syn_payload st fakePayload =
     take (if SynFakeLen (TCP st) > 0 then nat (min (SynFakeLen (TCP st)) (int (length fakePayload))) else 0) fakePayload"

definition syn_strategy :: "FakingConfig \<Rightarrow> nat \<Rightarrow> bool \<Rightarrow> bytes \<Rightarrow> bytes option" where
  "syn_strategy faking ipHdrLen isIPv6 p =
     (if Strategy faking = ''randseq'' then do {
        seq \<leftarrow> be32 p (ipHdrLen + 4);
        put32 p (ipHdrLen + 4) (seq + SeqOffset faking + (if SeqOffset faking = 0 then 100000 else 0)) }
      else if Strategy faking = ''pastseq'' then do {
        seq \<leftarrow> be32 p (ipHdrLen + 4);
        let offset = (if SeqOffset faking = 0 then 10000 else SeqOffset faking);
        put32 p (ipHdrLen + 4) (if seq > offset then seq - offset else seq) }
      else if Strategy faking = ''timestamp'' then do {
        (p, ok) \<leftarrow> DecreaseTCPTimestamp p (if TimestampDecrease faking = 0 then 600000 else TimestampDecrease faking) isIPv6;
        Some p }
      else Some p)"

definition syn_ttl :: "SetConfig \<Rightarrow> byte" where
  "syn_ttl st = (if SynTTL (TCP st) = 0 then TTL (Faking st) else SynTTL (TCP st))"

definition sendFakeSyn :: "SetConfig \<Rightarrow> bytes \<Rightarrow> bytes \<Rightarrow> nat \<Rightarrow> nat \<Rightarrow> effect list option" where
  "sendFakeSyn st fakePayload raw ipHdrLen tcpHdrLen = do {
     p \<leftarrow> fake_frame raw (ipHdrLen + tcpHdrLen) (syn_payload st fakePayload);
     p \<leftarrow> put16 p 2 (of_nat (length p));
     ttl \<leftarrow> dynamicTTL raw False (syn_ttl st);
     p \<leftarrow> upd p 8 ttl;
     p \<leftarrow> syn_strategy (Faking st) ipHdrLen False p;
     p \<leftarrow> on_prefix FixIPv4Checksum p ipHdrLen;
     p \<leftarrow> FixTCPChecksum p;
     p \<leftarrow> corruptTCPChecksum p ipHdrLen;
     dst \<leftarrow> gslice p 16 20;
     Some [SendV4 p dst] }"

definition sendFakeSynV6 :: "SetConfig \<Rightarrow> bytes \<Rightarrow> bytes \<Rightarrow> nat \<Rightarrow> nat \<Rightarrow> effect list option" where
  "sendFakeSynV6 st fakePayload raw ipHdrLen tcpHdrLen = do {
     p \<leftarrow> fake_frame raw (ipHdrLen + tcpHdrLen) (syn_payload st fakePayload);
     p \<leftarrow> put16 p 4 (of_nat (tcpHdrLen + length (syn_payload st fakePayload)));
     ttl \<leftarrow> dynamicTTL raw True (syn_ttl st);
     p \<leftarrow> upd p 7 ttl;
     p \<leftarrow> syn_strategy (Faking st) ipHdrLen True p;
     p \<leftarrow> FixTCPChecksumV6 p;
     p \<leftarrow> corruptTCPChecksum p ipHdrLen;
     dst \<leftarrow> gslice p 24 40;
     Some [SendV6 p dst] }"

text \<open>\<open>rndm\<close> are the random bytes of the option.\<close>
definition sendFakeSynWithMD5 :: "bytes \<Rightarrow> SetConfig \<Rightarrow> bytes \<Rightarrow> nat \<Rightarrow> bytes \<Rightarrow> effect list option" where
  "sendFakeSynWithMD5 rndm st raw ihl dst = do {
     ttl \<leftarrow> dynamicTTL raw False (TTL (Faking st));
     p \<leftarrow> upd raw 8 ttl;
     seq \<leftarrow> be32 p (ihl + 4);
     p \<leftarrow> put32 p (ihl + 4) (seq - 10000);
     p \<leftarrow> on_prefix FixIPv4Checksum p ihl;
     p \<leftarrow> FixTCPChecksum p;
     p \<leftarrow> AddTCPMD5Option rndm p False;
     Some [SendV4 p dst] }"

definition sendFakeSynWithMD5V6 :: "bytes \<Rightarrow> SetConfig \<Rightarrow> bytes \<Rightarrow> bytes \<Rightarrow> effect list option" where
  "sendFakeSynWithMD5V6 rndm st raw dst = do {
     ttl \<leftarrow> dynamicTTL raw True (TTL (Faking st));
     p \<leftarrow> upd raw 7 ttl;
     seq \<leftarrow> be32 p (40 + 4);
     p \<leftarrow> put32 p (40 + 4) (seq - 10000);
     p \<leftarrow> AddTCPMD5Option rndm p True;
     Some [SendV6 p dst] }"

section \<open>\<^verbatim>\<open>oob.go\<close>\<close>

definition oob_position :: "env \<Rightarrow> SetConfig \<Rightarrow> bytes \<Rightarrow> nat option" where
  "oob_position e cfg payload = do {
     let oobPos = ResolveRange (int (rnd e 5)) (OOBPosition (Fragmentation cfg)) (OOBPositionMax (Fragmentation cfg));
     let oobPos = (if oobPos \<le> 0 then 1 else oobPos);
     oobPos \<leftarrow> (if MiddleSNI (Fragmentation cfg) then do {
         r \<leftarrow> locateSNI payload;
         Some (case r of Some (s, t) \<Rightarrow> if t > s then int s + (int t - int s) div 2 else oobPos | None \<Rightarrow> oobPos) }
       else Some oobPos);
     let oobPos = (if oobPos \<ge> int (length payload) then int (length payload) div 2 else oobPos);
     Some (nat (if oobPos \<le> 0 then 1 else oobPos)) }"

definition oob_char :: "SetConfig \<Rightarrow> byte" where
  "oob_char cfg = (if OOBChar (Fragmentation cfg) = 0 then 0x78 else OOBChar (Fragmentation cfg))"

definition flip_at :: "nat \<Rightarrow> bytes \<Rightarrow> bytes option" where
  "flip_at i p = do { b \<leftarrow> idx p i; upd p i (b XOR 0xFF) }"

definition set_urg :: "nat \<Rightarrow> bytes \<Rightarrow> bytes option" where
  "set_urg ipHdrLen p = do { b \<leftarrow> idx p (ipHdrLen + 13); p \<leftarrow> upd p (ipHdrLen + 13) (b OR 0x20); put16 p (ipHdrLen + 18) 1 }"

definition clear_urg :: "nat \<Rightarrow> bytes \<Rightarrow> bytes option" where
  "clear_urg ipHdrLen p = do { b \<leftarrow> idx p (ipHdrLen + 13); p \<leftarrow> upd p (ipHdrLen + 13) (b AND NOT 0x20); put16 p (ipHdrLen + 18) 0 }"

text \<open>The identification is an IPv4 field.\<close>
definition put_id :: "craft \<Rightarrow> bytes \<Rightarrow> bytes \<Rightarrow> uint16 \<Rightarrow> bytes option" where
  "put_id C packet p off = (if c_v6 C then Some p else do { i \<leftarrow> be16 packet 4; put16 p 4 (i + off) })"

definition oob_fake :: "craft \<Rightarrow> SetConfig \<Rightarrow> bytes \<Rightarrow> nat \<Rightarrow> nat \<Rightarrow> uint32 \<Rightarrow> nat \<Rightarrow> bytes option" where
  "oob_fake C cfg packet ipHdrLen payloadStart seq oobPos = do {
     fake \<leftarrow> fake_frame packet payloadStart [oob_char cfg];
     fake \<leftarrow> put32 fake (ipHdrLen + 4) (seq + of_nat oobPos);
     fake \<leftarrow> set_urg ipHdrLen fake;
     fake \<leftarrow> upd fake (ttl_at C) (if TTL (Faking cfg) = 0 then 3 else TTL (Faking cfg));
     fake \<leftarrow> put_id C packet fake 1;
     fake \<leftarrow> c_size C fake (payloadStart + 1);
     fake \<leftarrow> c_done C fake ipHdrLen;
     if Strategy (Faking cfg) = ''tcp_check'' \<or> c_v6 C \<and> Strategy (Faking cfg) = ''md5sum''
     then do { fake \<leftarrow> flip_at (ipHdrLen + 16) fake; flip_at (ipHdrLen + 17) fake }
     else if Strategy (Faking cfg) = ''md5sum''
     then do { fake \<leftarrow> flip_at (ipHdrLen + 16) fake; flip_at 10 fake }
     else Some fake }"

definition oob_fragments :: "craft \<Rightarrow> env \<Rightarrow> SetConfig \<Rightarrow> bytes \<Rightarrow> bytes \<Rightarrow> effect list option" where
  "oob_fragments C e cfg packet dst = do {
     ipHdrLen \<leftarrow> c_hdr C packet;
     if length packet < ipHdrLen + 20 then Some [c_emit C packet dst]
     else do {
       d \<leftarrow> idx packet (ipHdrLen + 12);
       let payloadStart = ipHdrLen + doff d;
       if length packet \<le> payloadStart then Some [c_emit C packet dst]
       else do {
         payload \<leftarrow> slice_from packet payloadStart;
         oobPos \<leftarrow> oob_position e cfg payload;
         seq \<leftarrow> be32 packet (ipHdrLen + 4);
         s \<leftarrow> gslice payload 0 oobPos;
         seg1 \<leftarrow> fake_frame packet payloadStart s;
         seg1 \<leftarrow> c_size C seg1 (payloadStart + oobPos);
         seg1 \<leftarrow> c_done C seg1 ipHdrLen;
         fake \<leftarrow> oob_fake C cfg packet ipHdrLen payloadStart seq oobPos;
         s \<leftarrow> slice_from payload oobPos;
         seg2 \<leftarrow> fake_frame packet payloadStart s;
         seg2 \<leftarrow> put32 seg2 (ipHdrLen + 4) (seq + of_nat oobPos);
         seg2 \<leftarrow> put_id C packet seg2 2;
         seg2 \<leftarrow> c_size C seg2 (payloadStart + length s);
         seg2 \<leftarrow> clear_urg ipHdrLen seg2;
         seg2 \<leftarrow> c_done C seg2 ipHdrLen;
         let gap = pause_ms (seg2_delay e cfg);
         Some (if frag_ReverseOrder (Fragmentation cfg)
               then c_emit C seg2 dst # gap @ c_emit C fake dst # gap @ [c_emit C seg1 dst]
               else c_emit C seg1 dst # gap @ c_emit C fake dst # gap @ [c_emit C seg2 dst]) } } }"

definition sendOOBFragments :: "env \<Rightarrow> SetConfig \<Rightarrow> bytes \<Rightarrow> bytes \<Rightarrow> effect list option" where
  "sendOOBFragments = oob_fragments craft4"

definition sendOOBFragmentsV6 :: "env \<Rightarrow> SetConfig \<Rightarrow> bytes \<Rightarrow> bytes \<Rightarrow> effect list option" where
  "sendOOBFragmentsV6 = oob_fragments craft6"

section \<open>Broken checksums\<close>

lemma not16_differs: "65535 dvd int (unat d) - int (unat (NOT d)) \<longleftrightarrow> d = 0 \<or> d = (0xFFFF :: uint16)"
proof -
  define n where "n = unat d"
  have n: "n \<le> 65535" using unat_uint16_bound [of d] by (simp add: n_def)
  have "int (unat d) - int (unat (NOT d)) = int (2 * n) - 65535"
    using n unfolding unat_not16 n_def [symmetric] by simp
  then have "65535 dvd int (unat d) - int (unat (NOT d)) \<longleftrightarrow> 65535 dvd int (2 * n)"
    by (simp only: dvd_diff_left_iff [OF dvd_refl])
  also have "\<dots> \<longleftrightarrow> n = 0 \<or> n = 65535"
  proof
    assume "65535 dvd int (2 * n)"
    then obtain k where k: "int (2 * n) = 65535 * k" by (rule dvdE)
    then have "0 \<le> k" "k \<le> 2" using n by linarith+
    moreover have "k \<noteq> 1" using k by presburger
    ultimately have "k = 0 \<or> k = 2" by linarith
    then show "n = 0 \<or> n = 65535" using k by auto
  qed auto
  also have "\<dots> \<longleftrightarrow> d = 0 \<or> d = 0xFFFF"
  proof -
    have "unat (0xFFFF :: uint16) = 65535" by simp
    then show ?thesis unfolding n_def by (simp add: word_unat_eq_iff [of d])
  qed
  finally show ?thesis .
qed

lemma not_halves: "hi8 (NOT d) = hi8 d XOR 0xFF" "lo8 (NOT d) = lo8 d XOR 0xFF"
proof -
  have "hi8 (NOT d) = NOT (hi8 d)" "lo8 (NOT d) = NOT (lo8 d)"
    by (rule bit_word_eqI, auto simp: hi8_def bit_simps, rule bit_word_eqI, auto simp: lo8_def bit_simps)
  moreover have "b XOR 0xFF = NOT b" for b :: byte
  proof -
    have "(0xFF :: byte) = - 1" by simp
    then show ?thesis by (simp only: bit.xor_one_right)
  qed
  ultimately show "hi8 (NOT d) = hi8 d XOR 0xFF" "lo8 (NOT d) = lo8 d XOR 0xFF" by simp_all
qed

lemma corrupt_set_field:
  assumes "h + 18 \<le> length x"
  shows "corruptTCPChecksum (set_field x (h + 16) d) h = Some (set_field x (h + 16) (NOT d))"
proof -
  have n: "set_field x (h + 16) d ! (h + 16) = hi8 d" "set_field x (h + 16) d ! (h + 17) = lo8 d"
    using assms by (simp_all add: set_field_def eval_nat_numeral)
  have "(set_field x (h + 16) d)[h + 16 := hi8 (NOT d), h + 17 := lo8 (NOT d)] = set_field x (h + 16) (NOT d)"
    by (rule nth_equalityI) (simp_all add: set_field_def nth_list_update' add.commute)
  then show ?thesis using assms n by (simp add: corruptTCPChecksum_def idx_ok upd_ok not_halves)
qed

section \<open>What a fake may be\<close>

text \<open>A TTL that is at least one, and below that of the packet unless that one is the least possible itself\<close>
definition low :: "byte \<Rightarrow> byte \<Rightarrow> bool" where
  "low real ttl \<longleftrightarrow> 1 \<le> ttl \<and> (1 < real \<longrightarrow> ttl < real)"

lemma fake_ttl_low: "low real (fake_ttl cfg real)"
proof -
  have "unat (0 :: byte) = 0" "unat (1 :: byte) = 1" "unat (5 :: byte) = 5" by simp_all
  then show ?thesis
    by (simp add: low_def fake_ttl_def Let_def word_less_nat_alt word_le_nat_alt unat_sub_if' flip: unat_eq_zero)
qed

text \<open>An edit of the sequence number, the acknowledgement and the urgent pointer\<close>
definition edit_ok :: "nat \<Rightarrow> (bytes \<Rightarrow> bytes option) \<Rightarrow> bool" where
  "edit_ok h f \<longleftrightarrow> (\<forall>x. h + 20 \<le> length x \<longrightarrow> (\<exists>y. f x = Some y \<and> length y = length x \<and>
     (\<forall>i. i \<notin> {h + 4 ..< h + 12} \<union> {h + 18, h + 19} \<longrightarrow> y ! i = x ! i)))"

lemma edit_okD:
  assumes "edit_ok h f" "h + 20 \<le> length x"
  shows "\<exists>y. f x = Some y \<and> length y = length x \<and> (\<forall>i. i \<notin> {h + 4 ..< h + 12} \<union> {h + 18, h + 19} \<longrightarrow> y ! i = x ! i)"
  using assms by (simp add: edit_ok_def)

lemma edit_ok_rules:
  "edit_ok h Some" "edit_ok h (\<lambda>x. put32 x (h + 4) v)" "edit_ok h (\<lambda>x. put32 x (h + 8) v)" "edit_ok h (\<lambda>x. put16 x (h + 18) u)"
  by (auto simp: edit_ok_def put32_set32 put16_set_field)

lemma edit_ok_bind:
  assumes "edit_ok h f" "edit_ok h g"
  shows "edit_ok h (\<lambda>x. f x \<bind> g)"
  unfolding edit_ok_def
proof (intro allI impI)
  fix x :: bytes
  assume l: "h + 20 \<le> length x"
  obtain y where y: "f x = Some y" "length y = length x" "\<forall>i. i \<notin> {h + 4 ..< h + 12} \<union> {h + 18, h + 19} \<longrightarrow> y ! i = x ! i"
    using edit_okD [OF assms(1) l] by blast
  have "h + 20 \<le> length y" using l y(2) by simp
  then obtain z where "g y = Some z" "length z = length y" "\<forall>i. i \<notin> {h + 4 ..< h + 12} \<union> {h + 18, h + 19} \<longrightarrow> z ! i = y ! i"
    using edit_okD [OF assms(2)] by blast
  then show "\<exists>y. f x \<bind> g = Some y \<and> length y = length x \<and> (\<forall>i. i \<notin> {h + 4 ..< h + 12} \<union> {h + 18, h + 19} \<longrightarrow> y ! i = x ! i)"
    using y by simp
qed

definition fvar :: "nat \<Rightarrow> nat set" where
  "fvar h = {h + 4 ..< h + 12} \<union> {h + 13} \<union> {h + 16 ..< h + 20}"

text \<open>Headers of the packet without payload, a low TTL, a length that fits, and the bitwise inverse of the right TCP checksum, which a
  receiver rejects unless it is one of the two forms of zero\<close>
definition decoy4 :: "bytes \<Rightarrow> bytes \<Rightarrow> bool" where
  "decoy4 p q \<longleftrightarrow> length q = hdrs4 p \<and> tot4 q = length q \<and> low (p ! 8) (q ! 8) \<and> cs_ok (ip4_total q) \<and>
     (\<forall>i < hdrs4 p. i \<notin> {2, 3, 8, 10, 11} \<union> fvar (ihl4 p) \<longrightarrow> q ! i = p ! i) \<and>
     cs_ok (tcp4_total (set_field q (ihl4 p + 16) (NOT (u16 (q ! (ihl4 p + 16)) (q ! (ihl4 p + 17)))))) \<and>
     (cs_ok (tcp4_total q) \<longrightarrow> u16 (q ! (ihl4 p + 16)) (q ! (ihl4 p + 17)) \<in> {0, 0xFFFF})"

definition decoy6 :: "bytes \<Rightarrow> bytes \<Rightarrow> bool" where
  "decoy6 p q \<longleftrightarrow> length q = hdrs6 p \<and> 40 + plen6 q = length q \<and> low (p ! 7) (q ! 7) \<and>
     (\<forall>i < hdrs6 p. i \<notin> {4, 5, 7} \<union> fvar 40 \<longrightarrow> q ! i = p ! i) \<and>
     cs_ok (tcp6_total (set_field q 56 (NOT (u16 (q ! 56) (q ! 57))))) \<and>
     (cs_ok (tcp6_total q) \<longrightarrow> u16 (q ! 56) (q ! 57) \<in> {0, 0xFFFF})"

lemma not_zero_forms: "d = 0 \<or> d = 0xFFFF \<Longrightarrow> NOT d \<in> {0, 0xFFFF :: uint16}"
  by (elim disjE) simp_all

lemma header_fake4:
  assumes "tcp4_ok p" "edit_ok (ihl4 p) f" "low (p ! 8) ttl"
  shows "\<exists>q. header_fake craft4 p (ihl4 p) (thl_at (ihl4 p) p) flags f ttl = Some q \<and> decoy4 p q"
proof -
  define h where "h = ihl4 p"
  define n where "n = h + thl_at h p"
  have l: "20 \<le> h" "h + 20 \<le> n" "n \<le> length p" using assms(1) by (auto simp: tcp4_ok_def h_def n_def)
  have n16: "n < 65536" using ihl4_le [of p] doff_le [of "p ! (h + 12)"] by (simp add: n_def h_def thl_at_def)
  define x where "x = (take n p)[h + 13 := flags]"
  have lx: "length x = n" "h + 20 \<le> length x" using l by (simp_all add: x_def)
  obtain y where y: "f x = Some y" "length y = n" "\<And>i. i \<notin> {h + 4 ..< h + 12} \<union> {h + 18, h + 19} \<Longrightarrow> y ! i = x ! i"
    using edit_okD [OF assms(2) [folded h_def] lx(2)] lx(1) by auto
  define z where "z = set_field (y[8 := ttl]) 2 (of_nat n)"
  have lz: "length z = n" by (simp add: z_def y(2))
  have zn: "z ! i = p ! i" if "i < n" "i \<notin> {2, 3, 8} \<union> fvar h" for i
    using that y(3) [of i] by (auto simp: z_def x_def fvar_def)
  have z8: "z ! 8 = ttl" using y(2) l by (simp add: z_def)
  have hz: "ihl4 z = h" using zn [of 0] l by (simp add: ihl4_def h_def fvar_def)
  have tz: "tot4 z = length z" using n16 lz y(2) l unfolding z_def by (subst tot4_set) auto
  obtain c d q where q: "on_prefix FixIPv4Checksum z h = Some (set_field z 10 c)" "FixTCPChecksum (set_field z 10 c) = Some q"
      "q = set_field (set_field z 10 c) (h + 16) d" "valid4 q"
    using fix_both4 [of z] hz tz l lz by auto
  let ?z = "set_field z 10 c" and ?r = "set_field (set_field z 10 c) (h + 16) (NOT d)"
  have lr: "length ?r = n" by (simp add: lz)
  have "corruptTCPChecksum q h = Some ?r" unfolding q(3) by (rule corrupt_set_field) (use l lz in simp)
  moreover have "header_fake craft4 p h (thl_at h p) flags f ttl = corruptTCPChecksum q h"
    using l y(1,2) q(1,2) unfolding header_fake_def n_def [symmetric]
    by (simp add: craft4_def ttl_at_def gslice_ok upd_ok x_def [symmetric] put16_set_field z_def [symmetric])
  ultimately have build: "header_fake craft4 p h (thl_at h p) flags f ttl = Some ?r" by simp
  have wz: "tcp4_wf ?z" using hz tz l lz by (simp add: tcp4_wf_def)
  have pz: "tcp4_pos ?z = h + 16" using hz l by (simp add: tcp4_pos_def)
  have right: "cs_ok (tcp4_total (set_field ?z (tcp4_pos ?z) d))" using q(4) by (simp add: pz q(3) valid4_def)
  moreover have "set_field ?r (h + 16) (NOT (NOT d)) = set_field ?z (h + 16) d" by simp
  ultimately have inv: "cs_ok (tcp4_total (set_field ?r (h + 16) (NOT (NOT d))))" by (simp only: pz)
  from tcp4.field_valid_iff [OF wz right tcp4_total_pos, of "NOT d"]
  have bad: "cs_ok (tcp4_total ?r) \<Longrightarrow> NOT d \<in> {0, 0xFFFF}"
    using not16_differs [of d] not_zero_forms [of d] by (simp add: pz)
  have "u16 (?r ! (h + 16)) (?r ! (h + 17)) = NOT d" using lz l by (simp add: set_field_def eval_nat_numeral)
  moreover have "cs_ok (ip4_total ?r)"
  proof -
    have "ip4_total ?r = ip4_total ?z" "ip4_total q = ip4_total ?z" using hz l by (simp_all add: q(3) ip4_total_field_ge)
    then show ?thesis using q(4) by (simp add: valid4_def)
  qed
  moreover have "?r ! i = p ! i" if "i < n" "i \<notin> {2, 3, 8, 10, 11} \<union> fvar h" for i
  proof -
    have "i \<noteq> h + 16" "i \<noteq> h + 16 + 1" using that(2) by (auto simp: fvar_def)
    then show ?thesis using that zn [of i] by simp
  qed
  moreover have "tot4 ?r = length ?r" using tz l hz by simp
  moreover have "?r ! 8 = ttl" using z8 l by simp
  ultimately have "decoy4 p ?r"
    using bad inv lr assms(3) unfolding decoy4_def h_def [symmetric] n_def [symmetric] by simp
  then show ?thesis using build by (auto simp: h_def)
qed

lemma tcp6_total_pos: "0 < tcp6_total q"
  by (simp add: tcp6_total_def pseudo6_sum_def Let_def)

lemma header_fake6:
  assumes "tcp6_ok p" "edit_ok 40 f" "low (p ! 7) ttl"
  shows "\<exists>q. header_fake craft6 p 40 (thl_at 40 p) flags f ttl = Some q \<and> decoy6 p q"
proof -
  define n where "n = 40 + thl_at 40 p"
  have l: "60 \<le> n" "n \<le> length p" using assms(1) by (auto simp: tcp6_ok_def n_def)
  have n16: "n < 65576" using doff_le [of "p ! 52"] by (simp add: n_def thl_at_def)
  define x where "x = (take n p)[53 := flags]"
  have lx: "length x = n" "40 + 20 \<le> length x" using l by (simp_all add: x_def)
  obtain y where y: "f x = Some y" "length y = n" "\<And>i. i \<notin> {40 + 4 ..< 40 + 12} \<union> {40 + 18, 40 + 19} \<Longrightarrow> y ! i = x ! i"
    using edit_okD [OF assms(2) lx(2)] lx(1) by auto
  define z where "z = set_field (y[7 := ttl]) 4 (of_nat (n - 40))"
  have lz: "length z = n" by (simp add: z_def y(2))
  have zn: "z ! i = p ! i" if "i < n" "i \<notin> {4, 5, 7} \<union> fvar 40" for i
    using that y(3) [of i] by (auto simp: z_def x_def fvar_def)
  have z7: "z ! 7 = ttl" using y(2) l by (simp add: z_def)
  have tz: "40 + plen6 z = length z" using n16 lz y(2) l unfolding z_def by (subst plen6_set) auto
  obtain d where q: "FixTCPChecksumV6 z = Some (set_field z 56 d)" "valid6 (set_field z 56 d)"
    using fix_tcp6 [of z] tz lz l by auto
  let ?r = "set_field z 56 (NOT d)"
  have lr: "length ?r = n" by (simp add: lz)
  have "int n - 40 = int (n - 40)" using l by simp
  then have sz: "of_int (int n - 40) = (of_nat (n - 40) :: uint16)" by (simp only: of_int_of_nat_eq)
  have "corruptTCPChecksum (set_field z 56 d) 40 = Some ?r" using corrupt_set_field [of 40 z d] l lz by simp
  moreover have "header_fake craft6 p 40 (thl_at 40 p) flags f ttl = corruptTCPChecksum (set_field z 56 d) 40"
    using l y(1,2) q(1) unfolding header_fake_def n_def [symmetric]
    by (simp add: craft6_def ttl_at_def gslice_ok upd_ok x_def [symmetric] put16_set_field sz z_def [symmetric] del: of_nat_diff of_int_diff)
  ultimately have build: "header_fake craft6 p 40 (thl_at 40 p) flags f ttl = Some ?r" by simp
  have wz: "tcp6_wf z" using tz l lz by (simp add: tcp6_wf_def)
  have right: "cs_ok (tcp6_total (set_field z 56 d))" using q(2) by (simp add: valid6_def)
  then have inv: "cs_ok (tcp6_total (set_field ?r 56 (NOT (NOT d))))" by simp
  from tcp6.field_valid_iff [OF wz right tcp6_total_pos, of "NOT d"]
  have bad: "cs_ok (tcp6_total ?r) \<Longrightarrow> NOT d \<in> {0, 0xFFFF}"
    using not16_differs [of d] not_zero_forms [of d] by simp
  have "u16 (?r ! 56) (?r ! 57) = NOT d" using lz l by (simp add: set_field_def eval_nat_numeral)
  moreover have "?r ! i = p ! i" if "i < n" "i \<notin> {4, 5, 7} \<union> fvar 40" for i
  proof -
    have "i \<noteq> 56" "i \<noteq> 56 + 1" using that(2) by (auto simp: fvar_def)
    then show ?thesis using that zn [of i] by simp
  qed
  moreover have "40 + plen6 ?r = length ?r" using tz by simp
  moreover have "?r ! 7 = ttl" using z7 by simp
  ultimately have "decoy6 p ?r"
    using bad inv lr assms(3) unfolding decoy6_def n_def [symmetric] by simp
  then show ?thesis using build by auto
qed

text \<open>A sender returns and all it sends satisfies \<open>P\<close>.\<close>
definition sends_only :: "(bytes \<Rightarrow> bool) \<Rightarrow> effect list option \<Rightarrow> bool" where
  "sends_only P r \<longleftrightarrow> (\<exists>es. r = Some es \<and> (\<forall>q \<in> set (sent es). P q))"

lemma sends_only_repeat: "(\<And>i. i < j + n \<Longrightarrow> sends_only P (body i)) \<Longrightarrow> sends_only P (repeat_send j n body)"
proof (induction n arbitrary: j)
  case (Suc n)
  obtain es where es: "body j = Some es" "\<forall>q \<in> set (sent es). P q" using Suc.prems [of j] by (auto simp: sends_only_def)
  have "sends_only P (repeat_send (Suc j) n body)" by (rule Suc.IH) (simp add: Suc.prems)
  then show ?case using es by (auto simp: sends_only_def)
qed (simp add: sends_only_def)

locale fake_maker =
  fixes C :: craft
    and wf :: "bytes \<Rightarrow> bool"
    and H :: "bytes \<Rightarrow> nat"
    and T :: "bytes \<Rightarrow> nat"
    and decoy :: "bytes \<Rightarrow> bytes \<Rightarrow> bool"
  assumes guard: "wf p \<Longrightarrow> \<exists>seq ack. with_tcp C p k = k (H p) (T p) seq ack"
    and made: "wf p \<Longrightarrow> edit_ok (H p) f \<Longrightarrow> low (p ! ttl_at C) ttl \<Longrightarrow>
      \<exists>q. header_fake C p (H p) (T p) flags f ttl = Some q \<and> decoy p q"
    and hop: "wf p \<Longrightarrow> \<exists>u. dynamicTTL p (c_v6 C) t = Some u \<and> low (p ! ttl_at C) u"
    and emits: "sent [c_emit C q dst] = [q]"
begin

lemma emits_Cons [simp]: "sent (c_emit C q dst # es) = q # sent es"
  using emits [of q dst] sent_simps(5) [of "[c_emit C q dst]" es] by simp

lemma one_fake:
  assumes "wf p" "edit_ok (H p) f" "low (p ! ttl_at C) ttl"
  shows "sends_only (decoy p) (do { q \<leftarrow> header_fake C p (H p) (T p) flags f ttl; Some [c_emit C q dst, Pause d] })"
  using made [OF assms, of flags] by (auto simp: sends_only_def)

lemma rst_fakes: "wf p \<Longrightarrow> sends_only (decoy p) (desync_rst C p dst da)"
proof -
  assume wf: "wf p"
  obtain u where u: "dynamicTTL p (c_v6 C) (da_ttl da) = Some u" "low (p ! ttl_at C) u" using hop [OF wf] by blast
  obtain seq where "desync_rst C p dst da = repeat_send 0 (nat (da_count da)) (\<lambda>i. do {
       let flags = (if i mod 2 = 0 then 0x04 else 0x14);
       ttl \<leftarrow> dynamicTTL p (c_v6 C) (da_ttl da);
       fake \<leftarrow> header_fake C p (H p) (T p) flags (\<lambda>fake. do {
           fake \<leftarrow> put32 fake (H p + 4) (seq + of_int (rst_offset i));
           if flags = 0x04 then put32 fake (H p + 8) 0 else Some fake }) ttl;
       Some [c_emit C fake dst, Pause (100 * Microsecond)] })"
    unfolding desync_rst_def using guard [OF wf] by blast
  moreover have "edit_ok (H p) (\<lambda>fake. do { fake \<leftarrow> put32 fake (H p + 4) v; if b then put32 fake (H p + 8) 0 else Some fake })" for v b
    by (cases b) (auto intro!: edit_ok_bind edit_ok_rules)
  ultimately show ?thesis by (auto simp: u(1) Let_def intro!: sends_only_repeat one_fake wf u(2))
qed

lemma fin_fakes: "wf p \<Longrightarrow> sends_only (decoy p) (desync_fin C p dst da)"
proof -
  assume wf: "wf p"
  obtain u where u: "dynamicTTL p (c_v6 C) (da_ttl da) = Some u" "low (p ! ttl_at C) u" using hop [OF wf] by blast
  obtain seq ack where "desync_fin C p dst da = repeat_send 0 (nat (da_count da)) (\<lambda>i. do {
       let seqOffset = (of_nat (50000 + i * 10000) :: uint32);
       ttl \<leftarrow> dynamicTTL p (c_v6 C) (da_ttl da);
       fake \<leftarrow> header_fake C p (H p) (T p) 0x11 (\<lambda>fake. do {
           fake \<leftarrow> put32 fake (H p + 4) (if seq > seqOffset then seq - seqOffset else 1);
           put32 fake (H p + 8) ack }) ttl;
       Some [c_emit C fake dst, Pause (200 * Microsecond)] })"
    unfolding desync_fin_def using guard [OF wf] by blast
  then show ?thesis by (auto simp: u(1) Let_def intro!: sends_only_repeat one_fake edit_ok_bind edit_ok_rules wf u(2))
qed

end

lemma ack_ttl_low: "low real base \<Longrightarrow> low real (ack_ttl base i)"
proof -
  assume b: "low real base"
  let ?i = "of_nat i :: byte"
  have "unat (1 :: byte) = 1" by simp
  then show ?thesis
    using b by (auto simp: low_def ack_ttl_def Let_def word_less_nat_alt word_le_nat_alt unat_sub_if')
qed

lemma sends_onlyD: "sends_only P r \<Longrightarrow> \<exists>es. r = Some es \<and> (\<forall>q \<in> set (sent es). P q)"
  by (simp add: sends_only_def)

context fake_maker
begin

lemma ack_fakes: "wf p \<Longrightarrow> sends_only (decoy p) (desync_ack C e p dst da)"
proof -
  assume wf: "wf p"
  obtain u where u: "dynamicTTL p (c_v6 C) (da_ttl da) = Some u" "low (p ! ttl_at C) u" using hop [OF wf] by blast
  obtain seq ack where "desync_ack C e p dst da = do {
     baseTTL \<leftarrow> dynamicTTL p (c_v6 C) (da_ttl da);
     repeat_send 0 (nat (da_count da)) (\<lambda>i. do {
       fake \<leftarrow> header_fake C p (H p) (T p) 0x10 (\<lambda>fake. do {
           fake \<leftarrow> put32 fake (H p + 4) (seq + of_nat (rnd e (300 + i)));
           put32 fake (H p + 8) (ack + of_nat (100000 * (i + 1))) }) (ack_ttl baseTTL i);
       Some [c_emit C fake dst, Pause (50 * Microsecond)] }) }"
    unfolding desync_ack_def using guard [OF wf] by blast
  then show ?thesis
    by (auto simp: u(1) intro!: sends_only_repeat one_fake edit_ok_bind edit_ok_rules wf ack_ttl_low u(2))
qed

lemma combo_fakes:
  assumes "wf p"
  shows "sends_only (decoy p) (desync_combo C e p dst da)"
proof -
  let ?d = "\<lambda>n. \<lparr>da_mode = '''', da_ttl = da_ttl da, da_count = n\<rparr>"
  obtain a where "desync_rst C p dst (?d 1) = Some a" "\<forall>q \<in> set (sent a). decoy p q"
    using sends_onlyD [OF rst_fakes [OF assms]] by blast
  moreover obtain b where "desync_fin C p dst (?d 1) = Some b" "\<forall>q \<in> set (sent b). decoy p q"
    using sends_onlyD [OF fin_fakes [OF assms]] by blast
  moreover obtain c where "desync_ack C e p dst (?d 2) = Some c" "\<forall>q \<in> set (sent c). decoy p q"
    using sends_onlyD [OF ack_fakes [OF assms]] by blast
  ultimately show ?thesis by (auto simp: desync_combo_def sends_only_def)
qed

lemma full_fakes:
  assumes "wf p"
  shows "sends_only (decoy p) (desync_full C p dst da)"
proof -
  obtain u where u: "dynamicTTL p (c_v6 C) (da_ttl da) = Some u" "low (p ! ttl_at C) u" using hop [OF assms] by blast
  note mk = made [OF assms _ u(2)]
  obtain seq where g: "desync_full C p dst da = do {
     ttl \<leftarrow> dynamicTTL p (c_v6 C) (da_ttl da);
     synFake \<leftarrow> header_fake C p (H p) (T p) 0x02 (\<lambda>x. put32 x (H p + 4) (seq - 100000)) ttl;
     rsts \<leftarrow> repeat_send 0 3 (\<lambda>i. do {
       rstFake \<leftarrow> header_fake C p (H p) (T p) 0x04 (\<lambda>x. put32 x (H p + 4) (seq + of_nat (i * 100))) ttl;
       Some [c_emit C rstFake dst, Pause (50 * Microsecond)] });
     tl \<leftarrow> (if c_v6 C then Some [] else do {
       pushFake \<leftarrow> header_fake C p (H p) (T p) 0x18 Some ttl;
       urgFake \<leftarrow> header_fake C p (H p) (T p) 0x39 (\<lambda>x. put16 x (H p + 18) 0xFFFF) ttl;
       Some [c_emit C pushFake dst, Pause (100 * Microsecond), c_emit C urgFake dst] });
     Some ([c_emit C synFake dst, Pause (100 * Microsecond)] @ rsts @ tl) }"
    unfolding desync_full_def using guard [OF assms] by blast
  obtain s where s: "header_fake C p (H p) (T p) 0x02 (\<lambda>x. put32 x (H p + 4) (seq - 100000)) u = Some s" "decoy p s"
    using mk [OF edit_ok_rules(2)] by blast
  obtain a where a: "header_fake C p (H p) (T p) 0x18 Some u = Some a" "decoy p a" using mk [OF edit_ok_rules(1)] by blast
  obtain b where b: "header_fake C p (H p) (T p) 0x39 (\<lambda>x. put16 x (H p + 18) 0xFFFF) u = Some b" "decoy p b"
    using mk [OF edit_ok_rules(4)] by blast
  have "sends_only (decoy p) (repeat_send 0 3 (\<lambda>i. do {
       rstFake \<leftarrow> header_fake C p (H p) (T p) 0x04 (\<lambda>x. put32 x (H p + 4) (seq + of_nat (i * 100))) u;
       Some [c_emit C rstFake dst, Pause (50 * Microsecond)] }))"
    by (intro sends_only_repeat one_fake assms edit_ok_rules u(2))
  then obtain rs where "repeat_send 0 3 (\<lambda>i. do {
       rstFake \<leftarrow> header_fake C p (H p) (T p) 0x04 (\<lambda>x. put32 x (H p + 4) (seq + of_nat (i * 100))) u;
       Some [c_emit C rstFake dst, Pause (50 * Microsecond)] }) = Some rs" "\<forall>q \<in> set (sent rs). decoy p q"
    using sends_onlyD by blast
  then show ?thesis using g u(1) s a b by (auto simp: sends_only_def)
qed

lemma desync_fakes: "wf p \<Longrightarrow> sends_only (decoy p) (desync C e cfg p dst)"
  using rst_fakes fin_fakes ack_fakes full_fakes combo_fakes
  by (auto simp: desync_def Let_def sends_only_def [of "decoy p" "Some []"])

end

interpretation f4: fake_maker craft4 tcp4_ok ihl4 "\<lambda>p. thl_at (ihl4 p) p" decoy4
proof (unfold_locales, goal_cases)
  case (1 p k)
  note l = tcp4_bounds [OF this]
  have "0 < length p" using l by linarith
  then show ?case using l by (auto simp: with_tcp_def craft4_def idx_ok be32_ok Let_def ihl4_def thl_at_def)
next
  case (2 p f ttl flags)
  then show ?case using header_fake4 by (simp add: ttl_at_def craft4_def)
next
  case (3 p t)
  then have "8 < length p" using tcp4_bounds [of p] by linarith
  then show ?case by (simp add: dynamicTTL_def craft4_def ttl_at_def idx_ok fake_ttl_low)
qed (simp add: craft4_def)

interpretation f6: fake_maker craft6 tcp6_ok "\<lambda>p. 40" "thl_at 40" decoy6
proof (unfold_locales, goal_cases)
  case (1 p k)
  then show ?case by (auto simp: with_tcp_def craft6_def idx_ok be32_ok Let_def thl_at_def tcp6_ok_def)
next
  case (2 p f ttl flags)
  then show ?case using header_fake6 by (simp add: ttl_at_def craft6_def)
next
  case (3 p t)
  then have "7 < length p" by (auto simp: tcp6_ok_def)
  then show ?case by (simp add: dynamicTTL_def craft6_def ttl_at_def idx_ok fake_ttl_low)
qed (simp add: craft6_def)

lemma post_fakes4:
  assumes "tcp4_ok p"
  shows "sends_only (decoy4 p) (sendPostDesyncRST cfg p (ihl4 p) dst)"
proof -
  note l = tcp4_bounds [OF assms]
  obtain u where u: "dynamicTTL p False (TTL (Faking cfg)) = Some u" "low (p ! ttl_at craft4) u"
    using f4.hop [OF assms] by (auto simp: craft4_def)
  let ?ft = "post_types (int (length p) - int (ihl4 p) - int (thl_at (ihl4 p) p))"
  obtain seq where s: "be32 p (ihl4 p + 4) = Some seq" using l by (simp add: be32_ok)
  have mk: "sends_only (decoy4 p) (do { rst \<leftarrow> header_fake craft4 p (ihl4 p) (thl_at (ihl4 p) p) fl (\<lambda>x. put32 x (ihl4 p + 4) v) u;
      Some [SendV4 rst dst, Pause d] })" for fl v d
    using f4.one_fake [OF assms edit_ok_rules(2) u(2), of fl v dst d] by (simp add: craft4_def)
  have g: "sendPostDesyncRST cfg p (ihl4 p) dst = repeat_send 0 (length ?ft) (\<lambda>i. do {
            (flags, seqOff) \<leftarrow> idx ?ft i;
            let newSeq = int (unat seq) + seqOff;
            rst \<leftarrow> header_fake craft4 p (ihl4 p) (thl_at (ihl4 p) p) flags
              (\<lambda>x. put32 x (ihl4 p + 4) (of_int (if newSeq < 0 then 0 else newSeq))) u;
            Some [SendV4 rst dst, Pause (100 * Microsecond)] })"
    using l u(1) s by (simp add: sendPostDesyncRST_def idx_ok thl_at_def Let_def)
  have "sends_only (decoy4 p) (do {
            (flags, seqOff) \<leftarrow> idx ?ft i;
            let newSeq = int (unat seq) + seqOff;
            rst \<leftarrow> header_fake craft4 p (ihl4 p) (thl_at (ihl4 p) p) flags
              (\<lambda>x. put32 x (ihl4 p + 4) (of_int (if newSeq < 0 then 0 else newSeq))) u;
            Some [SendV4 rst dst, Pause (100 * Microsecond)] })" if "i < length ?ft" for i
    using mk by (simp add: idx_ok [OF that] Let_def split: prod.split)
  then show ?thesis unfolding g by (intro sends_only_repeat) simp
qed

lemma post_fakes6:
  assumes "tcp6_ok p"
  shows "sends_only (decoy6 p) (sendPostDesyncRSTv6 cfg p dst)"
proof -
  obtain u where u: "dynamicTTL p True (TTL (Faking cfg)) = Some u" "low (p ! ttl_at craft6) u"
    using f6.hop [OF assms] by (auto simp: craft6_def)
  have l: "60 \<le> length p" "20 \<le> thl_at 40 p" "40 + thl_at 40 p \<le> length p" using assms by (auto simp: tcp6_ok_def)
  obtain seq where s: "be32 p (40 + 4) = Some seq" using l by (simp add: be32_ok)
  have "sendPostDesyncRSTv6 cfg p dst = do {
      rst \<leftarrow> header_fake craft6 p 40 (thl_at 40 p) 0x14 (\<lambda>x. put32 x (40 + 4) (seq + of_nat (length p - 40 - thl_at 40 p))) u; Some [SendV6 rst dst] }"
    using l u(1) s by (simp add: sendPostDesyncRSTv6_def idx_ok thl_at_def Let_def)
  moreover obtain q where "header_fake craft6 p 40 (thl_at 40 p) 0x14 (\<lambda>x. put32 x (40 + 4) (seq + of_nat (length p - 40 - thl_at 40 p))) u = Some q"
      "decoy6 p q"
    using f6.made [OF assms edit_ok_rules(2) u(2)] by blast
  ultimately show ?thesis by (simp add: sends_only_def)
qed

text \<open>C6: The fake RST, FIN, ACK, SYN, PSH and URG packets around a connection, in every mode and count: each is the header of the
  packet alone with its addresses and ports, a stated length that fits, a correct IPv4 header checksum, and a TTL of at least one that is
  below that of the packet if that is above one. Its TCP checksum is the bitwise inverse of the right one, which a receiver rejects
  unless the stored value is one of the two forms of zero. The senders return on every packet with consistent header lengths, over
  IPv6 without extension headers.\<close>
theorem desync_fakes_rejected:
  assumes "tcp4_ok p" "tcp6_ok p6"
  shows "sends_only (decoy4 p) (ExecuteDesyncIPv4 e cfg p dst) \<and> sends_only (decoy6 p6) (ExecuteDesyncIPv6 e cfg p6 dst6) \<and>
     sends_only (decoy4 p) (sendPostDesyncRST cfg p (ihl4 p) dst) \<and> sends_only (decoy6 p6) (sendPostDesyncRSTv6 cfg p6 dst6)"
  using f4.desync_fakes [OF assms(1)] f6.desync_fakes [OF assms(2)] post_fakes4 [OF assms(1)] post_fakes6 [OF assms(2)]
  by (simp add: ExecuteDesyncIPv4_def ExecuteDesyncIPv6_def)

definition desync_set :: SetConfig where
  "desync_set = inject_set\<lparr>TCP := plain_tcp\<lparr>Desync := \<lparr>desync_Mode = ''combo'', desync_TTL = 3, desync_Count = 3, PostDesync = True\<rparr>\<rparr>\<rparr>"

theorem desync_fakes_rejected_witness:
  "tcp4_ok long4 \<and> tcp6_ok long6 \<and> da_mode (NewDesyncAttacker (TCP desync_set)) = ''combo'' \<and>
   sends_only (decoy4 long4) (ExecuteDesyncIPv4 sample_env desync_set long4 [10, 0, 0, 1]) \<and>
   sends_only (decoy6 long6) (ExecuteDesyncIPv6 sample_env desync_set long6 [])"
  using desync_fakes_rejected [of long4 long6 sample_env desync_set "[10, 0, 0, 1]" "[]"] sample_segments
  by (simp add: desync_set_def NewDesyncAttacker_def inject_set_def)

end
