(* ===== verification/Mutation.thy ===== *)
theory Mutation
  imports Strategies
begin

text \<open>
  Rewriting the ClientHello before it is sent: \<^verbatim>\<open>src/src/nfq/mutation.go\<close> and \<^verbatim>\<open>mutation_ipv6.go\<close>. The two files differ
  in where the TCP header starts and in the length check in front of an insertion, which is what \<open>six\<close> decides.
  Random numbers: \<open>rb k\<close> are the bytes of the \<open>k\<close>-th read, \<open>r32\<close> the numbers of the shuffle.
\<close>

abbreviation MaxTCPPacketSize :: nat where "MaxTCPPacketSize \<equiv> 1460"
abbreviation MaxSNILength :: nat where "MaxSNILength \<equiv> 255"

definition greaseValues :: "uint16 list" where
  "greaseValues = [0x0a0a, 0x1a1a, 0x2a2a, 0x3a3a, 0x4a4a, 0x5a5a, 0x6a6a, 0x7a7a,
     0x8a8a, 0x9a9a, 0xaaaa, 0xbaba, 0xcaca, 0xdada, 0xeaea, 0xfafa]"

definition commonExtensions :: "uint16 list" where
  "commonExtensions = [0x0001, 0x0005, 0x000a, 0x000d, 0x000f, 0x0017, 0x0023, 0x002b, 0x0033]"

definition hdr_of :: "bool \<Rightarrow> bytes \<Rightarrow> nat option" where
  "hdr_of six packet = (if six then Some 40 else map_option hdr4 (idx packet 0))"

section \<open>Where the extensions are\<close>

definition findExtensionsOffset :: "bytes \<Rightarrow> nat option option" where
  "findExtensionsOffset payload =
     (if length payload < 43 then Some None
      else do {
        r \<leftarrow> skip8 payload 43;
        case r of None \<Rightarrow> Some None | Some pos \<Rightarrow> do {
        r \<leftarrow> skip16 payload pos;
        case r of None \<Rightarrow> Some None | Some pos \<Rightarrow> do {
        r \<leftarrow> skip8 payload pos;
        case r of None \<Rightarrow> Some None | Some pos \<Rightarrow>
          if pos + 2 > length payload then Some None else Some (Some pos) } } })"

text \<open>The loop over extensions up to \<open>stop\<close>\<close>
function exts_loop :: "bytes \<Rightarrow> nat \<Rightarrow> nat \<Rightarrow> bytes list option" where
  "exts_loop data stop pos =
     (if pos < stop \<and> pos + 4 \<le> length data then
        if pos + 4 > stop then Some []
        else do {
          l \<leftarrow> be16 data (pos + 2);
          let el = unat l;
          if pos + 4 + el > stop \<or> pos + 4 + el > length data then Some []
          else do {
            ext \<leftarrow> gslice data pos (pos + 4 + el);
            rest \<leftarrow> exts_loop data stop (pos + (4 + el));
            Some (ext # rest) } }
      else Some [])"
  by pat_completeness auto
termination
  by (relation "measure (\<lambda>(d, s, p). length d - p)") auto

declare exts_loop.simps [simp del]

definition parseExtensions :: "bytes \<Rightarrow> bytes list option" where
  "parseExtensions data =
     (if length data < 2 then Some []
      else do {
        l \<leftarrow> be16 data 0;
        let extLen = unat l;
        if length data < 2 + extLen then Some [] else exts_loop data (2 + extLen) 2 })"

section \<open>Writing extensions\<close>

text \<open>The record length and the handshake length of a ClientHello at \<open>ps\<close>\<close>
definition hello_lengths :: "bytes \<Rightarrow> nat \<Rightarrow> bytes option" where
  "hello_lengths packet ps = do {
     let payloadLen = int (length packet) - int ps;
     packet \<leftarrow> (if payloadLen \<ge> 5 then do {
         b \<leftarrow> idx packet ps;
         if b = 0x16 then put16 packet (ps + 3) (of_int (payloadLen - 5)) else Some packet }
       else Some packet);
     if payloadLen \<ge> 9 then do {
       b \<leftarrow> idx packet ps;
       c \<leftarrow> idx packet (ps + 5);
       if b = 0x16 \<and> c = 0x01 then do {
         let helloLen = payloadLen - 9;
         packet \<leftarrow> upd packet (ps + 6) (of_int (helloLen div 65536));
         packet \<leftarrow> upd packet (ps + 7) (of_int (helloLen div 256));
         upd packet (ps + 8) (of_int helloLen) }
       else Some packet }
     else Some packet }"

definition updatePacketLengths :: "bytes \<Rightarrow> bytes option" where
  "updatePacketLengths packet =
     (if length packet < 1 then Some packet
      else do {
        b0 \<leftarrow> idx packet 0;
        if drop_bit 4 b0 = 6 then
          if length packet < 40 + 20 then Some packet
          else do {
            d \<leftarrow> idx packet (40 + 12);
            packet \<leftarrow> put16 packet 4 (of_nat (length packet - 40));
            packet \<leftarrow> hello_lengths packet (40 + doff d);
            FixTCPChecksumV6 packet }
        else do {
          let ipHdrLen = hdr4 b0;
          if length packet < ipHdrLen + 20 then Some packet
          else do {
            d \<leftarrow> idx packet (ipHdrLen + 12);
            packet \<leftarrow> put16 packet 2 (of_nat (length packet));
            packet \<leftarrow> hello_lengths packet (ipHdrLen + doff d);
            packet \<leftarrow> on_prefix FixIPv4Checksum packet ipHdrLen;
            FixTCPChecksum packet } } })"

text \<open>The position of the extensions length field and the length it states, if all of it is in the packet\<close>
definition ext_field :: "bool \<Rightarrow> bytes \<Rightarrow> (nat \<times> nat) option option" where
  "ext_field six packet =
     (if six \<and> length packet < 40 + 20 then Some None
      else do {
        h \<leftarrow> hdr_of six packet;
        d \<leftarrow> idx packet (h + 12);
        let payloadStart = h + doff d;
        payload \<leftarrow> slice_from packet payloadStart;
        r \<leftarrow> findExtensionsOffset payload;
        case r of None \<Rightarrow> Some None
        | Some extOffset \<Rightarrow> do {
            let extPos = payloadStart + extOffset;
            if length packet < extPos + 2 then Some None
            else do {
              l \<leftarrow> be16 packet extPos;
              if extPos + 2 + unat l > length packet then Some None else Some (Some (extPos, unat l)) } } })"

definition insert_exts :: "bool \<Rightarrow> bytes \<Rightarrow> bytes \<Rightarrow> bytes option" where
  "insert_exts six packet newExts = do {
     r \<leftarrow> ext_field six packet;
     case r of None \<Rightarrow> Some packet
     | Some (extPos, currentExtLen) \<Rightarrow>
         if length packet + length newExts > MaxTCPPacketSize \<and> length packet \<ge> MaxTCPPacketSize then Some packet
         else do {
           let newExts = (if length packet + length newExts > MaxTCPPacketSize then take (MaxTCPPacketSize - length packet) newExts else newExts);
           let newPacket = mk (length packet + length newExts);
           a \<leftarrow> gslice packet 0 extPos;
           newPacket \<leftarrow> copy_from newPacket 0 a;
           newPacket \<leftarrow> put16 newPacket extPos (of_nat (currentExtLen + length newExts));
           a \<leftarrow> gslice packet (extPos + 2) (extPos + 2 + currentExtLen);
           newPacket \<leftarrow> copy_from newPacket (extPos + 2) a;
           newPacket \<leftarrow> copy_from newPacket (extPos + 2 + currentExtLen) newExts;
           newPacket \<leftarrow> (if extPos + 2 + currentExtLen < length packet then do {
               a \<leftarrow> slice_from packet (extPos + 2 + currentExtLen);
               copy_from newPacket (extPos + 2 + currentExtLen + length newExts) a }
             else Some newPacket);
           updatePacketLengths newPacket } }"

definition replace_exts :: "bool \<Rightarrow> bytes \<Rightarrow> bytes \<Rightarrow> bytes option" where
  "replace_exts six packet newExts = do {
     r \<leftarrow> ext_field six packet;
     case r of None \<Rightarrow> Some packet
     | Some (extPos, currentExtLen) \<Rightarrow>
         if length packet + length newExts - currentExtLen > MaxTCPPacketSize then Some packet
         else do {
           let newPacket = mk (length packet + length newExts - currentExtLen);
           a \<leftarrow> gslice packet 0 extPos;
           newPacket \<leftarrow> copy_from newPacket 0 a;
           newPacket \<leftarrow> put16 newPacket extPos (of_nat (length newExts));
           newPacket \<leftarrow> copy_from newPacket (extPos + 2) newExts;
           newPacket \<leftarrow> (if extPos + 2 + currentExtLen < length packet then do {
               a \<leftarrow> slice_from packet (extPos + 2 + currentExtLen);
               copy_from newPacket (extPos + 2 + length newExts) a }
             else Some newPacket);
           updatePacketLengths newPacket } }"

definition insertExtensions :: "bytes \<Rightarrow> bytes \<Rightarrow> bytes option" where "insertExtensions = insert_exts False"
definition insertExtensionsv6 :: "bytes \<Rightarrow> bytes \<Rightarrow> bytes option" where "insertExtensionsv6 = insert_exts True"
definition replaceExtensions :: "bytes \<Rightarrow> bytes \<Rightarrow> bytes option" where "replaceExtensions = replace_exts False"
definition replaceExtensionsv6 :: "bytes \<Rightarrow> bytes \<Rightarrow> bytes option" where "replaceExtensionsv6 = replace_exts True"

section \<open>The mutations\<close>

definition sni_ext :: "bytes \<Rightarrow> bytes" where
  "sni_ext sni = [0, 0, hi8 (of_nat (5 + length sni)), lo8 (of_nat (5 + length sni)), hi8 (of_nat (3 + length sni)), lo8 (of_nat (3 + length sni)),
     0, hi8 (of_nat (length sni)), lo8 (of_nat (length sni))] @ sni"

definition fake_snis :: "SetConfig \<Rightarrow> bytes" where
  "fake_snis cfg = concat (map sni_ext (filter (\<lambda>s. s \<noteq> [] \<and> length s \<le> MaxSNILength) (FakeSNIs (SNIMutation (Faking cfg)))))"

definition duplicate_sni :: "bool \<Rightarrow> bytes \<Rightarrow> SetConfig \<Rightarrow> bytes option" where
  "duplicate_sni six packet cfg = do {
     h \<leftarrow> hdr_of six packet;
     d \<leftarrow> idx packet (h + 12);
     payload \<leftarrow> slice_from packet (h + doff d);
     r \<leftarrow> findExtensionsOffset payload;
     case r of None \<Rightarrow> Some packet | Some _ \<Rightarrow> insert_exts six packet (fake_snis cfg) }"

definition typed_ext :: "uint16 \<Rightarrow> bytes \<Rightarrow> bytes" where
  "typed_ext ty dat = [hi8 ty, lo8 ty, 0, 4] @ dat"

definition grease_ext :: "(nat \<Rightarrow> nat \<Rightarrow> byte) \<Rightarrow> nat \<Rightarrow> bytes option" where
  "grease_ext rb i = do {
     v \<leftarrow> idx greaseValues (unat (rb (2 * i) 0 mod 16));
     Some (typed_ext v (map (rb (2 * i + 1)) [0..<4])) }"

definition add_grease :: "bool \<Rightarrow> (nat \<Rightarrow> nat \<Rightarrow> byte) \<Rightarrow> bytes \<Rightarrow> SetConfig \<Rightarrow> bytes option" where
  "add_grease six rb packet cfg =
     (let n = GreaseCount (SNIMutation (Faking cfg)) in
      if n < 0 then None
      else do { gs \<leftarrow> those (map (grease_ext rb) [0..<nat n]); insert_exts six packet (concat gs) })"

definition add_padding :: "bool \<Rightarrow> bytes \<Rightarrow> SetConfig \<Rightarrow> bytes option" where
  "add_padding six packet cfg =
     (let n = PaddingSize (SNIMutation (Faking cfg));
          n = (if n < 16 then 16 else n);
          n = (if n > 4096 then 4096 else n);
          m = (if int (length packet) + n + 4 > int MaxTCPPacketSize then int MaxTCPPacketSize - int (length packet) - 4 else n)
      in if m \<le> 0 then Some packet
         else insert_exts six packet ([0, 0x15, hi8 (of_int m), lo8 (of_int m)] @ mk (nat m)))"

text \<open>The server name extension that was seen last, and the others in their order\<close>
definition split_exts :: "bytes list \<Rightarrow> bytes option \<times> bytes list" where
  "split_exts extensions = foldl (\<lambda>(s, os) ext. if take 2 ext = [0, 0] then (Some ext, os) else (s, os @ [ext])) (None, []) extensions"

definition reorder_exts :: "bool \<Rightarrow> (nat \<Rightarrow> uint32) \<Rightarrow> bytes \<Rightarrow> SetConfig \<Rightarrow> bytes option" where
  "reorder_exts six r32 packet cfg = do {
     h \<leftarrow> hdr_of six packet;
     d \<leftarrow> idx packet (h + 12);
     let payloadStart = h + doff d;
     payload \<leftarrow> slice_from packet payloadStart;
     r \<leftarrow> findExtensionsOffset payload;
     case r of None \<Rightarrow> Some packet
     | Some extOffset \<Rightarrow> do {
         data \<leftarrow> slice_from packet (payloadStart + extOffset);
         extensions \<leftarrow> parseExtensions data;
         if length extensions < 2 then Some packet
         else do {
           let (sniExt, otherExts) = split_exts extensions;
           otherExts \<leftarrow> shuffle_down (\<lambda>i. unat (r32 i) mod (i + 1)) (length otherExts - 1) otherExts;
           replace_exts six packet ((case sniExt of Some e \<Rightarrow> e | None \<Rightarrow> []) @ concat otherExts) } } }"

definition alpn_protocols :: "string list" where
  "alpn_protocols = [''http/1.0'', ''http/1.1'', ''h2'', ''h3'', ''spdy/3'', ''spdy/3.1'', ''quic'', ''hq'', ''doq'',
     ''xmpp'', ''mqtt'', ''amqp'', ''grpc'', ''websocket'']"

text \<open>The loop stops at the first protocol that does not fit.\<close>
fun alpn_data :: "bytes \<Rightarrow> bytes list \<Rightarrow> bytes" where
  "alpn_data acc [] = acc"
| "alpn_data acc (p # ps) = (if length acc + 1 + length p > 255 then acc else alpn_data (acc @ of_nat (length p) # p) ps)"

definition add_alpn :: "bool \<Rightarrow> bytes \<Rightarrow> bytes option" where
  "add_alpn six packet =
     (let dat = alpn_data [] (map (map (of_nat \<circ> of_char)) alpn_protocols)
      in insert_exts six packet ([0, 0x10, hi8 (of_nat (2 + length dat)), lo8 (of_nat (2 + length dat)),
           hi8 (of_nat (length dat)), lo8 (of_nat (length dat))] @ dat))"

definition unknown_ext :: "(nat \<Rightarrow> nat \<Rightarrow> byte) \<Rightarrow> nat \<Rightarrow> bytes option" where
  "unknown_ext rb i = do {
     ty \<leftarrow> (if i < length commonExtensions then idx commonExtensions i
            else idx [0x00ff, 0x1234, 0x5678, 0x9abc, 0xfe00, 0xffff] (i mod 6));
     Some (typed_ext ty (map (rb (1000 + i)) [0..<4])) }"

definition add_unknown :: "bool \<Rightarrow> (nat \<Rightarrow> nat \<Rightarrow> byte) \<Rightarrow> bytes \<Rightarrow> int \<Rightarrow> bytes option" where
  "add_unknown six rb packet n =
     (if n < 0 then None
      else do { us \<leftarrow> those (map (unknown_ext rb) [0..<nat n]); insert_exts six packet (concat us) })"

definition common_exts :: bytes where
  "common_exts =
     [0x00, 0x0a, 0x00, 0x08, 0x00, 0x06, 0x00, 0x1d, 0x00, 0x17, 0x00, 0x18] @
     [0x00, 0x0d, 0x00, 0x0e, 0x00, 0x0c, 0x04, 0x03, 0x05, 0x03, 0x06, 0x03, 0x04, 0x01, 0x05, 0x01, 0x06, 0x01] @
     [0x00, 0x2b, 0x00, 0x05, 0x04, 0x03, 0x04, 0x03, 0x03] @ [0x00, 0x23, 0x00, 0x00]"

definition add_common :: "bool \<Rightarrow> bytes \<Rightarrow> bytes option" where
  "add_common six packet = insert_exts six packet common_exts"

text \<open>Nothing is cut here: what does not fit is left out.\<close>
definition insert_fitting :: "bool \<Rightarrow> bytes \<Rightarrow> bytes \<Rightarrow> bytes option" where
  "insert_fitting six packet ext = (if length packet + length ext \<le> MaxTCPPacketSize then insert_exts six packet ext else Some packet)"

definition add_advanced :: "bool \<Rightarrow> (nat \<Rightarrow> nat \<Rightarrow> byte) \<Rightarrow> bytes \<Rightarrow> bytes option" where
  "add_advanced six rb packet = do {
     mutated \<leftarrow> insert_fitting six packet [0x00, 0x2d, 0x00, 0x02, 0x01, 0x01];
     mutated \<leftarrow> insert_fitting six mutated ([0x00, 0x33, 0x00, 0x26, 0x00, 0x24, 0x00, 0x1d, 0x00, 0x20] @ map (rb 2000) [0..<32]);
     insert_fitting six mutated [0x00, 0x05, 0x00, 0x05, 0x01, 0x00, 0x00, 0x00, 0x00] }"

definition full_mutation :: "bool \<Rightarrow> (nat \<Rightarrow> nat \<Rightarrow> byte) \<Rightarrow> (nat \<Rightarrow> uint32) \<Rightarrow> bytes \<Rightarrow> SetConfig \<Rightarrow> bytes option" where
  "full_mutation six rb r32 packet cfg = do {
     mutated \<leftarrow> duplicate_sni six packet cfg;
     if length mutated > MaxTCPPacketSize then Some packet
     else do {
       mutated \<leftarrow> add_common six mutated;
       if length mutated > MaxTCPPacketSize then duplicate_sni six packet cfg
       else do {
         mutated \<leftarrow> add_advanced six rb mutated;
         mutated \<leftarrow> (if length mutated > MaxTCPPacketSize then do { m \<leftarrow> duplicate_sni six packet cfg; add_common six m } else Some mutated);
         mutated \<leftarrow> add_grease six rb mutated cfg;
         mutated \<leftarrow> add_alpn six mutated;
         mutated \<leftarrow> add_unknown six rb mutated (FakeExtCount (SNIMutation (Faking cfg)));
         mutated \<leftarrow> reorder_exts six r32 mutated cfg;
         add_padding six mutated cfg } } }"

definition mutate :: "bool \<Rightarrow> (nat \<Rightarrow> nat \<Rightarrow> byte) \<Rightarrow> (nat \<Rightarrow> uint32) \<Rightarrow> SetConfig \<Rightarrow> bytes \<Rightarrow> bytes option" where
  "mutate six rb r32 cfg packet =
     (let mode = mut_Mode (SNIMutation (Faking cfg)) in
      if mode = ConfigOff then Some packet
      else if six \<and> length packet < 40 + 20 then Some packet
      else do {
        h \<leftarrow> hdr_of six packet;
        d \<leftarrow> idx packet (h + 12);
        let payloadStart = h + doff d;
        if length packet \<le> payloadStart + 5 then Some packet
        else do {
          payload \<leftarrow> slice_from packet payloadStart;
          a \<leftarrow> idx payload 0;
          b \<leftarrow> idx payload 1;
          if a \<noteq> 0x16 \<or> b \<noteq> 0x03 then Some packet
          else do {
            l \<leftarrow> be16 payload 3;
            if length payload < 5 + unat l then Some packet
            else do {
              c \<leftarrow> idx payload 5;
              if c \<noteq> 0x01 then Some packet
              else if mode = ''duplicate'' then duplicate_sni six packet cfg
              else if mode = ''grease'' then add_grease six rb packet cfg
              else if mode = ''padding'' then add_padding six packet cfg
              else if mode = ''reorder'' then reorder_exts six r32 packet cfg
              else if mode = ''full'' then full_mutation six rb r32 packet cfg
              else if mode = ''advanced'' then add_advanced six rb packet
              else Some packet } } } })"

definition MutateClientHello :: "(nat \<Rightarrow> nat \<Rightarrow> byte) \<Rightarrow> (nat \<Rightarrow> uint32) \<Rightarrow> SetConfig \<Rightarrow> bytes \<Rightarrow> bytes option" where
  "MutateClientHello = mutate False"

definition MutateClientHelloV6 :: "(nat \<Rightarrow> nat \<Rightarrow> byte) \<Rightarrow> (nat \<Rightarrow> uint32) \<Rightarrow> SetConfig \<Rightarrow> bytes \<Rightarrow> bytes option" where
  "MutateClientHelloV6 = mutate True"

section \<open>Lengths and checksums\<close>

text \<open>The record and handshake lengths of a ClientHello at \<open>n\<close>\<close>
definition hello_sized :: "nat \<Rightarrow> bytes \<Rightarrow> bool" where
  "hello_sized n q \<longleftrightarrow> (n + 9 \<le> length q \<and> q ! n = 0x16 \<and> q ! (n + 5) = 0x01 \<longrightarrow>
     5 + unat (u16 (q ! (n + 3)) (q ! (n + 4))) = length q - n \<and>
     9 + (65536 * unat (q ! (n + 6)) + 256 * unat (q ! (n + 7)) + unat (q ! (n + 8))) = length q - n)"

definition lvar :: "nat \<Rightarrow> nat set" where
  "lvar n = {n + 3, n + 4, n + 6, n + 7, n + 8}"

lemma bytes24: "k < 16777216 \<Longrightarrow> 65536 * unat (of_nat (k div 65536) :: byte) + 256 * unat (of_nat (k div 256) :: byte) + unat (of_nat k :: byte) = k"
proof -
  assume k: "k < 16777216"
  have "unat (of_nat (k div 65536) :: byte) = k div 65536" using k by (simp add: unat_of_nat take_bit_eq_mod)
  moreover have "unat (of_nat (k div 256) :: byte) = k div 256 mod 256" "unat (of_nat k :: byte) = k mod 256"
    by (simp_all add: unat_of_nat take_bit_eq_mod)
  moreover have "k = 256 * (k div 256) + k mod 256" "k div 256 = 256 * (k div 65536) + k div 256 mod 256"
    using div_mult2_eq [of k 256 256] mult_div_mod_eq [of 256 "k div 256"] by simp_all
  ultimately show ?thesis by linarith
qed

lemma hello_lengths_ok:
  assumes "n \<le> length x" "length x < 65536"
  shows "\<exists>b. hello_lengths x n = Some b \<and> length b = length x \<and> (\<forall>i. i \<notin> lvar n \<longrightarrow> b ! i = x ! i) \<and> hello_sized n b"
proof -
  define k where "k = length x - n"
  have e: "int (length x) - int n = int k" using assms(1) by (simp add: k_def)
  consider "k < 5" | "5 \<le> k" "x ! n \<noteq> 0x16" | "5 \<le> k" "x ! n = 0x16" "k < 9 \<or> x ! (n + 5) \<noteq> 1" | "9 \<le> k" "x ! n = 0x16" "x ! (n + 5) = 1"
    by linarith
  then show ?thesis
  proof cases
    case 1
    then show ?thesis unfolding hello_lengths_def e by (auto simp: hello_sized_def k_def Let_def)
  next
    case 2
    then have "hello_lengths x n = Some x" unfolding hello_lengths_def e by (auto simp: k_def Let_def idx_ok)
    then show ?thesis using 2 by (simp add: hello_sized_def)
  next
    case 3
    let ?b = "set_field x (n + 3) (of_int (int k - 5))"
    have "hello_lengths x n = Some ?b"
      using 3 unfolding hello_lengths_def e by (auto simp: k_def Let_def idx_ok put16_set_field)
    moreover have "hello_sized n ?b" using 3 by (auto simp: hello_sized_def k_def)
    ultimately show ?thesis by (auto simp: lvar_def)
  next
    case 4
    let ?a = "set_field x (n + 3) (of_nat (k - 5))"
    let ?b = "?a[n + 6 := of_nat ((k - 9) div 65536), n + 7 := of_nat ((k - 9) div 256), n + 8 := of_nat (k - 9)]"
    have l: "n + 9 \<le> length x" using 4 by (simp add: k_def)
    have w: "of_int (int k - 5) = (of_nat (k - 5) :: uint16)"
      "of_int ((int k - 9) div 65536) = (of_nat ((k - 9) div 65536) :: byte)"
      "of_int ((int k - 9) div 256) = (of_nat ((k - 9) div 256) :: byte)" "of_int (int k - 9) = (of_nat (k - 9) :: byte)"
    proof -
      have e5: "int k - 5 = int (k - 5)" and e9: "int k - 9 = int (k - 9)" using 4(1) by simp_all
      have d: "int (k - 9) div 65536 = int ((k - 9) div 65536)" "int (k - 9) div 256 = int ((k - 9) div 256)" by (simp_all add: zdiv_int)
      show "of_int (int k - 5) = (of_nat (k - 5) :: uint16)"
        "of_int ((int k - 9) div 65536) = (of_nat ((k - 9) div 65536) :: byte)"
        "of_int ((int k - 9) div 256) = (of_nat ((k - 9) div 256) :: byte)" "of_int (int k - 9) = (of_nat (k - 9) :: byte)"
        by (simp_all only: e5 e9 d of_int_of_nat_eq)
    qed
    have "hello_lengths x n = Some ?b"
      using 4 l unfolding hello_lengths_def e w Let_def
      by (simp add: idx_ok put16_set_field upd_ok w del: of_nat_diff of_int_diff)
    moreover have "hello_sized n ?b"
    proof -
      have k: "k < 65536" using assms(2) by (simp add: k_def)
      have "?b ! (n + 3) = hi8 (of_nat (k - 5))" "?b ! (n + 4) = lo8 (of_nat (k - 5))"
        using l by (simp_all add: set_field_def add.commute [of _ n])
      then have "unat (u16 (?b ! (n + 3)) (?b ! (n + 4))) = k - 5"
        using k unat_of_nat16 [of "k - 5"] by (simp only: u16_split)
      moreover have "?b ! (n + 6) = of_nat ((k - 9) div 65536)" "?b ! (n + 7) = of_nat ((k - 9) div 256)" "?b ! (n + 8) = of_nat (k - 9)"
        using l by simp_all
      moreover have "65536 * unat (of_nat ((k - 9) div 65536) :: byte) + 256 * unat (of_nat ((k - 9) div 256) :: byte) + unat (of_nat (k - 9) :: byte) = k - 9"
        by (rule bytes24) (use k in simp)
      ultimately show ?thesis using 4(1) by (simp add: hello_sized_def k_def [symmetric])
    qed
    ultimately show ?thesis by (auto simp: lvar_def)
  qed
qed
text \<open>A TCP packet of the family, what a receiver checks of it, and the header fields that depend on its length\<close>
definition wf_pkt :: "bool \<Rightarrow> bytes \<Rightarrow> bool" where
  "wf_pkt six p \<longleftrightarrow> (if six then tcp6_ok p \<and> drop_bit 4 (p ! 0) = 6 else tcp4_ok p \<and> drop_bit 4 (p ! 0) = 4)"

definition start_of :: "bool \<Rightarrow> bytes \<Rightarrow> nat" where
  "start_of six p = (if six then hdrs6 p else hdrs4 p)"

definition good :: "bool \<Rightarrow> bytes \<Rightarrow> bool" where
  "good six q \<longleftrightarrow> (if six then valid6 q else valid4 q)"

definition hvar :: "bool \<Rightarrow> bytes \<Rightarrow> nat set" where
  "hvar six p = (if six then {4, 5, 56, 57} else {2, 3, 10, 11, ihl4 p + 16, ihl4 p + 17})"

text \<open>\<open>q\<close> is \<open>x\<close> with its lengths and checksums made right.\<close>
definition relens :: "bool \<Rightarrow> bytes \<Rightarrow> bytes \<Rightarrow> bool" where
  "relens six x q \<longleftrightarrow> wf_pkt six q \<and> good six q \<and> start_of six q = start_of six x \<and> length q = length x \<and>
     hello_sized (start_of six x) q \<and>
     (\<forall>i < length x. i \<notin> hvar six x \<union> lvar (start_of six x) \<longrightarrow> q ! i = x ! i)"

lemma lvar_ge: "i < n \<Longrightarrow> i \<notin> lvar n"
  by (auto simp: lvar_def)

lemma updatePacketLengths4:
  assumes "wf_pkt False x" "length x < 65536"
  shows "\<exists>q. updatePacketLengths x = Some q \<and> relens False x q"
proof -
  define h where "h = ihl4 x"
  define n where "n = h + thl_at h x"
  have l: "20 \<le> h" "h + 20 \<le> n" "n \<le> length x" and v: "drop_bit 4 (x ! 0) = 4"
    using assms(1) by (auto simp: wf_pkt_def tcp4_ok_def h_def n_def)
  let ?a = "set_field x 2 (of_nat (length x))"
  have ln: "n \<le> length ?a" "length ?a < 65536" using l assms(2) by simp_all
  obtain b where b: "hello_lengths ?a n = Some b" "length b = length x" "\<And>i. i \<notin> lvar n \<Longrightarrow> b ! i = ?a ! i" "hello_sized n b"
    using hello_lengths_ok [OF ln] by auto
  have bn: "b ! i = x ! i" if "i \<notin> {2, 3} \<union> lvar n" for i using that b(3) [of i] by simp
  have hb: "ihl4 b = h" using bn [of 0] lvar_ge [of 0 n] l by (simp add: ihl4_def h_def)
  have tb: "tot4 b = length b"
  proof -
    have "tot4 b = tot4 ?a" using b(3) [of 2] b(3) [of 3] lvar_ge [of 2 n] lvar_ge [of 3 n] l by (simp add: tot4_def)
    also have "\<dots> = length x" using assms(2) l by (subst tot4_set) auto
    finally show ?thesis using b(2) by simp
  qed
  obtain c d q where q: "on_prefix FixIPv4Checksum b h = Some (set_field b 10 c)" "FixTCPChecksum (set_field b 10 c) = Some q"
      "q = set_field (set_field b 10 c) (h + 16) d" "valid4 q"
    using fix_both4 [of b] hb tb l b(2) by auto
  have "0 < length x" using l by linarith
  then have x0: "idx x 0 = Some (x ! 0)" "x \<noteq> []" by (simp_all add: idx_ok)
  have build: "updatePacketLengths x = Some q"
    using l v b(1) q(1,2) x0 unfolding updatePacketLengths_def
    by (simp add: idx_ok put16_set_field ihl4_def [symmetric] h_def [symmetric] thl_at_def [symmetric] n_def [symmetric] Let_def)
  have qn: "q ! i = b ! i" if "i \<notin> {10, 11, h + 16, h + 17}" for i using that by (simp add: q(3))
  have "q ! i = x ! i" if "i \<notin> hvar False x \<union> lvar n" for i
    using that qn [of i] bn [of i] by (simp add: hvar_def h_def)
  note qx = this
  have t: "ihl4 q = h" "thl_at h q = thl_at h x" "drop_bit 4 (q ! 0) = 4"
    using qx [of 0] qx [of "h + 12"] lvar_ge [of 0 n] lvar_ge [of "h + 12" n] l v
    by (auto simp: ihl4_def thl_at_def hvar_def h_def)
  have lq: "length q = length x" by (simp add: q(3) b(2))
  have "wf_pkt False q" "start_of False q = n"
    using t l lq by (simp_all add: wf_pkt_def tcp4_ok_def start_of_def n_def)
  moreover have "hello_sized n q"
  proof -
    have "q ! i = b ! i" if "n \<le> i" for i by (rule qn) (use that l in auto)
    then show ?thesis using b(4) lq b(2) by (simp add: hello_sized_def)
  qed
  moreover have "start_of False x = n" by (simp add: start_of_def n_def h_def)
  ultimately show ?thesis using build q(4) lq qx by (auto simp: relens_def good_def)
qed

lemma updatePacketLengths6:
  assumes "wf_pkt True x" "length x < 65536"
  shows "\<exists>q. updatePacketLengths x = Some q \<and> relens True x q"
proof -
  define n where "n = 40 + thl_at 40 x"
  have l: "60 \<le> n" "n \<le> length x" and v: "drop_bit 4 (x ! 0) = 6" "x ! 6 = 6"
    using assms(1) by (auto simp: wf_pkt_def tcp6_ok_def n_def)
  let ?a = "set_field x 4 (of_nat (length x - 40))"
  have ln: "n \<le> length ?a" "length ?a < 65536" using l assms(2) by simp_all
  obtain b where b: "hello_lengths ?a n = Some b" "length b = length x" "\<And>i. i \<notin> lvar n \<Longrightarrow> b ! i = ?a ! i" "hello_sized n b"
    using hello_lengths_ok [OF ln] by auto
  have bn: "b ! i = x ! i" if "i \<notin> {4, 5} \<union> lvar n" for i using that b(3) [of i] by simp
  have tb: "40 + plen6 b = length b"
  proof -
    have "plen6 b = plen6 ?a" using b(3) [of 4] b(3) [of 5] lvar_ge [of 4 n] lvar_ge [of 5 n] l by (simp add: plen6_def)
    also have "40 + \<dots> = length x" using assms(2) l by (subst plen6_set) auto
    finally show ?thesis using b(2) by simp
  qed
  obtain d where q: "FixTCPChecksumV6 b = Some (set_field b 56 d)" "valid6 (set_field b 56 d)"
    using fix_tcp6 [of b] tb b(2) l by auto
  let ?q = "set_field b 56 d"
  have "0 < length x" using l by linarith
  then have x0: "idx x 0 = Some (x ! 0)" "x \<noteq> []" by (simp_all add: idx_ok)
  have "40 + doff (x ! 52) = n" by (simp add: n_def thl_at_def)
  then have build: "updatePacketLengths x = Some ?q"
    using l v b(1) q(1) x0 unfolding updatePacketLengths_def
    by (simp add: idx_ok put16_set_field Let_def del: of_nat_diff)
  have qn: "?q ! i = b ! i" if "i \<notin> {56, 57}" for i using that by simp
  have qx: "?q ! i = x ! i" if "i \<notin> hvar True x \<union> lvar n" for i
    using that qn [of i] bn [of i] by (simp add: hvar_def)
  have t: "thl_at 40 ?q = thl_at 40 x" "drop_bit 4 (?q ! 0) = 6" "?q ! 6 = 6"
    using qx [of 0] qx [of 52] qx [of 6] lvar_ge [of 0 n] lvar_ge [of 52 n] lvar_ge [of 6 n] l v
    by (auto simp: thl_at_def hvar_def)
  have lq: "length ?q = length x" by (simp add: b(2))
  have "wf_pkt True ?q" "start_of True ?q = n"
    using t l lq by (simp_all add: wf_pkt_def tcp6_ok_def start_of_def n_def)
  moreover have "hello_sized n ?q"
  proof -
    have "?q ! i = b ! i" if "n \<le> i" for i by (rule qn) (use that l in auto)
    then show ?thesis using b(4) lq b(2) by (simp add: hello_sized_def)
  qed
  moreover have "start_of True x = n" by (simp add: start_of_def n_def)
  ultimately show ?thesis using build q(2) lq qx by (auto simp: relens_def good_def)
qed

lemma updatePacketLengths_ok: "wf_pkt six x \<Longrightarrow> length x < 65536 \<Longrightarrow> \<exists>q. updatePacketLengths x = Some q \<and> relens six x q"
  using updatePacketLengths4 updatePacketLengths6 by (cases six) auto
section \<open>Extension lists\<close>

text \<open>An extension whose stated length is its length\<close>
definition ext_ok :: "bytes \<Rightarrow> bool" where
  "ext_ok e \<longleftrightarrow> 4 \<le> length e \<and> 4 + unat (u16 (e ! 2) (e ! 3)) = length e"

lemma exts_loop_concat:
  assumes "\<forall>e \<in> set es. ext_ok e"
  shows "exts_loop (pre @ concat es @ post) (length pre + length (concat es)) (length pre) = Some es"
  using assms
proof (induction es arbitrary: pre)
  case Nil
  then show ?case by (simp add: exts_loop.simps)
next
  case (Cons e es)
  let ?d = "pre @ concat (e # es) @ post" and ?s = "length pre + length (concat (e # es))"
  have e: "4 \<le> length e" "4 + unat (u16 (e ! 2) (e ! 3)) = length e" using Cons.prems by (simp_all add: ext_ok_def)
  have ne: "e \<noteq> []" using e(1) by auto
  have "be16 ?d (length pre + 2) = Some (u16 (e ! 2) (e ! 3))"
    using e(1) by (simp add: be16_ok nth_append eval_nat_numeral)
  moreover have "gslice ?d (length pre) (length pre + length e) = Some e" by (simp add: gslice_ok)
  moreover have "exts_loop ?d ?s (length pre + length e) = Some es"
    using Cons.IH [of "pre @ e"] Cons.prems by (simp add: add.assoc)
  ultimately show ?case
    using e ne by (subst exts_loop.simps) (simp add: Let_def add.assoc)
qed

lemma parseExtensions_concat:
  assumes "\<forall>e \<in> set es. ext_ok e" "length (concat es) < 65536"
    "d = [hi8 (of_nat (length (concat es))), lo8 (of_nat (length (concat es)))] @ concat es @ post"
  shows "parseExtensions d = Some es"
proof -
  have "be16 d 0 = Some (of_nat (length (concat es)))" by (simp add: assms(3) be16_ok)
  then show ?thesis
    using exts_loop_concat [OF assms(1), of "[hi8 (of_nat (length (concat es))), lo8 (of_nat (length (concat es)))]" post]
      unat_of_nat16 [OF assms(2)]
    by (simp add: parseExtensions_def assms(3) Let_def eval_nat_numeral)
qed

lemma findExtensionsOffset_bound:
  "findExtensionsOffset x = Some (Some k) \<Longrightarrow> 43 < k \<and> k + 2 \<le> length x"
  by (auto simp: findExtensionsOffset_def skip8_def skip16_def be16_ok idx_ok split: if_splits option.splits)

text \<open>The search reads only what is in front of the extensions.\<close>
lemma findExtensionsOffset_cong:
  assumes "findExtensionsOffset x = Some (Some k)" "\<And>i. 43 \<le> i \<Longrightarrow> i < k \<Longrightarrow> y ! i = x ! i" "k + 2 \<le> length y"
  shows "findExtensionsOffset y = Some (Some k)"
proof -
  have l: "\<not> length x < 43" using assms(1) by (auto simp: findExtensionsOffset_def split: if_splits)
  obtain a where a: "skip8 x 43 = Some (Some a)"
    using assms(1) l by (auto simp: findExtensionsOffset_def skip8_def idx_ok split: if_splits)
  obtain b where b: "skip16 x a = Some (Some b)"
    using assms(1) l a by (auto simp: findExtensionsOffset_def skip16_def be16_ok split: if_splits)
  obtain c where c: "skip8 x b = Some (Some c)"
    using assms(1) l a b by (auto simp: findExtensionsOffset_def skip8_def idx_ok split: if_splits)
  have k: "k = c" using assms(1) l a b c by (simp add: findExtensionsOffset_def split: if_splits)
  have ab: "43 < a" "a + 2 \<le> b" "b < c" "43 + 1 + unat (x ! 43) = a" "a + 2 + unat (u16 (x ! a) (x ! (a + 1))) = b"
      "b + 1 + unat (x ! b) = c"
    using a b c by (auto simp: skip8_def skip16_def be16_ok idx_ok split: if_splits)
  have y: "y ! 43 = x ! 43" "y ! a = x ! a" "y ! (a + 1) = x ! (a + 1)" "y ! b = x ! b"
    using ab k by (intro assms(2); simp)+
  have ly: "c + 2 \<le> length y" using assms(3) k by simp
  have "skip8 y 43 = Some (Some a)" "skip16 y a = Some (Some b)" "skip8 y b = Some (Some c)"
    using ab y ly by (simp_all add: skip8_def skip16_def idx_ok be16_ok)
  then show ?thesis using ab ly k by (simp add: findExtensionsOffset_def)
qed

lemma start_bounds:
  assumes "wf_pkt six p"
  shows "40 \<le> start_of six p" "start_of six p \<le> length p" "hdr_of six p = Some (if six then 40 else ihl4 p)"
    "idx p ((if six then 40 else ihl4 p) + 12) = Some (p ! ((if six then 40 else ihl4 p) + 12))"
    "(if six then 40 else ihl4 p) + doff (p ! ((if six then 40 else ihl4 p) + 12)) = start_of six p" "\<not> (six \<and> length p < 60)"
proof -
  have "six \<or> 0 < length p" using assms tcp4_bounds [of p] by (auto simp: wf_pkt_def)
  then show "40 \<le> start_of six p" "start_of six p \<le> length p" "hdr_of six p = Some (if six then 40 else ihl4 p)"
    "idx p ((if six then 40 else ihl4 p) + 12) = Some (p ! ((if six then 40 else ihl4 p) + 12))"
    "(if six then 40 else ihl4 p) + doff (p ! ((if six then 40 else ihl4 p) + 12)) = start_of six p" "\<not> (six \<and> length p < 60)"
    using assms by (auto simp: wf_pkt_def start_of_def tcp4_ok_def tcp6_ok_def hdr_of_def idx_ok ihl4_def thl_at_def split: if_splits)
qed

lemma ext_field_eq:
  assumes "wf_pkt six p"
  shows "ext_field six p = (case findExtensionsOffset (drop (start_of six p) p) of
      None \<Rightarrow> None | Some None \<Rightarrow> Some None
    | Some (Some k) \<Rightarrow> if start_of six p + k + 2 + unat (u16 (p ! (start_of six p + k)) (p ! (start_of six p + k + 1))) > length p then Some None
        else Some (Some (start_of six p + k, unat (u16 (p ! (start_of six p + k)) (p ! (start_of six p + k + 1))))))"
proof -
  note s = start_bounds [OF assms]
  show ?thesis
    unfolding ext_field_def using s
    by (auto simp: slice_from_ok be16_ok Let_def split: option.split dest!: findExtensionsOffset_bound)
qed
section \<open>Inserting and replacing\<close>

text \<open>The packet with another extension list in place of the \<open>l\<close> bytes behind the length field at \<open>k\<close>\<close>
definition splice :: "bytes \<Rightarrow> nat \<Rightarrow> nat \<Rightarrow> bytes \<Rightarrow> bytes" where
  "splice p k l body = take k p @ [hi8 (of_nat (length body)), lo8 (of_nat (length body))] @ body @ drop (k + 2 + l) p"

lemma around_field:
  assumes "k + 2 + l \<le> length p"
  shows "\<exists>A b c B Z. p = A @ b # c # B @ Z \<and> length A = k \<and> length B = l"
proof -
  have "p = take k p @ drop k p" by simp
  moreover have "drop k p = p ! k # p ! (k + 1) # drop (k + 2) p"
    using assms by (simp add: Cons_nth_drop_Suc)
  moreover have "drop (k + 2) p = take l (drop (k + 2) p) @ drop l (drop (k + 2) p)" by (rule append_take_drop_id [symmetric])
  ultimately have "p = take k p @ p ! k # p ! (k + 1) # take l (drop (k + 2) p) @ drop l (drop (k + 2) p)" by metis
  then show ?thesis
    using assms by (intro exI [of _ "take k p"] exI [of _ "p ! k"] exI [of _ "p ! (k + 1)"] exI [of _ "take l (drop (k + 2) p)"]
      exI [of _ "drop l (drop (k + 2) p)"]) simp
qed

text \<open>A two-byte field written into fresh memory behind \<open>A\<close>\<close>
lemma put16_fresh: "n = 2 + m \<Longrightarrow> put16 (A @ mk n) (length A) v = Some ((A @ [hi8 v, lo8 v]) @ mk m)"
  by (simp add: put16_ok mk_def list_update_append eval_nat_numeral)

lemma copy_fresh:
  "i = length A \<Longrightarrow> n = length s + m \<Longrightarrow> copy_from (A @ mk n) i s = Some ((A @ s) @ mk m)"
  by (simp add: copy_from_mk)

lemma copy_fresh0: "n = length s + m \<Longrightarrow> copy_from (mk n) 0 s = Some (s @ mk m)"
  using copy_fresh [of 0 "[]" n s m] by simp

lemma insert_exts_splice:
  assumes "ext_field six p = Some (Some (k, l))" "k + 2 + l \<le> length p" "length p + length new \<le> MaxTCPPacketSize"
  shows "insert_exts six p new = updatePacketLengths (splice p k l (take l (drop (k + 2) p) @ new))"
proof -
  obtain A b c B Z where p: "p = A @ b # c # B @ Z" "length A = k" "length B = l" using around_field [OF assms(2)] by blast
  let ?m = "of_nat (l + length new) :: uint16"
  have f: "\<not> length p + length new > MaxTCPPacketSize" using assms(3) by simp
  have s: "gslice p 0 k = Some A" "gslice p (k + 2) (k + 2 + l) = Some B" "take l (drop (k + 2) p) = B" "drop (k + 2 + l) p = Z" "take k p = A"
    using p by (simp_all add: gslice_ok)
  have 1: "copy_from (mk (length p + length new)) 0 A = Some (A @ mk (2 + (l + (length new + length Z))))"
    by (rule copy_fresh0) (simp add: p)
  have 2: "put16 (A @ mk (2 + (l + (length new + length Z)))) k ?m = Some ((A @ [hi8 ?m, lo8 ?m]) @ mk (l + (length new + length Z)))"
    unfolding p(2) [symmetric] by (rule put16_fresh) simp
  have 3: "copy_from ((A @ [hi8 ?m, lo8 ?m]) @ mk (l + (length new + length Z))) (k + 2) B
      = Some (((A @ [hi8 ?m, lo8 ?m]) @ B) @ mk (length new + length Z))"
    by (rule copy_fresh) (simp_all add: p)
  have 4: "copy_from (((A @ [hi8 ?m, lo8 ?m]) @ B) @ mk (length new + length Z)) (k + 2 + l) new
      = Some ((((A @ [hi8 ?m, lo8 ?m]) @ B) @ new) @ mk (length Z))"
    by (rule copy_fresh) (simp_all add: p)
  have 5: "copy_from ((((A @ [hi8 ?m, lo8 ?m]) @ B) @ new) @ mk (length Z)) (k + 2 + l + length new) Z
      = Some (((((A @ [hi8 ?m, lo8 ?m]) @ B) @ new) @ Z) @ mk 0)"
    by (rule copy_fresh) (simp_all add: p)
  have 6: "slice_from p (k + 2 + l) = Some Z" "k + 2 + l < length p \<longleftrightarrow> Z \<noteq> []" using assms(2) s(4) p by (auto simp: slice_from_ok)
  show ?thesis
    unfolding insert_exts_def assms(1) Let_def splice_def s(3-5)
    by (simp only: bind.bind_lunit option.case prod.case f if_False s simp_thms 1 2 3 4 5 6) (simp add: p(3))
qed

lemma replace_exts_splice:
  assumes "ext_field six p = Some (Some (k, l))" "k + 2 + l \<le> length p" "length p + length new - l \<le> MaxTCPPacketSize"
  shows "replace_exts six p new = updatePacketLengths (splice p k l new)"
proof -
  obtain A b c B Z where p: "p = A @ b # c # B @ Z" "length A = k" "length B = l" using around_field [OF assms(2)] by blast
  let ?m = "of_nat (length new) :: uint16"
  have f: "\<not> length p + length new - l > MaxTCPPacketSize" using assms(3) by simp
  have s: "gslice p 0 k = Some A" "drop (k + 2 + l) p = Z" "take k p = A" using p by (simp_all add: gslice_ok)
  have 1: "copy_from (mk (length p + length new - l)) 0 A = Some (A @ mk (2 + (length new + length Z)))"
    by (rule copy_fresh0) (simp add: p)
  have 2: "put16 (A @ mk (2 + (length new + length Z))) k ?m = Some ((A @ [hi8 ?m, lo8 ?m]) @ mk (length new + length Z))"
    unfolding p(2) [symmetric] by (rule put16_fresh) simp
  have 3: "copy_from ((A @ [hi8 ?m, lo8 ?m]) @ mk (length new + length Z)) (k + 2) new
      = Some (((A @ [hi8 ?m, lo8 ?m]) @ new) @ mk (length Z))"
    by (rule copy_fresh) (simp_all add: p)
  have 4: "copy_from (((A @ [hi8 ?m, lo8 ?m]) @ new) @ mk (length Z)) (k + 2 + length new) Z
      = Some ((((A @ [hi8 ?m, lo8 ?m]) @ new) @ Z) @ mk 0)"
    by (rule copy_fresh) (simp_all add: p)
  have 5: "slice_from p (k + 2 + l) = Some Z" "k + 2 + l < length p \<longleftrightarrow> Z \<noteq> []" using assms(2) s(2) p by (auto simp: slice_from_ok)
  show ?thesis
    unfolding replace_exts_def assms(1) Let_def splice_def s(2,3)
    by (simp only: bind.bind_lunit option.case prod.case f if_False s simp_thms 1 2 3 4 5) simp
qed
text \<open>A ClientHello in a packet with the extension list \<open>es\<close> behind the length field at \<open>k\<close>\<close>
definition hello_exts :: "bool \<Rightarrow> bytes \<Rightarrow> nat \<Rightarrow> bytes list \<Rightarrow> bool" where
  "hello_exts six p k es \<longleftrightarrow> wf_pkt six p \<and> ext_field six p = Some (Some (k, length (concat es))) \<and>
     (\<forall>e \<in> set es. ext_ok e) \<and> take (length (concat es)) (drop (k + 2) p) = concat es"

text \<open>What a mutation leaves: a packet of the family with correct lengths and checksums, the extensions in the same place and
  now \<open>es\<close> instead of \<open>l\<close> bytes, the hello in front of them and the bytes behind them unchanged.\<close>
definition mutated :: "bool \<Rightarrow> bytes \<Rightarrow> nat \<Rightarrow> nat \<Rightarrow> bytes list \<Rightarrow> bytes \<Rightarrow> bool" where
  "mutated six p k l es q \<longleftrightarrow> hello_exts six q k es \<and> good six q \<and> hello_sized (start_of six p) q \<and> start_of six q = start_of six p \<and>
     length q + l = length p + length (concat es) \<and> drop (k + 2 + length (concat es)) q = drop (k + 2 + l) p \<and>
     (\<forall>i < k. i \<notin> hvar six p \<union> lvar (start_of six p) \<longrightarrow> q ! i = p ! i)"

lemma ext_field_facts:
  assumes "wf_pkt six p" "ext_field six p = Some (Some (k, l))"
  shows "k + 2 + l \<le> length p" "start_of six p + 43 < k"
    "findExtensionsOffset (drop (start_of six p) p) = Some (Some (k - start_of six p))"
  using assms(2) unfolding ext_field_eq [OF assms(1)]
  by (auto split: option.splits if_splits dest: findExtensionsOffset_bound)

lemma hvar_front: "wf_pkt six p \<Longrightarrow> i \<in> hvar six p \<Longrightarrow> i < start_of six p"
  by (auto simp: hvar_def wf_pkt_def start_of_def tcp4_ok_def tcp6_ok_def split: if_splits)

lemma lvar_front: "i \<in> lvar n \<Longrightarrow> i < n + 9"
  by (auto simp: lvar_def)

lemma wf_pkt_prefix:
  assumes "wf_pkt six p" "start_of six p \<le> k" "k \<le> length p" "take k x = take k p" "k \<le> length x"
  shows "wf_pkt six x" "start_of six x = start_of six p" "hvar six x = hvar six p"
proof -
  note s = start_bounds [OF assms(1)]
  have n: "x ! i = p ! i" if "i < k" for i
    using that assms(3-5) by (metis nth_take)
  have "x ! 0 = p ! 0" "x ! 6 = p ! 6" using n s(1) assms(2) by auto
  moreover have "x ! (ihl4 p + 12) = p ! (ihl4 p + 12)" if "\<not> six"
    using that n [of "ihl4 p + 12"] assms(1,2) by (auto simp: wf_pkt_def start_of_def tcp4_ok_def)
  moreover have "x ! 52 = p ! 52" if six using that n [of 52] assms(1,2) by (auto simp: wf_pkt_def start_of_def tcp6_ok_def)
  ultimately show "wf_pkt six x" "start_of six x = start_of six p" "hvar six x = hvar six p"
    using assms(1,2,5) by (auto simp: wf_pkt_def start_of_def hvar_def tcp4_ok_def tcp6_ok_def ihl4_def thl_at_def split: if_splits)
qed

lemma splice_mutated:
  assumes "wf_pkt six p" "ext_field six p = Some (Some (k, l))" "\<forall>e \<in> set es. ext_ok e"
    "length p + length (concat es) - l \<le> MaxTCPPacketSize"
  shows "\<exists>q. updatePacketLengths (splice p k l (concat es)) = Some q \<and> mutated six p k l es q"
proof -
  let ?b = "concat es" and ?s = "start_of six p"
  let ?x = "splice p k l ?b"
  note f = ext_field_facts [OF assms(1,2)]
  have k: "?s \<le> k" "k \<le> length p" "k \<le> length ?x" "take k ?x = take k p" using f by (simp_all add: splice_def)
  note w = wf_pkt_prefix [OF assms(1) k(1,2,4,3)]
  have lx: "length ?x + l = length p + length ?b" using f(1) by (simp add: splice_def)
  have "length ?x < 65536" using lx assms(4) f(1) by linarith
  then obtain q where q: "updatePacketLengths ?x = Some q" "relens six ?x q" using updatePacketLengths_ok [OF w(1)] by blast
  have lq: "length q = length ?x" using q(2) by (simp add: relens_def)
  have qx: "q ! i = ?x ! i" if "i < length ?x" "i \<notin> hvar six p \<union> lvar ?s" for i
    using q(2) that w by (simp add: relens_def)
  have late: "i \<notin> hvar six p \<union> lvar ?s" if "?s + 9 \<le> i" for i
    using that hvar_front [OF assms(1), of i] lvar_front [of i ?s] by auto
  have dk: "drop k q = drop k ?x"
    by (rule nth_equalityI) (use lq qx late f(2) in auto)
  have xk: "drop k ?x = [hi8 (of_nat (length ?b)), lo8 (of_nat (length ?b))] @ ?b @ drop (k + 2 + l) p"
    using k(2) by (simp add: splice_def)
  have b: "length ?b < 65536" using assms(4) f(1) by linarith
  have pe: "take (length ?b) (drop (k + 2) q) = ?b"
  proof -
    have "drop (k + 2) q = drop 2 (drop k q)" by (simp add: add.commute)
    then show ?thesis by (simp add: dk xk)
  qed
  have tail: "drop (k + 2 + length ?b) q = drop (k + 2 + l) p"
  proof -
    have "drop (k + 2 + length ?b) q = drop (2 + length ?b) (drop k q)" by (simp add: add.commute add.left_commute)
    then show ?thesis by (simp add: dk xk)
  qed
  have sq: "wf_pkt six q" "start_of six q = ?s" using q(2) w by (auto simp: relens_def)
  have len: "unat (u16 (q ! k) (q ! (k + 1))) = length ?b"
  proof -
    have "q ! k = drop k q ! 0" "q ! (k + 1) = drop k q ! 1" using lq lx f(1) by simp_all
    then show ?thesis using unat_of_nat16 [OF b] by (simp add: dk xk)
  qed
  have fe: "findExtensionsOffset (drop ?s q) = Some (Some (k - ?s))"
  proof (rule findExtensionsOffset_cong [OF f(3)])
    fix i assume i: "43 \<le> i" "i < k - ?s"
    then have "?s + i < k" "?x ! (?s + i) = p ! (?s + i)" using k(3,4) nth_take [of "?s + i" k ?x] nth_take [of "?s + i" k p] by auto
    then show "drop ?s q ! i = drop ?s p ! i" using qx [of "?s + i"] late [of "?s + i"] i k lq by auto
  qed (use lq lx f(1,2) in auto)
  have "ext_field six q = Some (Some (k, length ?b))"
    unfolding ext_field_eq [OF sq(1)] sq(2) fe using len lq lx f(1,2) by simp
  moreover have "q ! i = p ! i" if "i < k" "i \<notin> hvar six p \<union> lvar ?s" for i
    using qx [of i] that k(3,4) nth_take [of i k ?x] nth_take [of i k p] by auto
  moreover have "good six q" "hello_sized ?s q" using q(2) w by (auto simp: relens_def)
  ultimately show ?thesis using q(1) sq pe tail lq lx assms(3) by (auto simp: mutated_def hello_exts_def)
qed
lemma hello_exts_parse:
  assumes "hello_exts six p k es"
  shows "parseExtensions (drop k p) = Some es"
proof -
  have w: "wf_pkt six p" "ext_field six p = Some (Some (k, length (concat es)))" using assms by (simp_all add: hello_exts_def)
  note f = ext_field_facts [OF w]
  let ?n = "length (concat es)"
  have u: "unat (u16 (p ! k) (p ! (k + 1))) = ?n"
    using w(2) f unfolding ext_field_eq [OF w(1)] f(3) by (auto split: if_splits)
  have c: "u16 (p ! k) (p ! (k + 1)) = of_nat ?n" using u by (metis of_nat_unat ucast_id)
  have d: "drop k p = p ! k # p ! (k + 1) # drop (k + 2) p" using f(1) by (simp add: Cons_nth_drop_Suc)
  have "drop (k + 2) p = concat es @ drop ?n (drop (k + 2) p)" using assms append_take_drop_id [of ?n "drop (k + 2) p"] by (simp add: hello_exts_def)
  moreover have "p ! k = hi8 (of_nat ?n)" "p ! (k + 1) = lo8 (of_nat ?n)" unfolding c [symmetric] by simp_all
  moreover have "?n < 65536" unfolding u [symmetric] by (rule unat_u16_bound)
  ultimately show ?thesis
    using assms d by (intro parseExtensions_concat [of es _ "drop ?n (drop (k + 2) p)"]) (simp_all add: hello_exts_def)
qed

lemma insert_appends:
  assumes "hello_exts six p k es" "\<forall>e \<in> set ns. ext_ok e" "length p + length (concat ns) \<le> MaxTCPPacketSize"
  shows "\<exists>q. insert_exts six p (concat ns) = Some q \<and> mutated six p k (length (concat es)) (es @ ns) q"
proof -
  let ?l = "length (concat es)"
  have w: "wf_pkt six p" "ext_field six p = Some (Some (k, ?l))" "\<forall>e \<in> set (es @ ns). ext_ok e" "take ?l (drop (k + 2) p) = concat es"
    using assms(1,2) by (auto simp: hello_exts_def)
  have "insert_exts six p (concat ns) = updatePacketLengths (splice p k ?l (concat (es @ ns)))"
    using insert_exts_splice [OF w(2) ext_field_facts(1) [OF w(1,2)] assms(3)] w(4) by simp
  moreover have "length p + length (concat (es @ ns)) - ?l \<le> MaxTCPPacketSize" using assms(3) by simp
  ultimately show ?thesis using splice_mutated [OF w(1,2,3)] by simp
qed

lemma sni_ext_ok: "length s \<le> MaxSNILength \<Longrightarrow> ext_ok (sni_ext s)"
  using unat_of_nat16 [of "5 + length s"] by (simp add: ext_ok_def sni_ext_def)

text \<open>The name extensions of a list, and the names the duplication adds\<close>
definition is_name :: "bytes \<Rightarrow> bool" where
  "is_name e \<longleftrightarrow> take 2 e = [0, 0]"

definition usable_names :: "SetConfig \<Rightarrow> bytes list" where
  "usable_names cfg = filter (\<lambda>s. s \<noteq> [] \<and> length s \<le> MaxSNILength) (FakeSNIs (SNIMutation (Faking cfg)))"

lemma hello_exts_slices:
  assumes "hello_exts six p k es"
  shows "hdr_of six p \<bind> (\<lambda>h. idx p (h + 12) \<bind> (\<lambda>d. slice_from p (h + doff d) \<bind> (\<lambda>x. f h d x))) =
      (let h = (if six then 40 else ihl4 p) in f h (p ! (h + 12)) (drop (start_of six p) p))"
    "findExtensionsOffset (drop (start_of six p) p) = Some (Some (k - start_of six p))" "start_of six p \<le> k" "k \<le> length p"
proof -
  have w: "wf_pkt six p" "ext_field six p = Some (Some (k, length (concat es)))" using assms by (simp_all add: hello_exts_def)
  note f = ext_field_facts [OF w] and s = start_bounds [OF w(1)]
  show "findExtensionsOffset (drop (start_of six p) p) = Some (Some (k - start_of six p))" "start_of six p \<le> k" "k \<le> length p"
    using f by auto
  show "hdr_of six p \<bind> (\<lambda>h. idx p (h + 12) \<bind> (\<lambda>d. slice_from p (h + doff d) \<bind> (\<lambda>x. f h d x))) =
      (let h = (if six then 40 else ihl4 p) in f h (p ! (h + 12)) (drop (start_of six p) p))"
    unfolding s(3) Let_def using s by (simp only: bind.bind_lunit slice_from_ok)
qed

lemma duplicate_appends:
  assumes "hello_exts six p k es" "length p + length (fake_snis cfg) \<le> MaxTCPPacketSize"
  shows "\<exists>q. duplicate_sni six p cfg = Some q \<and> mutated six p k (length (concat es)) (es @ map sni_ext (usable_names cfg)) q"
proof -
  have n: "fake_snis cfg = concat (map sni_ext (usable_names cfg))" by (simp add: fake_snis_def usable_names_def)
  have "\<forall>e \<in> set (map sni_ext (usable_names cfg)). ext_ok e" by (auto simp: usable_names_def sni_ext_ok)
  moreover have "duplicate_sni six p cfg = insert_exts six p (concat (map sni_ext (usable_names cfg)))"
    unfolding duplicate_sni_def hello_exts_slices(1) [OF assms(1)] Let_def by (simp add: hello_exts_slices(2) [OF assms(1)] n)
  ultimately show ?thesis using insert_appends [OF assms(1)] assms(2) n by simp
qed
section \<open>Reordering\<close>

text \<open>The list behind a reordering: the last name extension, then the others\<close>
definition last_name :: "bytes list \<Rightarrow> bytes list" where
  "last_name es = (if filter is_name es = [] then [] else [last (filter is_name es)])"

lemma split_exts_eq:
  "split_exts es = ((if filter is_name es = [] then None else Some (last (filter is_name es))), filter (\<lambda>e. \<not> is_name e) es)"
  by (induction es rule: rev_induct) (auto simp: split_exts_def is_name_def)

lemma length_concat_mset: "mset xs = mset ys \<Longrightarrow> length (concat xs) = length (concat ys)"
  by (metis length_concat mset_map sum_mset_sum_list)

lemma length_concat_parts: "length (concat (last_name es)) + length (concat (filter (\<lambda>e. \<not> is_name e) es)) \<le> length (concat es)"
  by (induction es rule: rev_induct) (auto simp: last_name_def split: if_splits)

lemma reorder_result:
  assumes "hello_exts six p k es" "length p \<le> MaxTCPPacketSize" "2 \<le> length es"
  shows "\<exists>q os. reorder_exts six r32 p cfg = Some q \<and> mset os = mset (filter (\<lambda>e. \<not> is_name e) es) \<and>
     mutated six p k (length (concat es)) (last_name es @ os) q"
proof -
  let ?o = "filter (\<lambda>e. \<not> is_name e) es" and ?n = "length (concat es)"
  have w: "wf_pkt six p" "ext_field six p = Some (Some (k, ?n))" "\<forall>e \<in> set es. ext_ok e" using assms(1) by (simp_all add: hello_exts_def)
  note s = hello_exts_slices [OF assms(1)] and f = ext_field_facts [OF w(1,2)]
  have "\<forall>i. unat (r32 i) mod (i + 1) \<le> i" by (simp add: less_Suc_eq_le [symmetric])
  moreover have "length ?o - 1 < length ?o \<or> length ?o - 1 = 0" by (cases ?o) simp_all
  ultimately obtain os where os: "shuffle_down (\<lambda>i. unat (r32 i) mod (i + 1)) (length ?o - 1) ?o = Some os" "mset os = mset ?o"
    using shuffle_down_perm [of "length ?o - 1" ?o "\<lambda>i. unat (r32 i) mod (i + 1)"] by blast
  let ?e = "last_name es @ os"
  have mem: "set (last_name es) \<subseteq> set es" "set os = set ?o"
  proof -
    have "last (filter is_name es) \<in> set es" if "filter is_name es \<noteq> []"
      using last_in_set [OF that] by simp
    then show "set (last_name es) \<subseteq> set es" by (auto simp: last_name_def)
    show "set os = set ?o" using mset_eq_setD [OF os(2)] .
  qed
  have ok: "\<forall>e \<in> set ?e. ext_ok e" using mem w(3) by auto
  have len: "length (concat ?e) \<le> ?n" using length_concat_mset [OF os(2)] length_concat_parts [of es] by simp
  have fit: "length p + length (concat ?e) - ?n \<le> MaxTCPPacketSize" using assms(2) len by linarith
  have sf: "start_of six p + (k - start_of six p) = k" using s(3) by simp
  have st: "(let h = (if six then 40 else ihl4 p) in h + doff (p ! (h + 12))) = start_of six p"
    using start_bounds(5) [OF w(1)] by (simp add: Let_def)
  have "reorder_exts six r32 p cfg = replace_exts six p ((case fst (split_exts es) of Some e \<Rightarrow> e | None \<Rightarrow> []) @ concat os)"
    unfolding reorder_exts_def Let_def s(1) [unfolded Let_def]
    using assms(3) s(2,4) hello_exts_parse [OF assms(1)] os(1) st sf
    by (simp add: Let_def slice_from_ok split_exts_eq)
  also have "(case fst (split_exts es) of Some e \<Rightarrow> e | None \<Rightarrow> []) @ concat os = concat ?e"
    by (simp add: split_exts_eq last_name_def)
  also have "replace_exts six p (concat ?e) = updatePacketLengths (splice p k ?n (concat ?e))"
    by (rule replace_exts_splice [OF w(2) f(1) fit])
  finally show ?thesis using splice_mutated [OF w(1,2) ok fit] os(2) by auto
qed

section \<open>The modes\<close>

text \<open>What the entry checks of the payload: a handshake record of version 3 with a ClientHello, all of it in the packet\<close>
definition is_hello :: "bool \<Rightarrow> bytes \<Rightarrow> bool" where
  "is_hello six p \<longleftrightarrow> (let n = start_of six p in n + 5 < length p \<and> p ! n = 0x16 \<and> p ! (n + 1) = 3 \<and> p ! (n + 5) = 1 \<and>
     n + 5 + unat (u16 (p ! (n + 3)) (p ! (n + 4))) \<le> length p)"

lemma hello_exts_wf: "hello_exts six p k es \<Longrightarrow> wf_pkt six p"
  by (simp add: hello_exts_def)

lemma mutate_hello:
  assumes "hello_exts six p k es" "is_hello six p" "mode = mut_Mode (SNIMutation (Faking cfg))" "mode \<noteq> ConfigOff"
  shows "mutate six rb r32 cfg p =
     (if mode = ''duplicate'' then duplicate_sni six p cfg
      else if mode = ''grease'' then add_grease six rb p cfg
      else if mode = ''padding'' then add_padding six p cfg
      else if mode = ''reorder'' then reorder_exts six r32 p cfg
      else if mode = ''full'' then full_mutation six rb r32 p cfg
      else if mode = ''advanced'' then add_advanced six rb p
      else Some p)"
proof -
  let ?n = "start_of six p"
  note s = start_bounds [OF hello_exts_wf [OF assms(1)]] and sl = hello_exts_slices [OF assms(1)]
  have h: "?n + 5 < length p" "p ! ?n = 0x16" "p ! (?n + 1) = 3" "p ! (?n + 5) = 1"
    "?n + 5 + unat (u16 (p ! (?n + 3)) (p ! (?n + 4))) \<le> length p"
    using assms(2) by (simp_all add: is_hello_def Let_def)
  have six: "\<not> (six \<and> length p < 40 + 20)" using hello_exts_wf [OF assms(1)] by (auto simp: wf_pkt_def tcp6_ok_def)
  have pay: "idx (drop ?n p) 0 = Some 0x16" "idx (drop ?n p) 1 = Some 3" "idx (drop ?n p) 5 = Some 1"
    "be16 (drop ?n p) 3 = Some (u16 (p ! (?n + 3)) (p ! (?n + 4)))"
    using h by (simp_all add: idx_def be16_ok add.commute add.left_commute)
  have "\<not> length (drop ?n p) < 5 + unat (u16 (p ! (?n + 3)) (p ! (?n + 4)))" using h by simp
  note pay = pay this
  show ?thesis
    unfolding mutate_def Let_def assms(3) [symmetric] using assms(4) six
    by (simp only: if_False s(3,4,5) bind.bind_lunit slice_from_ok [OF s(2)] pay)
       (use h(1) in simp)
qed

text \<open>Extensions that carry no name, added at the end of the list\<close>
definition fillers :: "bytes list \<Rightarrow> bool" where
  "fillers ns \<longleftrightarrow> (\<forall>e \<in> set ns. ext_ok e \<and> \<not> is_name e)"

definition grown :: "bool \<Rightarrow> nat \<Rightarrow> bytes \<Rightarrow> bytes list \<Rightarrow> nat \<Rightarrow> bytes option \<Rightarrow> bool" where
  "grown six k p es n r \<longleftrightarrow> (\<exists>q ns. r = Some q \<and> fillers ns \<and> hello_exts six q k (es @ ns) \<and> length q \<le> length p + n)"

lemma grownE:
  assumes "grown six k p es n r"
  obtains q ns where "r = Some q" "fillers ns" "hello_exts six q k (es @ ns)" "length q \<le> length p + n"
  using assms by (auto simp: grown_def)

lemma insert_grown:
  assumes "hello_exts six p k es" "fillers ns" "length (concat ns) = n" "length p + n \<le> MaxTCPPacketSize" "x = concat ns"
  shows "grown six k p es n (insert_exts six p x)"
proof -
  obtain q where "insert_exts six p (concat ns) = Some q" "mutated six p k (length (concat es)) (es @ ns) q"
    using insert_appends [OF assms(1), of ns] assms(2-4) by (auto simp: fillers_def)
  then show ?thesis using assms(2,3,5) by (fastforce simp: grown_def mutated_def)
qed

lemma grease_ext_ok: "\<exists>e. grease_ext rb i = Some e \<and> ext_ok e \<and> \<not> is_name e \<and> length e = 8"
proof -
  have l: "unat (rb (2 * i) 0 mod 16) < length greaseValues" by (simp add: greaseValues_def unat_mod)
  have "\<forall>v \<in> set greaseValues. hi8 v \<noteq> 0" by (simp add: greaseValues_def hi8_def) 
  then have "hi8 (greaseValues ! unat (rb (2 * i) 0 mod 16)) \<noteq> 0" using l by simp
  then show ?thesis using l by (simp add: grease_ext_def idx_ok typed_ext_def ext_ok_def is_name_def u16_def)
qed
lemma those_map_ok: "\<forall>x \<in> set xs. \<exists>y. f x = Some y \<and> P y \<Longrightarrow> \<exists>ys. those (map f xs) = Some ys \<and> (\<forall>y \<in> set ys. P y) \<and> length ys = length xs"
proof (induction xs)
  case (Cons a xs)
  then obtain y ys where "f a = Some y" "P y" "those (map f xs) = Some ys" "\<forall>y \<in> set ys. P y" "length ys = length xs" by auto
  then show ?case by auto
qed simp

lemma length_concat_eq: "\<forall>e \<in> set es. length e = n \<Longrightarrow> length (concat es) = n * length es"
  by (induction es) auto

text \<open>A list of extensions of eight bytes\<close>
lemma insert_eights:
  assumes "hello_exts six p k es" "\<forall>i. \<exists>e. f i = Some e \<and> ext_ok e \<and> \<not> is_name e \<and> length e = 8" "length p + 8 * n \<le> MaxTCPPacketSize"
  shows "grown six k p es (8 * n) (do { gs \<leftarrow> those (map f [0..<n]); insert_exts six p (concat gs) })"
proof -
  have "\<forall>i \<in> set [0..<n]. \<exists>e. f i = Some e \<and> (ext_ok e \<and> \<not> is_name e \<and> length e = 8)" using assms(2) by simp
  then obtain gs where gs: "those (map f [0..<n]) = Some gs" "\<forall>e \<in> set gs. ext_ok e \<and> \<not> is_name e \<and> length e = 8" "length gs = n"
    using those_map_ok [of "[0..<n]" f "\<lambda>e. ext_ok e \<and> \<not> is_name e \<and> length e = 8"] unfolding length_upt diff_zero by blast
  then have "fillers gs" "length (concat gs) = 8 * n" using length_concat_eq [of gs 8] by (auto simp: fillers_def)
  then show ?thesis using insert_grown [OF assms(1)] assms(3) gs(1) by simp
qed

lemma add_grease_grown:
  "hello_exts six p k es \<Longrightarrow> GreaseCount (SNIMutation (Faking cfg)) = int n \<Longrightarrow> length p + 8 * n \<le> MaxTCPPacketSize \<Longrightarrow>
   grown six k p es (8 * n) (add_grease six rb p cfg)"
  using insert_eights [of six p k es "grease_ext rb" n] grease_ext_ok by (simp add: add_grease_def)

definition odd_types :: "uint16 list" where
  "odd_types = [0x00ff, 0x1234, 0x5678, 0x9abc, 0xfe00, 0xffff]"

lemma unknown_ext_ok: "\<exists>e. unknown_ext rb i = Some e \<and> ext_ok e \<and> \<not> is_name e \<and> length e = 8"
proof -
  have v: "\<forall>v \<in> set (commonExtensions @ odd_types). \<not> (hi8 v = 0 \<and> lo8 v = 0)" and l: "length odd_types = 6"
    by (simp_all add: commonExtensions_def odd_types_def hi8_def lo8_def)
  have "\<exists>v \<in> set (commonExtensions @ odd_types). (if i < length commonExtensions then idx commonExtensions i else idx odd_types (i mod 6)) = Some v"
    using l by (cases "i < length commonExtensions") (simp_all add: idx_ok)
  then obtain v where "(if i < length commonExtensions then idx commonExtensions i else idx odd_types (i mod 6)) = Some v"
    "\<not> (hi8 v = 0 \<and> lo8 v = 0)" using v by blast
  then show ?thesis unfolding unknown_ext_def odd_types_def [symmetric]
    by (auto simp: typed_ext_def ext_ok_def is_name_def u16_def)
qed

lemma add_unknown_grown:
  "hello_exts six p k es \<Longrightarrow> length p + 8 * n \<le> MaxTCPPacketSize \<Longrightarrow> grown six k p es (8 * n) (add_unknown six rb p (int n))"
  using insert_eights [of six p k es "unknown_ext rb" n] unknown_ext_ok by (simp add: add_unknown_def)

definition common_list :: "bytes list" where
  "common_list = [[0x00, 0x0a, 0x00, 0x08, 0x00, 0x06, 0x00, 0x1d, 0x00, 0x17, 0x00, 0x18],
     [0x00, 0x0d, 0x00, 0x0e, 0x00, 0x0c, 0x04, 0x03, 0x05, 0x03, 0x06, 0x03, 0x04, 0x01, 0x05, 0x01, 0x06, 0x01],
     [0x00, 0x2b, 0x00, 0x05, 0x04, 0x03, 0x04, 0x03, 0x03], [0x00, 0x23, 0x00, 0x00]]"

lemma add_common_grown: "hello_exts six p k es \<Longrightarrow> length p + 43 \<le> MaxTCPPacketSize \<Longrightarrow> grown six k p es 43 (add_common six p)"
  unfolding add_common_def
  by (rule insert_grown [of _ _ _ _ common_list]) (simp_all add: common_list_def common_exts_def fillers_def ext_ok_def is_name_def u16_def)

lemma insert_fitting_grown:
  "hello_exts six p k es \<Longrightarrow> ext_ok e \<Longrightarrow> \<not> is_name e \<Longrightarrow> length e = n \<Longrightarrow> grown six k p es n (insert_fitting six p e)"
  using insert_grown [of six p k es "[e]" n e] by (auto simp: insert_fitting_def fillers_def grown_def intro: exI [of _ "[]"])

lemma grown_bind:
  assumes "grown six k p es n r" "\<And>q ns. fillers ns \<Longrightarrow> hello_exts six q k (es @ ns) \<Longrightarrow> length q \<le> length p + n \<Longrightarrow> grown six k q (es @ ns) m (f q)"
  shows "grown six k p es (n + m) (r \<bind> f)"
proof -
  obtain q ns where q: "r = Some q" "fillers ns" "hello_exts six q k (es @ ns)" "length q \<le> length p + n" by (rule grownE [OF assms(1)])
  obtain q' ns' where q': "f q = Some q'" "fillers ns'" "hello_exts six q' k ((es @ ns) @ ns')" "length q' \<le> length q + m"
    by (rule grownE [OF assms(2) [OF q(2-4)]])
  have "fillers (ns @ ns')" using q(2) q'(2) by (auto simp: fillers_def)
  then show ?thesis using q q' by (auto simp: grown_def intro!: exI [of _ "ns @ ns'"])
qed

lemma add_advanced_grown: "hello_exts six p k es \<Longrightarrow> grown six k p es 57 (add_advanced six rb p)"
proof -
  assume h: "hello_exts six p k es"
  have "grown six k p es (6 + (42 + 9)) (add_advanced six rb p)"
    unfolding add_advanced_def
    by (rule grown_bind [OF insert_fitting_grown [OF h] grown_bind [OF insert_fitting_grown insert_fitting_grown]])
       (simp_all add: ext_ok_def is_name_def u16_def)
  then show ?thesis by simp
qed

definition alpn_len :: nat where
  "alpn_len = 6 + length (alpn_data [] (map (map (of_nat \<circ> of_char)) alpn_protocols))"

lemma alpn_len_value: "alpn_len = 88"
  by code_simp

lemma add_alpn_grown:
  assumes "hello_exts six p k es" "length p + 88 \<le> MaxTCPPacketSize"
  shows "grown six k p es 88 (add_alpn six p)"
proof -
  let ?d = "alpn_data [] (map (map (of_nat \<circ> of_char)) alpn_protocols)"
  have d: "length ?d = 82" using alpn_len_value by (simp only: alpn_len_def)
  have "ext_ok ([0, 0x10, hi8 84, lo8 84, hi8 82, lo8 82] @ ?d)" using d by (simp add: ext_ok_def)
  moreover have "\<not> is_name ([0, 0x10, hi8 84, lo8 84, hi8 82, lo8 82] @ ?d)" by (simp add: is_name_def)
  ultimately show ?thesis unfolding add_alpn_def Let_def d
    by (intro insert_grown [OF assms(1), of "[[0, 0x10, hi8 84, lo8 84, hi8 82, lo8 82] @ ?d]"]) (use d assms(2) in \<open>simp_all add: fillers_def\<close>)
qed
lemma add_padding_grown:
  assumes "hello_exts six p k es"
  shows "\<exists>n. grown six k p es n (add_padding six p cfg)"
proof -
  let ?s = "PaddingSize (SNIMutation (Faking cfg))"
  obtain m where m: "add_padding six p cfg = (if m \<le> 0 then Some p else insert_exts six p ([0, 0x15, hi8 (of_int m), lo8 (of_int m)] @ mk (nat m)))"
    "int (length p) + m + 4 \<le> int MaxTCPPacketSize"
    by (rule that [of "if int (length p) + min (max ?s 16) 4096 + 4 > int MaxTCPPacketSize then int MaxTCPPacketSize - int (length p) - 4 else min (max ?s 16) 4096"])
       (simp_all add: add_padding_def Let_def min_def max_def)
  let ?e = "[0, 0x15, hi8 (of_int m), lo8 (of_int m)] @ mk (nat m)"
  have fill: "fillers []" by (simp add: fillers_def)
  show ?thesis
  proof (cases "m \<le> 0")
    case True
    then show ?thesis using m(1) fill assms by (auto simp: grown_def intro!: exI [of _ "[]"])
  next
    case False
    then have b: "nat m < 65536" "int (nat m) = m" using m(2) by simp_all
    then have "of_int m = (of_nat (nat m) :: uint16)" by (metis of_int_of_nat_eq)
    then have "unat (of_int m :: uint16) = nat m" using b(1) unat_of_nat16 [of "nat m"] by presburger
    then have "ext_ok ?e" "\<not> is_name ?e" by (simp_all add: ext_ok_def is_name_def)
    then have "fillers [?e]" by (simp add: fillers_def)
    moreover have "length p + (4 + nat m) \<le> MaxTCPPacketSize" using m(2) b(2) by linarith
    ultimately have "grown six k p es (4 + nat m) (insert_exts six p ?e)"
      by (intro insert_grown [OF assms, of "[?e]"]) simp_all
    then show ?thesis using m(1) False by auto
  qed
qed

text \<open>The room the full mutation asks for\<close>
definition full_growth :: "SetConfig \<Rightarrow> nat" where
  "full_growth cfg = length (fake_snis cfg) + 43 + 57 + 8 * nat (GreaseCount (SNIMutation (Faking cfg))) + 88 +
     8 * nat (FakeExtCount (SNIMutation (Faking cfg)))"

lemma full_mutation_names:
  assumes "hello_exts six p k es" "length p + full_growth cfg \<le> MaxTCPPacketSize" "usable_names cfg \<noteq> []" "es \<noteq> []"
    "0 \<le> GreaseCount (SNIMutation (Faking cfg))" "0 \<le> FakeExtCount (SNIMutation (Faking cfg))"
  shows "\<exists>q os. full_mutation six rb r32 p cfg = Some q \<and> hello_exts six q k (sni_ext (last (usable_names cfg)) # os) \<and> filter is_name os = []"
proof -
  let ?fs = "map sni_ext (usable_names cfg)" and ?F = "length (fake_snis cfg)"
  obtain g where g: "GreaseCount (SNIMutation (Faking cfg)) = int g" using assms(5) nonneg_int_cases by blast
  obtain u where u: "FakeExtCount (SNIMutation (Faking cfg)) = int u" using assms(6) nonneg_int_cases by blast
  have room: "length p + ?F + 43 + 57 + 8 * g + 88 + 8 * u \<le> MaxTCPPacketSize" using assms(2) g u by (simp add: full_growth_def)
  obtain q1 where q1: "duplicate_sni six p cfg = Some q1" "hello_exts six q1 k (es @ ?fs)" "length q1 = length p + ?F"
  proof -
    have "?F = length (concat ?fs)" by (simp add: fake_snis_def usable_names_def)
    then show ?thesis using duplicate_appends [OF assms(1), of cfg] room that by (auto simp: mutated_def)
  qed
  have "grown six k q1 (es @ ?fs) 43 (add_common six q1)" by (rule add_common_grown [OF q1(2)]) (use q1(3) room in linarith)
  then obtain q2 n2 where q2: "add_common six q1 = Some q2" "fillers n2" "hello_exts six q2 k ((es @ ?fs) @ n2)" "length q2 \<le> length q1 + 43"
    by (rule grownE)
  obtain q3 n3 where q3: "add_advanced six rb q2 = Some q3" "fillers n3" "hello_exts six q3 k (((es @ ?fs) @ n2) @ n3)" "length q3 \<le> length q2 + 57"
    by (rule grownE [OF add_advanced_grown [OF q2(3), of rb]])
  have "grown six k q3 (((es @ ?fs) @ n2) @ n3) (8 * g) (add_grease six rb q3 cfg)"
    by (rule add_grease_grown [OF q3(3) g]) (use q1(3) q2(4) q3(4) room in linarith)
  then obtain q4 n4 where q4: "add_grease six rb q3 cfg = Some q4" "fillers n4" "hello_exts six q4 k ((((es @ ?fs) @ n2) @ n3) @ n4)"
    "length q4 \<le> length q3 + 8 * g" by (rule grownE)
  have "grown six k q4 ((((es @ ?fs) @ n2) @ n3) @ n4) 88 (add_alpn six q4)"
    by (rule add_alpn_grown [OF q4(3)]) (use q1(3) q2(4) q3(4) q4(4) room in linarith)
  then obtain q5 n5 where q5: "add_alpn six q4 = Some q5" "fillers n5" "hello_exts six q5 k (((((es @ ?fs) @ n2) @ n3) @ n4) @ n5)"
    "length q5 \<le> length q4 + 88" by (rule grownE)
  have "grown six k q5 (((((es @ ?fs) @ n2) @ n3) @ n4) @ n5) (8 * u) (add_unknown six rb q5 (int u))"
    by (rule add_unknown_grown [OF q5(3)]) (use q1(3) q2(4) q3(4) q4(4) q5(4) room in linarith)
  then obtain q6 n6 where q6: "add_unknown six rb q5 (int u) = Some q6" "fillers n6"
    "hello_exts six q6 k ((((((es @ ?fs) @ n2) @ n3) @ n4) @ n5) @ n6)" "length q6 \<le> length q5 + 8 * u" by (rule grownE)
  let ?all = "(((((es @ ?fs) @ n2) @ n3) @ n4) @ n5) @ n6" and ?m = "n2 @ n3 @ n4 @ n5 @ n6"
  have len: "length q1 \<le> MaxTCPPacketSize" "length q2 \<le> MaxTCPPacketSize" "length q3 \<le> MaxTCPPacketSize" "length q6 \<le> MaxTCPPacketSize"
    using q1(3) q2(4) q3(4) q4(4) q5(4) q6(4) room by linarith+
  have names: "filter is_name ?all = filter is_name es @ ?fs"
    using q2(2) q3(2) q4(2) q5(2) q6(2) by (simp add: fillers_def is_name_def sni_ext_def filter_id_conv)
  have two: "2 \<le> length ?all" using assms(3,4) by (cases es; cases "usable_names cfg") simp_all
  obtain q7 os where q7: "reorder_exts six r32 q6 cfg = Some q7" "mset os = mset (filter (\<lambda>e. \<not> is_name e) ?all)"
    "mutated six q6 k (length (concat ?all)) (last_name ?all @ os) q7"
    using reorder_result [OF q6(3) len(4) two] by blast
  have ln: "last_name ?all = [sni_ext (last (usable_names cfg))]"
    unfolding last_name_def names using assms(3) by (simp add: last_map)
  have h7: "hello_exts six q7 k (sni_ext (last (usable_names cfg)) # os)" using q7(3) ln by (simp add: mutated_def)
  have os: "filter is_name os = []" using mset_eq_setD [OF q7(2)] by (auto simp: filter_empty_conv)
  obtain n where "grown six k q7 (sni_ext (last (usable_names cfg)) # os) n (add_padding six q7 cfg)" using add_padding_grown [OF h7] by blast
  then obtain q8 n8 where q8: "add_padding six q7 cfg = Some q8" "fillers n8" "hello_exts six q8 k ((sni_ext (last (usable_names cfg)) # os) @ n8)"
    by (rule grownE)
  have "full_mutation six rb r32 p cfg = Some q8"
    unfolding full_mutation_def using q1(1) q2(1) q3(1) q4(1) q5(1) q6(1) q7(1) q8(1) len(1-3) u by simp
  moreover have "filter is_name (os @ n8) = []" using os q8(2) by (simp add: fillers_def)
  ultimately show ?thesis using q8(3) by (auto intro!: exI [of _ "os @ n8"])
qed

section \<open>The claims\<close>


text \<open>C40: Mutation of a ClientHello in mode \<open>full\<close>, for a hello with extensions, at least one usable fake name, counts that are not negative,
  and a packet with room for everything the mode adds. The reordering keeps only the server name extension it saw last, which is the
  last fake name: the extensions of the result start with that name, no other server name extension is among them, and the name the
  client asked for is gone from the packet that goes to the server.\<close>
theorem full_mode_loses_name:
  assumes "hello_exts six p k es" "is_hello six p" "mut_Mode (SNIMutation (Faking cfg)) = ''full''" "es \<noteq> []"
    "usable_names cfg \<noteq> []" "length p + full_growth cfg \<le> MaxTCPPacketSize"
    "0 \<le> GreaseCount (SNIMutation (Faking cfg))" "0 \<le> FakeExtCount (SNIMutation (Faking cfg))"
  shows "\<exists>q os. (if six then MutateClientHelloV6 rb r32 cfg p else MutateClientHello rb r32 cfg p) = Some q \<and>
     hello_exts six q k (sni_ext (last (usable_names cfg)) # os) \<and> filter is_name os = []"
  using mutate_hello [OF assms(1,2) refl, of cfg rb r32] full_mutation_names [OF assms(1,6,5,4,7,8)] assms(3)
  by (cases six) (simp_all add: MutateClientHelloV6_def MutateClientHello_def)

text \<open>A ClientHello for \<open>ab.c\<close> with two extensions over IPv4\<close>
definition hello4 :: bytes where
  "hello4 = [0x45, 0, 0, 109, 0, 1, 0, 0, 64, 6, 0, 0, 10, 0, 0, 2, 10, 0, 0, 1] @
     [0, 80, 1, 187, 0, 0, 0, 7, 0, 0, 0, 0, 0x50, 24, 0, 0, 0, 0, 0, 0] @
     [0x16, 3, 1, 0, 64, 1, 0, 0, 60, 3, 3] @ replicate 32 5 @ [0, 0, 2, 0x13, 1, 1, 0, 0, 17] @
     sni_ext [97, 98, 46, 99] @ [0, 0x17, 0, 0]"

definition mutation_set :: "string \<Rightarrow> SetConfig" where
  "mutation_set mode = inject_set\<lparr>Faking := (Faking inject_set)\<lparr>SNIMutation :=
     \<lparr>mut_Mode = mode, GreaseCount = 2, PaddingSize = 100, FakeExtCount = 3, FakeSNIs = [[120, 46, 121], [122, 46, 119]]\<rparr>\<rparr>\<rparr>"

lemma hello4_exts: "hello_exts False hello4 90 [sni_ext [97, 98, 46, 99], [0, 0x17, 0, 0]]" and hello4_hello: "is_hello False hello4"
  by code_simp+

lemma mutation_set_facts:
  "usable_names (mutation_set m) = [[120, 46, 121], [122, 46, 119]]" "mut_Mode (SNIMutation (Faking (mutation_set m))) = m"
  "length (fake_snis (mutation_set m)) = 24" "GreaseCount (SNIMutation (Faking (mutation_set m))) = 2"
  "FakeExtCount (SNIMutation (Faking (mutation_set m))) = 3" "length hello4 = 109"
  by (simp_all add: mutation_set_def usable_names_def fake_snis_def sni_ext_def hello4_def)


theorem full_mode_loses_name_witness:
  "hello_exts False hello4 90 [sni_ext [97, 98, 46, 99], [0, 0x17, 0, 0]] \<and> is_hello False hello4 \<and>
   (\<exists>q os. MutateClientHello (\<lambda>_ _. 1) (\<lambda>_. 0) (mutation_set ''full'') hello4 = Some q \<and>
     hello_exts False q 90 (sni_ext [122, 46, 119] # os) \<and> filter is_name os = [])"
  using full_mode_loses_name [OF hello4_exts hello4_hello mutation_set_facts(2), of "\<lambda>_ _. 1" "\<lambda>_. 0"] hello4_exts hello4_hello
  by (simp add: mutation_set_facts full_growth_def)

end
