(* ===== verification/Inject.thy ===== *)
theory Inject
  imports Mutation DesyncFakes Classify
begin

text \<open>
  What the goroutine of an intercepted packet does: \<open>dropAndInjectTCP\<close>, \<open>dropAndInjectQUIC\<close> and the senders they call in
  \<^verbatim>\<open>src/src/nfq/nfq.go\<close> and \<^verbatim>\<open>nfq_ipv6.go\<close>. The result is the list of packets sent and pauses made, in their order, or None when
  the goroutine panics. The record \<open>assets\<close> holds what the code reads from elsewhere: the two built-in hellos, random bytes, the
  fragment identification, and the position of the name in an encrypted QUIC Initial (the result of \<open>quic.LocateSNIOffset\<close>, which
  decrypts with \<^verbatim>\<open>crypto/aes\<close>). Random numbers: \<open>rnd e 6\<close> picks the strategy, \<open>rnd e 7\<close> the pause behind the desync fakes.
\<close>

record assets =
  fake_sni1 :: bytes
  fake_sni2 :: bytes
  payload_rnd :: bytes
  tls_rnd :: bytes
  seq_rnd :: uint32
  quic_rnd :: "nat \<Rightarrow> bytes option \<times> bytes option \<times> bytes option"
  frag_ident :: uint32
  quic_sni_at :: "bytes \<Rightarrow> int \<times> int"
  ext_rnd :: "nat \<Rightarrow> nat \<Rightarrow> byte"
  shuffle_rnd :: "nat \<Rightarrow> uint32"
  syn_md5_rnd :: bytes

definition payload_of :: "assets \<Rightarrow> SetConfig \<Rightarrow> bytes" where
  "payload_of A cfg = GetPayload (fake_sni1 A) (fake_sni2 A) (payload_rnd A) (Faking cfg)"

section \<open>IP fragments\<close>

definition ip_split :: "env \<Rightarrow> SetConfig \<Rightarrow> bytes \<Rightarrow> int option" where
  "ip_split e cfg payload = do {
     let splitPos = ResolveRange (int (rnd e 1)) (SNIPosition (Fragmentation cfg)) (SNIPositionMax (Fragmentation cfg));
     if MiddleSNI (Fragmentation cfg) then do {
       r \<leftarrow> sni_position payload;
       Some (case r of Some p \<Rightarrow> p | None \<Rightarrow> splitPos) }
     else Some splitPos }"

definition sendIPFragments :: "env \<Rightarrow> SetConfig \<Rightarrow> bytes \<Rightarrow> bytes \<Rightarrow> effect list option" where
  "sendIPFragments e cfg packet dst = do {
     b0 \<leftarrow> idx packet 0;
     let ipHdrLen = hdr4 b0;
     d \<leftarrow> idx packet (ipHdrLen + 12);
     let tcpHdrLen = doff d;
     let payloadStart = ipHdrLen + tcpHdrLen;
     if length packet \<le> payloadStart then Some [SendV4 packet dst]
     else do {
       payload \<leftarrow> slice_from packet payloadStart;
       splitPos \<leftarrow> ip_split e cfg payload;
       if splitPos \<le> 0 \<or> splitPos \<ge> int (length payload) then Some [SendV4 packet dst]
       else do {
         (fragments, ok) \<leftarrow> IPv4FragmentPacket packet (int tcpHdrLen + splitPos);
         if \<not> ok then Some [SendV4 packet dst]
         else do {
           a \<leftarrow> idx fragments 0;
           b \<leftarrow> idx fragments 1;
           Some (SendTwoSegmentsV4 a b dst (seg2_delay e cfg) (frag_ReverseOrder (Fragmentation cfg))) } } } }"

text \<open>The split of IPv6 is aligned up, and moved back when that leaves nothing for the second fragment.\<close>
definition ip_split6 :: "int \<Rightarrow> int \<Rightarrow> int \<Rightarrow> int option" where
  "ip_split6 tcpHdrLen ipPayloadLen splitPos =
     (let a = clear7 (tcpHdrLen + splitPos + 7);
          a = (if a < tcpHdrLen then clear7 (tcpHdrLen + 7) else a)
      in if a \<ge> ipPayloadLen
         then (let a = clear7 (ipPayloadLen - 8) in if a < 8 then None else Some a)
         else Some a)"

definition sendIPFragmentsv6 :: "assets \<Rightarrow> env \<Rightarrow> SetConfig \<Rightarrow> bytes \<Rightarrow> bytes \<Rightarrow> effect list option" where
  "sendIPFragmentsv6 A e cfg packet dst =
     (if length packet < 40 + 20 then Some [SendV6 packet dst]
      else do {
        d \<leftarrow> idx packet (40 + 12);
        let tcpHdrLen = doff d;
        let payloadStart = 40 + tcpHdrLen;
        if length packet \<le> payloadStart then Some [SendV6 packet dst]
        else do {
          payload \<leftarrow> slice_from packet payloadStart;
          splitPos \<leftarrow> ip_split e cfg payload;
          if splitPos \<le> 0 \<or> splitPos \<ge> int (length payload) then Some [SendV6 packet dst]
          else (case ip_split6 (int tcpHdrLen) (int (length packet) - 40) splitPos of
              None \<Rightarrow> Some [SendV6 packet dst]
            | Some adjustedSplit \<Rightarrow> do {
                (fragments, ok) \<leftarrow> IPv6FragmentPacket (frag_ident A) packet adjustedSplit;
                if \<not> ok then Some [SendV6 packet dst]
                else do {
                  a \<leftarrow> idx fragments 0;
                  b \<leftarrow> idx fragments 1;
                  Some (SendTwoSegmentsV6 a b dst (seg2_delay e cfg) (frag_ReverseOrder (Fragmentation cfg))) } }) } })"

section \<open>Fake hellos\<close>

text \<open>What happens between two fakes: the next identification, and unless the strategy already moved the sequence number, the next
  sequence number and new checksums\<close>
definition next_fake4 :: "SetConfig \<Rightarrow> nat \<Rightarrow> nat \<Rightarrow> bytes \<Rightarrow> bytes option" where
  "next_fake4 cfg ipHdrLen tcpHdrLen fake = do {
     id \<leftarrow> be16 fake 4;
     fake \<leftarrow> put16 fake 4 (id + 1);
     if Strategy (Faking cfg) \<noteq> ''pastseq'' \<and> Strategy (Faking cfg) \<noteq> ''randseq'' then do {
       seq \<leftarrow> be32 fake (ipHdrLen + 4);
       fake \<leftarrow> put32 fake (ipHdrLen + 4) (seq + of_int (int (length fake) - int (ipHdrLen + tcpHdrLen)));
       fake \<leftarrow> on_prefix FixIPv4Checksum fake ipHdrLen;
       FixTCPChecksum fake }
     else Some fake }"

definition next_fake6 :: "SetConfig \<Rightarrow> bytes \<Rightarrow> bytes option" where
  "next_fake6 cfg fake =
     (if Strategy (Faking cfg) \<noteq> ''pastseq'' \<and> Strategy (Faking cfg) \<noteq> ''randseq'' then do {
        d \<leftarrow> idx fake (40 + 12);
        seq \<leftarrow> be32 fake (40 + 4);
        fake \<leftarrow> put32 fake (40 + 4) (seq + of_int (int (length fake) - int (40 + doff d)));
        FixTCPChecksumV6 fake }
      else Some fake)"

text \<open>The loop over the remaining fakes; nothing is changed behind the last\<close>
fun fake_loop :: "(bytes \<Rightarrow> effect) \<Rightarrow> (bytes \<Rightarrow> bytes option) \<Rightarrow> nat \<Rightarrow> bytes \<Rightarrow> effect list option" where
  "fake_loop send nxt 0 fake = Some []"
| "fake_loop send nxt (Suc n) fake =
     (if n = 0 then Some [send fake]
      else do { fake' \<leftarrow> nxt fake; es \<leftarrow> fake_loop send nxt n fake'; Some (send fake # es) })"

text \<open>Over IPv4 the code indexes the fake without a nil check.\<close>
definition sendFakeSNISequence :: "assets \<Rightarrow> SetConfig \<Rightarrow> bytes \<Rightarrow> bytes \<Rightarrow> effect list option" where
  "sendFakeSNISequence A cfg original dst =
     (if \<not> fake_SNI (Faking cfg) \<or> SNISeqLength (Faking cfg) \<le> 0 then Some []
      else do {
        r \<leftarrow> BuildFakeSNIPacketV4 (fake_sni1 A) (fake_sni2 A) (payload_rnd A) (tls_rnd A) (seq_rnd A) original (Faking cfg);
        fake \<leftarrow> r;
        b0 \<leftarrow> idx fake 0;
        let ipHdrLen = hdr4 b0;
        d \<leftarrow> idx fake (ipHdrLen + 12);
        fake_loop (\<lambda>p. SendV4 p dst) (next_fake4 cfg ipHdrLen (doff d)) (nat (SNISeqLength (Faking cfg))) fake })"

definition sendFakeSNISequencev6 :: "assets \<Rightarrow> SetConfig \<Rightarrow> bytes \<Rightarrow> bytes \<Rightarrow> effect list option" where
  "sendFakeSNISequencev6 A cfg original dst =
     (if \<not> fake_SNI (Faking cfg) \<or> SNISeqLength (Faking cfg) \<le> 0 then Some []
      else do {
        r \<leftarrow> BuildFakeSNIPacketV6 (fake_sni1 A) (fake_sni2 A) (payload_rnd A) (tls_rnd A) (seq_rnd A) original (Faking cfg);
        case r of None \<Rightarrow> Some []
        | Some fake \<Rightarrow> fake_loop (\<lambda>p. SendV6 p dst) (next_fake6 cfg) (nat (SNISeqLength (Faking cfg))) fake })"

section \<open>QUIC\<close>

definition FakePayloadAutoQUIC :: string where "FakePayloadAutoQUIC = ''@quic_initial''"

definition udp_delay :: "env \<Rightarrow> SetConfig \<Rightarrow> int" where
  "udp_delay e cfg = ResolveRange (int (rnd e 0)) (udp_Seg2Delay (UDP cfg)) (udp_Seg2DelayMax (UDP cfg))"

definition udp_payload :: "assets \<Rightarrow> SetConfig \<Rightarrow> nat \<Rightarrow> bytes option" where
  "udp_payload A cfg i =
     (if FakePayloadFile (UDP cfg) = map (of_nat \<circ> of_char) FakePayloadAutoQUIC then do {
        r \<leftarrow> (case quic_rnd A i of (a, b, c) \<Rightarrow> BuildQUICInitial a b c (FakeLen (UDP cfg)));
        Some (case r of Some p \<Rightarrow> p | None \<Rightarrow> []) }
      else Some (FakePayloadData (UDP cfg)))"

text \<open>The strategy \<open>checksum\<close> inverts the checksum of the fake.\<close>
definition break_udp :: "SetConfig \<Rightarrow> nat \<Rightarrow> bytes \<Rightarrow> bytes option" where
  "break_udp cfg h fake =
     (if udp_FakingStrategy (UDP cfg) = ''checksum'' \<and> length fake \<ge> h + 8
      then do { fake \<leftarrow> flip_at (h + 6) fake; flip_at (h + 7) fake }
      else Some fake)"

definition udp_fakes4 :: "assets \<Rightarrow> env \<Rightarrow> SetConfig \<Rightarrow> bytes \<Rightarrow> bytes \<Rightarrow> effect list option" where
  "udp_fakes4 A e cfg raw dst = repeat_send 0 (nat (FakeSeqLength (UDP cfg))) (\<lambda>i. do {
     payload \<leftarrow> udp_payload A cfg i;
     r \<leftarrow> BuildFakeUDPFromOriginalV4 raw (FakeLen (UDP cfg)) (TTL (Faking cfg)) payload;
     case r of None \<Rightarrow> Some []
     | Some fake \<Rightarrow> do {
         b0 \<leftarrow> idx fake 0;
         fake \<leftarrow> break_udp cfg (hdr4 b0) fake;
         Some (SendV4 fake dst # pause_ms (udp_delay e cfg)) } })"

definition udp_fakes6 :: "assets \<Rightarrow> env \<Rightarrow> SetConfig \<Rightarrow> bytes \<Rightarrow> bytes \<Rightarrow> effect list option" where
  "udp_fakes6 A e cfg raw dst = repeat_send 0 (nat (FakeSeqLength (UDP cfg))) (\<lambda>i. do {
     payload \<leftarrow> udp_payload A cfg i;
     r \<leftarrow> BuildFakeUDPFromOriginalV6 raw (FakeLen (UDP cfg)) (TTL (Faking cfg)) payload;
     case r of None \<Rightarrow> Some []
     | Some fake \<Rightarrow> do {
         fake \<leftarrow> break_udp cfg 40 fake;
         Some (SendV6 fake dst # pause_ms (udp_delay e cfg)) } })"

definition quic_split :: "assets \<Rightarrow> bytes \<Rightarrow> int" where
  "quic_split A realPayload =
     (case quic_sni_at A realPayload of (sniOff, sniLen) \<Rightarrow> if sniOff > 0 \<and> sniLen > 0 then sniOff + sniLen div 2 else 24)"

definition dropAndInjectQUIC :: "assets \<Rightarrow> env \<Rightarrow> SetConfig \<Rightarrow> bytes \<Rightarrow> bytes \<Rightarrow> effect list option" where
  "dropAndInjectQUIC A e cfg raw dst =
     (if udp_Mode (UDP cfg) \<noteq> ''fake'' then Some []
      else do {
        fakes \<leftarrow> udp_fakes4 A e cfg raw dst;
        b0 \<leftarrow> idx raw 0;
        let realPayload = drop (hdr4 b0 + 8) raw;
        isQUIC \<leftarrow> LooksLikeQUIC realPayload;
        if \<not> isQUIC then Some (fakes @ [SendV4 raw dst])
        else do {
          (frags, ok) \<leftarrow> IPv4FragmentUDP raw (quic_split A realPayload);
          if \<not> ok then Some (fakes @ [SendV4 raw dst])
          else do {
            a \<leftarrow> idx frags 0;
            b \<leftarrow> idx frags 1;
            Some (fakes @ SendTwoSegmentsV4 a b dst (udp_delay e cfg) (frag_ReverseOrder (Fragmentation cfg))) } } })"

definition dropAndInjectQUICV6 :: "assets \<Rightarrow> env \<Rightarrow> SetConfig \<Rightarrow> bytes \<Rightarrow> bytes \<Rightarrow> effect list option" where
  "dropAndInjectQUICV6 A e cfg raw dst =
     (if udp_Mode (UDP cfg) \<noteq> ''fake'' then Some []
      else do {
        fakes \<leftarrow> udp_fakes6 A e cfg raw dst;
        let realPayload = drop (40 + 8) raw;
        isQUIC \<leftarrow> LooksLikeQUIC realPayload;
        if \<not> isQUIC then Some (fakes @ [SendV6 raw dst])
        else do {
          (frags, ok) \<leftarrow> IPv6FragmentUDP (frag_ident A) raw (quic_split A realPayload);
          if \<not> ok then Some (fakes @ [SendV6 raw dst])
          else do {
            a \<leftarrow> idx frags 0;
            b \<leftarrow> idx frags 1;
            Some (fakes @ SendTwoSegmentsV6 a b dst (udp_delay e cfg) (frag_ReverseOrder (Fragmentation cfg))) } } })"

section \<open>TCP\<close>

text \<open>The \<^verbatim>\<open>switch\<close> over the strategy; an unknown name means \<open>combo\<close>.\<close>
definition by_strategy4 :: "assets \<Rightarrow> env \<Rightarrow> SetConfig \<Rightarrow> string \<Rightarrow> bytes \<Rightarrow> bytes \<Rightarrow> effect list option" where
  "by_strategy4 A e cfg strategy raw dst =
     (if strategy = ''tcp'' then sendTCPFragments e cfg raw dst
      else if strategy = ''ip'' then sendIPFragments e cfg raw dst
      else if strategy = ''oob'' then sendOOBFragments e cfg raw dst
      else if strategy = ''tls'' then sendTLSFragments e cfg raw dst
      else if strategy = ''disorder'' then sendDisorderFragments e cfg raw dst
      else if strategy = ''extsplit'' then sendExtSplitFragments e cfg raw dst
      else if strategy = ''firstbyte'' then sendFirstByteDesync e cfg raw dst
      else if strategy = ''hybrid'' then sendHybridFragments (payload_of A cfg) e cfg raw dst
      else if strategy = ConfigNone then Some [SendV4 raw dst]
      else sendComboFragments (payload_of A cfg) e cfg raw dst)"

definition by_strategy6 :: "assets \<Rightarrow> env \<Rightarrow> SetConfig \<Rightarrow> string \<Rightarrow> bytes \<Rightarrow> bytes \<Rightarrow> effect list option" where
  "by_strategy6 A e cfg strategy raw dst =
     (if strategy = ''tcp'' then sendTCPSegmentsv6 e cfg raw dst
      else if strategy = ''ip'' then sendIPFragmentsv6 A e cfg raw dst
      else if strategy = ''oob'' then sendOOBFragmentsV6 e cfg raw dst
      else if strategy = ''tls'' then sendTLSFragmentsV6 e cfg raw dst
      else if strategy = ''disorder'' then sendDisorderFragmentsV6 e cfg raw dst
      else if strategy = ''extsplit'' then sendExtSplitFragmentsV6 e cfg raw dst
      else if strategy = ''firstbyte'' then sendFirstByteDesyncV6 e cfg raw dst
      else if strategy = ''hybrid'' then sendHybridFragmentsV6 (payload_of A cfg) e cfg raw dst
      else if strategy = ''none'' then Some [SendV6 raw dst]
      else sendComboFragmentsV6 (payload_of A cfg) e cfg raw dst)"

text \<open>\<open>time.Sleep\<close> behind the desync fakes, also for a delay of zero\<close>
definition desync_stage :: "env \<Rightarrow> SetConfig \<Rightarrow> effect list option \<Rightarrow> effect list option" where
  "desync_stage e cfg fakes =
     (if desync_Mode (Desync (TCP cfg)) \<noteq> ConfigOff then do {
        es \<leftarrow> fakes;
        Some (es @ [Pause (duration (ResolveRange (int (rnd e 7)) (tcp_Seg2Delay (TCP cfg)) (tcp_Seg2DelayMax (TCP cfg))) Millisecond)]) }
      else Some [])"

definition stage_if :: "bool \<Rightarrow> effect list option \<Rightarrow> effect list option" where
  "stage_if c es = (if c then es else Some [])"

definition dropAndInjectTCP :: "assets \<Rightarrow> env \<Rightarrow> SetConfig \<Rightarrow> bytes \<Rightarrow> bytes \<Rightarrow> effect list option" where
  "dropAndInjectTCP A e cfg raw dst =
     (if length raw < 40 then Some [SendV4 raw dst]
      else do {
        b0 \<leftarrow> idx raw 0;
        let ipHdrLen = hdr4 b0;
        d \<leftarrow> idx raw (ipHdrLen + 12);
        if length raw \<le> ipHdrLen + doff d then Some [SendV4 raw dst]
        else do {
          raw \<leftarrow> (if mut_Mode (SNIMutation (Faking cfg)) \<noteq> ConfigOff then MutateClientHello (ext_rnd A) (shuffle_rnd A) cfg raw else Some raw);
          es1 \<leftarrow> desync_stage e cfg (ExecuteDesyncIPv4 e cfg raw dst);
          es2 \<leftarrow> stage_if (win_Mode (Win (TCP cfg)) \<noteq> ConfigOff) (ManipulateWindowIPv4 e cfg raw dst);
          es3 \<leftarrow> stage_if (fake_SNI (Faking cfg) \<and> SNISeqLength (Faking cfg) > 0) (sendFakeSNISequence A cfg raw dst);
          strategy \<leftarrow> ResolveStrategyPool (rnd e 6) (StrategyPool (Fragmentation cfg)) (frag_Strategy (Fragmentation cfg));
          es4 \<leftarrow> by_strategy4 A e cfg strategy raw dst;
          es5 \<leftarrow> stage_if (PostDesync (Desync (TCP cfg))) (do {
            es \<leftarrow> sendPostDesyncRST cfg raw ipHdrLen dst;
            Some (Pause (50 * Millisecond) # es) });
          Some (es1 @ es2 @ es3 @ es4 @ es5) } })"

definition dropAndInjectTCPv6 :: "assets \<Rightarrow> env \<Rightarrow> SetConfig \<Rightarrow> bytes \<Rightarrow> bytes \<Rightarrow> effect list option" where
  "dropAndInjectTCPv6 A e cfg raw dst =
     (if length raw < 60 then Some [SendV6 raw dst]
      else do {
        d \<leftarrow> idx raw (40 + 12);
        if length raw \<le> 40 + doff d then Some [SendV6 raw dst]
        else do {
          raw \<leftarrow> (if mut_Mode (SNIMutation (Faking cfg)) \<noteq> ConfigOff then MutateClientHelloV6 (ext_rnd A) (shuffle_rnd A) cfg raw else Some raw);
          es1 \<leftarrow> desync_stage e cfg (ExecuteDesyncIPv6 e cfg raw dst);
          es2 \<leftarrow> stage_if (win_Mode (Win (TCP cfg)) \<noteq> ConfigOff) (ManipulateWindowIPv6 e cfg raw dst);
          es3 \<leftarrow> stage_if (fake_SNI (Faking cfg) \<and> SNISeqLength (Faking cfg) > 0) (sendFakeSNISequencev6 A cfg raw dst);
          strategy \<leftarrow> ResolveStrategyPool (rnd e 6) (StrategyPool (Fragmentation cfg)) (frag_Strategy (Fragmentation cfg));
          es4 \<leftarrow> by_strategy6 A e cfg strategy raw dst;
          es5 \<leftarrow> stage_if (PostDesync (Desync (TCP cfg))) (do {
            es \<leftarrow> sendPostDesyncRSTv6 cfg raw dst;
            Some (Pause (50 * Millisecond) # es) });
          Some (es1 @ es2 @ es3 @ es4 @ es5) } })"

section \<open>What reaches the server\<close>

text \<open>The packets that carry the payload: the packet itself or segments of its flow, or IP fragments of it\<close>
definition served4 :: "bytes \<Rightarrow> effect list \<Rightarrow> bool" where
  "served4 p es \<longleftrightarrow> kept (flow4 p) (piece4 p) p (info4 p) (Some es) \<or>
     (\<forall>f \<in> set (sent es). hdr4_ok p f) \<and> reassemble (map frag4 (sent es)) = Some (drop (ihl4 p) p)"

definition served6 :: "uint32 \<Rightarrow> bytes \<Rightarrow> effect list \<Rightarrow> bool" where
  "served6 ident p es \<longleftrightarrow> kept (flow6 p) (piece6 p) p (info6 p) (Some es) \<or>
     (\<forall>f \<in> set (sent es). hdr6_ok ident p f) \<and> reassemble (map frag6 (sent es)) = Some (payload6 p)"

text \<open>Packets the server discards, then the payload, then packets it discards\<close>
definition delivers :: "(bytes \<Rightarrow> bool) \<Rightarrow> (effect list \<Rightarrow> bool) \<Rightarrow> effect list option \<Rightarrow> bool" where
  "delivers fake served r \<longleftrightarrow> (\<exists>pre mid post. r = Some (pre @ mid @ post) \<and> (\<forall>q \<in> set (sent (pre @ post)). fake q) \<and> served mid)"

text \<open>A configuration that leaves the payload alone and whose fakes all carry broken checksums\<close>
definition faithful :: "env \<Rightarrow> SetConfig \<Rightarrow> bool" where
  "faithful e cfg \<longleftrightarrow> plain e cfg \<and> mut_Mode (SNIMutation (Faking cfg)) = ConfigOff \<and> win_Mode (Win (TCP cfg)) = ConfigOff \<and>
     \<not> fake_SNI (Faking cfg) \<and> ''oob'' \<notin> set (frag_Strategy (Fragmentation cfg) # StrategyPool (Fragmentation cfg)) \<and>
     (StrategyPool (Fragmentation cfg) \<noteq> [] \<longrightarrow> rnd e 6 < length (StrategyPool (Fragmentation cfg)))"

lemma idx_mem: "i < length xs \<Longrightarrow> \<exists>x \<in> set xs. idx xs i = Some x"
  by (simp add: idx_ok)

lemma faithful_strategy:
  assumes "faithful e cfg"
  shows "\<exists>s. s \<noteq> ''oob'' \<and> ResolveStrategyPool (rnd e 6) (StrategyPool (Fragmentation cfg)) (frag_Strategy (Fragmentation cfg)) = Some s"
  using assms idx_mem [of "rnd e 6" "StrategyPool (Fragmentation cfg)"] by (auto simp: faithful_def ResolveStrategyPool_def)

lemma ip_split_ok: "\<exists>s. ip_split e cfg payload = Some s"
  using sni_position_returns [of payload] by (auto simp: ip_split_def Let_def)

lemma two_frags:
  assumes "length fs = 2"
  shows "idx fs 0 = Some (fs ! 0)" "idx fs 1 = Some (fs ! 1)"
    "\<exists>gs. mset gs = mset fs \<and> sent (SendTwoSegmentsV4 (fs ! 0) (fs ! 1) dst d rv) = gs"
    "\<exists>gs. mset gs = mset fs \<and> sent (SendTwoSegmentsV6 (fs ! 0) (fs ! 1) dst d rv) = gs"
proof -
  obtain a b where "fs = [a, b]" using assms by (auto simp: length_Suc_conv numeral_2_eq_2)
  then show "idx fs 0 = Some (fs ! 0)" "idx fs 1 = Some (fs ! 1)"
    "\<exists>gs. mset gs = mset fs \<and> sent (SendTwoSegmentsV4 (fs ! 0) (fs ! 1) dst d rv) = gs"
    "\<exists>gs. mset gs = mset fs \<and> sent (SendTwoSegmentsV6 (fs ! 0) (fs ! 1) dst d rv) = gs"
    by (auto simp: idx_def SendTwoSegmentsV4_def SendTwoSegmentsV6_def)
qed

lemma served4_same: "served4 p [SendV4 p dst]"
  by (simp add: served4_def kept_def)

lemma served6_same: "served6 ident p [SendV6 p dst]"
  by (simp add: served6_def kept_def)

lemma sendIPFragments_served:
  assumes "wf_pkt False p" "length p < 65536"
  shows "\<exists>es. sendIPFragments e cfg p dst = Some es \<and> served4 p es"
proof -
  have t: "tcp4_ok p" and v: "drop_bit 4 (p ! 0) = 4" using assms(1) by (simp_all add: wf_pkt_def)
  note l = tcp4_bounds [OF t]
  have i0: "idx p 0 = Some (p ! 0)" using l by (intro idx_ok) linarith
  obtain s where s: "ip_split e cfg (drop (hdrs4 p) p) = Some s" using ip_split_ok by blast
  let ?k = "int (thl_at (ihl4 p) p) + s"
  have "frag4_wf p ?k" using t v l assms(2) by (auto simp: frag4_wf_def tcp4_ok_def)
  from f4.any_order [OF this] obtain fs where fs: "IPv4FragmentPacket p ?k = Some (fs, True)" "length fs = 2" "\<forall>f \<in> set fs. hdr4_ok p f"
    "\<forall>gs. mset gs = mset fs \<longrightarrow> reassemble (map frag4 gs) = Some (drop (ihl4 p) p)" by auto
  let ?es = "SendTwoSegmentsV4 (fs ! 0) (fs ! 1) dst (seg2_delay e cfg) (frag_ReverseOrder (Fragmentation cfg))"
  have "served4 p ?es"
    using two_frags(3) [OF fs(2), of dst "seg2_delay e cfg" "frag_ReverseOrder (Fragmentation cfg)"] fs(3,4)
    by (auto simp: served4_def dest: mset_eq_setD)
  then show ?thesis
    using l s fs(1) two_frags(1,2) [OF fs(2)] served4_same [of p dst] i0
    by (auto simp: sendIPFragments_def idx_ok slice_from_ok Let_def ihl4_def [symmetric] thl_at_def [symmetric])
qed

lemma ip_split6_ok:
  assumes "ip_split6 t n s = Some a" "0 \<le> t" "0 < s"
  shows "0 < a" "clear7 (a + 7) < n"
proof -
  have c: "clear7 (clear7 x + 7) = clear7 x" for x
  proof -
    obtain k where "clear7 x = 8 * k" using clear7_dvd [of x] by (auto elim: dvdE)
    then show ?thesis by (simp add: clear7_def [of "8 * k + 7"])
  qed
  have e: "clear7 (t + s + 7) \<ge> t" "clear7 (t + s + 7) > 0" using clear7_bounds [of "t + s + 7"] assms(2,3) by linarith+
  show "0 < a" "clear7 (a + 7) < n"
    using assms(1) e c clear7_bounds(1) [of "n - 8"] by (auto simp: ip_split6_def Let_def split: if_splits)
qed

lemma sendIPFragmentsv6_served:
  assumes "wf_pkt True p" "length p < 65568" "plen6 p = length p - 40"
  shows "\<exists>es. sendIPFragmentsv6 A e cfg p dst = Some es \<and> served6 (frag_ident A) p es"
proof -
  have t: "tcp6_ok p" and v: "drop_bit 4 (p ! 0) = 6" using assms(1) by (simp_all add: wf_pkt_def)
  then have l: "p ! 6 = 6" "20 \<le> thl_at 40 p" "hdrs6 p \<le> length p" by (simp_all add: tcp6_ok_def)
  have d: "doff (p ! 52) = thl_at 40 p" by (simp add: thl_at_def)
  obtain s where s: "ip_split e cfg (drop (hdrs6 p) p) = Some s" using ip_split_ok by blast
  show ?thesis
  proof (cases "length p \<le> hdrs6 p \<or> s \<le> 0 \<or> s \<ge> int (length p - hdrs6 p) \<or> ip_split6 (int (thl_at 40 p)) (int (length p) - 40) s = None")
    case True
    then show ?thesis using l d s served6_same [of "frag_ident A" p dst]
      by (auto simp: sendIPFragmentsv6_def idx_ok slice_from_ok Let_def)
  next
    case False
    then obtain a where a: "ip_split6 (int (thl_at 40 p)) (int (length p) - 40) s = Some a" "0 < s" "s < int (length p - hdrs6 p)" "\<not> length p \<le> hdrs6 p"
      by auto
    have n: "int (length p) - 40 = int (plen6 p)" using l assms(3) by simp
    have "frag6_wf p a" using t v l assms(2,3) by (auto simp: frag6_wf_def)
    then have "frag6_wf p a \<and> 0 < a \<and> clear7 (a + 7) < int (plen6 p)" using ip_split6_ok [OF a(1) _ a(2)] n by simp
    from f6.any_order [OF this, of "frag_ident A"] obtain fs where fs: "IPv6FragmentPacket (frag_ident A) p a = Some (fs, True)" "length fs = 2"
      "\<forall>f \<in> set fs. hdr6_ok (frag_ident A) p f" "\<forall>gs. mset gs = mset fs \<longrightarrow> reassemble (map frag6 gs) = Some (payload6 p)" by auto
    let ?es = "SendTwoSegmentsV6 (fs ! 0) (fs ! 1) dst (seg2_delay e cfg) (frag_ReverseOrder (Fragmentation cfg))"
    have "served6 (frag_ident A) p ?es"
      using two_frags(4) [OF fs(2), of dst "seg2_delay e cfg" "frag_ReverseOrder (Fragmentation cfg)"] fs(3,4)
      by (auto simp: served6_def dest: mset_eq_setD)
    then show ?thesis
      using l d a s fs(1) two_frags(1,2) [OF fs(2)]
      by (auto simp: sendIPFragmentsv6_def idx_ok slice_from_ok Let_def)
  qed
qed
lemma kept_served4: "kept (flow4 p) (piece4 p) p (info4 p) r \<Longrightarrow> \<exists>es. r = Some es \<and> served4 p es"
  by (auto simp: kept_def served4_def)

lemma kept_served6: "kept (flow6 p) (piece6 p) p (info6 p) r \<Longrightarrow> \<exists>es. r = Some es \<and> served6 ident p es"
  by (auto simp: kept_def served6_def)

lemma by_strategy4_served:
  assumes "wf_pkt False p" "length p < 65536" "length p \<notin> {hdrs4 p + 1, hdrs4 p + 5}" "plain e cfg" "s \<noteq> ''oob''"
  shows "\<exists>es. by_strategy4 A e cfg s p dst = Some es \<and> served4 p es"
proof -
  have t: "tcp4_ok p" using assms(1) by (simp add: wf_pkt_def)
  have n: "length p \<noteq> hdrs4 p + 1" "PayloadLen (info4 p) \<noteq> 5" using assms(3) by (auto simp: info4_sel)
  have tls: "v4.keeps p (sendTLSFragments e cfg p dst)"
    unfolding sendTLSFragments_def by (rule v4.tls_keeps [OF t assms(2) n(2)])
  note k = keeps4 [OF t assms(2) n(1) assms(4)] hybrid4 [OF t assms(2) n(1) assms(4)] tls
  show ?thesis
    unfolding by_strategy4_def using assms(5) sendIPFragments_served [OF assms(1,2), of e cfg dst] k [THEN kept_served4] served4_same [of p dst] by simp
qed

lemma by_strategy6_served:
  assumes "wf_pkt True p" "length p < 65568" "plen6 p = length p - 40" "length p \<notin> {hdrs6 p + 1, hdrs6 p + 5}" "plain e cfg" "s \<noteq> ''oob''"
  shows "\<exists>es. by_strategy6 A e cfg s p dst = Some es \<and> served6 (frag_ident A) p es"
proof -
  have t: "tcp6_ok p" "length p < 65576" using assms(1,2) by (simp_all add: wf_pkt_def)
  have n: "length p \<noteq> hdrs6 p + 1" "PayloadLen (info6 p) \<noteq> 5" using assms(4) by (auto simp: info6_sel)
  have tls: "v6.keeps p (sendTLSFragmentsV6 e cfg p dst)"
    unfolding sendTLSFragmentsV6_def by (rule v6.tls_keeps [OF t n(2)])
  note k = keeps6 [OF t n(1) assms(5)] hybrid6 [OF t n(1) assms(5)] tls
  show ?thesis
    unfolding by_strategy6_def
    using assms(6) sendIPFragmentsv6_served [OF assms(1-3), of A e cfg dst] k [THEN kept_served6 [of _ _ "frag_ident A"]] served6_same [of "frag_ident A" p dst]
    by simp
qed

lemma desync_stage_fakes: "sends_only P fakes \<Longrightarrow> sends_only P (desync_stage e cfg fakes)"
  by (auto simp: sends_only_def desync_stage_def)

lemma post_stage_fakes: "sends_only P fakes \<Longrightarrow> sends_only P (stage_if c (do { es \<leftarrow> fakes; Some (Pause n # es) }))"
  by (auto simp: sends_only_def stage_if_def)

text \<open>Three stages of which the outer ones send only fakes\<close>
lemma delivers_stages:
  assumes "sends_only P a" "\<exists>es. b = Some es \<and> S es" "sends_only P c"
  shows "delivers P S (do { x \<leftarrow> a; y \<leftarrow> b; z \<leftarrow> c; Some (x @ y @ z) })"
  using assms by (fastforce simp: sends_only_def delivers_def)

lemma delivers_one: "S [x] \<Longrightarrow> delivers P S (Some [x])"
  unfolding delivers_def by (rule exI [of _ "[]"], rule exI [of _ "[x]"], rule exI [of _ "[]"]) simp

lemma inject4:
  assumes "wf_pkt False p" "length p < 65536" "length p \<notin> {hdrs4 p + 1, hdrs4 p + 5}" "faithful e cfg"
  shows "delivers (decoy4 p) (served4 p) (dropAndInjectTCP A e cfg p dst)"
proof -
  have t: "tcp4_ok p" using assms(1) by (simp add: wf_pkt_def)
  note l = tcp4_bounds [OF t]
  have i0: "idx p 0 = Some (p ! 0)" using l by (intro idx_ok) linarith
  obtain s where s: "s \<noteq> ''oob''" "ResolveStrategyPool (rnd e 6) (StrategyPool (Fragmentation cfg)) (frag_Strategy (Fragmentation cfg)) = Some s"
    using faithful_strategy [OF assms(4)] by blast
  have pl: "plain e cfg" using assms(4) by (simp add: faithful_def)
  have d: "sends_only (decoy4 p) (desync_stage e cfg (ExecuteDesyncIPv4 e cfg p dst))"
    unfolding ExecuteDesyncIPv4_def by (rule desync_stage_fakes [OF f4.desync_fakes [OF t]])
  have q: "sends_only (decoy4 p) (stage_if (PostDesync (Desync (TCP cfg))) (do { es \<leftarrow> sendPostDesyncRST cfg p (ihl4 p) dst; Some (Pause (50 * Millisecond) # es) }))"
    by (rule post_stage_fakes [OF post_fakes4 [OF t]])
  note m = delivers_stages [OF d by_strategy4_served [OF assms(1-3) pl s(1)] q]
  show ?thesis
    using m l i0 s(2) assms(4) served4_same [of p dst]
    by (auto simp: dropAndInjectTCP_def idx_ok Let_def ihl4_def [symmetric] thl_at_def [symmetric] faithful_def stage_if_def [of False] intro: delivers_one)
qed
lemma inject6:
  assumes "wf_pkt True p" "length p < 65568" "plen6 p = length p - 40" "length p \<notin> {hdrs6 p + 1, hdrs6 p + 5}" "faithful e cfg"
  shows "delivers (decoy6 p) (served6 (frag_ident A) p) (dropAndInjectTCPv6 A e cfg p dst)"
proof -
  have t: "tcp6_ok p" using assms(1) by (simp add: wf_pkt_def)
  then have l: "20 \<le> thl_at 40 p" "hdrs6 p \<le> length p" by (simp_all add: tcp6_ok_def)
  have h: "doff (p ! 52) = thl_at 40 p" by (simp add: thl_at_def)
  obtain s where s: "s \<noteq> ''oob''" "ResolveStrategyPool (rnd e 6) (StrategyPool (Fragmentation cfg)) (frag_Strategy (Fragmentation cfg)) = Some s"
    using faithful_strategy [OF assms(5)] by blast
  have pl: "plain e cfg" using assms(5) by (simp add: faithful_def)
  have d: "sends_only (decoy6 p) (desync_stage e cfg (ExecuteDesyncIPv6 e cfg p dst))"
    unfolding ExecuteDesyncIPv6_def by (rule desync_stage_fakes [OF f6.desync_fakes [OF t]])
  have q: "sends_only (decoy6 p) (stage_if (PostDesync (Desync (TCP cfg))) (do { es \<leftarrow> sendPostDesyncRSTv6 cfg p dst; Some (Pause (50 * Millisecond) # es) }))"
    by (rule post_stage_fakes [OF post_fakes6 [OF t]])
  note m = delivers_stages [OF d by_strategy6_served [OF assms(1-4) pl s(1)] q]
  show ?thesis
    using m l h s(2) assms(5) served6_same [of "frag_ident A" p dst]
    by (auto simp: dropAndInjectTCPv6_def idx_ok Let_def faithful_def stage_if_def [of False] intro: delivers_one)
qed


definition disorder_set :: SetConfig where
  "disorder_set = desync_set\<lparr>Fragmentation := (Fragmentation desync_set)\<lparr>frag_Strategy := ''disorder'', StrategyPool := [''disorder'', ''ip'']\<rparr>\<rparr>"

definition sample_assets :: assets where
  "sample_assets = \<lparr>fake_sni1 = [1, 2, 3, 4], fake_sni2 = [5], payload_rnd = [], tls_rnd = [], seq_rnd = 7,
     quic_rnd = (\<lambda>_. (None, None, None)), frag_ident = 9, quic_sni_at = (\<lambda>_. (- 1, 0)), ext_rnd = (\<lambda>_ _. 0),
     shuffle_rnd = (\<lambda>_. 0), syn_md5_rnd = mk 16\<rparr>"

lemma sample_wf: "wf_pkt False long4" "wf_pkt True long6" "plen6 long6 = 32"
  by code_simp+

lemma disorder_faithful: "faithful sample_env disorder_set"
  by (simp add: faithful_def plain_def sample_env_def disorder_set_def desync_set_def inject_set_def plain_defs)


end
