(* ===== verification/Handler.thy ===== *)
theory Handler
  imports Inject DnsPath ClientHello
begin

text \<open>
  What the worker does with a packet of the queue: \<^verbatim>\<open>src/src/nfq/handler.go\<close>, with \<^verbatim>\<open>iface.go\<close> and \<open>ProcessPacket\<close> of
  \<^verbatim>\<open>verdict.go\<close>. A handler takes the state of the worker to a new one and a list of effects, or to None when it panics. The
  long handlers are cut into the stages that their blank lines suggest; a stage that ends the handler returns its final result.

  \<^item> \<open>set\<close> and \<open>matched\<close> of the TCP handler change together, so \<open>matched\<close> is \<open>set \<noteq> None\<close>. In the UDP handler they do not.
  \<^item> A failed verdict (\<open>verdictOk\<close>) is still the effect \<open>Drop\<close>; nothing is sent behind it.
  \<^item> Readings of the clock in the TCP handler: 0 and 1 learned addresses, 2 established, 3 and 4 a registered SYN, 5 and 6 the TLS
    cache, 7 a learned domain, 8 escalation, 9 blocked, 10 to 12 the hello count and its age, 13 to 15 a new escalation, 16 and 17 a
    new blocked address, 18 and 19 registration. In the UDP handler: 0 and 1, 2, 3 in the same order.
  \<^item> Logging, metrics and the capture of payloads are left out.
\<close>

record pktInfo =
  pk_raw :: bytes
  pk_ver :: byte
  pk_proto :: byte
  pk_src :: bytes
  pk_dst :: bytes
  pk_srcStr :: bytes
  pk_dstStr :: bytes
  pk_srcMac :: bytes
  pk_ihl :: nat

section \<open>Headers\<close>

text \<open>The loop over the extension headers of IPv6: the protocol and where it starts; a fragment or a cut header ends it without result.\<close>
function ext6_loop :: "bytes \<Rightarrow> byte \<Rightarrow> nat \<Rightarrow> (byte \<times> nat) option option" where
  "ext6_loop raw nextHeader offset =
     (if nextHeader = 0 \<or> nextHeader = 43 \<or> nextHeader = 60 then
        if length raw < offset + 2 then Some None
        else do {
          nh \<leftarrow> idx raw offset;
          l \<leftarrow> idx raw (offset + 1);
          ext6_loop raw nh (offset + (unat l * 8 + 8)) }
      else if nextHeader = 44 then Some None
      else Some (Some (nextHeader, offset)))"
  by pat_completeness auto
termination
  by (relation "measure (\<lambda>(raw, nh, offset). length raw - offset)") auto

declare ext6_loop.simps [simp del]

text \<open>Protocol, source, destination and header length\<close>
definition ip_fields :: "bytes \<Rightarrow> (byte \<times> bytes \<times> bytes \<times> nat) option option" where
  "ip_fields raw = do {
     b0 \<leftarrow> idx raw 0;
     if drop_bit 4 b0 = 4 then
       if length raw < 20 then Some None
       else do {
         let ihl = unat (b0 AND 0x0F) * 4;
         if length raw < ihl then Some None
         else do {
           f \<leftarrow> be16 raw 6;
           if f AND 0x1FFF \<noteq> 0 \<or> f AND 0x2000 \<noteq> 0 then Some None
           else do {
             proto \<leftarrow> idx raw 9;
             src \<leftarrow> gslice raw 12 16;
             dst \<leftarrow> gslice raw 16 20;
             Some (Some (proto, src, dst, ihl)) } } }
     else if drop_bit 4 b0 = 6 then
       if length raw < 40 then Some None
       else do {
         nh \<leftarrow> idx raw 6;
         r \<leftarrow> ext6_loop raw nh 40;
         case r of None \<Rightarrow> Some None
         | Some (proto, offset) \<Rightarrow> do {
             src \<leftarrow> gslice raw 8 24;
             dst \<leftarrow> gslice raw 24 40;
             Some (Some (proto, src, dst, offset)) } }
     else Some None }"

text \<open>The address of the device behind a translated source\<close>
definition resolve_src :: "env \<Rightarrow> byte \<Rightarrow> byte \<Rightarrow> nat \<Rightarrow> bytes \<Rightarrow> bytes \<Rightarrow> bytes \<Rightarrow> bytes option" where
  "resolve_src e v proto ihl raw src dst =
     (case srcResolver e of None \<Rightarrow> Some src
      | Some resolve \<Rightarrow>
          if v = 4 \<and> (proto = 6 \<or> proto = 17) \<and> length raw \<ge> ihl + 4 then do {
            sport \<leftarrow> be16 raw ihl;
            dport \<leftarrow> be16 raw (ihl + 2);
            Some (case resolve proto src sport dst dport of Some lan \<Rightarrow> lan | None \<Rightarrow> src) }
          else Some src)"

definition parseIPHeaders :: "env \<Rightarrow> bytes \<Rightarrow> pktInfo option option" where
  "parseIPHeaders e raw = do {
     b0 \<leftarrow> idx raw 0;
     r \<leftarrow> ip_fields raw;
     case r of None \<Rightarrow> Some None
     | Some (proto, src, dst, ihl) \<Rightarrow>
         if IsLoopback src \<or> IsLoopback dst then Some None
         else do {
           src \<leftarrow> resolve_src e (drop_bit 4 b0) proto ihl raw src dst;
           Some (Some \<lparr>pk_raw = raw, pk_ver = drop_bit 4 b0, pk_proto = proto, pk_src = src, pk_dst = dst, pk_srcStr = IP_String src,
             pk_dstStr = IP_String dst, pk_srcMac = getMacByIp e (IP_String src), pk_ihl = ihl\<rparr>) } }"

section \<open>What a set asks for\<close>

definition needsTCPInjection :: "SetConfig \<Rightarrow> bool" where
  "needsTCPInjection st \<longleftrightarrow> DropSACK (TCP st) \<or> fake_SNI (Faking st) \<or> mut_Mode (SNIMutation (Faking st)) \<noteq> ConfigOff \<or>
     desync_Mode (Desync (TCP st)) \<noteq> ConfigOff \<or> PostDesync (Desync (TCP st)) \<or> win_Mode (Win (TCP st)) \<noteq> ConfigOff \<or>
     frag_Strategy (Fragmentation st) \<noteq> ConfigNone \<or> length (StrategyPool (Fragmentation st)) > 0"

definition needsTCPSynInjection :: "SetConfig \<Rightarrow> bool" where
  "needsTCPSynInjection st \<longleftrightarrow>
     (let hasActiveStrategy = (frag_Strategy (Fragmentation st) \<noteq> ConfigNone \<or> length (StrategyPool (Fragmentation st)) > 0)
      in SynFake (TCP st) \<or> hasActiveStrategy \<and> TCPMD5 (Faking st))"

definition uses_tproxy :: "SetConfig \<Rightarrow> bool" where
  "uses_tproxy st \<longleftrightarrow> routing_Enabled (Routing st) \<and> RoutingUsesTProxy (routing_Mode (Routing st))"

definition tracks_conn :: "SetConfig \<Rightarrow> bool" where
  "tracks_conn st \<longleftrightarrow> inc_Mode (Incoming (TCP st)) \<noteq> ConfigOff \<or> rstp_Enabled (RSTProtection (TCP st)) \<or> To (Escalate st) \<noteq> []"

definition send_raw :: "pktInfo \<Rightarrow> effect" where
  "send_raw pkt = (if pk_ver pkt = 4 then SendV4 (pk_raw pkt) (pk_dst pkt) else SendV6 (pk_raw pkt) (pk_dst pkt))"

definition rst_to_client :: "env \<Rightarrow> pktInfo \<Rightarrow> effect list option" where
  "rst_to_client e pkt =
     (if pk_ver pkt = 4 then sendRSTToClientV4 e (pk_raw pkt) (pk_ihl pkt) (pk_src pkt) (pk_dst pkt)
      else sendRSTToClientV6 (pk_raw pkt) (pk_src pkt) (pk_dst pkt))"

section \<open>TCP\<close>

text \<open>The set of the packet before its payload is read, the set of its address, and whether that was learned\<close>
definition tcp_match ::
  "env \<Rightarrow> Config \<Rightarrow> pktInfo \<Rightarrow> uint16 \<Rightarrow> SetConfig option \<Rightarrow> worker \<Rightarrow> worker \<times> SetConfig option \<times> SetConfig option \<times> bool" where
  "tcp_match e cfg pkt dport st w =
     (let st0 = (case st of Some s \<Rightarrow> if MatchesTCPDPort s dport then Some s else None | None \<Rightarrow> None);
          (m, r) = MatchLearnedIPWithSource (rx e) (now e 0) (now e 1) (pk_dst pkt) (pk_srcMac pkt) (wk_matcher w);
          (set', st', learned) =
            (case r of Some (ls, dn) \<Rightarrow> if MatchesTCPDPort ls dport then (Some ls, Some ls, True) else (st0, st, False)
             | None \<Rightarrow> (st0, st, False));
          set' = (if set' = None \<and> IsTCPPort (tcpPortMap cfg) dport then MatchTCPPort dport m else set')
      in (w\<lparr>wk_matcher := m\<rparr>, set', st', learned))"

definition tcp_duplicate :: "env \<Rightarrow> SetConfig \<Rightarrow> pktInfo \<Rightarrow> effect list" where
  "tcp_duplicate e st pkt = Drop # (if verdictOk e then replicate (nat (dup_Count (Duplicate (TCP st)))) (send_raw pkt) else [])"

text \<open>The fakes of a SYN, the SYN, and the verdict\<close>
definition tcp_syn :: "assets \<Rightarrow> env \<Rightarrow> SetConfig \<Rightarrow> pktInfo \<Rightarrow> bytes \<Rightarrow> nat \<Rightarrow> worker \<Rightarrow> (worker \<times> effect list) option" where
  "tcp_syn A e st pkt connKey datOff w = do {
     let v4 = (pk_ver pkt = 4);
     a \<leftarrow> (if SynFake (TCP st)
            then if v4 then sendFakeSyn st (payload_of A st) (pk_raw pkt) (pk_ihl pkt) datOff
                 else sendFakeSynV6 st (payload_of A st) (pk_raw pkt) (pk_ihl pkt) datOff
            else Some []);
     b \<leftarrow> (if frag_Strategy (Fragmentation st) \<noteq> ConfigNone \<and> TCPMD5 (Faking st)
            then if v4 then sendFakeSynWithMD5 (syn_md5_rnd A) st (pk_raw pkt) (pk_ihl pkt) (pk_dst pkt)
                 else sendFakeSynWithMD5V6 (syn_md5_rnd A) st (pk_raw pkt) (pk_dst pkt)
            else Some []);
     let w = (if tracks_conn st then set_conns (RegisterOutgoing (now e 3) (now e 4) connKey (Some st) (wk_conns w)) w else w);
     Some (w, a @ b @ [send_raw pkt, Drop]) }"

text \<open>What reading the payload gives\<close>
record tcp_view =
  tv_host :: bytes
  tv_hello :: bool
  tv_set :: "SetConfig option"
  tv_sni :: bool

text \<open>A learned match without a handshake is dropped when the set does nothing with the packets of a connection.\<close>
definition drop_learned :: "bool \<Rightarrow> bytes \<Rightarrow> tcp_view \<Rightarrow> tcp_view" where
  "drop_learned learned payload v =
     (if learned \<and> \<not> tv_sni v \<and> \<not> (payload \<noteq> [] \<and> payload ! 0 = 0x16) then
        (case tv_set v of
           Some s \<Rightarrow> if frag_Strategy (Fragmentation s) = ConfigNone \<and> length (StrategyPool (Fragmentation s)) = 0 \<and>
                        desync_Mode (Desync (TCP s)) = ConfigOff then v\<lparr>tv_set := None\<rparr> else v
         | None \<Rightarrow> v)
      else v)"

definition tcp_hello ::
  "env \<Rightarrow> Config \<Rightarrow> pktInfo \<Rightarrow> bytes \<Rightarrow> uint16 \<Rightarrow> bytes \<Rightarrow> bool \<Rightarrow> SetConfig option \<Rightarrow> worker \<Rightarrow>
   (worker \<times> tcp_view \<times> effect list) option" where
  "tcp_hello e cfg pkt connKey dport payload learned set0 w =
     (if \<not> (IsTCPPort (tcpPortMap cfg) dport \<and> length payload > 0)
      then Some (w, \<lparr>tv_host = [], tv_hello = False, tv_set = set0, tv_sni = False\<rparr>, [])
      else do {
        r \<leftarrow> ParseTLSClientHelloSNI payload;
        let (host, tlsVersion) = (case r of Some hv \<Rightarrow> hv | None \<Rightarrow> ([], 0));
        let w = (if host \<noteq> [] \<and> tlsVersion \<noteq> 0
                 then set_tls (tls_Store (now e 5) (now e 6) connKey host tlsVersion (tlsCache (wk_rt w))) w else w);
        let byName = (if host \<noteq> [] then
            (case MatchSNIWithSourceTLS (rx e) (wk_matcher w) host (pk_srcMac pkt) tlsVersion (pk_ver pkt) of
               Some s \<Rightarrow> if MatchesTCPDPort s dport then Some s else None
             | None \<Rightarrow> None)
          else None);
        case byName of
          Some s \<Rightarrow>
            Some (w\<lparr>wk_matcher := LearnIPToDomain (now e 7) (Some (pk_dst pkt)) host (Some s) (wk_matcher w)\<rparr>,
              drop_learned learned payload \<lparr>tv_host = host, tv_hello = True, tv_set = Some s, tv_sni = True\<rparr>,
              registerLearnedRoute e cfg s (pk_dst pkt))
        | None \<Rightarrow>
            let set1 = (case set0 of Some s \<Rightarrow> if MatchesTLSVersion s tlsVersion then Some s else None | None \<Rightarrow> None)
            in Some (w, drop_learned learned payload \<lparr>tv_host = host, tv_hello = host \<noteq> [], tv_set = set1, tv_sni = False\<rparr>, []) })"

text \<open>A name found on an earlier packet of the connection is for the log only; escalation looks at hellos.\<close>
definition tcp_escalated :: "env \<Rightarrow> Config \<Rightarrow> uint16 \<Rightarrow> tcp_view \<Rightarrow> worker \<Rightarrow> worker \<times> SetConfig option" where
  "tcp_escalated e cfg dport v w =
     (if tv_set v \<noteq> None \<and> tv_hello v \<and> tv_host v \<noteq> [] \<and> IsTCPPort (tcpPortMap cfg) dport then
        (case GetEscalation (now e 8) (tv_host v) (wk_dest w) of None \<Rightarrow> (w, tv_set v)
         | Some (escId, hops) \<Rightarrow>
             (case GetSetById escId (Sets cfg) of
                Some escSet \<Rightarrow> if Enabled escSet then (w, Some escSet) else (set_dest (ClearEscalation (tv_host v) (wk_dest w)) w, tv_set v)
              | None \<Rightarrow> (set_dest (ClearEscalation (tv_host v) (wk_dest w)) w, tv_set v)))
      else (w, tv_set v))"

definition ip_port :: "pktInfo \<Rightarrow> uint16 \<Rightarrow> bytes" where
  "ip_port pkt dport = pk_dstStr pkt @ 58 # dec (unat dport)"

text \<open>Is the address known to be blocked? The lookup refreshes its entry.\<close>
definition tcp_blocked :: "env \<Rightarrow> Config \<Rightarrow> pktInfo \<Rightarrow> uint16 \<Rightarrow> SetConfig \<Rightarrow> tcp_view \<Rightarrow> worker \<Rightarrow> worker \<times> bool" where
  "tcp_blocked e cfg pkt dport st v w =
     (if tv_hello v \<and> ibd_Enabled (IPBlockDetect (TCP st)) \<and> tv_host v \<noteq> [] \<and> IsTCPPort (tcpPortMap cfg) dport \<and>
         CacheBlockedIPs (IPBlockDetect (TCP st))
      then let (d, hit) = IsBlocked (now e 9) (ip_port pkt dport) (wk_dest w) in (set_dest d w, hit)
      else (w, False))"

text \<open>\<open>count >= threshold || (count > 1 && time.Since(firstSeen) > timeout)\<close>\<close>
definition hello_stuck :: "env \<Rightarrow> SetConfig \<Rightarrow> nat \<Rightarrow> gotime \<Rightarrow> bool" where
  "hello_stuck e st cnt first =
     (let ibd = IPBlockDetect (TCP st);
          threshold = (if RetransmitThreshold ibd \<le> 0 then 3 else RetransmitThreshold ibd);
          timeout = (let t = duration (TimeoutMs ibd) Millisecond in if t \<le> 0 then 3000 * Millisecond else t)
      in int cnt \<ge> threshold \<or> cnt > 1 \<and> now e 12 - first > timeout)"

text \<open>The set to which the destination moves, if there is one that takes it\<close>
definition tcp_next_set :: "env \<Rightarrow> Config \<Rightarrow> SetConfig \<Rightarrow> bytes \<Rightarrow> worker \<Rightarrow> worker \<times> SetConfig option" where
  "tcp_next_set e cfg st host w =
     (case (if To (Escalate st) \<noteq> [] then GetSetById (To (Escalate st)) (Sets cfg) else None) of
        Some nxt \<Rightarrow>
          if Enabled nxt then
            let (d, ok) = SetEscalation (now e 13) (now e 14) (now e 15) host (Id nxt) (duration (TtlSec (Escalate st)) Second) (wk_dest w)
            in (set_dest d w, if ok then Some nxt else None)
          else (w, None)
      | None \<Rightarrow> (w, None))"

text \<open>A destination that swallows hellos: move it to the next set, or tell the client and remember the address. The handler ends
  if the flag is set.\<close>
definition tcp_detect ::
  "env \<Rightarrow> Config \<Rightarrow> pktInfo \<Rightarrow> bytes \<Rightarrow> uint16 \<Rightarrow> SetConfig \<Rightarrow> bytes \<Rightarrow> worker \<Rightarrow> (worker \<times> effect list \<times> bool) option" where
  "tcp_detect e cfg pkt connKey dport st host w = do {
     let (d, cnt, first) = RecordClientHello (now e 10) (now e 11) connKey host (wk_dest w);
     let w = set_dest d w;
     if \<not> hello_stuck e st cnt first then Some (w, [], False)
     else do {
       let (w, esc) = tcp_next_set e cfg st host w;
       case esc of
         Some nxt \<Rightarrow> Some (w, registerEscalatedRoute e cfg nxt (pk_dst pkt) @ [Drop], True)
       | None \<Rightarrow>
           if \<not> ibd_Enabled (IPBlockDetect (TCP st)) then Some (w, [], False)
           else if HasRSTSent connKey (wk_dest w) then Some (w, [Drop], True)
           else do {
             es \<leftarrow> rst_to_client e pkt;
             let d = MarkRSTSent connKey (wk_dest w);
             let d = (if CacheBlockedIPs (IPBlockDetect (TCP st)) then AddBlocked (now e 16) (now e 17) (ip_port pkt dport) d else d);
             Some (set_dest d w, es @ [Drop], True) } } }"

text \<open>The packet handed to the injector\<close>
definition tcp_handover :: "env \<Rightarrow> SetConfig \<Rightarrow> pktInfo \<Rightarrow> effect list option" where
  "tcp_handover e st pkt = do {
     packetCopy \<leftarrow> (if DropSACK (TCP st)
                     then if pk_ver pkt = 4 then StripSACKFromTCP (pk_raw pkt) else StripSACKFromTCPv6 (pk_raw pkt)
                     else Some (pk_raw pkt));
     Some (Drop # (if verdictOk e then [InjectTCP (pk_ver pkt) st packetCopy (pk_dst pkt)] else [])) }"

text \<open>The last part, for a packet of the set \<open>st\<close> that is neither blocked nor routed away\<close>
definition tcp_act ::
  "env \<Rightarrow> Config \<Rightarrow> pktInfo \<Rightarrow> bytes \<Rightarrow> uint16 \<Rightarrow> SetConfig \<Rightarrow> tcp_view \<Rightarrow> bool \<Rightarrow> worker \<Rightarrow> (worker \<times> effect list) option" where
  "tcp_act e cfg pkt connKey dport st v routeTProxy w = do {
     (w, es, stop) \<leftarrow> (if tv_hello v \<and> \<not> routeTProxy \<and> (ibd_Enabled (IPBlockDetect (TCP st)) \<or> To (Escalate st) \<noteq> []) \<and>
                          tv_host v \<noteq> [] \<and> IsTCPPort (tcpPortMap cfg) dport
                       then tcp_detect e cfg pkt connKey dport st (tv_host v) w else Some (w, [], False));
     if stop then Some (w, es)
     else do {
       let w = (if tracks_conn st then set_conns (RegisterOutgoing (now e 18) (now e 19) connKey (Some st) (wk_conns w)) w else w);
       if routeTProxy \<or> \<not> needsTCPInjection st then Some (w, es @ [Accept])
       else do { fs \<leftarrow> tcp_handover e st pkt; Some (w, es @ fs) } } }"

text \<open>Blocking sets answer with a RST or silently drop; only a match by name or by configured address counts.\<close>
definition tcp_routed ::
  "env \<Rightarrow> Config \<Rightarrow> pktInfo \<Rightarrow> bytes \<Rightarrow> uint16 \<Rightarrow> SetConfig option \<Rightarrow> bool \<Rightarrow> SetConfig \<Rightarrow> tcp_view \<Rightarrow> bool \<Rightarrow> worker \<Rightarrow>
   (worker \<times> effect list) option" where
  "tcp_routed e cfg pkt connKey dport st' learned st v routeTProxy w =
     (if routing_Enabled (Routing st) \<and> RoutingIsBlock (routing_Mode (Routing st)) then
        if tv_sni v \<or> st' \<noteq> None \<and> \<not> learned then do {
          es \<leftarrow> (if NormalizeBlockAction (BlockAction (Routing st)) \<noteq> BlockActionDrop then rst_to_client e pkt else Some []);
          Some (w, es @ [Drop]) }
        else Some (w, [Accept])
      else if uses_tproxy st then Some (w, [Accept])
      else tcp_act e cfg pkt connKey dport st v routeTProxy w)"

definition tcp_payload ::
  "env \<Rightarrow> Config \<Rightarrow> pktInfo \<Rightarrow> bytes \<Rightarrow> uint16 \<Rightarrow> bytes \<Rightarrow> SetConfig option \<Rightarrow> bool \<Rightarrow> bool \<Rightarrow> SetConfig option \<Rightarrow> worker \<Rightarrow>
   (worker \<times> effect list) option" where
  "tcp_payload e cfg pkt connKey dport payload st' learned routeTProxy set0 w = do {
     (w, v, es) \<leftarrow> tcp_hello e cfg pkt connKey dport payload learned set0 w;
     let (w, set1) = tcp_escalated e cfg dport v w;
     case set1 of None \<Rightarrow> Some (w, es @ [Accept])
     | Some st \<Rightarrow> do {
         let (w, hit) = tcp_blocked e cfg pkt dport st v w;
         if hit then do { fs \<leftarrow> rst_to_client e pkt; Some (w, es @ fs @ [Drop]) }
         else do {
           (w, fs) \<leftarrow> tcp_routed e cfg pkt connKey dport st' learned st v routeTProxy w;
           Some (w, es @ fs) } } }"

definition tcp_outgoing ::
  "assets \<Rightarrow> env \<Rightarrow> Config \<Rightarrow> pktInfo \<Rightarrow> bytes \<Rightarrow> nat \<Rightarrow> uint16 \<Rightarrow> byte \<Rightarrow> bytes \<Rightarrow> SetConfig option \<Rightarrow> worker \<Rightarrow>
   (worker \<times> effect list) option" where
  "tcp_outgoing A e cfg pkt connKey datOff dport flags payload st w =
     (let (w, set0, st', learned) = tcp_match e cfg pkt dport st w;
          port = IsTCPPort (tcpPortMap cfg) dport;
          routeTProxy = (case set0 of Some s \<Rightarrow> uses_tproxy s | None \<Rightarrow> False);
          isSyn = (flags AND 0x02 \<noteq> 0); isAck = (flags AND 0x10 \<noteq> 0); isRst = (flags AND 0x04 \<noteq> 0)
      in case set0 of
           None \<Rightarrow> tcp_payload e cfg pkt connKey dport payload st' learned routeTProxy None w
         | Some s \<Rightarrow>
             if \<not> routeTProxy \<and> port \<and> dup_Enabled (Duplicate (TCP s)) \<and> dup_Count (Duplicate (TCP s)) > 0
             then Some (w, tcp_duplicate e s pkt)
             else if isRst \<and> port \<and> rstp_Enabled (RSTProtection (TCP s)) \<and> ShouldDropOutboundRST connKey (wk_conns w)
             then Some (w, [Drop])
             else let w = (if isAck \<and> \<not> isSyn \<and> \<not> isRst \<and> port \<and> rstp_Enabled (RSTProtection (TCP s))
                           then set_conns (MarkEstablished (now e 2) connKey (wk_conns w)) w else w)
                  in if isSyn \<and> \<not> isAck \<and> \<not> routeTProxy \<and> port \<and> \<not> dup_Enabled (Duplicate (TCP s)) \<and> needsTCPSynInjection s
                     then tcp_syn A e s pkt connKey datOff w
                     else tcp_payload e cfg pkt connKey dport payload st' learned routeTProxy (Some s) w)"

definition handleTCPPacket :: "assets \<Rightarrow> env \<Rightarrow> Config \<Rightarrow> pktInfo \<Rightarrow> SetConfig option \<Rightarrow> worker \<Rightarrow> (worker \<times> effect list) option" where
  "handleTCPPacket A e cfg pkt st w = do {
     tcp \<leftarrow> slice_from (pk_raw pkt) (pk_ihl pkt);
     if length tcp < 20 then Some (w, [Accept])
     else do {
       d \<leftarrow> idx tcp 12;
       let datOff = doff d;
       if length tcp < datOff then Some (w, [Accept])
       else do {
         payload \<leftarrow> slice_from tcp datOff;
         sport \<leftarrow> be16 tcp 0;
         dport \<leftarrow> be16 tcp 2;
         if IsTCPPort (tcpPortMap cfg) sport
         then HandleIncoming e cfg (pk_ver pkt) (pk_raw pkt) (pk_ihl pkt) (pk_src pkt) (pk_dstStr pkt) dport (pk_srcStr pkt) sport payload w
         else do {
           flags \<leftarrow> idx tcp 13;
           tcp_outgoing A e cfg pkt (connKeyFormat (pk_srcStr pkt) sport (pk_dstStr pkt) dport) datOff dport flags payload st w } } } }"

section \<open>UDP\<close>

text \<open>What the addresses and the port give: the set, whether the address matched, whether it was learned, the learned domain, and
  whether the port matched\<close>
definition udp_match ::
  "env \<Rightarrow> pktInfo \<Rightarrow> uint16 \<Rightarrow> SetConfig option \<Rightarrow> worker \<Rightarrow> worker \<times> SetConfig option \<times> bool \<times> bool \<times> bytes \<times> bool" where
  "udp_match e pkt dport st w =
     (case (case st of Some s \<Rightarrow> if MatchesUDPDPort s dport then Some s else None | None \<Rightarrow> None) of
        Some s \<Rightarrow> (w, Some s, True, False, [], False)
      | None \<Rightarrow>
          let (m, r) = MatchLearnedIPWithSource (rx e) (now e 0) (now e 1) (pk_dst pkt) (pk_srcMac pkt) (wk_matcher w);
              w = w\<lparr>wk_matcher := m\<rparr>
          in case (case r of Some (ls, dn) \<Rightarrow> if MatchesUDPDPort ls dport then Some (ls, dn) else None | None \<Rightarrow> None) of
               Some (ls, dn) \<Rightarrow> (w, Some ls, True, True, dn, False)
             | None \<Rightarrow> (case MatchUDPPort dport m of Some ps \<Rightarrow> (w, Some ps, False, False, [], True)
                        | None \<Rightarrow> (w, None, False, False, [], False)))"

definition udp_named ::
  "env \<Rightarrow> Config \<Rightarrow> pktInfo \<Rightarrow> uint16 \<Rightarrow> bytes \<Rightarrow> SetConfig option \<Rightarrow> worker \<Rightarrow> worker \<times> SetConfig option \<times> bool \<times> effect list" where
  "udp_named e cfg pkt dport host set0 w =
     (if host = [] then (w, set0, False, [])
      else case MatchSNIWithSourceTLS (rx e) (wk_matcher w) host (pk_srcMac pkt) 0x0304 (pk_ver pkt) of
        None \<Rightarrow> (w, set0, False, [])
      | Some s \<Rightarrow>
          if MatchesUDPDPort s dport
          then (w\<lparr>wk_matcher := LearnIPToDomain (now e 2) (Some (pk_dst pkt)) host (Some s) (wk_matcher w)\<rparr>, Some s, True,
                registerLearnedRoute e cfg s (pk_dst pkt))
          else (w, set0, False, []))"

definition udp_escalated :: "env \<Rightarrow> Config \<Rightarrow> bytes \<Rightarrow> SetConfig option \<Rightarrow> worker \<Rightarrow> worker \<times> SetConfig option" where
  "udp_escalated e cfg host set0 w =
     (if set0 = None \<or> host = [] then (w, set0)
      else case GetEscalation (now e 3) host (wk_dest w) of None \<Rightarrow> (w, set0)
        | Some (escId, hops) \<Rightarrow>
            (case GetSetById escId (Sets cfg) of
               Some escSet \<Rightarrow> if Enabled escSet then (w, Some escSet) else (set_dest (ClearEscalation host (wk_dest w)) w, set0)
             | None \<Rightarrow> (set_dest (ClearEscalation host (wk_dest w)) w, set0)))"

definition icmp_reject :: "pktInfo \<Rightarrow> effect list option" where
  "icmp_reject pkt =
     (if pk_ver pkt = 4 then do {
        r \<leftarrow> BuildICMPv4Reject (pk_raw pkt) (case To4 (pk_src pkt) of Some a \<Rightarrow> a | None \<Rightarrow> []) (case To4 (pk_dst pkt) of Some a \<Rightarrow> a | None \<Rightarrow> []);
        Some (case r of Some icmp \<Rightarrow> [ClientV4 icmp (pk_src pkt)] | None \<Rightarrow> []) }
      else do {
        r \<leftarrow> BuildICMPv6Reject (pk_raw pkt) (case To16 (pk_src pkt) of Some a \<Rightarrow> a | None \<Rightarrow> []) (case To16 (pk_dst pkt) of Some a \<Rightarrow> a | None \<Rightarrow> []);
        Some (case r of Some icmp \<Rightarrow> [ClientV6 icmp (pk_src pkt)] | None \<Rightarrow> []) })"

definition udp_act :: "env \<Rightarrow> pktInfo \<Rightarrow> bool \<Rightarrow> SetConfig \<Rightarrow> effect list option" where
  "udp_act e pkt direct st =
     (if routing_Enabled (Routing st) \<and> RoutingIsBlock (routing_Mode (Routing st)) then
        if direct then do {
          es \<leftarrow> (if NormalizeBlockAction (BlockAction (Routing st)) \<noteq> BlockActionDrop then icmp_reject pkt else Some []);
          Some (es @ [Drop]) }
        else Some [Accept]
      else if udp_Mode (UDP st) = ''drop'' then Some [Drop]
      else if udp_Mode (UDP st) = ''reject'' then
        if \<not> verdictOk e then Some [Drop] else do { es \<leftarrow> icmp_reject pkt; Some (Drop # es) }
      else if udp_Mode (UDP st) = ''fake'' then
        Some (Drop # (if verdictOk e then [InjectQUIC (pk_ver pkt) st (pk_raw pkt) (pk_dst pkt)] else []))
      else Some [Accept])"

definition udp_payload_packet ::
  "env \<Rightarrow> Config \<Rightarrow> pktInfo \<Rightarrow> uint16 \<Rightarrow> bytes \<Rightarrow> SetConfig option \<Rightarrow> worker \<Rightarrow> (worker \<times> effect list) option" where
  "udp_payload_packet e cfg pkt dport payload st w = do {
     let (w, set0, matchedIP, learned, dn, matchedPort) = udp_match e pkt dport st w;
     stun \<leftarrow> IsSTUNMessage payload;
     isVoiceMedia \<leftarrow> (if stun then Some True else IsVoicePacket payload);
     isQUIC \<leftarrow> LooksLikeQUIC payload;
     let host = (if dn = [] \<and> isQUIC then (case quicSNI e payload of Some h \<Rightarrow> h | None \<Rightarrow> []) else dn);
     let (w, set1, named, es) = udp_named e cfg pkt dport host set0 w;
     let matchedQUIC = (named \<or> (matchedIP \<or> matchedPort) \<and> (case set1 of Some s \<Rightarrow> FilterQUIC (UDP s) = ''all'' | None \<Rightarrow> False) \<and> isQUIC);
     let shouldHandle = ((matchedIP \<or> matchedQUIC \<or> matchedPort) \<and>
       \<not> (isVoiceMedia \<and> (case set1 of Some s \<Rightarrow> FilterSTUN (UDP s) | None \<Rightarrow> False)));
     let (w, set2) = (if shouldHandle then udp_escalated e cfg host set1 w else (w, set1));
     case set2 of
       None \<Rightarrow> Some (w, es @ [Accept])
     | Some s \<Rightarrow>
         if isVoiceMedia \<and> FilterSTUN (UDP s) \<or> \<not> shouldHandle then Some (w, es @ [Accept])
         else do { fs \<leftarrow> udp_act e pkt (matchedQUIC \<or> matchedIP \<and> \<not> learned) s; Some (w, es @ fs) } }"

definition handleUDPPacket :: "env \<Rightarrow> Config \<Rightarrow> pktInfo \<Rightarrow> SetConfig option \<Rightarrow> worker \<Rightarrow> (worker \<times> effect list) option" where
  "handleUDPPacket e cfg pkt st w = do {
     udp \<leftarrow> slice_from (pk_raw pkt) (pk_ihl pkt);
     if length udp < 8 then Some (w, [Accept])
     else do {
       payload \<leftarrow> slice_from udp 8;
       sport \<leftarrow> be16 udp 0;
       dport \<leftarrow> be16 udp 2;
       if sport = 53 \<or> dport = 53
       then processDnsPacket e cfg (pk_ver pkt) sport dport payload (pk_raw pkt) (pk_srcMac pkt) w
       else if IsPrivateIP (pk_dst pkt) then Some (w, [Accept])
       else udp_payload_packet e cfg pkt dport payload st w } }"

section \<open>Dispatch\<close>

definition dispatch :: "assets \<Rightarrow> env \<Rightarrow> Config \<Rightarrow> bytes \<Rightarrow> worker \<Rightarrow> (worker \<times> effect list) option" where
  "dispatch A e cfg raw w = do {
     r \<leftarrow> parseIPHeaders e raw;
     case r of None \<Rightarrow> Some (w, [Accept])
     | Some pkt \<Rightarrow>
         let st = MatchIPWithSource (cn e) (wk_matcher w) (pk_dst pkt) (pk_srcMac pkt)
         in if pk_proto pkt = 6 \<and> length (pk_raw pkt) \<ge> pk_ihl pkt + 20 then handleTCPPacket A e cfg pkt st w
            else if pk_proto pkt = 17 \<and> length (pk_raw pkt) \<ge> pk_ihl pkt + 8 then handleUDPPacket e cfg pkt st w
            else Some (w, [Accept]) }"

text \<open>The name of an interface, kept once it was found\<close>
definition getIfaceName :: "(uint32 \<Rightarrow> bytes option) \<Rightarrow> uint32 \<Rightarrow> (uint32, bytes) gomap \<Rightarrow> (uint32, bytes) gomap \<times> bytes" where
  "getIfaceName byIndex i cache =
     (if i = 0 then (cache, [])
      else case gget cache i of Some n \<Rightarrow> (cache, n)
        | None \<Rightarrow> (case byIndex i of None \<Rightarrow> (cache, []) | Some n \<Rightarrow> (gput i n cache, n)))"

record Attribute =
  PacketID :: "uint32 option"
  at_Payload :: "bytes option"
  at_Mark :: "uint32 option"
  OutDev :: "uint32 option"
  InDev :: "uint32 option"

definition dev_index :: "Attribute \<Rightarrow> uint32" where
  "dev_index a = (case OutDev a of Some i \<Rightarrow> if i \<noteq> 0 then i else (case InDev a of Some j \<Rightarrow> j | None \<Rightarrow> 0)
     | None \<Rightarrow> (case InDev a of Some j \<Rightarrow> j | None \<Rightarrow> 0))"

definition matchesInterface ::
  "(uint32 \<Rightarrow> bytes option) \<Rightarrow> bytes list \<Rightarrow> Attribute \<Rightarrow> (uint32, bytes) gomap \<Rightarrow> (uint32, bytes) gomap \<times> bool" where
  "matchesInterface byIndex ifaces a cache =
     (if length ifaces = 0 then (cache, True)
      else if dev_index a = 0 then (cache, True)
      else let (cache, name) = getIfaceName byIndex (dev_index a) cache in (cache, name \<in> set ifaces))"

text \<open>\<open>done\<close>: the worker was told to stop. Then the packet gets no verdict.\<close>
definition handlePacket ::
  "assets \<Rightarrow> env \<Rightarrow> Config \<Rightarrow> (uint32 \<Rightarrow> bytes option) \<Rightarrow> bytes list \<Rightarrow> uint32 \<Rightarrow> bool \<Rightarrow> Attribute \<Rightarrow>
   (uint32, bytes) gomap \<times> worker \<Rightarrow> (((uint32, bytes) gomap \<times> worker) \<times> effect list) option" where
  "handlePacket A e cfg byIndex ifaces mark stopped a s =
     (case (PacketID a, at_Payload a) of
        (Some i, Some raw) \<Rightarrow>
          if length raw = 0 then Some (s, [Accept])
          else if at_Mark a = Some mark then Some (s, [Accept])
          else let (cache, ok) = matchesInterface byIndex ifaces a (fst s); s = (cache, snd s)
               in if \<not> ok then Some (s, [Accept])
                  else if stopped then Some (s, [])
                  else do { (w, es) \<leftarrow> dispatch A e cfg raw (snd s); Some ((fst s, w), es) }
      | (Some i, None) \<Rightarrow> Some (s, [Accept])
      | (None, _) \<Rightarrow> Some (s, []))"

text \<open>The verdict of a packet handled outside the queue: the last one given, or accept. Without a queue setting a verdict cannot fail.\<close>
definition ProcessPacket :: "assets \<Rightarrow> env \<Rightarrow> Config \<Rightarrow> bytes \<Rightarrow> worker \<Rightarrow> (worker \<times> effect) option" where
  "ProcessPacket A e cfg raw w =
     (if length raw = 0 then Some (w, Accept)
      else do { (w, es) \<leftarrow> dispatch A (e\<lparr>verdictOk := True\<rparr>) cfg raw w; Some (w, last (Accept # verdicts es)) })"

section \<open>The packets the handlers make\<close>

text \<open>A calculus for buffers of which only the length and the first byte matter\<close>
definition like :: "bytes \<Rightarrow> bytes \<Rightarrow> bool" where
  "like b c \<longleftrightarrow> length c = length b \<and> c ! 0 = b ! 0"

lemma wp_upd: "i < length b \<Longrightarrow> 0 < i \<Longrightarrow> (\<And>c. like b c \<Longrightarrow> P c) \<Longrightarrow> returns (upd b i v) P"
  by (simp add: returns_def upd_ok like_def)

lemma wp_put16: "i + 2 \<le> length b \<Longrightarrow> 0 < i \<Longrightarrow> (\<And>c. like b c \<Longrightarrow> P c) \<Longrightarrow> returns (put16 b i v) P"
  by (simp add: returns_def put16_ok like_def)

lemma wp_put32: "i + 4 \<le> length b \<Longrightarrow> 0 < i \<Longrightarrow> (\<And>c. like b c \<Longrightarrow> P c) \<Longrightarrow> returns (put32 b i v) P"
  by (simp add: returns_def put32_ok like_def)

lemma wp_copy_into: "i \<le> j \<Longrightarrow> j \<le> length b \<Longrightarrow> 0 < i \<Longrightarrow> (\<And>c. like b c \<Longrightarrow> P c) \<Longrightarrow> returns (copy_into b i j s) P"
  by (auto simp: returns_def copy_into_def like_def Let_def nth_append)

lemma wp_copy_from: "i \<le> length b \<Longrightarrow> 0 < i \<Longrightarrow> (\<And>c. like b c \<Longrightarrow> P c) \<Longrightarrow> returns (copy_from b i s) P"
  unfolding copy_from_def by (rule wp_copy_into) simp_all

lemma wp_gslice: "i \<le> j \<Longrightarrow> j \<le> length b \<Longrightarrow> (\<And>c. length c = j - i \<Longrightarrow> P c) \<Longrightarrow> returns (gslice b i j) P"
  by (simp add: returns_def gslice_ok)

lemma wp_slice_from: "i \<le> length b \<Longrightarrow> (\<And>c. length c = length b - i \<Longrightarrow> P c) \<Longrightarrow> returns (slice_from b i) P"
  by (simp add: returns_def slice_from_ok)

lemma wp_sum_all: "(\<And>v. P v) \<Longrightarrow> returns (sum16_loop b 0 (length b - 1) s) P"
  by (simp add: returns_def sum16_loop_segment)

lemma wp_sum_16: "16 \<le> length b \<Longrightarrow> (\<And>v. P v) \<Longrightarrow> returns (sum16_loop b 0 16 s) P"
  by (simp add: returns_def sum16_loop_even)

lemma wp_fix20: "20 \<le> length p \<Longrightarrow> p ! 0 = 0x45 \<Longrightarrow> (\<And>c. like p c \<Longrightarrow> P c) \<Longrightarrow> returns (on_prefix FixIPv4Checksum p 20) P"
  using on_prefix_FixIPv4Checksum [of p] by (auto simp: returns_def ip4_wf_def ihl4_def hdr4_def like_def)

lemmas wp_buf = returns_bind returns_let wp_upd wp_put16 wp_put32 wp_copy_into wp_copy_from wp_gslice wp_slice_from wp_sum_all wp_sum_16 wp_fix20 returns_Some

lemma wp_upd0: "0 < length b \<Longrightarrow> (\<And>c. length c = length b \<Longrightarrow> c ! 0 = v \<Longrightarrow> P c) \<Longrightarrow> returns (upd b 0 v) P"
  by (simp add: returns_def upd_ok)

lemma returns_ex: "returns r (\<lambda>_. True) \<Longrightarrow> \<exists>x. r = Some x"
  by (auto simp: returns_def)

lemma BuildICMPv6Reject_total: "\<exists>r. BuildICMPv6Reject p c s = Some r"
proof (cases "length p < 40 \<or> length c < 16 \<or> length s < 16 \<or> drop_bit 4 (p ! 0) \<noteq> 6")
  case False
  then have i: "idx p 0 = Some (p ! 0)" "40 \<le> length p" "16 \<le> length c" "16 \<le> length s" "drop_bit 4 (p ! 0) = 6"
    by (auto intro!: idx_ok)
  show ?thesis
    unfolding BuildICMPv6Reject_def Let_def i(1) bind.bind_lunit
    using i(2-)
    apply (simp only: not_less [symmetric] if_False simp_thms)
    apply (rule returns_ex, rule returns_bind, rule wp_upd0, simp)
    apply (intro wp_buf TrueI)
    apply (auto simp: like_def)
    done
next
  case True
  then show ?thesis by (auto simp: BuildICMPv6Reject_def idx_def)
qed

lemma BuildICMPv4Reject_total: "\<exists>r. BuildICMPv4Reject p c s = Some r"
proof (cases "length p < 20 \<or> length c < 4 \<or> length s < 4 \<or> drop_bit 4 (p ! 0) \<noteq> 4 \<or> unat (p ! 0 AND 0x0F) * 4 < 20 \<or> unat (p ! 0 AND 0x0F) * 4 > length p")
  case False
  then have i: "idx p 0 = Some (p ! 0)" "20 \<le> length p" "4 \<le> length c" "4 \<le> length s" "drop_bit 4 (p ! 0) = 4"
    "20 \<le> unat (p ! 0 AND 0x0F) * 4" "unat (p ! 0 AND 0x0F) * 4 \<le> length p"
    by (auto intro!: idx_ok)
  define h where "h = unat (p ! 0 AND 0x0F) * 4"
  show ?thesis
    unfolding BuildICMPv4Reject_def Let_def i(1) bind.bind_lunit h_def [symmetric]
    using i(2-) [folded h_def]
    apply (simp only: not_less [symmetric] if_False simp_thms)
    apply (rule returns_ex, rule returns_bind, rule wp_upd0, simp)
    apply (intro wp_buf TrueI)
    apply (auto simp: like_def)
    done
next
  case True
  then show ?thesis by (auto simp: BuildICMPv4Reject_def idx_def Let_def)
qed
section \<open>Fakes of a SYN\<close>

lemma syn_strategy_keeps:
  assumes "h + 20 \<le> length p" "20 \<le> h" "h = (if six then 40 else ihl4 p)"
  shows "\<exists>q. syn_strategy f h six p = Some q \<and> length q = length p \<and> (\<forall>j < h. q ! j = p ! j)"
proof -
  have p: "p \<noteq> []" using assms(1,2) by auto
  have w: "\<exists>q. put32 p (h + 4) v = Some q \<and> length q = length p \<and> (\<forall>j < h. q ! j = p ! j)" for v
    using assms(1) by (simp add: put32_ok)
  have b: "\<exists>s. be32 p (h + 4) = Some s" using assms(1) by (simp add: be32_ok)
  obtain q b where t: "DecreaseTCPTimestamp p (if TimestampDecrease f = 0 then 600000 else TimestampDecrease f) six = Some (q, b)"
      "length q = length p" "\<forall>j < h. q ! j = p ! j"
    using DecreaseTCPTimestamp_spec [OF p assms(3), of "if TimestampDecrease f = 0 then 600000 else TimestampDecrease f"]
    by (auto split: if_splits)
  show ?thesis using w b t by (auto simp: syn_strategy_def Let_def)
qed

lemma ihl4_cong: "q ! 0 = p ! 0 \<Longrightarrow> ihl4 q = ihl4 p"
  by (simp add: ihl4_def)

lemma tot4_cong: "q ! 2 = p ! 2 \<Longrightarrow> q ! 3 = p ! 3 \<Longrightarrow> tot4 q = tot4 p"
  by (simp add: tot4_def)

lemma plen6_cong: "q ! 4 = p ! 4 \<Longrightarrow> q ! 5 = p ! 5 \<Longrightarrow> plen6 q = plen6 p"
  by (simp add: plen6_def)

lemma corrupt_total: "h + 18 \<le> length p \<Longrightarrow> \<exists>q. corruptTCPChecksum p h = Some q \<and> length q = length p"
  by (simp add: corruptTCPChecksum_def idx_ok upd_ok)

text \<open>What is sent is a packet of the raw socket.\<close>
definition one_send :: "effect list option \<Rightarrow> bool" where
  "one_send r \<longleftrightarrow> (\<exists>es. r = Some es \<and> verdicts es = [])"

lemma dynamicTTL_total: "(if six then 8 else 9) \<le> length p \<Longrightarrow> \<exists>t. dynamicTTL p six b = Some t"
  by (auto simp: dynamicTTL_def idx_ok Let_def)

lemma sendFakeSyn_total:
  assumes "20 \<le> ihl4 raw" "20 \<le> t" "t \<le> 60" "ihl4 raw + t \<le> length raw" "length (syn_payload st pay) \<le> 65000"
  shows "one_send (sendFakeSyn st pay raw (ihl4 raw) t)"
proof -
  let ?h = "ihl4 raw" and ?y = "syn_payload st pay"
  define p where "p = take (?h + t) raw @ ?y"
  define p1 where "p1 = set_field p 2 (of_nat (length p))"
  have l: "?h + 20 \<le> length p" "p ! 0 = raw ! 0" using assms by (auto simp: p_def nth_append)
  have l1: "length p1 = length p" "p1 ! 0 = p ! 0" using l assms(1) by (simp_all add: p1_def)
  obtain ttl where ttl: "dynamicTTL raw False (syn_ttl st) = Some ttl" using dynamicTTL_total [of False raw] assms by auto
  define p2 where "p2 = p1[8 := ttl]"
  have l2: "length p2 = length p" "p2 ! 0 = p ! 0" by (simp_all add: p2_def l1)
  have h2: "?h = ihl4 p2" using l l2 by (simp add: ihl4_def)
  obtain q where q: "syn_strategy (Faking st) ?h False p2 = Some q" "length q = length p" "\<forall>j < ?h. q ! j = p2 ! j"
    using syn_strategy_keeps [of ?h p2 False "Faking st"] l l2 assms(1) h2 by auto
  have hq: "ihl4 q = ?h" using q(3) l2 l assms(1) by (simp add: ihl4_def)
  have "length p < 65536" using assms(3-) hdr4_le [of "raw ! 0"] by (simp add: p_def ihl4_def)
  then have "tot4 p1 = length p" using l assms(1) by (simp add: p1_def tot4_set)
  then have tq: "tot4 q = length q" using q(2,3) assms(1) tot4_cong [of q p1] by (simp add: p2_def)
  obtain c d where c: "on_prefix FixIPv4Checksum q (ihl4 q) = Some (set_field q 10 c)"
      "FixTCPChecksum (set_field q 10 c) = Some (set_field (set_field q 10 c) (ihl4 q + 16) d)"
    using fix_both4 [of q] hq tq q(2) l(1) assms(1) by auto
  let ?r = "set_field (set_field q 10 c) (?h + 16) d"
  obtain r where r: "corruptTCPChecksum ?r ?h = Some r" "length r = length p" using corrupt_total [of ?h ?r] q(2) l(1) by auto
  have f: "fake_frame raw (?h + t) ?y = Some p" "put16 p 2 (of_nat (length p)) = Some p1" "upd p1 8 ttl = Some p2"
    using fake_frame_ok [OF assms(4)] l l1 assms(1) by (simp_all add: p_def [symmetric] p1_def [symmetric] p2_def put16_set_field upd_ok)
  show ?thesis
    using c [unfolded hq] r l(1) assms(1)
    by (simp add: sendFakeSyn_def f ttl q(1) one_send_def gslice_ok verdicts_Cons)
qed

lemma sendFakeSynV6_total:
  assumes "20 \<le> t" "t \<le> 60" "40 + t \<le> length raw" "length (syn_payload st pay) \<le> 65000"
  shows "one_send (sendFakeSynV6 st pay raw 40 t)"
proof -
  let ?y = "syn_payload st pay"
  define p where "p = take (40 + t) raw @ ?y"
  define p1 where "p1 = set_field p 4 (of_nat (t + length ?y))"
  have l: "60 \<le> length p" "length p = 40 + (t + length ?y)" using assms by (auto simp: p_def)
  have l1: "length p1 = length p" by (simp add: p1_def)
  obtain ttl where ttl: "dynamicTTL raw True (syn_ttl st) = Some ttl" using dynamicTTL_total [of True raw] assms by auto
  define p2 where "p2 = p1[7 := ttl]"
  obtain q where q: "syn_strategy (Faking st) 40 True p2 = Some q" "length q = length p" "\<forall>j < 40. q ! j = p2 ! j"
    using syn_strategy_keeps [of 40 p2 True "Faking st"] l(1) by (auto simp: p2_def l1)
  have "t + length ?y < 65536" using assms by simp
  then have "plen6 p1 = t + length ?y" unfolding p1_def using plen6_set [of p "t + length ?y"] l(1) by linarith
  then have tq: "40 + plen6 q = length q" using q(2,3) l(2) plen6_cong [of q p1] by (simp add: p2_def)
  obtain d where d: "FixTCPChecksumV6 q = Some (set_field q 56 d)" using fix_tcp6 [OF _ tq] q(2) l(1) by auto
  obtain r where r: "corruptTCPChecksum (set_field q 56 d) 40 = Some r" "length r = length p"
    using corrupt_total [of 40 "set_field q 56 d"] q(2) l(1) by auto
  have w: "put16 p 4 (of_nat (t + length ?y)) = Some p1" unfolding p1_def by (rule put16_set_field) (use l(1) in simp)
  have f: "fake_frame raw (40 + t) ?y = Some p" "upd p1 7 ttl = Some p2"
    using fake_frame_ok [OF assms(3)] l(1) l1 by (simp_all add: p_def [symmetric] p2_def upd_ok)
  show ?thesis
    using r l(1) d unfolding sendFakeSynV6_def f w ttl bind.bind_lunit
    by (simp add: q(1) one_send_def gslice_ok verdicts_Cons)
qed

lemma sendFakeSynWithMD5_total:
  assumes "length rndm = 16" "20 \<le> ihl4 raw" "20 \<le> thl_at (ihl4 raw) raw" "ihl4 raw + thl_at (ihl4 raw) raw \<le> length raw"
    and "length raw < 65500" "tot4 raw = length raw"
  shows "one_send (sendFakeSynWithMD5 rndm st raw (ihl4 raw) dst)"
proof -
  let ?h = "ihl4 raw"
  obtain ttl where ttl: "dynamicTTL raw False (TTL (Faking st)) = Some ttl" using dynamicTTL_total [of False raw] assms by auto
  define p where "p = raw[8 := ttl]"
  obtain v q where q: "be32 p (?h + 4) = Some v" "put32 p (?h + 4) (v - 10000) = Some q" "length q = length raw"
      "q ! 0 = raw ! 0" "q ! 2 = raw ! 2" "q ! 3 = raw ! 3" "q ! (?h + 12) = raw ! (?h + 12)"
    using assms(2-4) by (auto simp: be32_ok put32_ok p_def)
  have hq: "ihl4 q = ?h" using q(4) by (rule ihl4_cong)
  have tq: "tot4 q = length q" using tot4_cong [of q raw] q(3,5,6) assms(6) by simp
  obtain c d where c: "on_prefix FixIPv4Checksum q (ihl4 q) = Some (set_field q 10 c)"
      "FixTCPChecksum (set_field q 10 c) = Some (set_field (set_field q 10 c) (ihl4 q + 16) d)"
    using fix_both4 [of q] hq tq q(3) assms(2-4) by auto
  let ?r = "set_field (set_field q 10 c) (?h + 16) d"
  have r: "ihl4 ?r = ?h" "thl_at ?h ?r = thl_at ?h raw" using hq q(7) assms(2) by (simp_all add: thl_at_def ihl4_def)
  obtain z where z: "AddTCPMD5Option rndm ?r False = Some z" using MD5_inserts [of rndm ?h False ?r] assms r q(3) by auto
  show ?thesis
    using assms(2,4) c [unfolded hq] z
    by (simp add: sendFakeSynWithMD5_def ttl p_def [symmetric] upd_ok q(1,2) one_send_def verdicts_Cons)
qed

lemma sendFakeSynWithMD5V6_total:
  assumes "length rndm = 16" "20 \<le> thl_at 40 raw" "40 + thl_at 40 raw \<le> length raw" "length raw < 65500"
  shows "one_send (sendFakeSynWithMD5V6 rndm st raw dst)"
proof -
  obtain ttl where ttl: "dynamicTTL raw True (TTL (Faking st)) = Some ttl" using dynamicTTL_total [of True raw] assms by auto
  define p where "p = raw[7 := ttl]"
  obtain v q where q: "be32 p (40 + 4) = Some v" "put32 p (40 + 4) (v - 10000) = Some q" "length q = length raw" "q ! 52 = raw ! 52"
    using assms(2,3) by (auto simp: be32_ok put32_ok p_def)
  have r: "thl_at 40 q = thl_at 40 raw" using q(4) by (simp add: thl_at_def)
  obtain z where z: "AddTCPMD5Option rndm q True = Some z" using MD5_inserts [of rndm 40 True q] assms r q(3) by auto
  show ?thesis
    using assms(2,3) z unfolding sendFakeSynWithMD5V6_def ttl bind.bind_lunit
    by (simp add: p_def [symmetric] upd_ok q(1,2) [simplified] one_send_def verdicts_Cons)
qed

section \<open>The headers are read safely\<close>

text \<open>The loop ends behind the last header it reads, and never at an extension header or fragment.\<close>
lemma ext6_loop_total:
  "\<exists>r. ext6_loop raw nh off = Some r \<and> (case r of None \<Rightarrow> True | Some (p, o') \<Rightarrow> off \<le> o' \<and> p \<notin> {0, 43, 60, 44})"
proof (induction raw nh off rule: ext6_loop.induct)
  case (1 raw nh off)
  show ?case
  proof (cases "(nh = 0 \<or> nh = 43 \<or> nh = 60) \<and> off + 2 \<le> length raw")
    case True
    then have i: "idx raw off = Some (raw ! off)" "idx raw (off + 1) = Some (raw ! (off + 1))" by (auto intro: idx_ok)
    obtain r where r: "ext6_loop raw (raw ! off) (off + (unat (raw ! (off + 1)) * 8 + 8)) = Some r"
        "case r of None \<Rightarrow> True | Some (p, o') \<Rightarrow> off + (unat (raw ! (off + 1)) * 8 + 8) \<le> o' \<and> p \<notin> {0, 43, 60, 44}"
      using 1 [OF _ _ i] True by auto
    have "ext6_loop raw nh off = Some r" using True r(1) by (subst ext6_loop.simps) (auto simp: i [simplified])
    then show ?thesis using r(2) by (auto split: option.splits)
  next
    case False
    then show ?thesis by (subst (1) ext6_loop.simps) auto
  qed
qed

text \<open>The address of a device is an IPv4 address.\<close>
definition resolver_ok :: "env \<Rightarrow> bool" where
  "resolver_ok e \<longleftrightarrow> (case srcResolver e of None \<Rightarrow> True
     | Some f \<Rightarrow> \<forall>proto src sport dst dport lan. f proto src sport dst dport = Some lan \<longrightarrow> To4 lan \<noteq> None)"

lemma resolve_src_total:
  "\<exists>s. resolve_src e v proto ihl raw src dst = Some s \<and> (resolver_ok e \<and> v = 4 \<and> To4 src \<noteq> None \<longrightarrow> To4 s \<noteq> None) \<and> (v \<noteq> 4 \<longrightarrow> s = src)"
  by (auto simp: resolve_src_def resolver_ok_def be16_ok split: option.splits)

text \<open>What the handlers may rely on\<close>
definition pkt_typed :: "pktInfo \<Rightarrow> bool" where
  "pkt_typed pkt \<longleftrightarrow> pk_raw pkt \<noteq> [] \<and> pk_ver pkt = drop_bit 4 (pk_raw pkt ! 0) \<and>
     (pk_ver pkt = 4 \<and> pk_ihl pkt = ihl4 (pk_raw pkt) \<and> 20 \<le> length (pk_raw pkt) \<and> pk_ihl pkt \<le> length (pk_raw pkt) \<and> pk_proto pkt = pk_raw pkt ! 9 \<and>
        To4 (pk_src pkt) \<noteq> None \<and> pk_dst pkt = take 4 (drop 16 (pk_raw pkt)) \<or>
      pk_ver pkt = 6 \<and> 40 \<le> pk_ihl pkt \<and> 40 \<le> length (pk_raw pkt) \<and> pk_proto pkt \<notin> {0, 43, 60, 44} \<and>
        pk_src pkt = take 16 (drop 8 (pk_raw pkt)) \<and> pk_dst pkt = take 16 (drop 24 (pk_raw pkt))) \<and>
     \<not> IsLoopback (pk_dst pkt) \<and> pk_srcStr pkt = IP_String (pk_src pkt) \<and> pk_dstStr pkt = IP_String (pk_dst pkt)"

lemma ip_fields_total:
  assumes "raw \<noteq> []"
  shows "\<exists>r. ip_fields raw = Some r \<and> (case r of None \<Rightarrow> True | Some (proto, src, dst, ihl) \<Rightarrow>
    drop_bit 4 (raw ! 0) = 4 \<and> ihl = ihl4 raw \<and> 20 \<le> length raw \<and> ihl \<le> length raw \<and> proto = raw ! 9 \<and>
      src = take 4 (drop 12 raw) \<and> dst = take 4 (drop 16 raw) \<or>
    drop_bit 4 (raw ! 0) = 6 \<and> 40 \<le> ihl \<and> 40 \<le> length raw \<and> ext6_loop raw (raw ! 6) 40 = Some (Some (proto, ihl)) \<and> proto \<notin> {0, 43, 60, 44} \<and>
      src = take 16 (drop 8 raw) \<and> dst = take 16 (drop 24 raw))"
proof -
  obtain r where r: "ext6_loop raw (raw ! 6) 40 = Some r" "case r of None \<Rightarrow> True | Some (p, o') \<Rightarrow> 40 \<le> o' \<and> p \<notin> {0, 43, 60, 44}"
    using ext6_loop_total by blast
  have i: "idx raw 0 = Some (raw ! 0)" using assms by (simp add: idx_0)
  consider "drop_bit 4 (raw ! 0) = 4" | "drop_bit 4 (raw ! 0) = 6" | "drop_bit 4 (raw ! 0) \<noteq> 4" "drop_bit 4 (raw ! 0) \<noteq> 6" by blast
  then show ?thesis
  proof cases
    case 1
    then show ?thesis by (auto simp: ip_fields_def i Let_def be16_ok idx_ok gslice_ok ihl4_def hdr4_eq)
  next
    case 2
    then show ?thesis using r by (auto simp: ip_fields_def i idx_ok gslice_ok split: option.splits)
  next
    case 3
    then show ?thesis by (simp add: ip_fields_def i)
  qed
qed

lemma To4_four: "length a = 4 \<Longrightarrow> To4 a = Some a"
  by (simp add: To4_def)

lemma parse_typed:
  assumes "raw \<noteq> []" "resolver_ok e"
  shows "\<exists>r. parseIPHeaders e raw = Some r \<and> (case r of None \<Rightarrow> True | Some pkt \<Rightarrow> pkt_typed pkt \<and> pk_raw pkt = raw \<and>
    (pk_ver pkt = 6 \<longrightarrow> ext6_loop raw (raw ! 6) 40 = Some (Some (pk_proto pkt, pk_ihl pkt))))"
proof -
  obtain r where r: "ip_fields raw = Some r" using ip_fields_total [OF assms(1)] by blast
  have i: "idx raw 0 = Some (raw ! 0)" using assms by (simp add: idx_0)
  show ?thesis
  proof (cases r)
    case (Some x)
    obtain proto src dst ihl where x: "x = (proto, src, dst, ihl)" by (cases x)
    obtain s where s: "resolve_src e (drop_bit 4 (raw ! 0)) proto ihl raw src dst = Some s"
        "resolver_ok e \<and> drop_bit 4 (raw ! 0) = 4 \<and> To4 src \<noteq> None \<longrightarrow> To4 s \<noteq> None" "drop_bit 4 (raw ! 0) \<noteq> 4 \<longrightarrow> s = src"
      using resolve_src_total by blast
    show ?thesis
      using ip_fields_total [OF assms(1)] s assms
      by (auto simp: parseIPHeaders_def i r Some x pkt_typed_def To4_four)
  qed (simp add: parseIPHeaders_def i r)
qed

section \<open>Every packet gets one verdict\<close>

text \<open>The packets the theorem speaks of: the lengths of the IP header agree with the packet, as the IP layer of the kernel checks; over IPv6
  there are no extension headers; and a TCP header states at least its 20 bytes. The kernel also delivers packets outside this class: a SYN
  with a smaller data offset makes \<open>sendFakeSyn\<close> panic, and behind extension headers some routines read at fixed offsets.\<close>
definition regular_packet :: "bytes \<Rightarrow> bool" where
  "regular_packet raw \<longleftrightarrow> raw \<noteq> [] \<and> length raw < 65500 \<and>
     (drop_bit 4 (raw ! 0) = 4 \<longrightarrow> 20 \<le> ihl4 raw \<and> tot4 raw = length raw \<and> (raw ! 9 = 6 \<longrightarrow> 20 \<le> thl_at (ihl4 raw) raw)) \<and>
     (drop_bit 4 (raw ! 0) = 6 \<longrightarrow> raw ! 6 \<notin> {0, 43, 60} \<and> (raw ! 6 = 6 \<longrightarrow> 20 \<le> thl_at 40 raw))"

definition pkt_ok :: "pktInfo \<Rightarrow> bool" where
  "pkt_ok pkt \<longleftrightarrow> length (pk_raw pkt) < 65500 \<and> pk_ihl pkt \<le> length (pk_raw pkt) \<and> (pk_proto pkt = 6 \<longrightarrow> 20 \<le> thl_at (pk_ihl pkt) (pk_raw pkt)) \<and>
     (pk_ver pkt = 4 \<and> pk_ihl pkt = ihl4 (pk_raw pkt) \<and> 20 \<le> pk_ihl pkt \<and> tot4 (pk_raw pkt) = length (pk_raw pkt) \<and>
        To4 (pk_src pkt) \<noteq> None \<and> length (pk_dst pkt) = 4 \<or>
      pk_ver pkt = 6 \<and> pk_ihl pkt = 40 \<and> length (pk_src pkt) = 16 \<and> length (pk_dst pkt) = 16)"

lemma parse_ok:
  assumes "regular_packet raw" "resolver_ok e"
  shows "\<exists>r. parseIPHeaders e raw = Some r \<and> (case r of None \<Rightarrow> True | Some pkt \<Rightarrow> pkt_ok pkt \<and> pk_raw pkt = raw)"
proof -
  have raw: "raw \<noteq> []" using assms(1) by (simp add: regular_packet_def)
  have e: "drop_bit 4 (raw ! 0) = 6 \<Longrightarrow> ext6_loop raw (raw ! 6) 40 = Some (if raw ! 6 = 44 then None else Some (raw ! 6, 40))"
    using assms(1) by (subst ext6_loop.simps) (auto simp: regular_packet_def)
  obtain r where r: "parseIPHeaders e raw = Some r" "case r of None \<Rightarrow> True | Some pkt \<Rightarrow> pkt_typed pkt \<and> pk_raw pkt = raw \<and>
      (pk_ver pkt = 6 \<longrightarrow> ext6_loop raw (raw ! 6) 40 = Some (Some (pk_proto pkt, pk_ihl pkt)))"
    using parse_typed [OF raw assms(2)] by blast
  show ?thesis
  proof (cases r)
    case (Some pkt)
    have k: "length raw < 65500" "drop_bit 4 (raw ! 0) = 4 \<Longrightarrow> 20 \<le> ihl4 raw \<and> tot4 raw = length raw \<and> (raw ! 9 = 6 \<longrightarrow> 20 \<le> thl_at (ihl4 raw) raw)"
        "drop_bit 4 (raw ! 0) = 6 \<Longrightarrow> raw ! 6 = 6 \<Longrightarrow> 20 \<le> thl_at 40 raw"
      using assms(1) by (auto simp: regular_packet_def)
    have "pkt_typed pkt" "pk_raw pkt = raw" using r(2) Some by simp_all
    then have "pkt_ok pkt"
      using k r(2) e Some by (auto simp: pkt_ok_def pkt_typed_def split: if_splits)
    then show ?thesis using r Some by auto
  qed (use r in simp)
qed

lemma rst_to_client_send:
  assumes "pkt_ok pkt" "pk_ihl pkt + 20 \<le> length (pk_raw pkt)"
  shows "one_send (rst_to_client e pkt)"
proof (cases "pk_ver pkt = 4")
  case True
  then obtain c where c: "To4 (pk_src pkt) = Some c" "length (pk_dst pkt) = 4" using assms(1) by (auto simp: pkt_ok_def)
  then show ?thesis
    using rst_client4 [OF assms(2) c(1) To4_four [OF c(2)], of e] True by (auto simp: rst_to_client_def one_send_def verdicts_Cons)
next
  case False
  then have "pk_ihl pkt = 40" "length (pk_src pkt) = 16" "length (pk_dst pkt) = 16" using assms(1) by (auto simp: pkt_ok_def)
  then show ?thesis
    using rst_client6 [of "pk_raw pkt" "pk_src pkt" "pk_dst pkt"] assms(2) False by (auto simp: rst_to_client_def one_send_def verdicts_Cons)
qed

text \<open>A TCP packet that reached the handler\<close>
definition tcp_ok :: "pktInfo \<Rightarrow> bool" where
  "tcp_ok pkt \<longleftrightarrow> pkt_ok pkt \<and> 20 \<le> thl_at (pk_ihl pkt) (pk_raw pkt) \<and> pk_ihl pkt + thl_at (pk_ihl pkt) (pk_raw pkt) \<le> length (pk_raw pkt)"

lemma tcp_ok_rst: "tcp_ok pkt \<Longrightarrow> \<exists>es. rst_to_client e pkt = Some es \<and> verdicts es = []"
  using rst_to_client_send by (fastforce simp: tcp_ok_def one_send_def)

definition one_effect :: "effect list option \<Rightarrow> bool" where
  "one_effect r \<longleftrightarrow> (\<exists>es. r = Some es \<and> length (verdicts es) = 1)"

lemma strip_total:
  assumes "tcp_ok pkt"
  shows "\<exists>q. (if pk_ver pkt = 4 then StripSACKFromTCP (pk_raw pkt) else StripSACKFromTCPv6 (pk_raw pkt)) = Some q"
proof (cases "thl_at (pk_ihl pkt) (pk_raw pkt) = 20")
  case True
  have "pk_raw pkt \<noteq> []" "pk_ihl pkt + 12 < length (pk_raw pkt)" using assms by (auto simp: tcp_ok_def)
  then show ?thesis
    using True assms
    by (auto simp: tcp_ok_def pkt_ok_def StripSACKFromTCP_def StripSACKFromTCPv6_def thl_at_def idx_ok idx_0 ihl4_def)
next
  case False
  then have t: "20 < thl_at (pk_ihl pkt) (pk_raw pkt)" using assms by (simp add: tcp_ok_def)
  show ?thesis
    using StripSACK4_strips [of "pk_raw pkt"] StripSACKFromTCPv6_correct [of "pk_raw pkt"] assms t
    by (auto simp: tcp_ok_def pkt_ok_def)
qed

lemma tcp_handover_one: "tcp_ok pkt \<Longrightarrow> one_effect (tcp_handover e st pkt)"
  using strip_total [of pkt] by (auto simp: tcp_handover_def one_effect_def verdicts_Cons)

text \<open>A stage gives the verdict if it ends the handler, and no other.\<close>
definition staged :: "(worker \<times> effect list \<times> bool) option \<Rightarrow> bool" where
  "staged r \<longleftrightarrow> (\<exists>w es stop. r = Some (w, es, stop) \<and> verdicts es = (if stop then [Drop] else []))"

lemma staged_Some [simp]: "staged (Some (w, es, stop)) \<longleftrightarrow> verdicts es = (if stop then [Drop] else [])"
  by (auto simp: staged_def)

lemma tcp_detect_staged:
  assumes "tcp_ok pkt"
  shows "staged (tcp_detect e cfg pkt connKey dport st host w)"
proof -
  obtain d cnt first where d: "RecordClientHello (now e 10) (now e 11) connKey host (wk_dest w) = (d, cnt, first)" by (metis prod_cases3)
  obtain es where es: "rst_to_client e pkt = Some es" "verdicts es = []" using tcp_ok_rst [OF assms] by blast
  obtain w2 esc where n: "tcp_next_set e cfg st host (set_dest d w) = (w2, esc)" by force
  show ?thesis
    by (cases esc) (simp_all add: tcp_detect_def d n es verdicts_Cons Let_def)
qed

lemma tcp_act_one:
  assumes "tcp_ok pkt"
  shows "one_verdict (tcp_act e cfg pkt connKey dport st v rt w)"
proof -
  let ?c = "tv_hello v \<and> \<not> rt \<and> (ibd_Enabled (IPBlockDetect (TCP st)) \<or> To (Escalate st) \<noteq> []) \<and>
    tv_host v \<noteq> [] \<and> IsTCPPort (tcpPortMap cfg) dport"
  have "staged (if ?c then tcp_detect e cfg pkt connKey dport st (tv_host v) w else Some (w, [], False))"
    using tcp_detect_staged [OF assms] by simp
  then obtain w1 es stop where 1: "(if ?c then tcp_detect e cfg pkt connKey dport st (tv_host v) w else Some (w, [], False)) = Some (w1, es, stop)"
      "verdicts es = (if stop then [Drop] else [])"
    unfolding staged_def by blast
  obtain fs where 2: "tcp_handover e st pkt = Some fs" "length (verdicts fs) = 1" using tcp_handover_one [OF assms] by (auto simp: one_effect_def)
  show ?thesis
    unfolding tcp_act_def 1(1) by (simp add: one_verdict_def 1(2) 2 verdicts_Cons)
qed

lemma tcp_routed_one:
  assumes "tcp_ok pkt"
  shows "one_verdict (tcp_routed e cfg pkt connKey dport st' learned st v rt w)"
proof -
  obtain es where es: "rst_to_client e pkt = Some es" "verdicts es = []" using tcp_ok_rst [OF assms] by blast
  show ?thesis using tcp_act_one [OF assms] by (auto simp: tcp_routed_def es one_verdict_def verdicts_Cons)
qed

lemma tcp_hello_total:
  "\<exists>w' v es. tcp_hello e cfg pkt connKey dport payload learned set0 w = Some (w', v, es) \<and> verdicts es = []"
proof -
  obtain r where r: "ParseTLSClientHelloSNI payload = Some r" using hello_scan_safe [of payload] unfolding ParseTLSClientHelloSNI_def by blast
  obtain host tlsVersion where h: "(case r of Some hv \<Rightarrow> hv | None \<Rightarrow> ([], 0)) = (host, tlsVersion)" by force
  show ?thesis by (simp add: tcp_hello_def r h Let_def split: option.split)
qed

lemma tcp_payload_one:
  assumes "tcp_ok pkt"
  shows "one_verdict (tcp_payload e cfg pkt connKey dport payload st' learned rt set0 w)"
proof -
  obtain w1 v es where 1: "tcp_hello e cfg pkt connKey dport payload learned set0 w = Some (w1, v, es)" "verdicts es = []"
    using tcp_hello_total by blast
  obtain w2 set1 where 2: "tcp_escalated e cfg dport v w1 = (w2, set1)" by force
  show ?thesis
  proof (cases set1)
    case (Some st)
    obtain w3 hit where 3: "tcp_blocked e cfg pkt dport st v w2 = (w3, hit)" by force
    obtain fs where 4: "rst_to_client e pkt = Some fs" "verdicts fs = []" using tcp_ok_rst [OF assms] by blast
    show ?thesis
      using tcp_routed_one [OF assms, of e cfg connKey dport st' learned st v rt w3]
      by (auto simp: tcp_payload_def 1 2 Some 3 4 one_verdict_def verdicts_Cons)
  qed (simp add: tcp_payload_def 1 2 one_verdict_def verdicts_Cons)
qed

lemma tcp_syn_one:
  assumes "tcp_ok pkt" "length (syn_md5_rnd A) = 16" "SynFakeLen (TCP st) \<le> 65000" "datOff = thl_at (pk_ihl pkt) (pk_raw pkt)"
  shows "one_verdict (tcp_syn A e st pkt connKey datOff w)"
proof -
  have y: "length (syn_payload st (payload_of A st)) \<le> 65000" using assms(3) by (auto simp: syn_payload_def min_def)
  have d: "datOff \<le> 60" unfolding assms(4) thl_at_def by (rule doff_le)
  have a: "one_send (if pk_ver pkt = 4 then sendFakeSyn st (payload_of A st) (pk_raw pkt) (pk_ihl pkt) datOff
      else sendFakeSynV6 st (payload_of A st) (pk_raw pkt) (pk_ihl pkt) datOff)"
    using sendFakeSyn_total [OF _ _ d _ y, of "pk_raw pkt"] sendFakeSynV6_total [OF _ d _ y, of "pk_raw pkt"] assms(1,4)
    by (auto simp: tcp_ok_def pkt_ok_def)
  have b: "one_send (if pk_ver pkt = 4 then sendFakeSynWithMD5 (syn_md5_rnd A) st (pk_raw pkt) (pk_ihl pkt) (pk_dst pkt)
      else sendFakeSynWithMD5V6 (syn_md5_rnd A) st (pk_raw pkt) (pk_dst pkt))"
    using sendFakeSynWithMD5_total [OF assms(2), of "pk_raw pkt"] sendFakeSynWithMD5V6_total [OF assms(2), of "pk_raw pkt"] assms(1)
    by (auto simp: tcp_ok_def pkt_ok_def)
  show ?thesis using a b by (auto simp: tcp_syn_def one_send_def one_verdict_def send_raw_def verdicts_Cons Let_def)
qed

lemma one_verdict_if: "one_verdict (if c then a else b) \<longleftrightarrow> (if c then one_verdict a else one_verdict b)"
  by simp

lemma tcp_outgoing_one:
  assumes "tcp_ok pkt" "length (syn_md5_rnd A) = 16" "datOff = thl_at (pk_ihl pkt) (pk_raw pkt)"
    and "\<And>s. fst (snd (tcp_match e cfg pkt dport st w)) = Some s \<Longrightarrow> SynFakeLen (TCP s) \<le> 65000"
  shows "one_verdict (tcp_outgoing A e cfg pkt connKey datOff dport flags payload st w)"
proof -
  obtain w1 set0 st' learned where m: "tcp_match e cfg pkt dport st w = (w1, set0, st', learned)" by (metis prod_cases4)
  note p = tcp_payload_one [OF assms(1)]
  show ?thesis
  proof (cases set0)
    case None
    then show ?thesis using p by (simp add: tcp_outgoing_def m)
  next
    case (Some s)
    have y: "SynFakeLen (TCP s) \<le> 65000" using assms(4) m Some by simp
    have d: "one_verdict (Some (w1, tcp_duplicate e s pkt))" "one_verdict (Some (w1, [Drop]))"
      by (simp_all add: one_verdict_def tcp_duplicate_def send_raw_def verdicts_def)
    show ?thesis
      unfolding tcp_outgoing_def m Some
      by (simp add: Let_def p d tcp_syn_one [OF assms(1,2) y assms(3)])
  qed
qed

lemma handleTCPPacket_one:
  assumes "pkt_ok pkt" "pk_ihl pkt + 20 \<le> length (pk_raw pkt)" "pk_proto pkt = 6" "length (syn_md5_rnd A) = 16" "\<And>i. round_rnd e i 0 < 4"
    and "\<And>s. fst (snd (tcp_match e cfg pkt (port_at (pk_raw pkt) (pk_ihl pkt + 2)) st w)) = Some s \<Longrightarrow> SynFakeLen (TCP s) \<le> 65000"
  shows "one_verdict (handleTCPPacket A e cfg pkt st w)"
proof -
  let ?raw = "pk_raw pkt" and ?h = "pk_ihl pkt"
  let ?t = "thl_at ?h ?raw"
  have t20: "20 \<le> ?t" using assms(1,3) by (simp add: pkt_ok_def)
  have f: "slice_from ?raw ?h = Some (drop ?h ?raw)" "\<not> length (drop ?h ?raw) < 20" "idx (drop ?h ?raw) 12 = Some (?raw ! (?h + 12))"
      "be16 (drop ?h ?raw) 0 = Some (port_at ?raw ?h)" "be16 (drop ?h ?raw) 2 = Some (port_at ?raw (?h + 2))"
      "idx (drop ?h ?raw) 13 = Some (?raw ! (?h + 13))"
    using assms(2) be16_drop [of ?h 0 ?raw] be16_drop [of ?h 2 ?raw] by (simp_all add: slice_from_ok idx_ok)
  have t: "doff (?raw ! (?h + 12)) = ?t" by (simp add: thl_at_def)
  show ?thesis
  proof (cases "length ?raw < ?h + ?t")
    case True
    then show ?thesis by (auto simp: handleTCPPacket_def f t one_verdict_def verdicts_Cons Let_def)
  next
    case False
    then have ok: "tcp_ok pkt" and s: "slice_from (drop ?h ?raw) ?t = Some (drop ?t (drop ?h ?raw))" and l: "\<not> length (drop ?h ?raw) < ?t"
      using assms(1) t20 by (auto simp: tcp_ok_def slice_from_ok)
    have i: "tcp_input (pk_ver pkt) ?h ?raw" using assms(1,2) by (auto simp: tcp_input_def pkt_ok_def)
    have o: "one_verdict (tcp_outgoing A e cfg pkt k ?t (port_at ?raw (?h + 2)) fl pl st w)" for k fl pl
      by (rule tcp_outgoing_one [OF ok assms(4) refl assms(6)])
    have h: "one_verdict (HandleIncoming e cfg (pk_ver pkt) ?raw ?h src a p b q pl w)" for src a p b q pl
      using HandleIncoming_total [OF i assms(5)] by (simp add: one_verdict_def)
    show ?thesis
      unfolding handleTCPPacket_def f(1,3-) bind.bind_lunit if_not_P [OF f(2)] Let_def t if_not_P [OF l] s
      using h o by (simp only: one_verdict_if if_cancel simp_thms)
  qed
qed

lemma icmp_reject_send: "one_send (icmp_reject pkt)"
proof -
  obtain a where a: "BuildICMPv4Reject (pk_raw pkt) (case To4 (pk_src pkt) of Some a \<Rightarrow> a | None \<Rightarrow> []) (case To4 (pk_dst pkt) of Some a \<Rightarrow> a | None \<Rightarrow> []) = Some a"
    using BuildICMPv4Reject_total by blast
  obtain b where b: "BuildICMPv6Reject (pk_raw pkt) (case To16 (pk_src pkt) of Some a \<Rightarrow> a | None \<Rightarrow> []) (case To16 (pk_dst pkt) of Some a \<Rightarrow> a | None \<Rightarrow> []) = Some b"
    using BuildICMPv6Reject_total by blast
  show ?thesis by (simp add: icmp_reject_def a b one_send_def verdicts_Cons split: option.split)
qed

lemma udp_act_one: "one_effect (udp_act e pkt direct st)"
proof -
  obtain es where es: "icmp_reject pkt = Some es" "verdicts es = []" using icmp_reject_send [of pkt] by (auto simp: one_send_def)
  show ?thesis by (simp add: udp_act_def es one_effect_def verdicts_Cons)
qed

lemma udp_payload_packet_one: "one_verdict (udp_payload_packet e cfg pkt dport payload st w)"
proof -
  obtain w1 set0 mi l dn mp where m: "udp_match e pkt dport st w = (w1, set0, mi, l, dn, mp)" by (metis prod_cases6)
  obtain stun voice quic where c: "IsSTUNMessage payload = Some stun" "IsVoicePacket payload = Some voice" "LooksLikeQUIC payload = Some quic"
    using classifiers_total by meson
  let ?host = "if dn = [] \<and> quic then (case quicSNI e payload of Some h \<Rightarrow> h | None \<Rightarrow> []) else dn"
  obtain w2 set1 named es where n: "udp_named e cfg pkt dport ?host set0 w1 = (w2, set1, named, es)" by (metis prod_cases4)
  have v: "verdicts es = []" using n by (auto simp: udp_named_def split: if_splits option.splits)
  have a: "one_verdict (do { fs \<leftarrow> udp_act e pkt direct s; Some (w', es @ fs) })" "one_verdict (Some (w', es @ [Accept]))" for direct s w'
    using udp_act_one [of e pkt direct s] by (auto simp: one_effect_def one_verdict_def v verdicts_Cons)
  obtain voice' where v': "(if stun then Some True else IsVoicePacket payload) = Some voice'" using c by (cases stun) simp_all
  show ?thesis
    unfolding udp_payload_packet_def m c(1,3) v' bind.bind_lunit prod.case Let_def n
    by (simp add: a split: prod.split option.split)
qed

lemma handleUDPPacket_one:
  assumes "pkt_ok pkt" "pk_ihl pkt + 8 \<le> length (pk_raw pkt)"
  shows "one_verdict (handleUDPPacket e cfg pkt st w)"
proof -
  let ?raw = "pk_raw pkt" and ?h = "pk_ihl pkt"
  have f: "slice_from ?raw ?h = Some (drop ?h ?raw)" "slice_from (drop ?h ?raw) 8 = Some (drop 8 (drop ?h ?raw))"
      "be16 (drop ?h ?raw) 0 = Some (port_at ?raw ?h)" "be16 (drop ?h ?raw) 2 = Some (port_at ?raw (?h + 2))"
    using assms(2) be16_drop [of ?h 0 ?raw] be16_drop [of ?h 2 ?raw] by (simp_all add: slice_from_ok)
  have i: "ip_input (pk_ver pkt) ?raw" using assms by (auto simp: ip_input_def pkt_ok_def)
  have a: "one_verdict (Some (w, [Accept]))" by (simp add: one_verdict_def verdicts_Cons)
  show ?thesis
    unfolding handleUDPPacket_def f bind.bind_lunit
    using processDnsPacket_one [OF i] udp_payload_packet_one a by simp
qed

text \<open>The set of a TCP packet asks for no SYN longer than a packet.\<close>
definition syn_limited :: "env \<Rightarrow> Config \<Rightarrow> bytes \<Rightarrow> worker \<Rightarrow> bool" where
  "syn_limited e cfg raw w \<longleftrightarrow>
     (case parseIPHeaders e raw of
        Some (Some pkt) \<Rightarrow>
          (case fst (snd (tcp_match e cfg pkt (port_at raw (pk_ihl pkt + 2)) (MatchIPWithSource (cn e) (wk_matcher w) (pk_dst pkt) (pk_srcMac pkt)) w)) of
             Some s \<Rightarrow> SynFakeLen (TCP s) \<le> 65000 | None \<Rightarrow> True)
      | _ \<Rightarrow> True)"

lemma dispatch_one:
  assumes "regular_packet raw" "resolver_ok e" "\<And>i. round_rnd e i 0 < 4" "length (syn_md5_rnd A) = 16" "syn_limited e cfg raw w"
  shows "one_verdict (dispatch A e cfg raw w)"
proof -
  obtain r where r: "parseIPHeaders e raw = Some r" "case r of None \<Rightarrow> True | Some pkt \<Rightarrow> pkt_ok pkt \<and> pk_raw pkt = raw"
    using parse_ok [OF assms(1,2)] by blast
  have a: "one_verdict (Some (w, [Accept]))" by (simp add: one_verdict_def verdicts_Cons)
  show ?thesis
  proof (cases r)
    case (Some pkt)
    let ?st = "MatchIPWithSource (cn e) (wk_matcher w) (pk_dst pkt) (pk_srcMac pkt)"
    have ok: "pkt_ok pkt" "pk_raw pkt = raw" using r(2) Some by simp_all
    have y: "SynFakeLen (TCP s) \<le> 65000" if "fst (snd (tcp_match e cfg pkt (port_at (pk_raw pkt) (pk_ihl pkt + 2)) ?st w)) = Some s" for s
      using assms(5) that ok(2) by (simp add: syn_limited_def r(1) Some)
    show ?thesis
      using handleTCPPacket_one [OF ok(1) _ _ assms(4,3) y] handleUDPPacket_one [OF ok(1), of e cfg ?st w] a
      by (simp add: dispatch_def r(1) Some Let_def)
  qed (use a in \<open>simp add: dispatch_def r(1)\<close>)
qed

end
