(* ===== verification/Pool.thy ===== *)
theory Pool
  imports Handler
begin

text \<open>
  The pool of workers: \<^verbatim>\<open>src/src/nfq/pool.go\<close>. All workers of a pool share the matcher and the trackers, so the state of the pool is one
  \<open>worker\<close>, the address of its configuration and the store of configurations. Callers keep addresses of configurations and write
  through them, also through the one the workers hold; \<open>UpdateConfig\<close> compares what the two addresses hold at the time of the call. The sets
  of a configuration are values: a set that several configurations share is in each of them, and a write to it is a write to each.
  Reloading the configuration, the cleaner and the requests of the web interface change the state; starting and stopping of queues and
  the table of device addresses are not modelled.
\<close>

record pool =
  pl_store :: "nat \<Rightarrow> Config"
  pl_addr :: nat
  pl_worker :: worker

text \<open>What the workers read when they handle a packet\<close>
definition pl_cfg :: "pool \<Rightarrow> Config" where
  "pl_cfg p = pl_store p (pl_addr p)"

text \<open>An empty list of sets gives the empty matcher.\<close>
definition buildMatcher :: "(bytes \<Rightarrow> (bytes \<Rightarrow> bool) option) \<Rightarrow> Config \<Rightarrow> SuffixSet" where
  "buildMatcher r cfg = NewSuffixSet r (Sets cfg)"

definition NewPool :: "(bytes \<Rightarrow> (bytes \<Rightarrow> bool) option) \<Rightarrow> (nat \<Rightarrow> Config) \<Rightarrow> nat \<Rightarrow> pool" where
  "NewPool r store cfg = \<lparr>pl_store = store, pl_addr = cfg,
     pl_worker = \<lparr>wk_matcher = buildMatcher r (store cfg), wk_rt = newRuntimeState, wk_dns = []\<rparr>\<rparr>"

text \<open>The matcher is kept if both addresses hold the same sets; otherwise the learned addresses move to a new one and escalations are
  forgotten.\<close>
definition UpdateConfig :: "(bytes \<Rightarrow> (bytes \<Rightarrow> bool) option) \<Rightarrow> gotime \<Rightarrow> (nat \<Rightarrow> gotime) \<Rightarrow> nat \<Rightarrow> pool \<Rightarrow> pool" where
  "UpdateConfig r t ts newCfg p =
     (let w = pl_worker p; reuse = (Sets (pl_store p (pl_addr p)) = Sets (pl_store p newCfg));
          m = (if reuse then wk_matcher w else TransferLearnedIPs r t ts (wk_matcher w) (buildMatcher r (pl_store p newCfg)));
          w = w\<lparr>wk_matcher := m\<rparr>;
          w = (if \<not> reuse then set_dest (ResetEscalations (wk_dest w)) w else w)
      in p\<lparr>pl_addr := newCfg, pl_worker := w\<rparr>)"

text \<open>One tick of the cleaner, with a clock reading for each tracker\<close>
definition cleanup_tick :: "(nat \<Rightarrow> gotime) \<Rightarrow> worker \<Rightarrow> worker" where
  "cleanup_tick t w =
     (let w = set_conns (conn_Cleanup (t 0) (wk_conns w)) w;
          w = set_tls (tls_Cleanup (t 1) (tlsCache (wk_rt w))) w
      in set_dest (dest_Cleanup (t 2) (300 * Second) (wk_dest w)) w)"

record EscalationEntry =
  en_Host :: bytes
  en_ToSet :: bytes
  en_Hops :: nat
  en_SetAt :: gotime
  en_ExpiresAt :: gotime

definition GetEscalations :: "gotime \<Rightarrow> pool \<Rightarrow> EscalationEntry list" where
  "GetEscalations t p =
     map (\<lambda>s. \<lparr>en_Host = Host s,
          en_ToSet = (case GetSetById (SetId s) (Sets (pl_cfg p)) of Some st \<Rightarrow> if Name st \<noteq> [] then Name st else SetId s | None \<Rightarrow> SetId s),
          en_Hops = Hops s, en_SetAt = SetAt s, en_ExpiresAt = ExpiresAt s\<rparr>)
       (ListEscalations t (wk_dest (pl_worker p)))"

definition ClearEscalations :: "worker \<Rightarrow> worker" where
  "ClearEscalations w = set_dest (ResetEscalations (wk_dest w)) w"

definition pool_ClearEscalation :: "bytes \<Rightarrow> worker \<Rightarrow> worker" where
  "pool_ClearEscalation host w = set_dest (ClearEscalation host (wk_dest w)) w"

end
