(* ===== verification/WorkerRun.thy ===== *)
theory WorkerRun
  imports Pool
begin

text \<open>
  Sequences of packets. The handlers change the caches and trackers only through the operations of \<open>ConnState\<close> and \<open>Matcher\<close>
  (\<open>moves\<close>, proved stage by stage with the rules \<open>moves_intros\<close>), so the invariants of those theories hold in every state that a
  worker can reach; and every packet gets one verdict.
\<close>

section \<open>Moves\<close>

text \<open>The caches and trackers change only through their own operations.\<close>
definition drives :: "env \<Rightarrow> worker \<Rightarrow> worker \<Rightarrow> bool" where
  "drives e w w' \<longleftrightarrow> rt_step\<^sup>*\<^sup>* (wk_rt w) (wk_rt w') \<and> (sx_step (rx e) (cn e))\<^sup>*\<^sup>* (wk_matcher w) (wk_matcher w')"

lemma drives_refl [simp]: "drives e w w"
  by (simp add: drives_def)

lemma drives_trans: "drives e u v \<Longrightarrow> drives e v w \<Longrightarrow> drives e u w"
  by (auto simp: drives_def)

lemma drives_rt: "rt_step (wk_rt w) (wk_rt w') \<Longrightarrow> wk_matcher w' = wk_matcher w \<Longrightarrow> drives e w w'"
  by (auto simp: drives_def)

lemma drives_matcher: "sx_step (rx e) (cn e) (wk_matcher w) m \<Longrightarrow> drives e w (w\<lparr>wk_matcher := m\<rparr>)"
  by (auto simp: drives_def)

lemma drives_dns [simp]: "drives e w (w\<lparr>wk_dns := m\<rparr>)"
  by (simp add: drives_def)

lemma drives_conns: "rt_step (wk_rt w) ((wk_rt w)\<lparr>connState := c\<rparr>) \<Longrightarrow> drives e w (set_conns c w)"
  by (rule drives_rt) (simp_all add: set_conns_def)

lemma drives_dest: "rt_step (wk_rt w) ((wk_rt w)\<lparr>destState := d\<rparr>) \<Longrightarrow> drives e w (set_dest d w)"
  by (rule drives_rt) (simp_all add: set_dest_def)

text \<open>One operation on a tracker\<close>
lemma drives_ops:
  "drives e w (set_tls (tls_Store n n' (connKeyFormat a p b q) h v (tlsCache (wk_rt w))) w)"
  "drives e w (set_conns (RegisterOutgoing n n' (connKeyFormat a p b q) st (wk_conns w)) w)"
  "drives e w (set_conns (RecordServerResponse a p b q ttl opts (wk_conns w)) w)"
  "drives e w (set_conns (MarkEstablished n (connKeyFormat a p b q) (wk_conns w)) w)"
  "drives e w (set_dest (MarkRSTSent (connKeyFormat a p b q) (wk_dest w)) w)"
  "drives e w (set_dest (ClearEscalation h (wk_dest w)) w)"
  "drives e w (set_dest (AddBlocked n n' k (wk_dest w)) w)"
  "drives e w (w\<lparr>wk_matcher := LearnIPToDomain n ad dom' so (wk_matcher w)\<rparr>)"
  by (rule drives_rt; simp add: set_tls_def rt_step.tls_store)
    (rule drives_conns drives_dest drives_matcher, rule rt_step.intros sx_step.intros)+

lemma drives_fst:
  "CheckRST a p b q ttl opts ack tol (wk_conns w) = (c, x) \<Longrightarrow> drives e w (set_conns c w)"
  "GetSetForIncoming n a p b q (wk_conns w) = (c, y) \<Longrightarrow> drives e w (set_conns c w)"
  "TrackIncomingBytes r n a p b q k inc (wk_conns w) = (c, z) \<Longrightarrow> drives e w (set_conns c w)"
  "RecordClientHello n n' (connKeyFormat a p b q) h (wk_dest w) = (d, u) \<Longrightarrow> drives e w (set_dest d w)"
  "IsBlocked n k' (wk_dest w) = (d, v) \<Longrightarrow> drives e w (set_dest d w)"
  "SetEscalation n n' n'' h i ttl' (wk_dest w) = (d, v) \<Longrightarrow> h \<noteq> [] \<Longrightarrow> drives e w (set_dest d w)"
  "RecordRSTKill n n' h th win (wk_dest w) = (d, v) \<Longrightarrow> h \<noteq> [] \<Longrightarrow> drives e w (set_dest d w)"
  "MatchLearnedIPWithSource (rx e) n n' ad mac (wk_matcher w) = (m, lr) \<Longrightarrow> drives e w (w\<lparr>wk_matcher := m\<rparr>)"
proof -
  show "CheckRST a p b q ttl opts ack tol (wk_conns w) = (c, x) \<Longrightarrow> drives e w (set_conns c w)"
    by (drule fstI) (auto intro: drives_conns rt_step.check)
  show "GetSetForIncoming n a p b q (wk_conns w) = (c, y) \<Longrightarrow> drives e w (set_conns c w)"
    by (drule fstI) (auto intro: drives_conns rt_step.getset)
  show "TrackIncomingBytes r n a p b q k inc (wk_conns w) = (c, z) \<Longrightarrow> drives e w (set_conns c w)"
    by (drule fstI) (auto intro: drives_conns rt_step.track)
  show "RecordClientHello n n' (connKeyFormat a p b q) h (wk_dest w) = (d, u) \<Longrightarrow> drives e w (set_dest d w)"
    by (drule fstI) (auto intro: drives_dest rt_step.hello)
  show "IsBlocked n k' (wk_dest w) = (d, v) \<Longrightarrow> drives e w (set_dest d w)"
    by (drule fstI) (auto intro: drives_dest rt_step.is_blocked)
  show "SetEscalation n n' n'' h i ttl' (wk_dest w) = (d, v) \<Longrightarrow> h \<noteq> [] \<Longrightarrow> drives e w (set_dest d w)"
    by (drule fstI) (auto intro: drives_dest rt_step.escalate)
  show "RecordRSTKill n n' h th win (wk_dest w) = (d, v) \<Longrightarrow> h \<noteq> [] \<Longrightarrow> drives e w (set_dest d w)"
    by (drule fstI) (auto intro: drives_dest rt_step.rst_kill)
  show "MatchLearnedIPWithSource (rx e) n n' ad mac (wk_matcher w) = (m, lr) \<Longrightarrow> drives e w (w\<lparr>wk_matcher := m\<rparr>)"
    by (drule fstI) (auto intro: drives_matcher sx_step.learned_src)
qed

text \<open>A handler that starts in \<open>w\<close> ends, if it ends, in a state that \<open>w\<close> drives.\<close>
definition moves :: "env \<Rightarrow> worker \<Rightarrow> (worker \<times> 'a) option \<Rightarrow> bool" where
  "moves e w r \<longleftrightarrow> (\<forall>w' x. r = Some (w', x) \<longrightarrow> drives e w w')"

lemma moves_Some [simp]: "moves e w (Some (w', x)) \<longleftrightarrow> drives e w w'"
  by (auto simp: moves_def)

lemma moves_bind: "moves e w r \<Longrightarrow> (\<And>w' x. drives e w w' \<Longrightarrow> moves e w (f (w', x))) \<Longrightarrow> moves e w (r \<bind> f)"
  unfolding moves_def by (cases r) (simp, force)

lemma moves_read: "(\<And>x. r = Some x \<Longrightarrow> moves e w (f x)) \<Longrightarrow> moves e w (r \<bind> f)"
  by (cases r) (auto simp: moves_def)

lemma moves_after: "drives e w w' \<Longrightarrow> moves e w' r \<Longrightarrow> moves e w r"
  by (auto simp: moves_def intro: drives_trans)

lemma moves_if: "(c \<Longrightarrow> moves e w a) \<Longrightarrow> (\<not> c \<Longrightarrow> moves e w b) \<Longrightarrow> moves e w (if c then a else b)"
  by simp

lemma moves_pair: "(\<And>a b. p = (a, b) \<Longrightarrow> moves e w (f a b)) \<Longrightarrow> moves e w (case p of (a, b) \<Rightarrow> f a b)"
  by (cases p) simp

lemma moves_option: "(x = None \<Longrightarrow> moves e w a) \<Longrightarrow> (\<And>y. x = Some y \<Longrightarrow> moves e w (f y)) \<Longrightarrow> moves e w (case x of None \<Rightarrow> a | Some y \<Rightarrow> f y)"
  by (cases x) simp_all

text \<open>A stage is left behind together with the state it was computed from.\<close>
lemma moves_let_worker: "drives e w t \<Longrightarrow> (\<And>u. drives e w u \<Longrightarrow> moves e w (f u)) \<Longrightarrow> moves e w (let u = t in f u)"
  by simp

lemma moves_let_pair: "(\<And>a b. p = (a, b) \<Longrightarrow> moves e w (f a b)) \<Longrightarrow> moves e w (let (a, b) = p in f a b)"
  by (cases p) simp

lemma moves_let: "(\<And>u. moves e w (f u)) \<Longrightarrow> moves e w (let u = t in f u)"
  by simp

lemma moves_done: "drives e w w' \<Longrightarrow> moves e w (Some (w', x))"
  by simp

lemma drives_if: "drives e w a \<Longrightarrow> drives e w b \<Longrightarrow> drives e w (if c then a else b)"
  by simp

lemmas moves_intros = moves_let_pair moves_let_worker moves_let moves_if moves_pair moves_option moves_read moves_done drives_if

lemmas drives_then = drives_fst [THEN drives_trans [rotated]]
lemmas drives_next = drives_ops [THEN drives_trans [rotated]]

lemma moves_eq: "moves e w r \<Longrightarrow> r = Some x \<Longrightarrow> x = (w', y) \<Longrightarrow> drives e u w \<Longrightarrow> drives e u w'"
  by (auto simp: moves_def intro: drives_trans)

section \<open>Packets from servers\<close>

lemma incoming_escalate_drives: "incoming_escalate e cfg st src a p b q w = (w', es) \<Longrightarrow> drives e w w'"
  unfolding incoming_escalate_def Let_def
  by (auto split: if_splits prod.splits option.splits dest: drives_fst(6,7) intro: drives_trans)

lemma maybe_escalate_drives:
  "(if c then incoming_escalate e cfg st src a p b q w else (w, [])) = (w', es) \<Longrightarrow> drives e u w \<Longrightarrow> drives e u w'"
  by (auto split: if_splits dest: incoming_escalate_drives intro: drives_trans)

lemma incoming_rst_moves: "moves e w (incoming_rst e cfg st v raw ihl src a p b q w)"
  unfolding incoming_rst_def
  by (intro moves_intros)
    (assumption | rule drives_refl drives_ops | erule drives_then, assumption | erule maybe_escalate_drives, assumption)+

lemma incoming_inject_moves: "moves e w (incoming_inject e st v raw ihl src a p b q payload w)"
  unfolding incoming_inject_def Let_def
  by (auto intro!: moves_read split: prod.split dest: drives_fst(3))

lemma HandleIncoming_moves: "moves e w (HandleIncoming e cfg v raw ihl src a p b q payload w)"
  unfolding HandleIncoming_def
  by (intro moves_intros)
    (assumption | rule drives_refl | erule drives_fst | erule (1) moves_eq [OF incoming_rst_moves] | erule (1) moves_eq [OF incoming_inject_moves])+

section \<open>DNS\<close>

lemma dns_remember_drives: "dns_remember e cfg v st sport dport txid d raw w = Some w' \<Longrightarrow> drives e w w'"
  by (auto simp: dns_remember_def split: option.splits if_splits elim!: bind_SomeE)

lemma dns_query_moves: "moves e w (dns_query e cfg v st sport dport txid d payload raw w)"
  unfolding dns_query_def
  by (intro moves_intros) (assumption | rule drives_refl | erule dns_remember_drives)+

lemma dns_answer_moves: "moves e w (dns_answer e cfg v sport dport payload raw w)"
  unfolding dns_answer_def
  by (intro moves_intros) (rule drives_refl drives_dns)+

lemma processDnsPacket_moves: "moves e w (processDnsPacket e cfg v sport dport payload raw mac w)"
proof -
  have "moves e w (if c then dns_answer e cfg v sport dport payload raw w else Some (w, []))" for c
    using dns_answer_moves by simp
  then have r: "moves e w ((if c then dns_answer e cfg v sport dport payload raw w else Some (w, [])) \<bind> (\<lambda>(w, es). Some (w, es @ [Accept])))" for c
    by (rule moves_bind) simp
  show ?thesis
    unfolding processDnsPacket_def
    by (rule r dns_query_moves moves_option moves_pair moves_read)+
qed

section \<open>TCP\<close>

lemma tcp_match_drives: "tcp_match e cfg pkt dport st w = (w', x) \<Longrightarrow> drives e w w'"
  by (auto simp: tcp_match_def Let_def split: prod.splits dest: drives_fst(8))

lemma tcp_hello_moves: "moves e w (tcp_hello e cfg pkt (connKeyFormat a p b q) dport payload learned set0 w)"
  unfolding tcp_hello_def
  by (intro moves_intros)
    (assumption | rule drives_refl drives_ops | rule drives_next, assumption)+

lemma tcp_escalated_drives: "tcp_escalated e cfg dport v w = (w', x) \<Longrightarrow> drives e w w'"
  by (auto simp: tcp_escalated_def drives_ops split: if_splits option.splits)

lemma tcp_blocked_drives: "tcp_blocked e cfg pkt dport st v w = (w', x) \<Longrightarrow> drives e w w'"
  by (auto simp: tcp_blocked_def split: if_splits prod.splits dest: drives_fst(5))

lemma tcp_next_set_drives: "tcp_next_set e cfg st host w = (w', x) \<Longrightarrow> host \<noteq> [] \<Longrightarrow> drives e w w'"
  by (auto simp: tcp_next_set_def Let_def split: if_splits prod.splits option.splits dest: drives_fst(6))

lemma set_dest_set_dest [simp]: "set_dest d (set_dest c w) = set_dest d w"
  by (simp add: set_dest_def)

lemma drives_cached:
  assumes "drives e u w"
  shows "drives e u (set_dest (if c then AddBlocked n n' k (MarkRSTSent (connKeyFormat a p b q) (wk_dest w))
    else MarkRSTSent (connKeyFormat a p b q) (wk_dest w)) w)"
proof -
  let ?m = "MarkRSTSent (connKeyFormat a p b q) (wk_dest w)"
  have 1: "drives e u (set_dest ?m w)" using drives_trans [OF assms drives_ops(5)] .
  have d: "wk_dest (set_dest ?m w) = ?m" by (simp add: set_dest_def)
  have "drives e u (set_dest (AddBlocked n n' k ?m) w)" using drives_trans [OF 1 drives_ops(7) [of _ _ n n' k]] by (simp add: d)
  then show ?thesis using 1 by simp
qed

lemma tcp_detect_moves:
  assumes "host \<noteq> []"
  shows "moves e w (tcp_detect e cfg pkt (connKeyFormat a p b q) dport st host w)"
proof -
  obtain d cnt first where d: "RecordClientHello (now e 10) (now e 11) (connKeyFormat a p b q) host (wk_dest w) = (d, cnt, first)" by (metis prod_cases3)
  obtain w2 esc where n: "tcp_next_set e cfg st host (set_dest d w) = (w2, esc)" by force
  have 1: "drives e w (set_dest d w)" using d by (rule drives_fst)
  have 2: "drives e w w2" using drives_trans [OF 1 tcp_next_set_drives [OF n assms]] .
  show ?thesis
    unfolding tcp_detect_def d prod.case Let_def n
    by (intro moves_intros) (assumption | rule 1 2 drives_cached [OF 2])+
qed

lemma tcp_act_moves: "moves e w (tcp_act e cfg pkt (connKeyFormat a p b q) dport st v rt w)"
proof -
  let ?c = "tv_hello v \<and> \<not> rt \<and> (ibd_Enabled (IPBlockDetect (TCP st)) \<or> To (Escalate st) \<noteq> []) \<and>
    tv_host v \<noteq> [] \<and> IsTCPPort (tcpPortMap cfg) dport"
  have "moves e w (if ?c then tcp_detect e cfg pkt (connKeyFormat a p b q) dport st (tv_host v) w else Some (w, [], False))"
    using tcp_detect_moves by simp
  then show ?thesis
    unfolding tcp_act_def
    apply (rule moves_bind)
    apply (unfold prod.case)
    apply (intro moves_intros)
    apply (assumption | rule drives_next, assumption)+
    done
qed

lemma tcp_routed_moves: "moves e w (tcp_routed e cfg pkt (connKeyFormat a p b q) dport st' learned st v rt w)"
  unfolding tcp_routed_def
  by (rule moves_if moves_read moves_done drives_refl tcp_act_moves)+

lemma tcp_payload_moves: "moves e w (tcp_payload e cfg pkt (connKeyFormat a p b q) dport payload st' learned rt set0 w)"
  unfolding tcp_payload_def
  by (intro moves_intros)
    (assumption | rule drives_refl | erule (1) moves_eq [OF tcp_hello_moves] | erule (1) moves_eq [OF tcp_routed_moves] |
      erule tcp_escalated_drives [THEN drives_trans [rotated]] | erule tcp_blocked_drives [THEN drives_trans [rotated]])+

lemma tcp_syn_moves: "moves e w (tcp_syn A e st pkt (connKeyFormat a p b q) datOff w)"
  unfolding tcp_syn_def
  by (intro moves_intros) (assumption | rule drives_refl drives_ops)+

lemma tcp_outgoing_moves: "moves e w (tcp_outgoing A e cfg pkt (connKeyFormat a p b q) datOff dport flags payload st w)"
proof -
  obtain w1 set0 st' learned where m: "tcp_match e cfg pkt dport st w = (w1, set0, st', learned)" by (metis prod_cases4)
  have 1: "drives e w w1" using m by (rule tcp_match_drives)
  have p: "moves e w (tcp_payload e cfg pkt (connKeyFormat a p b q) dport payload st' learned rt s w')"
      "moves e w (tcp_syn A e x pkt (connKeyFormat a p b q) datOff w')" if "drives e w w'" for rt s x w'
    by (rule moves_after [OF that tcp_payload_moves], rule moves_after [OF that tcp_syn_moves])
  show ?thesis
    unfolding tcp_outgoing_def m prod.case Let_def
    by (rule moves_option moves_if moves_done p drives_if 1 drives_ops(4) [THEN drives_trans [rotated]])+
qed

lemma handleTCPPacket_moves: "moves e w (handleTCPPacket A e cfg pkt st w)"
  unfolding handleTCPPacket_def
  by (rule moves_let moves_if HandleIncoming_moves tcp_outgoing_moves moves_read moves_done drives_refl)+

section \<open>UDP\<close>

lemma udp_match_drives: "udp_match e pkt dport st w = (w', x) \<Longrightarrow> drives e w w'"
  by (auto simp: udp_match_def Let_def split: option.splits if_splits prod.splits dest: drives_fst(8))

lemma udp_named_drives: "udp_named e cfg pkt dport host set0 w = (w', x) \<Longrightarrow> drives e w w'"
  by (auto simp: udp_named_def drives_ops split: option.splits if_splits)

lemma udp_escalated_drives: "udp_escalated e cfg host set0 w = (w', x) \<Longrightarrow> drives e w w'"
  by (auto simp: udp_escalated_def drives_ops split: option.splits if_splits)

lemma maybe_udp_escalated: "(if c then udp_escalated e cfg host set0 w else (w, set0)) = (w', x) \<Longrightarrow> drives e u w \<Longrightarrow> drives e u w'"
  by (auto split: if_splits dest: udp_escalated_drives intro: drives_trans)

lemma udp_payload_packet_moves: "moves e w (udp_payload_packet e cfg pkt dport payload st w)"
  unfolding udp_payload_packet_def
  by (intro moves_intros)
    (assumption | erule maybe_udp_escalated | erule udp_named_drives [THEN drives_trans [rotated]] | erule udp_match_drives)+

lemma handleUDPPacket_moves: "moves e w (handleUDPPacket e cfg pkt st w)"
  unfolding handleUDPPacket_def
  by (rule moves_if processDnsPacket_moves udp_payload_packet_moves moves_read moves_done drives_refl)+

lemma dispatch_moves: "moves e w (dispatch A e cfg raw w)"
  unfolding dispatch_def Let_def
  by (rule moves_option moves_if handleTCPPacket_moves handleUDPPacket_moves moves_read moves_done drives_refl)+

section \<open>Many packets\<close>

text \<open>The states of a pool, and the sets its matcher was built from. Packets arrive in any order with any clock, the configuration is
  reloaded, the cleaner ticks, and between them other workers use the shared trackers and the matcher. Callers write to the store of
  configurations; only if \<open>live\<close> do they also write to the configuration that the workers hold.\<close>
inductive pool_reachable ::
  "(bytes \<Rightarrow> (bytes \<Rightarrow> bool) option) \<Rightarrow> (ipRange list \<Rightarrow> bytes \<Rightarrow> ipRange list option) \<Rightarrow> bool \<Rightarrow> SetConfig list \<Rightarrow> pool \<Rightarrow> bool"
  for rgx con live where
  start: "pool_reachable rgx con live (Sets (store a)) (NewPool rgx store a)"
| packet: "pool_reachable rgx con live sets p \<Longrightarrow> rx e = rgx \<Longrightarrow> cn e = con \<Longrightarrow>
    handlePacket A e (pl_cfg p) byIndex ifaces mark stopped a (cache, pl_worker p) = Some ((cache', w'), es) \<Longrightarrow>
    pool_reachable rgx con live sets (p\<lparr>pl_worker := w'\<rparr>)"
| reload: "pool_reachable rgx con live sets p \<Longrightarrow>
    pool_reachable rgx con live (if Sets (pl_cfg p) = Sets (pl_store p a) then sets else Sets (pl_store p a)) (UpdateConfig rgx t0 ts a p)"
| edit: "pool_reachable rgx con live sets p \<Longrightarrow> live \<or> store (pl_addr p) = pl_cfg p \<Longrightarrow> pool_reachable rgx con live sets (p\<lparr>pl_store := store\<rparr>)"
| cleanup: "pool_reachable rgx con live sets p \<Longrightarrow> pool_reachable rgx con live sets (p\<lparr>pl_worker := cleanup_tick ts (pl_worker p)\<rparr>)"
| clear_all: "pool_reachable rgx con live sets p \<Longrightarrow> pool_reachable rgx con live sets (p\<lparr>pl_worker := ClearEscalations (pl_worker p)\<rparr>)"
| clear_one: "pool_reachable rgx con live sets p \<Longrightarrow> pool_reachable rgx con live sets (p\<lparr>pl_worker := pool_ClearEscalation h (pl_worker p)\<rparr>)"
| tracker: "pool_reachable rgx con live sets p \<Longrightarrow> rt_step (wk_rt (pl_worker p)) r \<Longrightarrow>
    pool_reachable rgx con live sets (p\<lparr>pl_worker := (pl_worker p)\<lparr>wk_rt := r\<rparr>\<rparr>)"
| matcher: "pool_reachable rgx con live sets p \<Longrightarrow> sx_step rgx con (wk_matcher (pl_worker p)) m \<Longrightarrow>
    pool_reachable rgx con live sets (p\<lparr>pl_worker := (pl_worker p)\<lparr>wk_matcher := m\<rparr>\<rparr>)"

lemma handlePacket_drives:
  assumes "handlePacket A e cfg byIndex ifaces mark stopped a (cache, w) = Some ((cache', w'), es)"
  shows "drives e w w'"
  using assms dispatch_moves [of e w A cfg]
  by (auto simp: handlePacket_def moves_def Let_def split: option.splits if_splits prod.splits elim!: bind_SomeE)

lemma rt_reachable_star: "rt_step\<^sup>*\<^sup>* r r' \<Longrightarrow> rt_reachable r \<Longrightarrow> rt_reachable r'"
  by (induction rule: rtranclp_induct) (auto intro: rt_reachable.step)

lemma sx_reachable_star: "(sx_step rgx con)\<^sup>*\<^sup>* m m' \<Longrightarrow> sx_reachable rgx con sets m \<Longrightarrow> sx_reachable rgx con sets m'"
  by (induction rule: rtranclp_induct) (auto intro: sx_reachable.step)

lemma cleanup_drives: "rt_step\<^sup>*\<^sup>* (wk_rt w) (wk_rt (cleanup_tick ts w))" "wk_matcher (cleanup_tick ts w) = wk_matcher w"
proof -
  let ?w1 = "set_conns (conn_Cleanup (ts 0) (wk_conns w)) w"
  let ?w2 = "set_tls (tls_Cleanup (ts 1) (tlsCache (wk_rt ?w1))) ?w1"
  let ?w3 = "set_dest (dest_Cleanup (ts 2) (300 * Second) (wk_dest ?w2)) ?w2"
  have "rt_step (wk_rt w) (wk_rt ?w1)" using rt_step.conn_clean [of "wk_rt w"] by (simp add: set_conns_def)
  moreover have "rt_step (wk_rt ?w1) (wk_rt ?w2)" using rt_step.tls_clean [of "wk_rt ?w1"] by (simp add: set_tls_def)
  moreover have "rt_step (wk_rt ?w2) (wk_rt ?w3)" using rt_step.dest_clean [of "wk_rt ?w2"] by (simp add: set_dest_def)
  moreover have "cleanup_tick ts w = ?w3" by (simp add: cleanup_tick_def Let_def)
  ultimately show "rt_step\<^sup>*\<^sup>* (wk_rt w) (wk_rt (cleanup_tick ts w))" by (simp add: converse_rtranclp_into_rtranclp)
  show "wk_matcher (cleanup_tick ts w) = wk_matcher w" by (simp add: cleanup_tick_def set_conns_def set_tls_def set_dest_def Let_def)
qed

text \<open>Both halves of the state are reachable by their own operations, the matcher from the sets it was built from; these are the sets
  the workers' configuration holds, unless that was written to.\<close>
lemma pool_reachable_parts:
  "pool_reachable rgx con live sets p \<Longrightarrow>
   rt_reachable (wk_rt (pl_worker p)) \<and> sx_reachable rgx con sets (wk_matcher (pl_worker p)) \<and> (\<not> live \<longrightarrow> sets = Sets (pl_cfg p))"
proof (induction rule: pool_reachable.induct)
  case (packet sets p e A byIndex ifaces mark stopped a cache cache' w' es)
  then show ?case
    using handlePacket_drives [OF packet.hyps(4)] by (auto simp: drives_def pl_cfg_def intro: rt_reachable_star sx_reachable_star)
next
  case (reload sets p a t0 ts)
  then show ?case
    by (auto simp: UpdateConfig_def Let_def buildMatcher_def set_dest_def pl_cfg_def
        intro: rt_reachable.step [OF _ rt_step.reset] sx_reachable.step [OF sx_reachable.new sx_step.transfer])
next
  case (cleanup sets p ts)
  then show ?case using cleanup_drives [where ts = ts and w = "pl_worker p"] by (auto simp: pl_cfg_def intro: rt_reachable_star)
next
  case (clear_all sets p)
  then show ?case by (auto simp: ClearEscalations_def set_dest_def pl_cfg_def intro: rt_reachable.step [OF _ rt_step.reset])
next
  case (clear_one sets p h)
  then show ?case by (auto simp: pool_ClearEscalation_def set_dest_def pl_cfg_def intro: rt_reachable.step [OF _ rt_step.clear])
qed (auto simp: NewPool_def buildMatcher_def pl_cfg_def intro: rt_reachable.intros sx_reachable.intros)

text \<open>C2: Whatever packets a worker handles, in any order and interleaved with reloads and writes of configurations, the cleaner and the
  other users of the shared state: the TLS cache, the tables of connections, escalations and RST kills and the caches of names,
  addresses and learned addresses stay within their limits; no table and no cache, those of connection attempts, blocked
  destinations and regular expressions included, has a key twice; every recency list has exactly the keys of its cache; and every escalation has
  between one and eight hops. The three tables without a bound here can exceed their limits: \<open>AddBlocked_overflows\<close>,
  \<open>RecordClientHello_overflows\<close>, \<open>regex_race_bound\<close>.\<close>
theorem worker_bounded:
  assumes "pool_reachable rgx con live sets p" "cn_by_address con"
  defines "w \<equiv> pl_worker p"
  shows "length (tlsCache (wk_rt w)) \<le> maxTLSCacheEntries \<and> length (wk_conns w) \<le> maxConnStateEntries \<and>
    length (escalations (wk_dest w)) \<le> maxEscalationCacheEntries \<and> length (rstKills (wk_dest w)) \<le> maxRSTKillEntries \<and>
    gok (tlsCache (wk_rt w)) \<and> gok (wk_conns w) \<and> gok (escalations (wk_dest w)) \<and> gok (rstKills (wk_dest w)) \<and>
    gok (ib_conns (wk_dest w)) \<and> gok (blocked (wk_dest w)) \<and>
    (\<forall>(h, x) \<in> set (escalations (wk_dest w)). 1 \<le> ee_hops x \<and> ee_hops x \<le> MaxEscalationHops) \<and>
    length (entries (domainCache (wk_matcher w))) \<le> 2000 \<and> length (entries (ipCache (wk_matcher w))) \<le> 2000 \<and>
    length (entries (learnedIPCache (wk_matcher w))) \<le> 5000 \<and>
    gok (entries (domainCache (wk_matcher w))) \<and> gok (entries (ipCache (wk_matcher w))) \<and>
    gok (entries (learnedIPCache (wk_matcher w))) \<and> gok (regexCache (wk_matcher w)) \<and>
    mset (order (domainCache (wk_matcher w))) = mset (map fst (entries (domainCache (wk_matcher w)))) \<and>
    mset (order (ipCache (wk_matcher w))) = mset (map fst (entries (ipCache (wk_matcher w)))) \<and>
    mset (order (learnedIPCache (wk_matcher w))) = mset (map fst (entries (learnedIPCache (wk_matcher w))))"
proof -
  have r: "rt_reachable (wk_rt w)" "sx_reachable rgx con sets (wk_matcher w)"
    using pool_reachable_parts [OF assms(1)] by (simp_all add: w_def)
  show ?thesis using runtime_bounded [OF r(1)] matcher_caches_bounded [OF r(2) assms(2)] by (elim conjE) (intro conjI)
qed

lemma handle_one:
  assumes "PacketID a \<noteq> None" "\<And>raw. at_Payload a = Some raw \<Longrightarrow> raw \<noteq> [] \<Longrightarrow> one_verdict (dispatch A e cfg raw w)"
  shows "\<exists>cache' w' es. handlePacket A e cfg byIndex ifaces mark stopped a (cache, w) = Some ((cache', w'), es) \<and>
    (if stopped then w' = w \<and> (es = [] \<or> es = [Accept]) else length (verdicts es) = 1)"
proof -
  obtain i where i: "PacketID a = Some i" using assms(1) by blast
  obtain c ok where m: "matchesInterface byIndex ifaces a cache = (c, ok)" by force
  show ?thesis
    using assms(2) by (cases "at_Payload a"; cases ok; cases stopped) (auto simp: handlePacket_def i m Let_def one_verdict_def verdicts_Cons)
qed

lemma process_one:
  assumes "one_verdict (dispatch A (e\<lparr>verdictOk := True\<rparr>) cfg raw w)" "raw \<noteq> []"
  shows "\<exists>w' v. ProcessPacket A e cfg raw w = Some (w', v) \<and> (v = Accept \<or> v = Drop)"
proof -
  obtain w' es where r: "dispatch A (e\<lparr>verdictOk := True\<rparr>) cfg raw w = Some (w', es)" "length (verdicts es) = 1" using assms(1) by (auto simp: one_verdict_def)
  then obtain v where v: "verdicts es = [v]" by (auto simp: length_Suc_conv)
  then have "v \<in> set (verdicts es)" by simp
  then show ?thesis using r v assms(2) by (auto simp: ProcessPacket_def verdicts_def)
qed

text \<open>What a failing verdict can change is not looked at before the verdict.\<close>
lemma verdictOk_free:
  "resolver_ok (e\<lparr>verdictOk := x\<rparr>) = resolver_ok e" "round_rnd (e\<lparr>verdictOk := x\<rparr>) = round_rnd e"
  "syn_limited (e\<lparr>verdictOk := x\<rparr>) cfg raw w = syn_limited e cfg raw w"
proof -
  have t: "tcp_match (e\<lparr>verdictOk := x\<rparr>) = tcp_match e" by (simp add: fun_eq_iff tcp_match_def)
  have r: "resolve_src (e\<lparr>verdictOk := x\<rparr>) = resolve_src e" by (simp add: fun_eq_iff resolve_src_def)
  have g: "getMacByIp (e\<lparr>verdictOk := x\<rparr>) = getMacByIp e" by simp
  have p: "parseIPHeaders (e\<lparr>verdictOk := x\<rparr>) = parseIPHeaders e" unfolding fun_eq_iff parseIPHeaders_def r g by (rule allI) (rule refl)
  have c: "cn (e\<lparr>verdictOk := x\<rparr>) = cn e" by simp
  show "syn_limited (e\<lparr>verdictOk := x\<rparr>) cfg raw w = syn_limited e cfg raw w" unfolding syn_limited_def t p c by (rule refl)
qed (simp_all add: resolver_ok_def round_rnd_def fun_eq_iff)

definition syn_set :: SetConfig where
  "syn_set = (plain_set [49])\<lparr>Targets := plain_targets\<lparr>IpsToMatch := [[49, 48, 46, 48, 46, 48, 46, 50]]\<rparr>,
     TCP := plain_tcp\<lparr>SynFake := True, SynFakeLen := 2\<rparr>\<rparr>"

definition syn_worker :: worker where
  "syn_worker = \<lparr>wk_matcher = NewSuffixSet (\<lambda>p. None) [syn_set], wk_rt = newRuntimeState, wk_dns = []\<rparr>"

definition syn_cfg :: Config where
  "syn_cfg = \<lparr>Sets = [syn_set], tcpPortMap = None, IsDiscovery = False, IPv6Enabled = True\<rparr>"

definition syn_attr :: Attribute where
  "syn_attr = \<lparr>PacketID = Some 1, at_Payload = Some sample_syn, at_Mark = None, OutDev = None, InDev = None\<rparr>"

lemma syn_packet: "regular_packet sample_syn"
  by (simp add: regular_packet_def sample_syn_eval tot4_def) (simp add: sample_syn_def u16_def)

lemma syn_parse: "\<exists>pkt. parseIPHeaders sample_env sample_syn = Some (Some pkt) \<and> pk_dst pkt = [10, 0, 0, 2] \<and> pk_srcMac pkt = []"
  by (simp add: parseIPHeaders_def ip_fields_def sample_syn_def sample_env_def resolve_src_def idx_def be16_def gslice_def IsLoopback_def To4_def u16_def)

lemma syn_match: "MatchIPWithSource sample_ranger (wk_matcher syn_worker) [10, 0, 0, 2] [] = Some syn_set"
proof -
  let ?t = "[49, 48, 46, 48, 46, 48, 46, 50] :: bytes"
  let ?n = "\<lparr>net_IP = [10, 0, 0, 2], net_Mask = [255, 255, 255, 255]\<rparr>"
  have t: "trim ?t = ?t" by (simp add: trim_def ascii_space_def)
  have p: "parse_target_net ?t = Some ?n"
    by (simp add: parse_target_net_def ParseIP_def ParseAddr_def parseIPv4Fields_def v4_loop.simps is_digit_def To16_def To4_def
        v4InV6Prefix_def ParseCIDR_def dtoi_def dec_val_def CIDRMask_def upt_rec Let_def)
  have r: "ipRanger (wk_matcher syn_worker) = [\<lparr>ipNet = ?n, ir_set = syn_set\<rparr>]"
    by (simp add: syn_worker_def NewSuffixSet_def add_set_def syn_set_def plain_defs add_ip_def t p empty_SuffixSet_def add_ports_def Let_def)
  have c: "net_contains ?n [10, 0, 0, 2]" by (simp add: net_contains_def To4_def)
  show ?thesis
    by (simp add: MatchIPWithSource_def sample_ranger_def r c sortEntriesBySpecificity_def selectSetBySource_def selectSetBySourceAndTLS.simps
        syn_set_def plain_defs MatchesTLSVersion_def MatchesIPVersion_def)
qed

lemma syn_learned: "MatchLearnedIPWithSource r n n' ip mac (wk_matcher syn_worker) = (wk_matcher syn_worker, None)"
  by (simp add: MatchLearnedIPWithSource_def syn_worker_def NewSuffixSet_def add_set_def syn_set_def plain_defs add_ip_def empty_SuffixSet_def
      add_ports_def lru_empty_def Let_def split: option.split)

lemma syn_sample_limited: "syn_limited sample_env syn_cfg sample_syn syn_worker"
proof -
  have s: "SynFakeLen (TCP syn_set) = 2" by (simp add: syn_set_def plain_defs)
  obtain pkt where "parseIPHeaders sample_env sample_syn = Some (Some pkt)" "pk_dst pkt = [10, 0, 0, 2]" "pk_srcMac pkt = []"
    using syn_parse by blast
  moreover have "cn sample_env = sample_ranger" by (simp add: sample_env_def)
  moreover have "MatchTCPPort d (wk_matcher syn_worker) = None" for d
    by (simp add: MatchTCPPort_def syn_worker_def NewSuffixSet_def add_set_def syn_set_def plain_defs add_ip_def empty_SuffixSet_def
        add_ports_def Let_def split: option.split)
  ultimately show ?thesis
    by (simp add: syn_limited_def tcp_match_def syn_match syn_learned Let_def s)
qed

lemma syn_env: "resolver_ok sample_env" "round_rnd sample_env i 0 < 4" "length (syn_md5_rnd sample_assets) = 16"
  by (simp_all add: resolver_ok_def sample_env_def round_rnd_def sample_assets_def)

text \<open>C15: Reading the headers of a packet never panics, however short or malformed it is, and what it hands to the handlers is well
  formed: the version is the one of the packet; an IPv4 header lies inside the packet, starts with its length and the addresses
  are those of the header, the source possibly replaced by the IPv4 address of the device behind it; over IPv6 the upper layer
  starts behind the fixed header, and its protocol is no extension header and no fragment. Packets to a loopback address are
  left alone. The loop over the extension headers ends on every input.\<close>
theorem parseIPHeaders_typed:
  assumes "raw \<noteq> []" "resolver_ok e"
  shows "\<exists>r. parseIPHeaders e raw = Some r \<and> (case r of None \<Rightarrow> True | Some pkt \<Rightarrow> pkt_typed pkt \<and> pk_raw pkt = raw)"
  using parse_typed [OF assms] by (auto split: option.splits)

theorem parseIPHeaders_witness: "\<exists>pkt. parseIPHeaders sample_env sample_syn = Some (Some pkt) \<and> pkt_typed pkt \<and> pk_dst pkt = [10, 0, 0, 2]"
  using parseIPHeaders_typed [of sample_syn, OF _ syn_env(1)] syn_parse by (auto simp: sample_syn_def)



theorem worker_bounded_witness:
  "\<exists>p. pool_reachable (\<lambda>p. None) sample_ranger True [syn_set] p \<and> length (wk_conns (pl_worker p)) \<le> maxConnStateEntries \<and>
     (\<exists>c es. handlePacket sample_assets sample_env syn_cfg (\<lambda>i. None) [] 7 False syn_attr ([], syn_worker) = Some ((c, pl_worker p), es))"
proof -
  have "one_verdict (dispatch sample_assets sample_env syn_cfg sample_syn syn_worker)"
    by (rule dispatch_one [OF syn_packet syn_env(1,2,3) syn_sample_limited])
  then obtain c w es where h: "handlePacket sample_assets sample_env syn_cfg (\<lambda>i. None) [] 7 False syn_attr ([], syn_worker) = Some ((c, w), es)"
    using handle_one [of syn_attr sample_assets sample_env syn_cfg syn_worker "\<lambda>i. None" "[]" 7 False "[]"] by (auto simp: syn_attr_def)
  let ?p = "NewPool (\<lambda>p. None) (\<lambda>a. syn_cfg) 0"
  have n: "pl_cfg ?p = syn_cfg" "pl_worker ?p = syn_worker" "Sets syn_cfg = [syn_set]"
    by (simp_all add: NewPool_def syn_worker_def buildMatcher_def syn_cfg_def pl_cfg_def)
  have s: "pool_reachable (\<lambda>p. None) sample_ranger True [syn_set] ?p" using pool_reachable.start [where store = "\<lambda>a. syn_cfg"] by (simp add: n)
  have "handlePacket sample_assets sample_env (pl_cfg ?p) (\<lambda>i. None) [] 7 False syn_attr ([], pl_worker ?p) = Some ((c, w), es)"
    unfolding n by (rule h)
  then have r: "pool_reachable (\<lambda>p. None) sample_ranger True [syn_set] (?p\<lparr>pl_worker := w\<rparr>)"
    by (rule pool_reachable.packet [OF s, rotated 2]) (simp_all add: sample_env_def)
  show ?thesis using worker_bounded [OF r sample_ranger_by_address] r h by auto
qed



end
