(* ===== verification/Quic.thy ===== *)
theory Quic
  imports Classify GoMap
begin

text \<open>
  QUIC Initial packets: \<^verbatim>\<open>src/src/quic/assemble.go\<close>, \<^verbatim>\<open>locate.go\<close>, \<^verbatim>\<open>parse.go\<close>, \<^verbatim>\<open>sniff.go\<close>, the decryption of \<^verbatim>\<open>initial.go\<close> and
  \<open>ParseQUICClientHelloSNI\<close> of \<^verbatim>\<open>sni/quic.go\<close>. The CRYPTO frames of a connection are written into a buffer per connection id; the name
  is read from the part of the buffer that is complete from the start.

  \<^item> The key derivation and the ciphers come from the crypto packages: \<open>derive dcid ver\<close> gives the header protection (sample to
    mask), the AEAD (nonce, ciphertext, additional data) and the iv, or None for an error. So does \<open>deriveHP\<close> for \<^verbatim>\<open>locate.go\<close>.
  \<^item> The package \<^verbatim>\<open>cryptobyte\<close>, with which \<open>extractSNIFromQUIC\<close> is written, is a record of its readers.
  \<^item> The program is built for machines on which \<open>int\<close> has 64 bits and for machines on which it has 32. Where a length from the packet is
    converted to \<open>int\<close> or added to, the width \<open>W\<close> is an argument and the result wraps (\<open>goint\<close>); positions inside a
    datagram and sums of a few of them are nat.
\<close>

section \<open>Machine integers\<close>

text \<open>The value of an \<open>int\<close> of \<open>W\<close> bits that a conversion or an addition leaves\<close>
definition goint :: "nat \<Rightarrow> int \<Rightarrow> int" where
  "goint W x = (x + 2 ^ (W - 1)) mod 2 ^ W - 2 ^ (W - 1)"

text \<open>\<open>b[i:]\<close> and \<open>b[i:j]\<close> with an index that may be negative\<close>
definition slice_at :: "bytes \<Rightarrow> int \<Rightarrow> bytes option" where
  "slice_at b i = (if i < 0 then None else slice_from b (nat i))"

definition gslice_at :: "bytes \<Rightarrow> nat \<Rightarrow> int \<Rightarrow> bytes option" where
  "gslice_at b i j = (if j < 0 then None else gslice b i (nat j))"

section \<open>Integers of variable length\<close>

definition readVar :: "bytes \<Rightarrow> nat \<times> nat" where
  "readVar b =
     (if length b = 0 then (0, 0)
      else let ln = 2 ^ unat (drop_bit 6 (b ! 0)) in
        if length b < ln then (0, 0)
        else (foldl (\<lambda>v x. v * 256 + unat x) (unat (b ! 0 AND 0x3F)) (take (ln - 1) (drop 1 b)), ln))"

text \<open>\<^verbatim>\<open>assemble.go\<close> has its own copy.\<close>
definition readVarint :: "bytes \<Rightarrow> nat \<times> nat" where
  "readVarint b =
     (if length b = 0 then (0, 0)
      else let prefix = drop_bit 6 (b ! 0); l = 2 ^ unat prefix in
        if length b < l then (0, 0)
        else (foldl (\<lambda>val x. val * 256 + unat x) (unat (b ! 0 AND 0x3f)) (take (l - 1) (drop 1 b)), l))"

lemma readVarint_eq: "readVarint b = readVar b"
  by (simp add: readVarint_def readVar_def Let_def)

section \<open>Assembly of CRYPTO frames\<close>

type_synonym cryptoFrame = "nat \<times> bytes"

record cbuf =
  cb_data :: bytes
  cb_mask :: bytes
  cb_head :: nat
  cb_lastAccess :: gotime

definition maxEntries :: nat where "maxEntries = 10000"
definition entryTTL :: gotime where "entryTTL = 30 * Second"
definition maxBufSize :: nat where "maxBufSize = 32 * 1024"

function frames_loop :: "nat \<Rightarrow> bytes \<Rightarrow> nat \<Rightarrow> cryptoFrame list option" where
  "frames_loop W plain i =
     (if i < length plain then do {
        t \<leftarrow> idx plain i;
        if t = 0x06 then do {
          r \<leftarrow> slice_from plain (i + 1);
          let (off, n) = readVarint r;
          if n = 0 then Some []
          else do {
            r2 \<leftarrow> slice_from plain (i + 1 + n);
            let (ln, n2) = readVarint r2;
            if n2 = 0 \<or> goint W (int ln) > int (length plain) - int (i + 1 + n) - int n2 then Some []
            else do {
              let fin = goint W (int (i + 1 + n + n2) + goint W (int ln));
              b \<leftarrow> gslice_at plain (i + 1 + n + n2) fin;
              fs \<leftarrow> frames_loop W plain (nat fin);
              Some ((off, b) # fs) } } }
        else if t = 0x00 then frames_loop W plain (i + 1 + length (takeWhile (\<lambda>x. x = 0) (drop (i + 1) plain)))
        else if t = 0x01 then frames_loop W plain (i + 1)
        else Some [] }
      else Some [])"
  by pat_completeness auto
termination
  by (relation "measure (\<lambda>(W, plain, i). length plain - i)") (auto simp: gslice_at_def gslice_def split: if_splits)

declare frames_loop.simps [simp del]

definition parseCryptoFrames :: "nat \<Rightarrow> bytes \<Rightarrow> cryptoFrame list option" where
  "parseCryptoFrames W plain = frames_loop W plain 0"

definition ensure :: "nat \<Rightarrow> cbuf \<Rightarrow> cbuf" where
  "ensure n b =
     (if n > maxBufSize then b
      else if n \<le> length (cb_data b) then b
      else b\<lparr>cb_data := cb_data b @ mk (n - length (cb_data b)),
             cb_mask := take n (cb_mask b) @ mk (n - length (cb_mask b)),
             cb_head := min (cb_head b) n\<rparr>)"

text \<open>\<open>for i := off; i < end; i++ { b.mask[i] = 1 }\<close>\<close>
primrec mark :: "nat \<Rightarrow> nat \<Rightarrow> bytes \<Rightarrow> bytes option" where
  "mark 0 i m = Some m"
| "mark (Suc n) i m = do { m \<leftarrow> upd m i 1; mark n (i + 1) m }"

definition cbuf_write :: "gotime \<Rightarrow> nat \<Rightarrow> bytes \<Rightarrow> cbuf \<Rightarrow> cbuf option" where
  "cbuf_write now off p b =
     (let fin = off + length p in
      if fin > maxBufSize then Some b
      else let b = ensure fin b in
        if fin > length (cb_data b) then Some b
        else do {
          d \<leftarrow> copy_into (cb_data b) off fin p;
          m \<leftarrow> mark (length p) off (cb_mask b);
          Some (b\<lparr>cb_data := d, cb_mask := m,
                  cb_head := cb_head b + length (takeWhile (\<lambda>x. x = 1) (drop (cb_head b) m)), cb_lastAccess := now\<rparr>) })"

definition snapshot :: "cbuf \<Rightarrow> bytes option option" where
  "snapshot b = (if cb_head b = 0 then Some None else map_option Some (gslice (cb_data b) 0 (cb_head b)))"

text \<open>The loop over the frames of a packet; the flag says that the buffer has become too large.\<close>
fun write_frames :: "(nat \<Rightarrow> gotime) \<Rightarrow> nat \<Rightarrow> cryptoFrame list \<Rightarrow> cbuf \<Rightarrow> (cbuf \<times> bool) option" where
  "write_frames now k [] b = Some (b, False)"
| "write_frames now k ((off, p) # fs) b =
     (if off > 2 ^ 20 then write_frames now (k + 1) fs b
      else do {
        b \<leftarrow> cbuf_write (now k) off p b;
        if cb_head b > 2 ^ 20 then Some (b, True) else write_frames now (k + 1) fs b })"

type_synonym cryptoMap = "(bytes, cbuf) gomap"

definition AssembleCrypto :: "nat \<Rightarrow> (nat \<Rightarrow> gotime) \<Rightarrow> bytes \<Rightarrow> bytes \<Rightarrow> cryptoMap \<Rightarrow> (cryptoMap \<times> bytes option) option" where
  "AssembleCrypto W now dcid plain cmap =
     (if length dcid = 0 \<or> length plain = 0 then Some (cmap, None)
      else do {
        frames \<leftarrow> parseCryptoFrames W plain;
        if length frames = 0 then Some (cmap, None)
        else do {
          let buf = (case gget cmap dcid of Some b \<Rightarrow> b
                     | None \<Rightarrow> \<lparr>cb_data = [], cb_mask = [], cb_head = 0, cb_lastAccess = now 0\<rparr>);
          (buf, tooLarge) \<leftarrow> write_frames now 1 frames buf;
          if tooLarge then Some (gdel dcid cmap, None)
          else do { out \<leftarrow> snapshot buf; Some (gput dcid buf cmap, out) } } })"

definition ClearDCID :: "bytes \<Rightarrow> cryptoMap \<Rightarrow> cryptoMap" where
  "ClearDCID dcid cmap = (if length dcid = 0 then cmap else gdel dcid cmap)"

text \<open>One tick of the cleaner: first the old entries, then as many of the others, in the order of the map, as are too many\<close>
definition cleanupStaleEntries :: "gotime \<Rightarrow> cryptoMap \<Rightarrow> cryptoMap" where
  "cleanupStaleEntries now cmap =
     (let live = filter (\<lambda>(k, b). \<not> now - cb_lastAccess b > entryTTL) cmap
      in drop (length live - maxEntries) live)"

section \<open>\<^verbatim>\<open>parse.go\<close> and \<^verbatim>\<open>sniff.go\<close>\<close>

definition ParseDCID :: "bytes \<Rightarrow> bytes option option" where
  "ParseDCID b =
     (if length b < 7 \<or> b ! 0 AND 0x80 = 0 then Some None
      else do {
        d \<leftarrow> idx b 5;
        if length b < 6 + unat d then Some None
        else map_option Some (gslice b 6 (6 + unat d)) })"

text \<open>The lengths of both connection ids and where they end; the inner None is the error\<close>
definition cidLens :: "bytes \<Rightarrow> (nat \<times> nat \<times> nat) option option" where
  "cidLens b =
     (if length b < 1 then Some None
      else do {
        d \<leftarrow> idx b 0;
        if length b < 1 + unat d + 1 then Some None
        else do {
          s \<leftarrow> idx b (1 + unat d);
          if length b < 2 + unat d + unat s then Some None
          else Some (Some (unat d, unat s, 2 + unat d + unat s)) } })"

function crypto_loop :: "nat \<Rightarrow> bytes \<Rightarrow> bytes option option" where
  "crypto_loop W payload =
     (if length payload > 0 then
        let (ftype, n) = readVar payload in
        if n = 0 then Some None
        else do {
          payload' \<leftarrow> slice_from payload n;
          let (off, m) = readVar payload';
          if m = 0 then Some None
          else do {
            r \<leftarrow> slice_from payload' m;
            let (len, k) = readVar r;
            let total = goint W (int (m + k) + goint W (int len));
            if k = 0 then Some None
            else if int (length payload') < total then Some None
            else if ftype \<noteq> 0x06 then do { p \<leftarrow> slice_at payload' total; crypto_loop W p }
            else map_option Some (gslice_at payload' (m + k) total) } }
      else Some None)"
  by pat_completeness auto
termination
  by (relation "measure (\<lambda>(W, payload). length payload)") (auto simp: slice_from_Some_iff slice_at_def split: if_splits)

declare crypto_loop.simps [simp del]

definition ExtractCrypto :: "nat \<Rightarrow> bytes \<Rightarrow> bytes option option" where
  "ExtractCrypto W initial = do {
     i \<leftarrow> IsInitial initial;
     if \<not> i then Some None
     else do {
       r \<leftarrow> slice_from initial 6;
       c \<leftarrow> cidLens r;
       case c of None \<Rightarrow> Some None
       | Some (d, s, skip) \<Rightarrow> do { payload \<leftarrow> slice_from initial (6 + skip); crypto_loop W payload } } }"

section \<open>Decryption\<close>

type_synonym hp_fun = "bytes \<Rightarrow> bytes"
type_synonym aead_fun = "bytes \<Rightarrow> bytes \<Rightarrow> bytes \<Rightarrow> bytes option"

text \<open>\<open>pnBytes[i] = packet[pnOff+i] ^ mask[1+i]\<close>\<close>
primrec unmask :: "bytes \<Rightarrow> nat \<Rightarrow> bytes \<Rightarrow> nat \<Rightarrow> bytes option" where
  "unmask packet pnOff msk 0 = Some []"
| "unmask packet pnOff msk (Suc n) = do {
     ps \<leftarrow> unmask packet pnOff msk n;
     a \<leftarrow> idx packet (pnOff + n);
     b \<leftarrow> idx msk (1 + n);
     Some (ps @ [a XOR b]) }"

text \<open>\<open>nonce[len(nonce)-pnLen+i] ^= pnBytes[i]\<close>; an iv shorter than the packet number would be a negative index.\<close>
fun xor_tail :: "bytes \<Rightarrow> nat \<Rightarrow> bytes \<Rightarrow> bytes option" where
  "xor_tail nonce at [] = Some nonce"
| "xor_tail nonce at (p # ps) = do { a \<leftarrow> idx nonce at; n \<leftarrow> upd nonce at (a XOR p); xor_tail n (at + 1) ps }"

text \<open>The part of the header that \<open>DecryptInitial\<close> skips: the offset behind both connection ids, or an error\<close>
definition skip_cids :: "bytes \<Rightarrow> nat option option" where
  "skip_cids packet =
     (if length packet < 5 + 1 then Some None
      else do {
        d \<leftarrow> idx packet 5;
        if length packet < 6 + unat d + 1 then Some None
        else do {
          s \<leftarrow> idx packet (6 + unat d);
          if length packet < 7 + unat d + unat s then Some None
          else Some (Some (7 + unat d + unat s)) } })"

text \<open>Where the packet number starts. The end of the token is compared with the packet, but only from above.\<close>
definition pn_offset :: "nat \<Rightarrow> bytes \<Rightarrow> nat option option" where
  "pn_offset W packet = do {
     r \<leftarrow> skip_cids packet;
     case r of None \<Rightarrow> Some None
     | Some off \<Rightarrow> do {
         r \<leftarrow> slice_from packet off;
         let (tlen, n) = readVar r;
         let off = goint W (int (off + n) + goint W (int tlen));
         if n = 0 \<or> int (length packet) < off then Some None
         else do {
           r2 \<leftarrow> slice_at packet off;
           let (len, m) = readVar r2;
           if m = 0 then Some None else Some (Some (nat off + m)) } } }"

definition DecryptInitial ::
  "nat \<Rightarrow> (bytes \<Rightarrow> uint32 \<Rightarrow> (hp_fun \<times> aead_fun \<times> bytes) option) \<Rightarrow> bytes \<Rightarrow> bytes \<Rightarrow> bytes option option" where
  "DecryptInitial W derive dcid packet =
     (if length packet < 7 \<or> packet ! 0 AND 0x80 = 0 then Some None
      else do {
        ver \<leftarrow> be32 packet 1;
        case derive dcid ver of None \<Rightarrow> Some None
        | Some (hp, aead, iv) \<Rightarrow> do {
            r \<leftarrow> pn_offset W packet;
            case r of None \<Rightarrow> Some None
            | Some pnOff \<Rightarrow>
                if pnOff + 4 + 16 > length packet then Some None
                else do {
                  sample \<leftarrow> gslice packet (pnOff + 4) (pnOff + 4 + 16);
                  let msk = hp sample;
                  m0 \<leftarrow> idx msk 0;
                  p0 \<leftarrow> idx packet 0;
                  let first = p0 XOR (m0 AND 0x0f);
                  let pnLen = unat ((first AND 0x03) + 1);
                  if pnOff + pnLen > length packet then Some None
                  else do {
                    pnBytes \<leftarrow> unmask packet pnOff msk pnLen;
                    hdr \<leftarrow> gslice packet 0 pnOff;
                    aad \<leftarrow> upd hdr 0 first;
                    nonce \<leftarrow> (if length iv < pnLen then None else xor_tail iv (length iv - pnLen) pnBytes);
                    ct \<leftarrow> slice_from packet (pnOff + pnLen);
                    Some (aead nonce ct (aad @ pnBytes)) } } } })"

section \<open>\<^verbatim>\<open>locate.go\<close>\<close>

text \<open>Here the length of the token is not checked before the slice behind it.\<close>
definition parseHeaderLength :: "nat \<Rightarrow> (bytes \<Rightarrow> uint32 \<Rightarrow> hp_fun option) \<Rightarrow> bytes \<Rightarrow> (nat \<times> nat) option option" where
  "parseHeaderLength W deriveHP packet =
     (if length packet < 7 then Some None
      else do {
        d \<leftarrow> idx packet 5;
        let dlen = unat d;
        if length packet < 6 + dlen then Some None
        else do {
          dcid \<leftarrow> gslice packet 6 (6 + dlen);
          let off = 6 + dlen;
          if length packet < off + 1 then Some None
          else do {
            s \<leftarrow> idx packet off;
            let off = off + 1;
            if length packet < off + unat s then Some None
            else do {
              let off = off + unat s;
              r \<leftarrow> slice_from packet off;
              let (tlen, n) = readVar r;
              if n = 0 then Some None
              else do {
                let off = goint W (int (off + n) + goint W (int tlen));
                r2 \<leftarrow> slice_at packet off;
                let (len, m) = readVar r2;
                if m = 0 then Some None
                else do {
                  let pnOff = nat off + m;
                  if pnOff + 4 + 16 > length packet then Some None
                  else do {
                    ver \<leftarrow> be32 packet 1;
                    case deriveHP dcid ver of None \<Rightarrow> Some (Some (pnOff, 2))
                    | Some hp \<Rightarrow> do {
                        sample \<leftarrow> gslice packet (pnOff + 4) (pnOff + 4 + 16);
                        m0 \<leftarrow> idx (hp sample) 0;
                        p0 \<leftarrow> idx packet 0;
                        let first = p0 XOR (m0 AND 0x0f);
                        Some (Some (pnOff, unat ((first AND 0x03) + 1))) } } } } } } } })"

function ch_exts :: "bytes \<Rightarrow> nat \<Rightarrow> nat \<Rightarrow> (nat \<times> nat) option option" where
  "ch_exts ch extEnd pos =
     (if pos + 4 \<le> extEnd then do {
        extType \<leftarrow> be16 ch pos;
        l \<leftarrow> be16 ch (pos + 2);
        let extDataLen = unat l;
        if pos + 4 + extDataLen > extEnd then Some None
        else if extType = 0 then
          if extDataLen < 5 then Some None
          else do {
            nl \<leftarrow> be16 ch (pos + 4 + 3);
            if pos + 4 + 5 + unat nl > pos + 4 + extDataLen then Some None
            else Some (Some (pos + 4 + 5, unat nl)) }
        else ch_exts ch extEnd (pos + 4 + extDataLen) }
      else Some None)"
  by pat_completeness auto
termination
  by (relation "measure (\<lambda>(ch, e, pos). e - pos)") auto

declare ch_exts.simps [simp del]

definition locateSNIInClientHello :: "bytes \<Rightarrow> (nat \<times> nat) option option" where
  "locateSNIInClientHello ch =
     (if length ch < 4 then Some None
      else do {
        t \<leftarrow> idx ch 0;
        if t \<noteq> 0x01 then Some None
        else if 4 + 34 > length ch then Some None
        else if 38 \<ge> length ch then Some None
        else do {
          s \<leftarrow> idx ch 38;
          let pos = 39 + unat s;
          if pos + 2 > length ch then Some None
          else do {
            cs \<leftarrow> be16 ch pos;
            let pos = pos + (2 + unat cs);
            if pos \<ge> length ch then Some None
            else do {
              c \<leftarrow> idx ch pos;
              let pos = pos + 1 + unat c;
              if pos + 2 > length ch then Some None
              else do {
                el \<leftarrow> be16 ch pos;
                let pos = pos + 2;
                ch_exts ch (min (pos + unat el) (length ch)) pos } } } } })"

function locate_loop :: "nat \<Rightarrow> bytes \<Rightarrow> nat \<Rightarrow> (nat \<times> nat) option option" where
  "locate_loop W plain pos =
     (if pos < length plain then do {
        t \<leftarrow> idx plain pos;
        if t = 0x00 \<or> t = 0x01 then locate_loop W plain (pos + 1)
        else if t \<noteq> 0x06 then Some None
        else do {
          r \<leftarrow> slice_from plain (pos + 1);
          let (cryptoOff, n) = readVar r;
          if n = 0 then Some None
          else do {
            r2 \<leftarrow> slice_from plain (pos + 1 + n);
            let (cryptoLen, n2) = readVar r2;
            if n2 = 0 then Some None
            else do {
              let start = pos + 1 + n + n2;
              let fin = goint W (int start + goint W (int cryptoLen));
              if fin > int (length plain) then Some None
              else do {
                cryptoData \<leftarrow> gslice_at plain start fin;
                f \<leftarrow> locateSNIInClientHello cryptoData;
                case f of
                  Some (o', l) \<Rightarrow> if cryptoOff = 0 then Some (Some (start + o', l)) else locate_loop W plain (nat fin)
                | None \<Rightarrow> locate_loop W plain (nat fin) } } } } }
      else Some None)"
  by pat_completeness auto
termination
  by (relation "measure (\<lambda>(W, plain, pos). length plain - pos)") (auto simp: gslice_at_def gslice_def split: if_splits)

declare locate_loop.simps [simp del]

definition locateSNIInCrypto :: "nat \<Rightarrow> bytes \<Rightarrow> (nat \<times> nat) option option" where
  "locateSNIInCrypto W plain = locate_loop W plain 0"

definition LocateSNIOffset ::
  "nat \<Rightarrow> (bytes \<Rightarrow> uint32 \<Rightarrow> hp_fun option) \<Rightarrow> (bytes \<Rightarrow> uint32 \<Rightarrow> (hp_fun \<times> aead_fun \<times> bytes) option) \<Rightarrow> bytes \<Rightarrow> (int \<times> int) option" where
  "LocateSNIOffset W deriveHP derive packet = do {
     i \<leftarrow> IsInitial packet;
     if \<not> i then Some (- 1, 0)
     else do {
       h \<leftarrow> parseHeaderLength W deriveHP packet;
       case h of None \<Rightarrow> Some (- 1, 0)
       | Some (headerLen, pnLen) \<Rightarrow> do {
           d \<leftarrow> ParseDCID packet;
           case d of None \<Rightarrow> Some (- 1, 0)
           | Some dcid \<Rightarrow> do {
               p \<leftarrow> DecryptInitial W derive dcid packet;
               case p of None \<Rightarrow> Some (- 1, 0)
               | Some plain \<Rightarrow> do {
                   f \<leftarrow> locateSNIInCrypto W plain;
                   Some (case f of None \<Rightarrow> (- 1, 0) | Some (o', l) \<Rightarrow> (int (headerLen + pnLen + o'), int l)) } } } } }"

section \<open>\<^verbatim>\<open>sni/quic.go\<close>\<close>

text \<open>The readers of \<^verbatim>\<open>cryptobyte.String\<close>: the value read and the rest of the string, or None when the read fails\<close>
record cryptobyte =
  cb_Empty :: "bytes \<Rightarrow> bool"
  Skip :: "bytes \<Rightarrow> nat \<Rightarrow> bytes option"
  ReadUint8 :: "bytes \<Rightarrow> (byte \<times> bytes) option"
  ReadUint16 :: "bytes \<Rightarrow> (uint16 \<times> bytes) option"
  ReadUint8LengthPrefixed :: "bytes \<Rightarrow> (bytes \<times> bytes) option"
  ReadUint16LengthPrefixed :: "bytes \<Rightarrow> (bytes \<times> bytes) option"
  ReadUint24LengthPrefixed :: "bytes \<Rightarrow> (bytes \<times> bytes) option"

text \<open>The loop over the extensions of a hello: \<open>Some None\<close> when the list ends, \<open>Some (Some r)\<close> when the function returns \<open>r\<close>,
  of which None is the error, and None when the loop would not end. The inner loop over the names returns in its first round.\<close>
partial_function (option) quic_exts :: "cryptobyte \<Rightarrow> bytes \<Rightarrow> bytes option option option" where
  "quic_exts c exts =
     (if cb_Empty c exts then Some None
      else case ReadUint16 c exts of None \<Rightarrow> Some (Some None)
      | Some (typ, exts) \<Rightarrow> (case ReadUint16LengthPrefixed c exts of None \<Rightarrow> Some (Some None)
        | Some (extData, exts) \<Rightarrow>
            if typ \<noteq> 0 then quic_exts c exts
            else (case ReadUint16LengthPrefixed c extData of None \<Rightarrow> Some (Some None)
              | Some (sniList, extData) \<Rightarrow>
                  if cb_Empty c sniList then quic_exts c exts
                  else (case ReadUint8 c sniList of None \<Rightarrow> Some (Some None)
                    | Some (nameType, sniList) \<Rightarrow>
                        if nameType \<noteq> 0 then Some (Some None)
                        else (case ReadUint16LengthPrefixed c sniList of None \<Rightarrow> Some (Some None)
                          | Some (host, sniList) \<Rightarrow> if length host = 0 then Some (Some None) else Some (Some (Some host)))))))"

text \<open>The fields of a hello before its extensions; None is the error.\<close>
definition quic_hello :: "cryptobyte \<Rightarrow> bytes \<Rightarrow> bytes option" where
  "quic_hello c body = do {
     ch \<leftarrow> Skip c body (2 + 32);
     (sid, ch) \<leftarrow> ReadUint8LengthPrefixed c ch;
     (ciphers, ch) \<leftarrow> ReadUint16LengthPrefixed c ch;
     (comp, ch) \<leftarrow> ReadUint8LengthPrefixed c ch;
     (exts, ch) \<leftarrow> ReadUint16LengthPrefixed c ch;
     Some exts }"

text \<open>The loop over the handshake messages; the inner None is the error.\<close>
partial_function (option) extractSNIFromQUIC :: "cryptobyte \<Rightarrow> bytes \<Rightarrow> bytes option option" where
  "extractSNIFromQUIC c s =
     (if cb_Empty c s then Some None
      else case ReadUint8 c s of None \<Rightarrow> Some None
      | Some (hsType, s) \<Rightarrow> (case ReadUint24LengthPrefixed c s of None \<Rightarrow> Some None
        | Some (body, s) \<Rightarrow>
            if hsType \<noteq> 1 then extractSNIFromQUIC c s
            else (case quic_hello c body of None \<Rightarrow> Some None
              | Some exts \<Rightarrow> (quic_exts c exts \<bind> (\<lambda>r. case r of Some r \<Rightarrow> Some r | None \<Rightarrow> extractSNIFromQUIC c s)))))"

text \<open>\<open>assembleSafe\<close> turns a panic into a failure.\<close>
definition ParseQUICClientHelloSNI ::
  "nat \<Rightarrow> (bytes \<Rightarrow> uint32 \<Rightarrow> (hp_fun \<times> aead_fun \<times> bytes) option) \<Rightarrow> cryptobyte \<Rightarrow> (nat \<Rightarrow> gotime) \<Rightarrow> bytes \<Rightarrow> cryptoMap \<Rightarrow>
   (cryptoMap \<times> bytes option) option" where
  "ParseQUICClientHelloSNI W derive c now payload cmap = do {
     i \<leftarrow> IsInitial payload;
     if \<not> i then Some (cmap, None)
     else do {
       d \<leftarrow> ParseDCID payload;
       let dcid = (case d of Some x \<Rightarrow> x | None \<Rightarrow> []);
       p \<leftarrow> DecryptInitial W derive dcid payload;
       case p of None \<Rightarrow> Some (cmap, None)
       | Some plain \<Rightarrow>
           let (cmap, a) = (case AssembleCrypto W now dcid plain cmap of Some r \<Rightarrow> r | None \<Rightarrow> (cmap, None))
           in case a of None \<Rightarrow> Some (cmap, None)
              | Some crypto \<Rightarrow>
                  if length crypto = 0 then Some (cmap, None)
                  else do {
                    h \<leftarrow> extractSNIFromQUIC c crypto;
                    Some (case h of Some host \<Rightarrow> if length host = 0 then (cmap, None) else (ClearDCID dcid cmap, Some host)
                      | None \<Rightarrow> (cmap, None)) } } }"

section \<open>Integers are read within the slice\<close>

lemma foldl_bytes_bound: "v < 2 ^ k \<Longrightarrow> foldl (\<lambda>v x. v * 256 + unat (x :: byte)) v bs < 2 ^ (k + 8 * length bs)"
proof (induction bs arbitrary: v k)
  case (Cons x bs)
  have "v * 256 + unat x < 2 ^ (k + 8)" using Cons.prems unat_byte_bound [of x] by (simp add: power_add)
  then have "foldl (\<lambda>v x. v * 256 + unat x) (v * 256 + unat x) bs < 2 ^ (k + 8 + 8 * length bs)" by (rule Cons.IH)
  then show ?case by (simp add: algebra_simps)
qed simp

lemma top_bits: "unat (drop_bit 6 (b :: byte)) \<in> {0, 1, 2, 3}" "unat (b AND 0x3F) < 64"
proof -
  have "unat (drop_bit 6 b) = unat b div 64" by (simp add: drop_bit_eq_div unat_div)
  then have "unat (drop_bit 6 b) < 4" using unat_byte_bound [of b] by simp
  then show "unat (drop_bit 6 b) \<in> {0, 1, 2, 3}" by auto
  have "unat (b AND 0x3F) \<le> 63" by (rule word_and_le1 [THEN word_le_nat_alt [THEN iffD1], of b 63, simplified])
  then show "unat (b AND 0x3F) < 64" by simp
qed

lemma readVar_bound: "readVar b = (v, n) \<Longrightarrow> n \<le> length b \<and> v < 2 ^ 62 \<and> (n = 0 \<or> n \<in> {1, 2, 4, 8})"
proof -
  assume r: "readVar b = (v, n)"
  let ?k = "unat (drop_bit 6 (b ! 0))"
  show ?thesis
  proof (cases "length b = 0 \<or> length b < 2 ^ ?k")
    case False
    then have n: "n = 2 ^ ?k" "n \<le> length b" and v: "v = foldl (\<lambda>v x. v * 256 + unat x) (unat (b ! 0 AND 0x3F)) (take (n - 1) (drop 1 b))"
      using r by (auto simp: readVar_def Let_def)
    have "v < 2 ^ (6 + 8 * length (take (n - 1) (drop 1 b)))" unfolding v by (rule foldl_bytes_bound) (use top_bits(2) in simp)
    also have "\<dots> \<le> 2 ^ 62" by (rule power_increasing) (use n top_bits(1) [of "b ! 0"] in auto)
    finally show ?thesis using n top_bits(1) [of "b ! 0"] by auto
  next
    case True
    then have "v = 0 \<and> n = 0" using r by (auto simp: readVar_def Let_def split: if_splits)
    then show ?thesis by simp
  qed
qed

lemma goint_id: "0 < W \<Longrightarrow> - (2 ^ (W - 1)) \<le> x \<Longrightarrow> x < 2 ^ (W - 1) \<Longrightarrow> goint W x = x"
proof -
  assume a: "0 < W" "- (2 ^ (W - 1)) \<le> x" "x < 2 ^ (W - 1)"
  have "(2 :: int) ^ W = 2 * 2 ^ (W - 1)" using a(1) by (cases W) simp_all
  then show ?thesis using a by (simp add: goint_def)
qed

text \<open>With 64 bits nothing wraps: an integer of the packet is below \<open>2 ^ 62\<close>.\<close>
lemma goint64:
  assumes "v < 2 ^ 62"
  shows "goint 64 (int v) = int v" "a \<le> 2 ^ 62 \<Longrightarrow> goint 64 (int a + int v) = int (a + v)"
proof -
  have v: "int v < 2 ^ 62" using assms by (metis of_nat_less_iff of_nat_numeral of_nat_power)
  then show "goint 64 (int v) = int v" by (intro goint_id) auto
  assume "a \<le> 2 ^ 62"
  then have "int a \<le> 2 ^ 62" by (metis of_nat_le_iff of_nat_numeral of_nat_power)
  then have "goint 64 (int a + int v) = int a + int v" using v by (intro goint_id) auto
  then show "goint 64 (int a + int v) = int (a + v)" by simp
qed

lemma readVar64:
  assumes "readVar b = (v, n)" "a \<le> 2 ^ 62"
  shows "goint 64 (int v) = int v" "goint 64 (int a + goint 64 (int v)) = int (a + v)" "goint 64 (int a + int v) = int (a + v)"
  using readVar_bound [OF assms(1)] assms(2) by (simp_all only: goint64)

lemma frames_loop_total: "length plain \<le> 2 ^ 62 \<Longrightarrow> \<exists>fs. frames_loop 64 plain i = Some fs"
proof (induction "length plain - i" arbitrary: i rule: less_induct)
  case less
  show ?case
  proof (cases "i < length plain")
    case True
    then have t: "idx plain i = Some (plain ! i)" "slice_from plain (i + 1) = Some (drop (i + 1) plain)" by (auto simp: idx_ok slice_from_ok)
    obtain off n where a: "readVarint (drop (i + 1) plain) = (off, n)" by force
    have n: "n \<le> length plain - (i + 1)" using readVar_bound [of "drop (i + 1) plain" off n] a by (simp add: readVarint_eq)
    then have s: "slice_from plain (i + 1 + n) = Some (drop (i + 1 + n) plain)" using True by (intro slice_from_ok) linarith
    obtain ln n2 where c: "readVarint (drop (i + 1 + n) plain) = (ln, n2)" by force
    then have rv: "readVar (drop (i + 1 + n) plain) = (ln, n2)" by (simp add: readVarint_eq)
    have "n2 \<le> length (drop (i + 1 + n) plain)" using readVar_bound [OF rv] by blast
    then have n2: "i + 1 + n + n2 \<le> length plain" using n True unfolding length_drop by linarith
    let ?st = "i + 1 + n + n2"
    have "?st \<le> 2 ^ 62" using less.prems n2 by linarith
    note g64 = readVar64 [OF rv this]
    have ih: "\<exists>fs. frames_loop 64 plain q = Some fs" if "i < q" for q
      by (rule less.hyps) (use that True less.prems in auto)
    obtain f1 f2 f3 where f: "frames_loop 64 plain (?st + ln) = Some f1" "frames_loop 64 plain (i + 1) = Some f2"
        "frames_loop 64 plain (i + 1 + length (takeWhile (\<lambda>x. x = 0) (drop (i + 1) plain))) = Some f3"
      using ih [of "?st + ln"] ih [of "i + 1"] ih [of "i + 1 + length (takeWhile (\<lambda>x. x = 0) (drop (i + 1) plain))"] by auto
    have g: "gslice_at plain ?st (int (?st + ln)) = Some (take ln (drop ?st plain))" if "\<not> int ln > int (length plain) - int (i + 1 + n) - int n2"
      using that by (simp add: gslice_at_def gslice_ok del: of_nat_add of_nat_Suc)
    show ?thesis
      unfolding frames_loop.simps [of 64 plain i] if_P [OF True] t bind.bind_lunit a s c prod.case Let_def g64 nat_int f
      using g by (auto simp del: of_nat_add)
  qed (simp add: frames_loop.simps [of 64 plain i])
qed

section \<open>The buffer\<close>

definition cb_ok :: "cbuf \<Rightarrow> bool" where
  "cb_ok b \<longleftrightarrow> length (cb_mask b) = length (cb_data b) \<and> length (cb_data b) \<le> maxBufSize \<and> cb_head b \<le> length (cb_data b)"

lemma mark_ok: "i + n \<le> length m \<Longrightarrow> mark n i m = Some (take i m @ replicate n 1 @ drop (i + n) m)"
proof (induction n arbitrary: i m)
  case (Suc n)
  let ?m = "m[i := 1]"
  have "mark (Suc n) i m = mark n (i + 1) ?m" using Suc.prems by (simp add: upd_ok)
  also have "\<dots> = Some (take (i + 1) ?m @ replicate n 1 @ drop (i + 1 + n) ?m)" by (rule Suc.IH) (use Suc.prems in simp)
  also have "\<dots> = Some (take i m @ replicate (Suc n) 1 @ drop (i + Suc n) m)"
    using Suc.prems by (simp add: take_Suc_conv_app_nth)
  finally show ?case .
qed simp

lemma ensure_ok:
  assumes "cb_ok b" "n \<le> maxBufSize"
  shows "length (cb_data (ensure n b)) = max n (length (cb_data b))" "length (cb_mask (ensure n b)) = max n (length (cb_data b))"
    "cb_head (ensure n b) = cb_head b"
    "i < length (cb_data (ensure n b)) \<Longrightarrow> cb_data (ensure n b) ! i = (if i < length (cb_data b) then cb_data b ! i else 0)"
    "i < length (cb_data (ensure n b)) \<Longrightarrow> cb_mask (ensure n b) ! i = (if i < length (cb_data b) then cb_mask b ! i else 0)"
  using assms by (auto simp: ensure_def cb_ok_def nth_append)

text \<open>What a write does when it fits\<close>
lemma cbuf_write_ok:
  assumes "cb_ok b" "off + length p \<le> maxBufSize"
  defines "c \<equiv> ensure (off + length p) b"
  shows "\<exists>d m. cbuf_write now off p b = Some (b\<lparr>cb_data := d, cb_mask := m,
       cb_head := cb_head b + length (takeWhile (\<lambda>x. x = 1) (drop (cb_head b) m)), cb_lastAccess := now\<rparr>) \<and>
     length d = max (off + length p) (length (cb_data b)) \<and> length m = length d \<and>
     (\<forall>i < length d. d ! i = (if off \<le> i \<and> i < off + length p then p ! (i - off) else if i < length (cb_data b) then cb_data b ! i else 0) \<and>
       m ! i = (if off \<le> i \<and> i < off + length p then 1 else if i < length (cb_data b) then cb_mask b ! i else 0))"
proof -
  note e = ensure_ok [OF assms(1,2), folded c_def]
  let ?d = "blit (cb_data c) off p" and ?m = "blit (cb_mask c) off (replicate (length p) 1)"
  have "copy_into (cb_data c) off (off + length p) p = Some ?d" by (simp add: copy_into_ok blit_def e)
  moreover have "mark (length p) off (cb_mask c) = Some ?m" by (simp add: mark_ok blit_def e)
  ultimately have "cbuf_write now off p b = Some (b\<lparr>cb_data := ?d, cb_mask := ?m,
       cb_head := cb_head b + length (takeWhile (\<lambda>x. x = 1) (drop (cb_head b) ?m)), cb_lastAccess := now\<rparr>)"
    using assms(2) e(1,3) by (simp add: cbuf_write_def c_def [symmetric] Let_def)
  moreover have "\<forall>i < length ?d. ?d ! i = (if off \<le> i \<and> i < off + length p then p ! (i - off) else if i < length (cb_data b) then cb_data b ! i else 0) \<and>
       ?m ! i = (if off \<le> i \<and> i < off + length p then 1 else if i < length (cb_data b) then cb_mask b ! i else 0)"
    using e by (auto simp: blit_nth)
  ultimately show ?thesis using e(1,2) by (intro exI [of _ ?d] exI [of _ ?m]) auto
qed

section \<open>Reassembly\<close>

text \<open>The bytes that frames bring, and the frames that belong to a stream\<close>
definition covered :: "cryptoFrame list \<Rightarrow> nat \<Rightarrow> bool" where
  "covered fs i \<longleftrightarrow> (\<exists>(o', b) \<in> set fs. o' \<le> i \<and> i < o' + length b)"

definition piece_of :: "bytes \<Rightarrow> cryptoFrame \<Rightarrow> bool" where
  "piece_of S f = (case f of (o', b) \<Rightarrow> o' + length b \<le> length S \<and> b = take (length b) (drop o' S))"

lemma covered_Cons: "covered ((o', b) # fs) i \<longleftrightarrow> o' \<le> i \<and> i < o' + length b \<or> covered fs i"
  by (auto simp: covered_def)

text \<open>The buffer holds the pieces of the stream written so far.\<close>
definition holds :: "bytes \<Rightarrow> cryptoFrame list \<Rightarrow> cbuf \<Rightarrow> bool" where
  "holds S fs b \<longleftrightarrow> length (cb_mask b) = length (cb_data b) \<and> length (cb_data b) \<le> length S \<and>
     (\<forall>i < length (cb_data b). cb_mask b ! i = (if covered fs i then 1 else 0) \<and> (covered fs i \<longrightarrow> cb_data b ! i = S ! i)) \<and>
     (\<forall>i. covered fs i \<longrightarrow> i < length (cb_data b)) \<and> cb_head b = length (takeWhile (\<lambda>x. x = 1) (cb_mask b))"

lemma length_takeWhile_skip:
  assumes "h \<le> length m" "\<forall>i < h. P (m ! i)"
  shows "length (takeWhile P m) = h + length (takeWhile P (drop h m))"
proof -
  have "\<forall>x \<in> set (take h m). P x" using assms by (auto simp: in_set_conv_nth)
  then have "takeWhile P (take h m @ drop h m) = take h m @ takeWhile P (drop h m)" by (intro takeWhile_append2) blast
  then show ?thesis using assms(1) by simp
qed

lemma head_prefix:
  assumes "h = length (takeWhile (\<lambda>x. x = (1 :: byte)) m)"
  shows "h \<le> length m" "i < h \<Longrightarrow> m ! i = 1" "h < length m \<Longrightarrow> m ! h \<noteq> 1"
proof -
  show "h \<le> length m" using assms by (simp add: length_takeWhile_le)
  show "m ! i = 1" if "i < h"
  proof -
    have "takeWhile (\<lambda>x. x = 1) m ! i \<in> set (takeWhile (\<lambda>x. x = 1) m)" using that assms by (intro nth_mem) simp
    then have "takeWhile (\<lambda>x. x = 1) m ! i = 1" by (auto dest: set_takeWhileD)
    then show ?thesis using takeWhile_nth [of i "\<lambda>x. x = 1" m] that assms by simp
  qed
  show "m ! h \<noteq> 1" if "h < length m" using nth_length_takeWhile [of "\<lambda>x. x = 1" m] that assms by simp
qed

lemma holds_ok: "holds S fs b \<Longrightarrow> length S \<le> maxBufSize \<Longrightarrow> cb_ok b"
  using head_prefix(1) [of "cb_head b" "cb_mask b"] by (auto simp: holds_def cb_ok_def)

lemma holds_write:
  assumes "holds S fs b" "length S \<le> maxBufSize" "piece_of S (off, p)"
  shows "\<exists>b'. cbuf_write now off p b = Some b' \<and> holds S ((off, p) # fs) b'"
proof -
  have pc: "off + length p \<le> length S" "p = take (length p) (drop off S)" using assms(3) by (auto simp: piece_of_def)
  obtain d m where w: "cbuf_write now off p b = Some (b\<lparr>cb_data := d, cb_mask := m,
       cb_head := cb_head b + length (takeWhile (\<lambda>x. x = 1) (drop (cb_head b) m)), cb_lastAccess := now\<rparr>)"
      "length d = max (off + length p) (length (cb_data b))" "length m = length d"
      "\<forall>i < length d. d ! i = (if off \<le> i \<and> i < off + length p then p ! (i - off) else if i < length (cb_data b) then cb_data b ! i else 0) \<and>
         m ! i = (if off \<le> i \<and> i < off + length p then 1 else if i < length (cb_data b) then cb_mask b ! i else 0)"
    using cbuf_write_ok [OF holds_ok [OF assms(1,2)], of off p now] pc(1) assms(2) by auto
  have hb: "cb_head b \<le> length (cb_data b)" "\<forall>i < cb_head b. cb_mask b ! i = 1"
    using head_prefix(1,2) [of "cb_head b" "cb_mask b"] assms(1) by (auto simp: holds_def)
  have "length (takeWhile (\<lambda>x. x = 1) m) = cb_head b + length (takeWhile (\<lambda>x. x = 1) (drop (cb_head b) m))"
    by (rule length_takeWhile_skip) (use w(2-4) hb in auto)
  moreover have "p ! (i - off) = S ! i" if "off \<le> i" "i < off + length p" for i
  proof -
    have "p ! (i - off) = take (length p) (drop off S) ! (i - off)" using arg_cong [OF pc(2), of "\<lambda>x. x ! (i - off)"] .
    also have "\<dots> = S ! i" using that pc(1) by simp
    finally show ?thesis .
  qed
  ultimately have "holds S ((off, p) # fs) (b\<lparr>cb_data := d, cb_mask := m,
       cb_head := cb_head b + length (takeWhile (\<lambda>x. x = 1) (drop (cb_head b) m)), cb_lastAccess := now\<rparr>)"
    using w(2-4) assms(1) pc(1) by (auto simp: holds_def covered_Cons)
  then show ?thesis using w(1) by blast
qed

lemma holds_head: "holds S fs b \<Longrightarrow> cb_head b \<le> length S"
  using head_prefix(1) [of "cb_head b" "cb_mask b"] by (auto simp: holds_def)

lemma holds_write_frames:
  assumes "length S \<le> maxBufSize"
  shows "holds S gs b \<Longrightarrow> list_all (piece_of S) fs \<Longrightarrow> \<exists>b'. write_frames now k fs b = Some (b', False) \<and> holds S (rev fs @ gs) b'"
proof (induction fs arbitrary: gs b k)
  case (Cons f fs)
  obtain off p where f: "f = (off, p)" by force
  have l: "length S \<le> 2 ^ 20" using assms by (simp add: maxBufSize_def)
  obtain c where c: "cbuf_write (now k) off p b = Some c" "holds S (f # gs) c" using holds_write [OF Cons.prems(1) assms, of off p "now k"] Cons.prems(2) f by auto
  have "\<not> off > 2 ^ 20" using Cons.prems(2) l by (auto simp: f piece_of_def)
  moreover have "\<not> cb_head c > 2 ^ 20" using holds_head [OF c(2)] l by linarith
  ultimately show ?case using Cons.IH [OF c(2), of "k + 1"] Cons.prems(2) c(1) by (simp add: f)
qed simp

text \<open>The part that is complete from the start\<close>
lemma holds_snapshot:
  assumes "holds S fs b"
  shows "snapshot b = Some (if cb_head b = 0 then None else Some (take (cb_head b) S)) \<and> (\<forall>i < cb_head b. covered fs i) \<and>
    (cb_head b < length S \<longrightarrow> \<not> covered fs (cb_head b))"
proof -
  let ?h = "cb_head b"
  have m: "length (cb_mask b) = length (cb_data b)" "?h = length (takeWhile (\<lambda>x. x = 1) (cb_mask b))" using assms by (simp_all add: holds_def)
  note p = head_prefix [OF m(2)]
  have c: "covered fs i" if "i < ?h" for i
    using p(1) p(2) [OF that] that assms m(1) by (auto simp: holds_def split: if_splits)
  have "take ?h (cb_data b) = take ?h S"
    by (rule nth_equalityI) (use p(1) m(1) assms c in \<open>auto simp: holds_def\<close>)
  moreover have "\<not> covered fs ?h" using p(3) assms m(1) by (auto simp: holds_def)
  ultimately show ?thesis using c p(1) m(1) by (simp add: snapshot_def gslice_ok)
qed

text \<open>Packets of one connection, one after the other; the last result counts.\<close>
fun assemble_run :: "nat \<Rightarrow> (nat \<Rightarrow> gotime) \<Rightarrow> bytes \<Rightarrow> bytes list \<Rightarrow> cryptoMap \<Rightarrow> bytes option \<Rightarrow> (cryptoMap \<times> bytes option) option" where
  "assemble_run W now dcid [] cmap r = Some (cmap, r)"
| "assemble_run W now dcid (p # ps) cmap r = do { (cmap, r) \<leftarrow> AssembleCrypto W now dcid p cmap; assemble_run W now dcid ps cmap r }"

lemma assemble_step:
  assumes "length S \<le> maxBufSize" "holds S gs b" "gget cmap dcid = Some b \<or> gget cmap dcid = None \<and> gs = [] \<and> cb_data b = []"
    and "dcid \<noteq> []" "parseCryptoFrames W p = Some fs" "fs \<noteq> []" "list_all (piece_of S) fs"
  shows "\<exists>cmap' b'. AssembleCrypto W now dcid p cmap = Some (cmap', if cb_head b' = 0 then None else Some (take (cb_head b') S)) \<and>
    gget cmap' dcid = Some b' \<and> holds S (rev fs @ gs) b'"
proof -
  let ?b = "case gget cmap dcid of Some b \<Rightarrow> b | None \<Rightarrow> \<lparr>cb_data = [], cb_mask = [], cb_head = 0, cb_lastAccess = now 0\<rparr>"
  have h: "holds S gs ?b" using assms(2,3) by (auto simp: holds_def)
  have p: "p \<noteq> []" using assms(5,6) by (auto simp: parseCryptoFrames_def frames_loop.simps)
  obtain c where c: "write_frames now 1 fs ?b = Some (c, False)" "holds S (rev fs @ gs) c"
    using holds_write_frames [OF assms(1) h assms(7)] by blast
  have s: "snapshot c = Some (if cb_head c = 0 then None else Some (take (cb_head c) S))" using holds_snapshot [OF c(2)] by blast
  have "AssembleCrypto W now dcid p cmap = Some (gput dcid c cmap, if cb_head c = 0 then None else Some (take (cb_head c) S))"
    using assms(4-6) p c(1) s by (simp add: AssembleCrypto_def)
  then show ?thesis using c(2) by (auto simp: gget_gput)
qed

lemma assemble_run_holds:
  assumes "length S \<le> maxBufSize" "dcid \<noteq> []"
  shows "holds S gs b \<Longrightarrow> gget cmap dcid = Some b \<or> gget cmap dcid = None \<and> gs = [] \<and> cb_data b = [] \<Longrightarrow>
    list_all2 (\<lambda>p fs. parseCryptoFrames W p = Some fs \<and> fs \<noteq> [] \<and> list_all (piece_of S) fs) ps fss \<Longrightarrow> ps \<noteq> [] \<Longrightarrow>
    \<exists>cmap' b'. assemble_run W now dcid ps cmap r = Some (cmap', if cb_head b' = 0 then None else Some (take (cb_head b') S)) \<and>
      holds S (concat (map rev (rev fss)) @ gs) b'"
proof (induction ps arbitrary: gs b cmap r fss)
  case (Cons p ps)
  obtain fs fss' where f: "fss = fs # fss'" "parseCryptoFrames W p = Some fs" "fs \<noteq> []" "list_all (piece_of S) fs"
      "list_all2 (\<lambda>p fs. parseCryptoFrames W p = Some fs \<and> fs \<noteq> [] \<and> list_all (piece_of S) fs) ps fss'"
    using Cons.prems(3) by (auto simp: list_all2_Cons1)
  obtain cmap' b' where s: "AssembleCrypto W now dcid p cmap = Some (cmap', if cb_head b' = 0 then None else Some (take (cb_head b') S))"
      "gget cmap' dcid = Some b'" "holds S (rev fs @ gs) b'"
    using assemble_step [OF assms(1) Cons.prems(1,2) assms(2) f(2-4)] by blast
  show ?case
  proof (cases "ps = []")
    case True
    then have "fss' = []" using f(5) by simp
    then show ?thesis using True s(1,3) f(1) by auto
  next
    case False
    show ?thesis using Cons.IH [OF s(3) disjI1 [OF s(2)] f(5) False] s(1) f(1) by simp
  qed
qed simp

lemma covered_rev: "covered (concat (map rev (rev fss))) i \<longleftrightarrow> covered (concat fss) i"
  by (auto simp: covered_def)

text \<open>C7: The hello of a connection is put together from its packets. Whatever the order of the packets and however their CRYPTO frames
  overlap or repeat, if the frames are pieces of one stream of at most 32768 bytes, the assembly never panics and what it returns
  after the last packet is the longest part of the stream from its start of which every byte has arrived: the whole stream when
  all of it has, nothing while the first byte is missing.\<close>
theorem quic_reassembles:
  assumes "length S \<le> maxBufSize" "dcid \<noteq> []" "gget cmap dcid = None" "ps \<noteq> []"
    and "list_all2 (\<lambda>p fs. parseCryptoFrames W p = Some fs \<and> fs \<noteq> [] \<and> list_all (piece_of S) fs) ps fss"
  shows "\<exists>cmap' h. assemble_run W now dcid ps cmap None = Some (cmap', if h = 0 then None else Some (take h S)) \<and> h \<le> length S \<and>
    (\<forall>i < h. covered (concat fss) i) \<and> (h < length S \<longrightarrow> \<not> covered (concat fss) h)"
proof -
  let ?b = "\<lparr>cb_data = [], cb_mask = [], cb_head = 0, cb_lastAccess = 0\<rparr>"
  have "holds S [] ?b" by (simp add: holds_def covered_def)
  then obtain cmap' b where b: "assemble_run W now dcid ps cmap None = Some (cmap', if cb_head b = 0 then None else Some (take (cb_head b) S))"
      "holds S (concat (map rev (rev fss))) b"
    using assemble_run_holds [OF assms(1,2) _ _ assms(5,4), of "[]" ?b cmap now None] assms(3) by auto
  show ?thesis using b(1) holds_head [OF b(2)] holds_snapshot [OF b(2)] by (auto simp: covered_rev)
qed

definition frame_packets :: "bytes list" where
  "frame_packets = [[6, 2, 2, 30, 40, 0, 0], [1, 6, 0, 3, 10, 20, 30]]"

text \<open>The second half of a stream of four bytes arrives first.\<close>
theorem quic_reassembles_witness:
  "map_option snd (assemble_run 64 (\<lambda>k. int k) [7] frame_packets [] None) = Some (Some [10, 20, 30, 40])"
proof -
  let ?fss = "[[(2, [30, 40])], [(0, [10, 20, 30])]] :: cryptoFrame list list"
  have "list_all2 (\<lambda>p fs. parseCryptoFrames 64 p = Some fs \<and> fs \<noteq> [] \<and> list_all (piece_of [10, 20, 30, 40]) fs) frame_packets ?fss"
    by code_simp
  moreover have "length [10, 20, 30, 40 :: byte] \<le> maxBufSize" by (simp add: maxBufSize_def)
  ultimately obtain cmap' h where h: "assemble_run 64 (\<lambda>k. int k) [7] frame_packets [] None = Some (cmap', if h = 0 then None else Some (take h [10, 20, 30, 40]))"
      "h \<le> 4" "h < 4 \<longrightarrow> \<not> covered (concat ?fss) h"
    using quic_reassembles [of "[10, 20, 30, 40]" "[7]" "[]" frame_packets 64 ?fss "\<lambda>k. int k"] by (auto simp: frame_packets_def)
  have "covered (concat ?fss) 0" "covered (concat ?fss) 1" "covered (concat ?fss) 2" "covered (concat ?fss) 3" by (simp_all add: covered_def)
  then have "h = 4" using h(2,3) by (cases "h = 0 \<or> h = 1 \<or> h = 2 \<or> h = 3") auto
  then show ?thesis using h(1) by simp
qed

section \<open>Untrusted packets\<close>

text \<open>What is known of the ciphers: a mask has 16 bytes and an iv 12, and opening does not make a message longer.\<close>
definition ciphers_ok :: "(bytes \<Rightarrow> uint32 \<Rightarrow> (hp_fun \<times> aead_fun \<times> bytes) option) \<Rightarrow> bool" where
  "ciphers_ok derive \<longleftrightarrow> (\<forall>dcid ver hp aead iv. derive dcid ver = Some (hp, aead, iv) \<longrightarrow>
     length iv = 12 \<and> (\<forall>s. length s = 16 \<longrightarrow> length (hp s) = 16) \<and>
     (\<forall>nonce ct aad pl. aead nonce ct aad = Some pl \<longrightarrow> length pl \<le> length ct))"

text \<open>Where the token of a packet is stated to end, as the program computes it, and whether that is negative\<close>
definition token_end :: "nat \<Rightarrow> bytes \<Rightarrow> int option" where
  "token_end W p =
     (case skip_cids p of
        Some (Some off) \<Rightarrow> (case readVar (drop off p) of (tlen, n) \<Rightarrow> if n = 0 then None else Some (goint W (int (off + n) + goint W (int tlen))))
      | _ \<Rightarrow> None)"

definition token_negative :: "nat \<Rightarrow> bytes \<Rightarrow> bool" where
  "token_negative W p \<longleftrightarrow> (\<exists>e. token_end W p = Some e \<and> e < 0)"

lemma skip_cids_total: "\<exists>r. skip_cids p = Some r \<and> (case r of None \<Rightarrow> True | Some i \<Rightarrow> i \<le> length p \<and> 7 \<le> i)"
  by (auto simp: skip_cids_def idx_ok)

text \<open>With 64 bits the end of the token is right, so it is not negative.\<close>
lemma token_end64:
  assumes "length p < 2 ^ 62"
  shows "token_end 64 p = (case skip_cids p of
      Some (Some off) \<Rightarrow> (case readVar (drop off p) of (tlen, n) \<Rightarrow> if n = 0 then None else Some (int (off + n + tlen)))
    | _ \<Rightarrow> None)" "\<not> token_negative 64 p"
proof -
  show e: "token_end 64 p = (case skip_cids p of
      Some (Some off) \<Rightarrow> (case readVar (drop off p) of (tlen, n) \<Rightarrow> if n = 0 then None else Some (int (off + n + tlen)))
    | _ \<Rightarrow> None)"
  proof (cases "skip_cids p")
    case (Some x)
    show ?thesis
    proof (cases x)
      case x: (Some off)
      have off: "off \<le> length p" using skip_cids_total [of p] Some x by auto
      obtain tlen n where t: "readVar (drop off p) = (tlen, n)" by force
      have "n \<le> length (drop off p)" using readVar_bound [OF t] by blast
      then have "off + n \<le> 2 ^ 62" using off assms unfolding length_drop by linarith
      from readVar64(2) [OF t this] show ?thesis unfolding token_end_def Some x option.case t prod.case by simp
    qed (simp add: token_end_def Some)
  qed (simp add: token_end_def)
  show "\<not> token_negative 64 p" unfolding token_negative_def e by (auto split: option.splits if_splits prod.splits)
qed

lemma pn_offset_cases:
  "if token_negative W p then pn_offset W p = None
   else \<exists>r. pn_offset W p = Some r \<and> (case r of None \<Rightarrow> True | Some i \<Rightarrow> i \<le> length p \<and> 0 < i)"
proof -
  obtain r where r: "skip_cids p = Some r" "case r of None \<Rightarrow> True | Some i \<Rightarrow> i \<le> length p \<and> 7 \<le> i"
    using skip_cids_total by blast
  show ?thesis
  proof (cases r)
    case (Some off)
    then have off: "off \<le> length p" "7 \<le> off" using r(2) by simp_all
    obtain tlen n where t: "readVar (drop off p) = (tlen, n)" by force
    define e where "e = goint W (int (off + n) + goint W (int tlen))"
    obtain len m where l: "readVar (drop (nat e) p) = (len, m)" by force
    have neg: "token_negative W p \<longleftrightarrow> n \<noteq> 0 \<and> e < 0"
      unfolding token_negative_def token_end_def r(1) Some option.case t prod.case e_def by simp
    have s: "slice_from p off = Some (drop off p)" using off(1) by (rule slice_from_ok)
    have eq: "pn_offset W p = (if n = 0 \<or> int (length p) < e then Some None
        else slice_at p e \<bind> (\<lambda>r2. let (len, m) = readVar r2 in if m = 0 then Some None else Some (Some (nat e + m))))"
      unfolding pn_offset_def r(1) Some bind.bind_lunit option.case s t prod.case Let_def e_def [symmetric] by (rule refl)
    show ?thesis
    proof (cases "n = 0 \<or> int (length p) < e \<or> e < 0")
      case True
      then show ?thesis unfolding neg eq by (auto simp: slice_at_def)
    next
      case False
      then have sl: "slice_at p e = Some (drop (nat e) p)" "nat e \<le> length p" by (auto simp: slice_at_def slice_from_def)
      have "m \<le> length (drop (nat e) p)" using readVar_bound [OF l] by blast
      then have "nat e + m \<le> length p" using sl(2) by simp
      then show ?thesis using False unfolding neg eq sl(1) bind.bind_lunit l prod.case Let_def by auto
    qed
  qed (simp add: pn_offset_def token_negative_def token_end_def r(1))
qed

lemma unmask_total: "pnOff + n \<le> length packet \<Longrightarrow> n < length msk \<Longrightarrow> \<exists>ps. unmask packet pnOff msk n = Some ps \<and> length ps = n"
proof (induction n)
  case (Suc n)
  then obtain ps where "unmask packet pnOff msk n = Some ps" "length ps = n" by auto
  then show ?case using Suc.prems by (auto simp: idx_ok)
qed simp

lemma xor_tail_total: "at + length ps \<le> length nonce \<Longrightarrow> \<exists>r. xor_tail nonce at ps = Some r"
  by (induction nonce at ps rule: xor_tail.induct) (auto simp: idx_ok upd_ok)

lemma pn_length: "unat ((x AND 0x03 :: byte) + 1) \<le> 4"
proof -
  have "unat (x AND 0x03) \<le> 3" by (rule word_and_le1 [THEN word_le_nat_alt [THEN iffD1], of x 3, simplified])
  then show ?thesis by (simp add: unat_word_ariths)
qed

lemma DecryptInitial_total:
  assumes "ciphers_ok derive" "\<not> token_negative W packet"
  shows "\<exists>r. DecryptInitial W derive dcid packet = Some r \<and> (\<forall>pl. r = Some pl \<longrightarrow> length pl \<le> length packet)"
proof (cases "length packet < 7 \<or> packet ! 0 AND 0x80 = 0")
  case False
  then have "\<exists>v. be32 packet 1 = Some v" by (simp add: be32_ok)
  then obtain ver where b: "be32 packet 1 = Some ver" by blast
  show ?thesis
  proof (cases "derive dcid ver")
    case (Some x)
    obtain hp aead iv where x: "x = (hp, aead, iv)" by (cases x)
    have c: "length iv = 12" "\<And>s. length s = 16 \<Longrightarrow> length (hp s) = 16" "\<And>nonce ct aad pl. aead nonce ct aad = Some pl \<Longrightarrow> length pl \<le> length ct" using assms(1) Some x unfolding ciphers_ok_def by blast+
    obtain r where r: "pn_offset W packet = Some r" "case r of None \<Rightarrow> True | Some i \<Rightarrow> i \<le> length packet \<and> 0 < i"
      using pn_offset_cases [of W packet] assms(2) by auto
    show ?thesis
    proof (cases "\<exists>i. r = Some i \<and> i + 4 + 16 \<le> length packet")
      case True
      then obtain i where i0: "r = Some i" "i + 4 + 16 \<le> length packet" by blast
      then have "0 < i" using r(2) by simp
      note i = i0 this
      define msk where "msk = hp (take 16 (drop (i + 4) packet))"
      have m: "length msk = 16" using c(2) i(2) by (simp add: msk_def)
      define first where "first = packet ! 0 XOR (msk ! 0 AND 0x0f)"
      define n where "n = unat ((first AND 0x03) + 1)"
      have n: "n \<le> 4" unfolding n_def by (rule pn_length)
      obtain ps where ps: "unmask packet i msk n = Some ps" "length ps = n" using unmask_total [of i n packet msk] i(2) n m by fastforce
      obtain q where q: "xor_tail iv (length iv - n) ps = Some q" using xor_tail_total [of "length iv - n" ps iv] n c(1) ps(2) by fastforce
      have s: "gslice packet (i + 4) (i + 4 + 16) = Some (take 16 (drop (i + 4) packet))" "idx msk 0 = Some (msk ! 0)" "idx packet 0 = Some (packet ! 0)"
          "gslice packet 0 i = Some (take i packet)" "upd (take i packet) 0 first = Some ((take i packet)[0 := first])"
          "slice_from packet (i + n) = Some (drop (i + n) packet)"
        using i(2,3) n m by (simp_all add: gslice_def idx_def upd_def slice_from_def del: length_greater_0_conv)
      have g: "\<not> i + 4 + 16 > length packet" "\<not> i + n > length packet" "\<not> length iv < n" using i(2) n c(1) by simp_all
      have "DecryptInitial W derive dcid packet = Some (aead q (drop (i + n) packet) ((take i packet)[0 := first] @ ps))"
        unfolding DecryptInitial_def if_not_P [OF False] b bind.bind_lunit Some option.case x prod.case r(1) i(1) if_not_P [OF g(1)] s(1) Let_def
          msk_def [symmetric] s(2,3) first_def [symmetric] n_def [symmetric] if_not_P [OF g(2)] if_not_P [OF g(3)] ps(1) q s(4,5,6) by (rule refl)
      moreover have "length pl \<le> length packet" if "aead q (drop (i + n) packet) ((take i packet)[0 := first] @ ps) = Some pl" for pl
        using c(3) [OF that] by simp
      ultimately show ?thesis by blast
    next
      case short: False
      have "DecryptInitial W derive dcid packet = Some None"
        unfolding DecryptInitial_def if_not_P [OF False] b bind.bind_lunit Some option.case x prod.case r(1)
        using short by (cases r) simp_all
      then show ?thesis by blast
    qed
  next
    case None
    show ?thesis unfolding DecryptInitial_def if_not_P [OF False] b bind.bind_lunit None option.case by simp
  qed
next
  case True
  show ?thesis unfolding DecryptInitial_def if_P [OF True] by simp
qed

lemma cb_ok_write:
  assumes "cb_ok b"
  shows "\<exists>b'. cbuf_write now off p b = Some b' \<and> cb_ok b'"
proof (cases "off + length p \<le> maxBufSize")
  case True
  obtain d m where w: "cbuf_write now off p b = Some (b\<lparr>cb_data := d, cb_mask := m,
       cb_head := cb_head b + length (takeWhile (\<lambda>x. x = 1) (drop (cb_head b) m)), cb_lastAccess := now\<rparr>)"
      "length d = max (off + length p) (length (cb_data b))" "length m = length d"
    using cbuf_write_ok [OF assms True, of now] by blast
  have "length (takeWhile (\<lambda>x. x = 1) (drop (cb_head b) m)) \<le> length m - cb_head b"
    using length_takeWhile_le [of "\<lambda>x. x = 1" "drop (cb_head b) m"] by simp
  then show ?thesis using w assms True by (auto simp: cb_ok_def)
qed (use assms in \<open>auto simp: cbuf_write_def\<close>)

lemma cb_ok_write_frames: "cb_ok b \<Longrightarrow> \<exists>b' f. write_frames now k fs b = Some (b', f) \<and> cb_ok b'"
proof (induction now k fs b rule: write_frames.induct)
  case (2 now k off p fs b)
  show ?case
  proof (cases "off > 2 ^ 20")
    case False
    obtain c where c: "cbuf_write (now k) off p b = Some c" "cb_ok c" using cb_ok_write [OF 2(3)] by blast
    show ?thesis using 2(2) [OF False c(1) _ c(2)] c False by (cases "cb_head c > 2 ^ 20") auto
  qed (use 2(1,3) in auto)
qed (simp, blast)

definition buffers_ok :: "cryptoMap \<Rightarrow> bool" where
  "buffers_ok cmap \<longleftrightarrow> (\<forall>(k, b) \<in> set cmap. cb_ok b)"

lemma buffers_gput: "buffers_ok m \<Longrightarrow> cb_ok b \<Longrightarrow> buffers_ok (gput k b m)"
  by (induction k b m rule: gput.induct) (auto simp: buffers_ok_def)

lemma buffers_gdel: "buffers_ok m \<Longrightarrow> buffers_ok (gdel k m)"
  by (auto simp: buffers_ok_def gdel_def)

lemma buffers_gget: "buffers_ok m \<Longrightarrow> gget m k = Some b \<Longrightarrow> cb_ok b"
  by (auto simp: buffers_ok_def dest: map_of_SomeD)

lemma AssembleCrypto_keeps:
  assumes "buffers_ok cmap" "parseCryptoFrames W plain = Some fs"
  shows "\<exists>cmap' r. AssembleCrypto W now dcid plain cmap = Some (cmap', r) \<and> buffers_ok cmap'"
proof -
  let ?b = "case gget cmap dcid of Some b \<Rightarrow> b | None \<Rightarrow> \<lparr>cb_data = [], cb_mask = [], cb_head = 0, cb_lastAccess = now 0\<rparr>"
  have "cb_ok ?b" using buffers_gget [OF assms(1)] by (auto simp: cb_ok_def split: option.split)
  then obtain c f where c: "write_frames now 1 fs ?b = Some (c, f)" "cb_ok c" using cb_ok_write_frames by blast
  have s: "\<exists>r. snapshot c = Some r" using c(2) by (auto simp: snapshot_def cb_ok_def gslice_ok)
  show ?thesis using assms c s buffers_gput [OF assms(1) c(2)] buffers_gdel [OF assms(1)] by (cases f) (auto simp: AssembleCrypto_def)
qed

text \<open>Whatever the width, \<open>assembleSafe\<close> leaves sound buffers: a panic happens before any is touched.\<close>
lemma assembleSafe_keeps:
  assumes "buffers_ok cmap"
  shows "\<exists>cmap' r. (case AssembleCrypto W now dcid plain cmap of Some r \<Rightarrow> r | None \<Rightarrow> (cmap, None)) = (cmap', r) \<and> buffers_ok cmap'"
proof (cases "parseCryptoFrames W plain")
  case None
  then show ?thesis using assms by (simp add: AssembleCrypto_def)
next
  case (Some fs)
  then show ?thesis using AssembleCrypto_keeps [OF assms Some, of now dcid] by auto
qed

text \<open>What is known of \<^verbatim>\<open>cryptobyte\<close>: a string is empty if it has no bytes, and a read that succeeds advances over what it read.\<close>
definition cryptobyte_ok :: "cryptobyte \<Rightarrow> bool" where
  "cryptobyte_ok c \<longleftrightarrow> (\<forall>s. cb_Empty c s \<longleftrightarrow> s = []) \<and>
     (\<forall>s x s'. ReadUint8 c s = Some (x, s') \<longrightarrow> length s' < length s) \<and>
     (\<forall>s x s'. ReadUint16 c s = Some (x, s') \<longrightarrow> length s' < length s) \<and>
     (\<forall>s b s'. ReadUint16LengthPrefixed c s = Some (b, s') \<longrightarrow> length s' < length s) \<and>
     (\<forall>s b s'. ReadUint24LengthPrefixed c s = Some (b, s') \<longrightarrow> length s' < length s)"

lemma quic_exts_returns:
  assumes "cryptobyte_ok c"
  shows "\<exists>r. quic_exts c exts = Some r \<and> (\<forall>h. r = Some (Some h) \<longrightarrow> h \<noteq> [])"
proof (induction "length exts" arbitrary: exts rule: less_induct)
  case less
  have ih: "\<exists>r. quic_exts c e2 = Some r \<and> (\<forall>h. r = Some (Some h) \<longrightarrow> h \<noteq> [])"
    if "ReadUint16 c exts = Some (x, e1)" "ReadUint16LengthPrefixed c e1 = Some (d, e2)" for x e1 d e2
  proof (rule less.hyps)
    have "length e1 < length exts" "length e2 < length e1" using assms that unfolding cryptobyte_ok_def by blast+
    then show "length e2 < length exts" by simp
  qed
  show ?case
    by (subst quic_exts.simps) (auto split: option.split intro: ih)
qed

lemma extractSNIFromQUIC_returns:
  assumes "cryptobyte_ok c"
  shows "\<exists>r. extractSNIFromQUIC c s = Some r"
proof (induction "length s" arbitrary: s rule: less_induct)
  case less
  have ih: "\<exists>r. extractSNIFromQUIC c s2 = Some r"
    if "ReadUint8 c s = Some (x, s1)" "ReadUint24LengthPrefixed c s1 = Some (b, s2)" for x s1 b s2
  proof (rule less.hyps)
    have "length s1 < length s" "length s2 < length s1" using assms that unfolding cryptobyte_ok_def by blast+
    then show "length s2 < length s" by simp
  qed
  have e: "\<exists>r. (quic_exts c exts \<bind> (\<lambda>r. case r of Some r \<Rightarrow> Some r | None \<Rightarrow> extractSNIFromQUIC c s2)) = Some r"
    if "ReadUint8 c s = Some (x, s1)" "ReadUint24LengthPrefixed c s1 = Some (b, s2)" for x s1 b s2 exts
    using quic_exts_returns [OF assms, of exts] ih [OF that] by (auto split: option.split)
  show ?case
    by (subst extractSNIFromQUIC.simps) (auto split: option.split intro: ih e)
qed


definition plain_cipher :: "bytes \<Rightarrow> uint32 \<Rightarrow> (hp_fun \<times> aead_fun \<times> bytes) option" where
  "plain_cipher dcid ver = Some (\<lambda>s. mk 16, \<lambda>nonce ct aad. Some ct, mk 12)"

lemma plain_cipher_ok: "ciphers_ok plain_cipher"
  by (auto simp: ciphers_ok_def plain_cipher_def)

definition length_prefixed :: "nat \<Rightarrow> bytes \<Rightarrow> (bytes \<times> bytes) option" where
  "length_prefixed k s =
     (let n = foldl (\<lambda>v x. v * 256 + unat x) 0 (take k s)
      in if length s < k + n then None else Some (take n (drop k s), drop (k + n) s))"

definition plain_reader :: cryptobyte where
  "plain_reader = \<lparr>cb_Empty = (\<lambda>s. s = []), Skip = (\<lambda>s n. if length s < n then None else Some (drop n s)),
     ReadUint8 = (\<lambda>s. case s of [] \<Rightarrow> None | x # s \<Rightarrow> Some (x, s)),
     ReadUint16 = (\<lambda>s. case s of x # y # s \<Rightarrow> Some (u16 x y, s) | _ \<Rightarrow> None),
     ReadUint8LengthPrefixed = length_prefixed 1, ReadUint16LengthPrefixed = length_prefixed 2, ReadUint24LengthPrefixed = length_prefixed 3\<rparr>"

lemma plain_reader_ok: "cryptobyte_ok plain_reader"
  by (auto simp: cryptobyte_ok_def plain_reader_def length_prefixed_def Let_def split: list.splits if_splits)

definition bad_token :: bytes where
  "bad_token = [0xC0, 0, 0, 0, 1, 0, 0, 0x3F]"

text \<open>A token of stated length \<open>2 ^ 31\<close>\<close>
definition long_token :: bytes where
  "long_token = [0xC0, 0, 0, 0, 1, 0, 0, 0xC0, 0, 0, 0, 0x80, 0, 0, 0]"

lemma long_token_facts:
  "IsInitial long_token = Some True" "token_end 64 long_token = Some 2147483663" "token_end 32 long_token = Some (- 2147483633)"
proof -
  have s: "skip_cids long_token = Some (Some 7)" by (simp add: skip_cids_def long_token_def idx_def)
  have r: "readVar (drop 7 long_token) = (2147483648, 8)" by (simp add: readVar_def long_token_def Let_def)
  show "token_end 64 long_token = Some 2147483663" "token_end 32 long_token = Some (- 2147483633)"
    unfolding token_end_def s option.case r prod.case by (simp_all add: goint_def)
  show "IsInitial long_token = Some True" by code_simp
qed


section \<open>The place of the name\<close>

definition within :: "nat \<Rightarrow> (nat \<times> nat) option \<Rightarrow> bool" where
  "within n r = (case r of None \<Rightarrow> True | Some (o', l) \<Rightarrow> o' + l \<le> n)"

lemma ch_exts_total: "e \<le> length ch \<Longrightarrow> \<exists>r. ch_exts ch e pos = Some r \<and> within (length ch) r"
proof (induction ch e pos rule: ch_exts.induct)
  case (1 ch e pos)
  show ?case
  proof (cases "pos + 4 \<le> e")
    case True
    then have b: "be16 ch pos = Some (u16 (ch ! pos) (ch ! Suc pos))" "be16 ch (pos + 2) = Some (u16 (ch ! (pos + 2)) (ch ! Suc (pos + 2)))"
      using 1(2) by (simp_all add: be16_ok)
    let ?l = "unat (u16 (ch ! (pos + 2)) (ch ! Suc (pos + 2)))"
    have ih: "\<exists>r. ch_exts ch e (pos + 4 + ?l) = Some r \<and> within (length ch) r"
      if "\<not> pos + 4 + ?l > e" "u16 (ch ! pos) (ch ! Suc pos) \<noteq> 0"
      using 1(1) [OF True b refl that 1(2)] .
    have c: "be16 ch (pos + 4 + 3) = Some (u16 (ch ! (pos + 4 + 3)) (ch ! Suc (pos + 4 + 3)))" if "pos + 4 + ?l \<le> e" "\<not> ?l < 5"
      using that 1(2) by (intro be16_ok) linarith
    show ?thesis
      unfolding ch_exts.simps [of ch e pos] if_P [OF True] b bind.bind_lunit Let_def
      using ih c 1(2) by (auto simp: within_def)
  qed (simp add: ch_exts.simps [of ch e pos] within_def)
qed

lemma locateSNIInClientHello_total: "returns (locateSNIInClientHello ch) (within (length ch))"
proof -
  have e: "returns (ch_exts ch (min k (length ch)) pos) (within (length ch))" for k pos
    unfolding returns_def by (rule ch_exts_total) simp
  show ?thesis
    unfolding locateSNIInClientHello_def
    by (intro go_wp e) (auto simp: within_def)
qed

lemma within_shift: "within n r \<Longrightarrow> r = Some (o', l) \<Longrightarrow> n + s \<le> m \<Longrightarrow> within m (Some (s + o', l))"
  by (auto simp: within_def)

lemma locate_loop_total: "length plain \<le> 2 ^ 62 \<Longrightarrow> returns (locate_loop 64 plain pos) (within (length plain))"
proof (induction "length plain - pos" arbitrary: pos rule: less_induct)
  case less
  show ?case
  proof (cases "pos < length plain")
    case True
    then have t: "idx plain pos = Some (plain ! pos)" "slice_from plain (pos + 1) = Some (drop (pos + 1) plain)" by (auto simp: idx_ok slice_from_ok)
    obtain off n where a: "readVar (drop (pos + 1) plain) = (off, n)" by force
    have n: "n \<le> length plain - (pos + 1)" using readVar_bound [OF a] by simp
    then have s: "slice_from plain (pos + 1 + n) = Some (drop (pos + 1 + n) plain)" using True by (intro slice_from_ok) linarith
    obtain ln n2 where c: "readVar (drop (pos + 1 + n) plain) = (ln, n2)" by force
    have "n2 \<le> length (drop (pos + 1 + n) plain)" using readVar_bound [OF c] by blast
    then have "pos + 1 + n + n2 \<le> 2 ^ 62" using n True less.prems unfolding length_drop by linarith
    note g64 = readVar64 [OF c this]
    let ?st = "pos + 1 + n + n2"
    let ?d = "take ln (drop ?st plain)"
    have g: "gslice_at plain ?st (int (?st + ln)) = Some ?d" if "?st + ln \<le> length plain"
      using that by (simp add: gslice_at_def gslice_ok del: of_nat_add of_nat_Suc)
    obtain f where f: "locateSNIInClientHello ?d = Some f" "within (length ?d) f"
      using locateSNIInClientHello_total [of ?d] by (auto simp: returns_def)
    have ih: "returns (locate_loop 64 plain q) (within (length plain))" if "pos < q" for q by (rule less.hyps) (use less.prems True that in auto)
    have w: "within (length plain) (Some (?st + o', l))" if "f = Some (o', l)" "?st + ln \<le> length plain" for o' l
      using f(2) that by (auto simp: within_def)
    have r: "returns (case f of Some (o', l) \<Rightarrow> if off = 0 then Some (Some (?st + o', l)) else locate_loop 64 plain (?st + ln)
        | None \<Rightarrow> locate_loop 64 plain (?st + ln)) (within (length plain))" if "?st + ln \<le> length plain"
      using w that by (intro go_wp ih) auto
    have "returns (if int (?st + ln) > int (length plain) then Some None else do {
        cryptoData \<leftarrow> gslice_at plain ?st (int (?st + ln));
        f \<leftarrow> locateSNIInClientHello cryptoData;
        case f of Some (o', l) \<Rightarrow> if off = 0 then Some (Some (?st + o', l)) else locate_loop 64 plain (?st + ln)
        | None \<Rightarrow> locate_loop 64 plain (?st + ln) }) (within (length plain))"
    proof (cases "?st + ln \<le> length plain")
      case inside: True
      then have "\<not> int (?st + ln) > int (length plain)" by simp
      then show ?thesis using r [OF inside] by (simp only: if_False g [OF inside] bind.bind_lunit f(1))
    qed (simp add: returns_def within_def)
    then show ?thesis
      unfolding locate_loop.simps [of 64 plain pos] if_P [OF True] t bind.bind_lunit a s c prod.case Let_def g64 nat_int
      by (intro returns_if ih) (simp_all add: returns_def within_def)
  qed (simp add: locate_loop.simps [of 64 plain pos] within_def returns_def)
qed

definition masks_ok :: "(bytes \<Rightarrow> uint32 \<Rightarrow> hp_fun option) \<Rightarrow> bool" where
  "masks_ok deriveHP \<longleftrightarrow> (\<forall>dcid ver hp. deriveHP dcid ver = Some hp \<longrightarrow> (\<forall>s. length s = 16 \<longrightarrow> length (hp s) = 16))"

text \<open>The stated end of the token, computed in the width of \<open>int\<close>, is not a position of the packet.\<close>
definition token_overrun :: "nat \<Rightarrow> bytes \<Rightarrow> bool" where
  "token_overrun W p \<longleftrightarrow> (\<exists>e. token_end W p = Some e \<and> (e < 0 \<or> int (length p) < e))"

lemma parseHeaderLength_panics:
  assumes "masks_ok deriveHP" "7 \<le> length p"
  shows "parseHeaderLength W deriveHP p = None \<longleftrightarrow> token_overrun W p"
proof -
  let ?d = "unat (p ! 5)" and ?s = "unat (p ! (6 + unat (p ! 5)))"
  let ?off = "6 + ?d + 1 + ?s"
  have i: "idx p 5 = Some (p ! 5)" "\<not> length p < 7" using assms(2) by (simp_all add: idx_ok)
  show ?thesis
  proof (cases "6 + ?d + 1 \<le> length p \<and> ?off \<le> length p")
    case True
    then have g: "\<not> length p < 6 + ?d" "\<not> length p < 6 + ?d + 1" "\<not> length p < ?off"
        "gslice p 6 (6 + ?d) = Some (take ?d (drop 6 p))" "idx p (6 + ?d) = Some (p ! (6 + ?d))" "slice_from p ?off = Some (drop ?off p)"
      by (simp_all add: gslice_ok idx_ok slice_from_ok)
    have sk: "skip_cids p = Some (Some ?off)" using True i by (simp add: skip_cids_def idx_ok)
    obtain tlen n where t: "readVar (drop ?off p) = (tlen, n)" by force
    note u = parseHeaderLength_def if_not_P [OF i(2)] i(1) bind.bind_lunit Let_def if_not_P [OF g(1)] if_not_P [OF g(2)] if_not_P [OF g(3)] g(4-6) t prod.case
    define fin where "fin = goint W (int (?off + n) + goint W (int tlen))"
    have o: "token_overrun W p \<longleftrightarrow> n \<noteq> 0 \<and> (fin < 0 \<or> int (length p) < fin)"
      unfolding token_overrun_def token_end_def sk option.case t prod.case fin_def by simp
    show ?thesis
    proof (cases "n = 0 \<or> fin < 0 \<or> int (length p) < fin")
      case True
      then show ?thesis unfolding o u fin_def [symmetric] by (auto simp: slice_at_def slice_from_def)
    next
      case False
      then have s2: "slice_at p fin = Some (drop (nat fin) p)" by (simp add: slice_at_def slice_from_def nat_le_iff)
      obtain len m where l: "readVar (drop (nat fin) p) = (len, m)" by force
      obtain ver where ver: "be32 p 1 = Some ver" using be32_ok [of 1 p] assms(2) by auto
      let ?pn = "nat fin + m"
      have h: "\<exists>r. (case deriveHP (take ?d (drop 6 p)) ver of None \<Rightarrow> Some (Some (?pn, 2))
          | Some hp \<Rightarrow> do {
              sample \<leftarrow> gslice p (?pn + 4) (?pn + 4 + 16);
              m0 \<leftarrow> idx (hp sample) 0;
              p0 \<leftarrow> idx p 0;
              Some (Some (?pn, unat (((p0 XOR (m0 AND 0x0f)) AND 0x03) + 1))) }) = Some r" if "\<not> ?pn + 4 + 16 > length p"
      proof (cases "deriveHP (take ?d (drop 6 p)) ver")
        case (Some hp)
        have "length (hp (take 16 (drop (?pn + 4) p))) = 16" using assms(1) Some that by (simp add: masks_ok_def)
        then have "idx (hp (take 16 (drop (?pn + 4) p))) 0 = Some (hp (take 16 (drop (?pn + 4) p)) ! 0)" "idx p 0 = Some (p ! 0)"
            "gslice p (?pn + 4) (?pn + 4 + 16) = Some (take 16 (drop (?pn + 4) p))"
          using assms(2) that by (auto simp: idx_def gslice_def)
        then show ?thesis unfolding Some option.case by simp
      qed simp
      have "parseHeaderLength W deriveHP p \<noteq> None"
        unfolding u fin_def [symmetric] s2 l ver using False h by simp
      then show ?thesis using False o by simp
    qed
  next
    case False
    then have "skip_cids p = Some None" using i by (auto simp: skip_cids_def idx_def)
    moreover have "parseHeaderLength W deriveHP p = Some None"
      using False i by (auto simp: parseHeaderLength_def idx_def gslice_def Let_def)
    ultimately show ?thesis by (simp add: token_overrun_def token_end_def)
  qed
qed

lemma overrun_not_decrypted: "token_overrun W p \<Longrightarrow> \<not> token_negative W p \<Longrightarrow> pn_offset W p = Some None"
  by (auto simp: token_overrun_def token_negative_def token_end_def pn_offset_def slice_from_def skip_cids_def idx_def Let_def
      split: option.splits if_splits prod.splits)

text \<open>C13: Looking for the place to split a QUIC packet is not safe. For either width of \<open>int\<close>, \<open>LocateSNIOffset\<close> panics for every Initial
  packet whose token, by its stated length, does not end inside the packet: it slices behind the token without the check that
  \<open>DecryptInitial\<close> makes. With 64 bits these are the packets whose token is longer than the rest of the packet, \<open>DecryptInitial\<close> just
  fails on them, and \<open>LocateSNIOffset\<close> panics for no other packet. The panic is in the goroutine that re-sends the packet.\<close>
theorem LocateSNIOffset_panics:
  assumes "ciphers_ok derive" "masks_ok deriveHP" "length p < 2 ^ 62"
  shows "(IsInitial p = Some True \<and> token_overrun W p \<longrightarrow> LocateSNIOffset W deriveHP derive p = None) \<and>
    (LocateSNIOffset 64 deriveHP derive p = None \<longleftrightarrow> IsInitial p = Some True \<and> token_overrun 64 p) \<and>
    (token_overrun 64 p \<longleftrightarrow> (\<exists>off tlen n. skip_cids p = Some (Some off) \<and> readVar (drop off p) = (tlen, n) \<and> n \<noteq> 0 \<and> length p < off + n + tlen)) \<and>
    (token_overrun 64 p \<longrightarrow> DecryptInitial 64 derive dcid p = Some None)"
proof -
  obtain i where i: "IsInitial p = Some i" using classifiers_total(4) by blast
  have l: "7 \<le> length p" if i by (rule ccontr) (use that i in \<open>simp add: IsInitial_def\<close>)
  have d: "\<exists>d. ParseDCID p = Some d" by (auto simp: ParseDCID_def idx_ok gslice_ok)
  have f: "locateSNIInCrypto 64 plain \<noteq> None" if "length plain \<le> 2 ^ 62" for plain
    using locate_loop_total [OF that, of 0] by (auto simp: locateSNIInCrypto_def returns_def)
  note neg = token_end64(2) [OF assms(3)]
  have t: "DecryptInitial 64 derive x p \<noteq> None" "DecryptInitial 64 derive x p = Some (Some pl) \<Longrightarrow> length pl \<le> 2 ^ 62" for x pl
    using DecryptInitial_total [OF assms(1) neg, of x] assms(3) by auto
  have h: "parseHeaderLength V deriveHP p = None \<longleftrightarrow> token_overrun V p" if i for V
    using parseHeaderLength_panics [OF assms(2) l [OF that]] .
  have "LocateSNIOffset W deriveHP derive p = None" if "i" "token_overrun W p"
    using h [of W] that by (simp add: LocateSNIOffset_def i)
  moreover have "LocateSNIOffset 64 deriveHP derive p = None \<longleftrightarrow> i \<and> parseHeaderLength 64 deriveHP p = None"
    using d f [OF t(2)] t(1) unfolding LocateSNIOffset_def i by (auto simp del: not_None_eq simp: bind_None_iff split: option.splits)
  moreover have "token_overrun 64 p \<longleftrightarrow> (\<exists>off tlen n. skip_cids p = Some (Some off) \<and> readVar (drop off p) = (tlen, n) \<and> n \<noteq> 0 \<and> length p < off + n + tlen)"
    unfolding token_overrun_def token_end64(1) [OF assms(3)] by (auto split: option.splits prod.splits)
  moreover have "DecryptInitial 64 derive dcid p = Some None" if "token_overrun 64 p"
    using overrun_not_decrypted [OF that neg] be32_ok [of 1 p]
    by (cases "length p < 7 \<or> p ! 0 AND 0x80 = 0") (auto simp: DecryptInitial_def split: option.split)
  ultimately show ?thesis using i h by auto
qed

text \<open>Eight bytes are enough.\<close>
theorem LocateSNIOffset_panics_witness:
  "LooksLikeQUIC bad_token = Some True \<and> LocateSNIOffset 64 (\<lambda>d v. None) plain_cipher bad_token = None \<and>
   LocateSNIOffset 32 (\<lambda>d v. None) plain_cipher long_token = None"
proof -
  have s: "skip_cids bad_token = Some (Some 7)" by (simp add: skip_cids_def bad_token_def idx_def)
  have r: "readVar (drop 7 bad_token) = (63, 1)" by (simp add: readVar_def bad_token_def Let_def)
  have i: "IsInitial bad_token = Some True" "LooksLikeQUIC bad_token = Some True" by code_simp+
  have l: "length bad_token < 2 ^ 62" "length long_token < 2 ^ 62" by (simp_all add: bad_token_def long_token_def)
  have m: "masks_ok (\<lambda>d v. None)" by (simp add: masks_ok_def)
  have o: "token_overrun 32 long_token" by (simp add: token_overrun_def long_token_facts)
  have "LocateSNIOffset 64 (\<lambda>d v. None) plain_cipher bad_token = None"
    using LocateSNIOffset_panics [OF plain_cipher_ok m l(1)] s r i(1) by (simp add: bad_token_def)
  moreover have "LocateSNIOffset 32 (\<lambda>d v. None) plain_cipher long_token = None"
    using LocateSNIOffset_panics [OF plain_cipher_ok m l(2), of 32] o long_token_facts(1) by simp
  ultimately show ?thesis using i(2) by simp
qed

end
