(* ===== verification/Spec2Isabelle.thy ===== *)
theory Spec2Isabelle
  imports B4_Prelude Checksum TcpOptions Fragment FakePacket ClientHello TlsGen Dns GoMap ConfigTypes ConnState Settings NetIP Matcher Worker Classify DnsPath Strategies DesyncFakes Mutation Inject Handler Pool WorkerRun Quic
begin

text \<open>
  Verification of the packet path of b4 (\<^verbatim>\<open>src/src\<close>): a program that takes packets of a Linux host or router from a netfilter queue,
  decides by address, port, TLS server name or DNS name which configured set they belong to, and accepts, drops, rewrites or re-sends
  them in pieces, surrounded by packets that mislead an inspecting middle box but that the server ignores.

  \<^bold>\<open>Parts and theories.\<close>

  \<^item> \<open>B4_Prelude\<close>, \<open>GoMap\<close>, \<open>NetIP\<close>: Go slices (\<open>idx\<close>, \<open>gslice\<close>, \<open>upd\<close>, \<open>put16\<close>, \<dots>; None is a run-time panic), Go maps as association
    lists (a map may be enumerated in any order), and what the program uses of package \<^verbatim>\<open>net\<close> (\<open>ParseIP\<close>, \<open>ParseCIDR\<close>, \<open>IP.String\<close>).
  \<^item> \<open>Checksum\<close>, \<open>TcpOptions\<close>, \<open>Fragment\<close>, \<open>FakePacket\<close>: \<^verbatim>\<open>sock/\<close>. Checksum routines of IPv4, TCP and UDP in both families; removal of
    SACK, the MD5 and timestamp options; IP fragmentation and UDP packets; fake, filler and ICMP packets.
  \<^item> \<open>ClientHello\<close>, \<open>TlsGen\<close>, \<open>Dns\<close>, \<open>Classify\<close>: \<^verbatim>\<open>sni/tls.go\<close>, \<^verbatim>\<open>tlsgen/\<close>, \<^verbatim>\<open>dns/\<close>, \<^verbatim>\<open>stun/\<close>, \<^verbatim>\<open>discord/\<close>, \<^verbatim>\<open>quic/initial.go\<close>,
    \<^verbatim>\<open>utils/filter.go\<close>. Parsers of untrusted bytes and the generators that are their inverse.
  \<^item> \<open>ConfigTypes\<close>, \<open>Settings\<close>: \<^verbatim>\<open>config/types.go\<close>, \<^verbatim>\<open>config/methods.go\<close>, \<^verbatim>\<open>utils/port.go\<close>. A configured set is a record with the fields of
    the Go struct; port filters, the table of intercepted ports, escalation chains.
  \<^item> \<open>ConnState\<close>: \<^verbatim>\<open>nfq/connstate.go\<close>. The trackers of connections, destinations and TLS names with their limits, as step relation
    \<open>rt_step\<close>, one step per method.
  \<^item> \<open>Matcher\<close>: \<^verbatim>\<open>sni/match.go\<close>. The tables of names, regular expressions, networks and ports and the caches in front of them, with the
    step relation \<open>sx_step\<close>. The libraries \<^verbatim>\<open>regexp\<close> and \<^verbatim>\<open>cidranger\<close> are the parameters \<open>rx\<close> and \<open>cn\<close>.
  \<^item> \<open>Worker\<close>, \<open>DnsPath\<close>, \<open>Handler\<close>: \<^verbatim>\<open>nfq/inc.go\<close>, \<^verbatim>\<open>nfq/rst_client.go\<close>, \<^verbatim>\<open>nfq/dns.go\<close>, \<^verbatim>\<open>nfq/dns_routing.go\<close>, \<^verbatim>\<open>nfq/handler.go\<close>,
    \<^verbatim>\<open>nfq/iface.go\<close>, \<^verbatim>\<open>nfq/verdict.go\<close>. The state of a worker (\<open>worker\<close>: matcher, trackers, remembered DNS queries) and the handlers as
    functions from state to state and a list of effects (\<open>effect\<close>: verdicts, packets sent, routes registered, goroutines started).
    The record \<open>env\<close> holds what a handler reads from outside: clock readings, random numbers, device names, library functions.
  \<^item> \<open>Segments\<close>, \<open>Strategies\<close>, \<open>DesyncFakes\<close>, \<open>Mutation\<close>, \<open>Inject\<close>: the goroutine that re-sends an intercepted packet (\<^verbatim>\<open>nfq/nfq.go\<close>,
    \<^verbatim>\<open>nfq/nfq_ipv6.go\<close> and the files of the strategies, fakes and mutations). Code that exists twice, for IPv4 and IPv6, is modelled
    once over a record of the functions that differ and instantiated for both families.
  \<^item> \<open>Quic\<close>: \<^verbatim>\<open>quic/\<close> and \<^verbatim>\<open>sni/quic.go\<close>. QUIC Initial packets: header, decryption around the ciphers, assembly of CRYPTO frames in a
    buffer per connection, and the search for the server name. The handlers take the resulting functions as arguments.
  \<^item> \<open>Pool\<close>, \<open>WorkerRun\<close>: \<^verbatim>\<open>nfq/pool.go\<close>, and the states that a pool of workers can reach by any sequence of packets, reloads of the
    configuration, ticks of the cleaner and requests of the web interface (\<open>pool_reachable\<close>).

  \<^bold>\<open>What is shown.\<close>

  \<^item> The packet path as a whole: a regular packet of the queue gets exactly one verdict and no handler panics, unless the worker was told
    to stop; whatever packets arrive, in any order, between reloads and with other workers on the shared state, the tables with
    eviction keep their limits and all tables their invariants (by refinement of the handlers to \<open>rt_step\<close> and \<open>sx_step\<close>) -- the tables of
    connection attempts and of blocked destinations and the cache of regular expressions can exceed theirs --; and a name is
    matched by the configuration that was pushed last, provided it was not changed in place. The goroutine of an
    intercepted packet sends rejected fakes around packets that deliver exactly the payload of the client, for the configurations
    without mutation, window fakes, fake hellos, out-of-band bytes, overlaps and decoys and payloads of other than one and five bytes.
  \<^item> The pieces of it: the segments of the splitting strategies but \<open>ip\<close> and \<open>oob\<close> are valid packets of the flow that reassemble to the
    payload; fragments reassemble; the fakes around a connection have a reduced TTL and the inverse of the right checksum; checksum
    routines change one field, verify and are idempotent; option rewriting keeps the other options and the payload.
  \<^item> The decisions: the caches of the matcher do not change its answers, the longest domain and the most specific network win, a
    learned address is found for its time; the port table holds the ports of the filters; escalation chains have no cycle and at
    most eight hops; a RST is dropped for exactly the listed reasons.
  \<^item> Bytes: parsers return on every input without an access out of range, and read back what the generators write. A hello split
    over QUIC packets is put together in any order. One parser is not safe: \<open>LocateSNIOffset\<close> panics for the packets with
    a token that does not end inside the packet, and on 32-bit machines the reader of the server name panics when the length wraps.

  The interfaces are locales with interpretations on the model: a checksum routine and its receiver (\<open>Checksum\<close>), a bounded table
  (\<open>ConnState\<close>), a cache in front of a function (\<open>Matcher\<close>), an address family that builds segments (\<open>Strategies\<close>) and fakes
  (\<open>DesyncFakes\<close>).

  \<^bold>\<open>Bounds and fuel.\<close> Integers that Go keeps in 8, 16 or 32 bits are words; in \<open>Quic\<close>, where lengths of up to 62 bits come from the packet, the
  width of \<open>int\<close> is an argument, since the program is built for 32 and 64 bits; elsewhere lengths and configuration values of type \<open>int\<close> are nat or
  int, and products of durations wrap at 64 bits (\<open>duration\<close>). Loops are structural or have a termination proof; the only counted
  loops are those that the code itself bounds, such as the 256 labels of a DNS name. The two loops of \<open>extractSNIFromQUIC\<close>, whose end
  depends on the readers of \<^verbatim>\<open>cryptobyte\<close>, are partial functions that are proved to return.

  \<^bold>\<open>Hypotheses.\<close> The theorem on the verdict speaks of \<open>regular_packet\<close>s: the header length is at least 20 and the total length is that of
  the packet, as the IP layer of the kernel checks, the TCP data offset is at least 5, and IPv6 packets have no extension headers. The
  kernel delivers other packets too; for those several routines read at fixed offsets, and a SYN with a smaller data offset makes a
  handler panic. \<open>cn_by_address\<close> states that \<^verbatim>\<open>cidranger\<close> does not tell the 4-byte and the 16-byte form of an address apart; \<open>resolver_ok\<close>
  that devices have IPv4 addresses; \<open>ciphers_ok\<close>, \<open>masks_ok\<close> and \<open>cryptobyte_ok\<close> the lengths the crypto packages document and that a
  successful read advances.

  \<^bold>\<open>Not modelled.\<close> Sockets, netlink, goroutine scheduling and timers (a send is an effect, a method of a tracker one atomic step);
  logging, metrics and payload capture; the ciphers and the key derivation of QUIC and the reader of \<^verbatim>\<open>cryptobyte\<close>, which are parameters;
  loading and saving of the configuration; the services beside the packet path (web interface, discovery, proxies, firewall rules,
  probes), which are processes, HTTP and measurements.
\<close>

end
